(* ===== verification/Prelude.thy ===== *)
theory Prelude
  imports Main "HOL-Library.Word"
begin

text \<open>
  Shared vocabulary of the development: bytes, the faults a kernel routine can run into, the
  result type with its sequencing operator, error numbers, fixed-width truncation on \<open>nat\<close>,
  and the little-endian encoding of integers that every on-disk structure uses.

  A routine returns \<open>fault + 'a\<close>. \<open>Inl\<close> stands for an execution that does not return to its
  caller: \<open>BUG()\<close>, a NULL dereference, an access outside a buffer, a division by zero or a
  loop that never ends. Error codes that are returned (\<open>-EIO\<close>, \<open>-ENOSPC\<close>) are ordinary values.
\<close>

named_theorems res_simps \<open>rewriting of sequenced results\<close>
named_theorems frame_simps \<open>what an operation leaves unchanged\<close>

type_synonym byte = "8 word"

datatype fault = Bug | NullDeref | OutOfBounds | DivideError | Diverge

type_synonym 'a res = "fault + 'a"

datatype errno = EPERM | ENOENT | EIO | EAGAIN | ENOMEM | EEXIST | EINVAL | ENOSPC
  | ENAMETOOLONG | ENOTEMPTY | ESTALE

section \<open>Results\<close>

fun bindE :: "'a res \<Rightarrow> ('a \<Rightarrow> 'b res) \<Rightarrow> 'b res" where
  "bindE (Inl e) f = Inl e"
| "bindE (Inr x) f = f x"

definition bug_on :: "bool \<Rightarrow> unit res" where
  "bug_on c = (if c then Inl Bug else Inr ())"

definition deref :: "'a option \<Rightarrow> 'a res" where
  "deref p = (case p of None \<Rightarrow> Inl NullDeref | Some x \<Rightarrow> Inr x)"

lemma bindE_Inr_iff [res_simps]:
  "bindE m f = Inr y \<longleftrightarrow> (\<exists>x. m = Inr x \<and> f x = Inr y)"
  by (cases m) auto

lemma bindE_Inl_iff:
  "bindE m f = Inl e \<longleftrightarrow> m = Inl e \<or> (\<exists>x. m = Inr x \<and> f x = Inl e)"
  by (cases m) auto

lemma bindE_assoc [simp]: "bindE (bindE m f) g = bindE m (\<lambda>x. bindE (f x) g)"
  by (cases m) auto

lemma bindE_cong [fundef_cong]:
  "m = m' \<Longrightarrow> (\<And>x. m' = Inr x \<Longrightarrow> f x = f' x) \<Longrightarrow> bindE m f = bindE m' f'"
  by (cases m') auto

lemma bug_on_simps [simp]: "bug_on False = Inr ()" "bug_on True = Inl Bug"
  by (simp_all add: bug_on_def)

lemma bug_on_Inr [res_simps]: "bug_on c = Inr x \<longleftrightarrow> \<not> c"
  by (simp add: bug_on_def)

lemma deref_simps [simp]: "deref None = Inl NullDeref" "deref (Some x) = Inr x"
  by (simp_all add: deref_def)

lemma deref_Inr [res_simps]: "deref p = Inr x \<longleftrightarrow> p = Some x"
  by (cases p) auto

section \<open>Fixed-width truncation\<close>

text \<open>Unsigned C integers are \<open>nat\<close> values with the truncation to their width written out.\<close>

definition u16 :: "nat \<Rightarrow> nat" where "u16 n = n mod 2 ^ 16"
definition u32 :: "nat \<Rightarrow> nat" where "u32 n = n mod 2 ^ 32"
definition u64 :: "nat \<Rightarrow> nat" where "u64 n = n mod 2 ^ 64"

text \<open>Left shifts evaluated in \<open>unsigned int\<close> and in \<open>unsigned long\<close>.\<close>

definition shl32 :: "nat \<Rightarrow> nat \<Rightarrow> nat" where "shl32 a n = u32 (a * 2 ^ n)"
definition shl64 :: "nat \<Rightarrow> nat \<Rightarrow> nat" where "shl64 a n = u64 (a * 2 ^ n)"

text \<open>Conversion to \<open>ssize_t\<close>, and signed 64-bit arithmetic, which wraps in the kernel.\<close>

definition to_ssize :: "int \<Rightarrow> int" where
  "to_ssize x = (x + 2 ^ 63) mod 2 ^ 64 - 2 ^ 63"

lemma to_ssize_id: "0 \<le> x \<Longrightarrow> x < 2 ^ 63 \<Longrightarrow> to_ssize x = x"
  by (simp add: to_ssize_def)

lemma u16_bound [simp]: "u16 n < 2 ^ 16"
  by (simp add: u16_def)

lemma u32_bound [simp]: "u32 n < 2 ^ 32"
  by (simp add: u32_def)

lemma u64_bound [simp]: "u64 n < 2 ^ 64"
  by (simp add: u64_def)

lemma u16_id: "n < 2 ^ 16 \<Longrightarrow> u16 n = n"
  by (simp add: u16_def)

lemma u32_id: "n < 2 ^ 32 \<Longrightarrow> u32 n = n"
  by (simp add: u32_def)

lemma u64_id: "n < 2 ^ 64 \<Longrightarrow> u64 n = n"
  by (simp add: u64_def)

section \<open>Little-endian encoding\<close>

fun le_bytes :: "nat \<Rightarrow> nat \<Rightarrow> byte list" where
  "le_bytes 0 v = []"
| "le_bytes (Suc n) v = of_nat v # le_bytes n (v div 256)"

fun le_num :: "byte list \<Rightarrow> nat" where
  "le_num [] = 0"
| "le_num (b # bs) = unat b + 256 * le_num bs"

lemma length_le_bytes [simp]: "length (le_bytes n v) = n"
  by (induction n arbitrary: v) auto

lemma le_bytes_Nil_iff [simp]: "le_bytes n v = [] \<longleftrightarrow> n = 0"
  by (cases n) auto

lemma le_num_le_bytes [simp]: "le_num (le_bytes n v) = v mod 256 ^ n"
proof (induction n arbitrary: v)
  case 0
  then show ?case by simp
next
  case (Suc n)
  have "v mod (256 * 256 ^ n) = 256 * (v div 256 mod 256 ^ n) + v mod 256"
    by (rule mod_mult2_eq)
  with Suc show ?case by (simp add: unat_of_nat)
qed

lemma le_num_bound: "le_num bs < 256 ^ length bs"
proof (induction bs)
  case Nil
  then show ?case by simp
next
  case (Cons b bs)
  have "unat b < 256" using unsigned_less [of b] by simp
  with Cons show ?case by simp
qed

lemma le_bytes_le_num [simp]: "le_bytes (length bs) (le_num bs) = bs"
proof (induction bs)
  case Nil
  then show ?case by simp
next
  case (Cons b bs)
  have b: "unat b < 256" using unsigned_less [of b] by simp
  then have "(unat b + 256 * le_num bs) div 256 = le_num bs" by simp
  moreover have "(of_nat (unat b + 256 * le_num bs) :: byte) = b"
    using b by (simp add: word_unat_eq_iff unat_of_nat del: of_nat_add of_nat_mult)
  ultimately show ?case using Cons by simp
qed

lemma le_bytes_num: "length bs = n \<Longrightarrow> le_bytes n (le_num bs) = bs"
  using le_bytes_le_num by blast

lemma le_bytes_inj: "v < 256 ^ n \<Longrightarrow> w < 256 ^ n \<Longrightarrow> le_bytes n v = le_bytes n w \<Longrightarrow> v = w"
  by (metis le_num_le_bytes mod_less)

lemma le_num_zeros [simp]: "le_num (replicate n 0) = 0"
  by (induction n) auto

section \<open>Division and blocks\<close>

lemma div_eq_iff_block: "0 < (k::nat) \<Longrightarrow> a div k = q \<longleftrightarrow> q * k \<le> a \<and> a < Suc q * k"
  by (metis div_nat_eqI dividend_less_times_div mult.commute mult_Suc_right times_div_less_eq_dividend)

lemma mod_block: "q * k \<le> a \<Longrightarrow> a < Suc q * k \<Longrightarrow> a mod k = a - q * (k::nat)"
  using div_nat_eqI [of k q a] by (simp add: mult.commute minus_div_mult_eq_mod [symmetric])

lemma drop_bit_nat_div: "drop_bit n (a::nat) = a div 2 ^ n"
  by (simp add: drop_bit_eq_div)

lemma take_bit_nat_mod: "take_bit n (a::nat) = a mod 2 ^ n"
  by (simp add: take_bit_eq_mod)

end
