(* ===== verification/Buffers.thy ===== *)
theory Buffers
  imports Prelude
begin

text \<open>
  The buffer cache the code works through (\<open>sb_bread\<close>, \<open>mark_buffer_dirty\<close>, \<open>brelse\<close>) and the
  in-memory super block. A buffer head is its block number. \<open>bdata\<close> is what the kernel sees
  in the buffers, \<open>bdisk\<close> what is on the device, \<open>bdirty\<close> the blocks that will be written back,
  \<open>breadable\<close> the blocks the device can return. Every access through \<open>b_data\<close> is checked
  against the block size. \<open>writeback\<close> and \<open>evict\<close> are the two moves of the kernel that decide
  whether a change survives: a change to a buffer that was not marked dirty is lost.
\<close>

section \<open>Super block and buffer heads\<close>

text \<open>
  \<open>struct super_block\<close>: the fields the file system reads or sets. \<open>sb_set_blocksize\<close> keeps
  \<open>s_blocksize\<close> equal to \<open>1 << s_blocksize_bits\<close>. \<open>s_rdonly\<close> is the flag \<open>SB_RDONLY\<close> of \<open>s_flags\<close>.
\<close>

record super_block =
  s_blocksize_bits :: nat
  s_maxbytes :: nat
  s_magic :: nat
  s_max_links :: nat
  s_rdonly :: bool

definition s_blocksize :: "super_block \<Rightarrow> nat" where
  "s_blocksize sb = 2 ^ s_blocksize_bits sb"

record bufcache =
  bdata :: "nat \<Rightarrow> nat \<Rightarrow> byte"
  bdisk :: "nat \<Rightarrow> nat \<Rightarrow> byte"
  bdirty :: "nat set"
  breadable :: "nat \<Rightarrow> bool"

definition sb_bread :: "bufcache \<Rightarrow> nat \<Rightarrow> nat option" where
  "sb_bread bc b = (if breadable bc b then Some b else None)"

definition mark_buffer_dirty :: "bufcache \<Rightarrow> nat \<Rightarrow> bufcache" where
  "mark_buffer_dirty bc b = bc\<lparr>bdirty := insert b (bdirty bc)\<rparr>"

definition bforget :: "bufcache \<Rightarrow> nat \<Rightarrow> bufcache" where
  "bforget bc b = bc\<lparr>bdirty := bdirty bc - {b}\<rparr>"

text \<open>\<open>load_block\<close> of inode.c; the caller gets whatever \<open>sb_bread\<close> returned.\<close>

definition load_block :: "super_block \<Rightarrow> bufcache \<Rightarrow> nat \<Rightarrow> nat option res" where
  "load_block sb bc b =
     bindE (bug_on (s_blocksize_bits sb < 9)) (\<lambda>_. Inr (sb_bread bc b))"

lemma s_blocksize_pos [simp]: "0 < s_blocksize sb"
  by (simp add: s_blocksize_def)

lemma s_blocksize_nonzero [simp]: "s_blocksize sb \<noteq> 0" "Suc 0 \<le> s_blocksize sb"
  by (simp_all add: s_blocksize_def)

lemma sb_bread_Some [simp]: "sb_bread bc b = Some b' \<longleftrightarrow> breadable bc b \<and> b' = b"
  by (auto simp: sb_bread_def)

lemma sb_bread_ok [simp]: "breadable bc b \<Longrightarrow> sb_bread bc b = Some b"
  by (simp add: sb_bread_def)

lemma sb_bread_None [simp]: "sb_bread bc b = None \<longleftrightarrow> \<not> breadable bc b"
  by (auto simp: sb_bread_def)

lemma mark_buffer_dirty_sel [simp]:
  "bdata (mark_buffer_dirty bc b) = bdata bc"
  "bdisk (mark_buffer_dirty bc b) = bdisk bc"
  "bdirty (mark_buffer_dirty bc b) = insert b (bdirty bc)"
  "breadable (mark_buffer_dirty bc b) = breadable bc"
  by (simp_all add: mark_buffer_dirty_def)

lemma bforget_sel [simp]:
  "bdata (bforget bc b) = bdata bc"
  "bdisk (bforget bc b) = bdisk bc"
  "bdirty (bforget bc b) = bdirty bc - {b}"
  "breadable (bforget bc b) = breadable bc"
  by (simp_all add: bforget_def)

section \<open>Access to the bytes of a buffer\<close>

definition bytes_at :: "bufcache \<Rightarrow> nat \<Rightarrow> nat \<Rightarrow> nat \<Rightarrow> byte list" where
  "bytes_at bc b off n = map (bdata bc b) [off..<off + n]"

definition num_at :: "bufcache \<Rightarrow> nat \<Rightarrow> nat \<Rightarrow> nat \<Rightarrow> nat" where
  "num_at bc b off n = le_num (bytes_at bc b off n)"

definition put_bytes :: "bufcache \<Rightarrow> nat \<Rightarrow> nat \<Rightarrow> byte list \<Rightarrow> bufcache" where
  "put_bytes bc b off xs = bc\<lparr>bdata := (bdata bc)(b :=
     (\<lambda>o'. if off \<le> o' \<and> o' < off + length xs then xs ! (o' - off) else bdata bc b o'))\<rparr>"

definition put_num :: "bufcache \<Rightarrow> nat \<Rightarrow> nat \<Rightarrow> nat \<Rightarrow> nat \<Rightarrow> bufcache" where
  "put_num bc b off n v = put_bytes bc b off (le_bytes n v)"

definition fill_bytes :: "bufcache \<Rightarrow> nat \<Rightarrow> nat \<Rightarrow> nat \<Rightarrow> byte \<Rightarrow> bufcache" where
  "fill_bytes bc b off n v = bc\<lparr>bdata := (bdata bc)(b :=
     (\<lambda>o'. if off \<le> o' \<and> o' < off + n then v else bdata bc b o'))\<rparr>"

text \<open>The same accesses as the code makes them: out of the buffer is a fault.\<close>

definition in_block :: "super_block \<Rightarrow> nat \<Rightarrow> nat \<Rightarrow> unit res" where
  "in_block sb off n = (if off + n \<le> s_blocksize sb then Inr () else Inl OutOfBounds)"

definition get_num :: "super_block \<Rightarrow> bufcache \<Rightarrow> nat \<Rightarrow> nat \<Rightarrow> nat \<Rightarrow> nat res" where
  "get_num sb bc b off n = bindE (in_block sb off n) (\<lambda>_. Inr (num_at bc b off n))"

definition set_num :: "super_block \<Rightarrow> bufcache \<Rightarrow> nat \<Rightarrow> nat \<Rightarrow> nat \<Rightarrow> nat \<Rightarrow> bufcache res" where
  "set_num sb bc b off n v = bindE (in_block sb off n) (\<lambda>_. Inr (put_num bc b off n v))"

definition memset_buf :: "super_block \<Rightarrow> bufcache \<Rightarrow> nat \<Rightarrow> nat \<Rightarrow> nat \<Rightarrow> byte \<Rightarrow> bufcache res" where
  "memset_buf sb bc b off n v = bindE (in_block sb off n) (\<lambda>_. Inr (fill_bytes bc b off n v))"

lemma in_block_Inr [res_simps]: "in_block sb off n = Inr x \<longleftrightarrow> off + n \<le> s_blocksize sb"
  by (simp add: in_block_def)

lemma in_block_ok [simp]: "off + n \<le> s_blocksize sb \<Longrightarrow> in_block sb off n = Inr ()"
  by (simp add: in_block_def)

lemma put_bytes_sel [simp]:
  "bdisk (put_bytes bc b off xs) = bdisk bc"
  "bdirty (put_bytes bc b off xs) = bdirty bc"
  "breadable (put_bytes bc b off xs) = breadable bc"
  "b' \<noteq> b \<Longrightarrow> bdata (put_bytes bc b off xs) b' = bdata bc b'"
  by (simp_all add: put_bytes_def)

lemma put_num_sel [simp]:
  "bdisk (put_num bc b off n v) = bdisk bc"
  "bdirty (put_num bc b off n v) = bdirty bc"
  "breadable (put_num bc b off n v) = breadable bc"
  "b' \<noteq> b \<Longrightarrow> bdata (put_num bc b off n v) b' = bdata bc b'"
  by (simp_all add: put_num_def)

lemma fill_bytes_sel [simp]:
  "bdisk (fill_bytes bc b off n v) = bdisk bc"
  "bdirty (fill_bytes bc b off n v) = bdirty bc"
  "breadable (fill_bytes bc b off n v) = breadable bc"
  "b' \<noteq> b \<Longrightarrow> bdata (fill_bytes bc b off n v) b' = bdata bc b'"
  by (simp_all add: fill_bytes_def)

lemma length_bytes_at [simp]: "length (bytes_at bc b off n) = n"
  by (simp add: bytes_at_def)

lemma bytes_at_cong:
  "(\<And>i. off \<le> i \<Longrightarrow> i < off + n \<Longrightarrow> bdata bc b i = bdata bc' b' i) \<Longrightarrow>
   bytes_at bc b off n = bytes_at bc' b' off n"
  by (simp add: bytes_at_def)

lemma num_at_zeros:
  assumes "\<And>i. off \<le> i \<Longrightarrow> i < off + n \<Longrightarrow> bdata bc b i = 0"
  shows "num_at bc b off n = 0"
proof -
  have "bytes_at bc b off n = replicate n 0"
    unfolding bytes_at_def by (rule nth_equalityI) (simp_all add: assms)
  then show ?thesis by (simp add: num_at_def)
qed

lemma bytes_at_put_same [simp]:
  "length xs = n \<Longrightarrow> bytes_at (put_bytes bc b off xs) b off n = xs"
  by (rule nth_equalityI) (simp_all add: bytes_at_def put_bytes_def)

lemma bytes_at_put_disjoint:
  "b' \<noteq> b \<or> off' + n \<le> off \<or> off + length xs \<le> off' \<Longrightarrow>
   bytes_at (put_bytes bc b off xs) b' off' n = bytes_at bc b' off' n"
  by (rule bytes_at_cong) (auto simp: put_bytes_def)

lemma num_at_put_same [simp]: "num_at (put_num bc b off n v) b off n = v mod 256 ^ n"
  by (simp add: num_at_def put_num_def)

lemma num_at_put_disjoint:
  "b' \<noteq> b \<or> off' + n' \<le> off \<or> off + n \<le> off' \<Longrightarrow>
   num_at (put_num bc b off n v) b' off' n' = num_at bc b' off' n'"
  by (simp add: num_at_def put_num_def bytes_at_put_disjoint)

lemma num_at_mark [simp]: "num_at (mark_buffer_dirty bc b') b off n = num_at bc b off n"
  by (simp add: num_at_def bytes_at_def)

lemma num_at_other_block: "bdata bc b = bdata bc' b \<Longrightarrow> num_at bc b off n = num_at bc' b off n"
  by (simp add: num_at_def bytes_at_def)

lemma num_at_bound: "num_at bc b off n < 256 ^ n"
  unfolding num_at_def using le_num_bound [of "bytes_at bc b off n"] by simp

lemma bytes_at_fill_inside:
  "off \<le> off' \<Longrightarrow> off' + n' \<le> off + n \<Longrightarrow>
   bytes_at (fill_bytes bc b off n v) b off' n' = replicate n' v"
  by (rule nth_equalityI) (auto simp: bytes_at_def fill_bytes_def)

lemma num_at_fill_zero:
  "off \<le> off' \<Longrightarrow> off' + n' \<le> off + n \<Longrightarrow> num_at (fill_bytes bc b off n 0) b off' n' = 0"
  by (simp add: num_at_def bytes_at_fill_inside)

lemma num_at_fill_other:
  "b' \<noteq> b \<Longrightarrow> num_at (fill_bytes bc b off n v) b' off' n' = num_at bc b' off' n'"
  by (simp add: num_at_def bytes_at_def)

section \<open>The device as a flat array of bytes\<close>

definition byte_at :: "super_block \<Rightarrow> bufcache \<Rightarrow> nat \<Rightarrow> byte" where
  "byte_at sb bc a = bdata bc (a div s_blocksize sb) (a mod s_blocksize sb)"

text \<open>An address range lies in blocks the device can return.\<close>

definition range_readable :: "super_block \<Rightarrow> bufcache \<Rightarrow> nat \<Rightarrow> nat \<Rightarrow> bool" where
  "range_readable sb bc lo hi \<longleftrightarrow>
     (\<forall>b \<in> {lo div s_blocksize sb .. (hi - 1) div s_blocksize sb}. breadable bc b)"

section \<open>Durability\<close>

text \<open>
  A buffer cache is coherent when every block that differs from the device is marked dirty, so
  no completed change can be lost by dropping a clean buffer.
\<close>

definition coherent :: "bufcache \<Rightarrow> bool" where
  "coherent bc \<longleftrightarrow> (\<forall>b. b \<notin> bdirty bc \<longrightarrow> bdata bc b = bdisk bc b)"

definition writeback :: "bufcache \<Rightarrow> nat \<Rightarrow> bufcache" where
  "writeback bc b = (if b \<in> bdirty bc
     then bc\<lparr>bdisk := (bdisk bc)(b := bdata bc b), bdirty := bdirty bc - {b}\<rparr> else bc)"

definition evict :: "bufcache \<Rightarrow> nat \<Rightarrow> bufcache" where
  "evict bc b = (if b \<in> bdirty bc then bc else bc\<lparr>bdata := (bdata bc)(b := bdisk bc b)\<rparr>)"

lemma writeback_coherent: "coherent bc \<Longrightarrow> coherent (writeback bc b)"
  by (auto simp: coherent_def writeback_def)

lemma evict_coherent_id: "coherent bc \<Longrightarrow> evict bc b = bc"
  by (cases bc) (auto simp: coherent_def evict_def)

lemma writeback_bdata [simp]: "bdata (writeback bc b) = bdata bc"
  by (simp add: writeback_def)

lemma coherent_mark_change:
  "coherent bc \<Longrightarrow> bdisk bc' = bdisk bc \<Longrightarrow> bdirty bc \<subseteq> bdirty bc' \<Longrightarrow>
   (\<And>b. b \<notin> bdirty bc' \<Longrightarrow> bdata bc' b = bdata bc b) \<Longrightarrow> coherent bc'"
  by (auto simp: coherent_def)

text \<open>
  \<open>tracks X bc bc'\<close>: from \<open>bc\<close> to \<open>bc'\<close> nothing has been written to the device, and a block outside
  \<open>X\<close> that has changed, or was waiting to be written, is marked dirty. Every operation tracks its
  changes but for blocks it is about to give up.
\<close>

definition tracks :: "nat set \<Rightarrow> bufcache \<Rightarrow> bufcache \<Rightarrow> bool" where
  "tracks X bc bc' \<longleftrightarrow> bdisk bc' = bdisk bc \<and>
     (\<forall>b. b \<notin> X \<longrightarrow> (b \<in> bdirty bc \<longrightarrow> b \<in> bdirty bc') \<and> (b \<in> bdirty bc' \<or> bdata bc' b = bdata bc b))"

lemma tracks_refl [simp]: "tracks X bc bc"
  by (simp add: tracks_def)

lemma tracks_trans: "tracks X bc bc' \<Longrightarrow> tracks Y bc' bc'' \<Longrightarrow> tracks (X \<union> Y) bc bc''"
  unfolding tracks_def by (metis UnI1 UnI2)

lemma tracks_same: "tracks X bc bc' \<Longrightarrow> tracks X bc' bc'' \<Longrightarrow> tracks X bc bc''"
  using tracks_trans [of X bc bc' X bc''] by simp

lemma tracks_mono: "tracks X bc bc' \<Longrightarrow> X \<subseteq> Y \<Longrightarrow> tracks Y bc bc'"
  unfolding tracks_def by blast

lemma tracks_dirty: "tracks X bc bc' \<Longrightarrow> (\<And>b. b \<in> X \<Longrightarrow> b \<notin> Y \<Longrightarrow> b \<in> bdirty bc') \<Longrightarrow> tracks Y bc bc'"
  unfolding tracks_def by blast

lemma tracks_mark [simp]: "tracks X bc (mark_buffer_dirty bc b)"
  by (simp add: tracks_def)

lemma tracksD: "tracks X bc bc' \<Longrightarrow> b \<notin> X \<Longrightarrow> b \<in> bdirty bc \<Longrightarrow> b \<in> bdirty bc'"
  "tracks X bc bc' \<Longrightarrow> b \<notin> X \<Longrightarrow> b \<notin> bdirty bc' \<Longrightarrow> bdata bc' b = bdata bc b"
  "tracks X bc bc' \<Longrightarrow> bdisk bc' = bdisk bc"
  unfolding tracks_def by blast+

lemma coherent_tracks: "coherent bc \<Longrightarrow> tracks {} bc bc' \<Longrightarrow> coherent bc'"
  unfolding coherent_def tracks_def by fastforce

text \<open>The cache that finds the device after every dirty block was written back and the rest dropped.\<close>

definition reopened :: "bufcache \<Rightarrow> bufcache" where
  "reopened bc = \<lparr>bdata = (\<lambda>b. bdata (evict (writeback bc b) b) b), bdisk = (\<lambda>b. bdisk (writeback bc b) b),
     bdirty = {}, breadable = breadable bc\<rparr>"

lemma reopened_sel:
  "breadable (reopened bc) = breadable bc" "bdirty (reopened bc) = {}"
  "bdata (reopened bc) b = (if b \<in> bdirty bc then bdata bc b else bdisk bc b)" "coherent (reopened bc)"
  by (simp_all add: reopened_def writeback_def evict_def coherent_def)

lemma coherent_put_mark [intro]: "coherent bc \<Longrightarrow> coherent (mark_buffer_dirty (put_bytes bc b off xs) b)"
  by (erule coherent_mark_change) auto

lemma coherent_put_num_mark [intro]:
  "coherent bc \<Longrightarrow> coherent (mark_buffer_dirty (put_num bc b off n v) b)"
  by (erule coherent_mark_change) auto

end
