(* ===== verification/FsState.thy ===== *)
theory FsState
  imports Buffers
begin

text \<open>
  The state of a mounted file system (cominix.h, cominix_fs.h): the in-memory super block
  information, the on-disk layouts, the in-memory inode with its sixteen zone words, and the
  helpers of cominix.h that every other part calls. The kernel's mutexes and spin locks are not
  part of the state: an operation runs to its end before the next starts.
\<close>

section \<open>Constants\<close>

definition MINIX_ROOT_INO :: nat where "MINIX_ROOT_INO = 1"
definition MINIX_VALID_FS :: nat where "MINIX_VALID_FS = 1"
definition MINIX_ERROR_FS :: nat where "MINIX_ERROR_FS = 2"
definition MINIX2_LINK_MAX :: nat where "MINIX2_LINK_MAX = 65530"
definition MINIX_V1 :: nat where "MINIX_V1 = 1"
definition MINIX_V3 :: nat where "MINIX_V3 = 3"

section \<open>Super block information\<close>

text \<open>\<open>struct cominix_sb_info\<close>. \<open>s_imap\<close> and \<open>s_zmap\<close> are arrays of buffer heads, that is of
  block numbers; \<open>extra_sb_location\<close> is a \<open>block_t\<close>, the four last fields are 64-bit offsets.\<close>

record cominix_sb_info =
  s_ninodes :: nat
  s_nzones :: nat
  s_imap_blocks :: nat
  s_zmap_blocks :: nat
  s_firstdatazone :: nat
  s_log_zone_size :: nat
  s_dirsize :: nat
  s_namelen :: nat
  s_imap :: "nat list"
  s_zmap :: "nat list"
  s_mount_state :: nat
  s_version :: nat
  extra_sb_location :: nat
  hashtable :: nat
  hashtable_size :: nat
  heap_brk :: nat
  max_brk :: nat

text \<open>A mounted file system: the VFS super block, \<open>s_fs_info\<close> and the buffer cache.\<close>

record fs =
  fs_sb :: super_block
  fs_info :: cominix_sb_info
  fs_bufs :: bufcache

definition cominix_sb :: "fs \<Rightarrow> cominix_sb_info" where
  "cominix_sb s = fs_info s"

text \<open>\<open>DIV_ROUND_UP\<close> on \<open>unsigned\<close> operands: \<open>(n + d - 1) / d\<close> in 32 bits.\<close>

definition div_round_up32 :: "nat \<Rightarrow> nat \<Rightarrow> nat" where
  "div_round_up32 n d = u32 (u32 n + u32 d + (2 ^ 32 - 1)) div u32 d"

definition cominix_blocks_needed :: "nat \<Rightarrow> nat \<Rightarrow> nat" where
  "cominix_blocks_needed bits blocksize = div_round_up32 bits (blocksize * 8)"

text \<open>The extra super block, in its data block; the compiler pads \<open>hashtable_size\<close> to eight bytes.\<close>

record cminix_extra_super_block =
  esb_hashtable_location :: nat
  esb_hashtable_size :: nat
  esb_heap_brk :: nat

definition esb_at :: "bufcache \<Rightarrow> nat \<Rightarrow> cminix_extra_super_block" where
  "esb_at bc b = \<lparr>esb_hashtable_location = num_at bc b 0 8, esb_hashtable_size = num_at bc b 8 4,
     esb_heap_brk = num_at bc b 16 8\<rparr>"

section \<open>Inodes\<close>

datatype file_ops = No_ops | Cominix_file_ops | Chunked_file_ops | Cominix_dir_ops | Special_ops

datatype inode_ops = No_iops | Cominix_file_iops | Cominix_dir_iops | Cominix_symlink_iops | Special_iops

datatype addr_ops = No_aops | Cominix_aops | Empty_aops

text \<open>\<open>struct cominix_inode_info\<close>: the VFS inode and the zone words \<open>u.i2_data[16]\<close>, an array
  indexed below sixteen. The V1 member of the union is never used. \<open>i_dirty\<close> is the flag
  that \<open>mark_inode_dirty\<close> sets.\<close>

record inode =
  i_ino :: nat
  i_mode :: nat
  i_nlink :: nat
  i_uid :: nat
  i_gid :: nat
  i_size :: nat
  i_atime :: nat
  i_mtime :: nat
  i_ctime :: nat
  i_rdev :: nat
  i_dirty :: bool
  i_op :: inode_ops
  i_fop :: file_ops
  i_aops :: addr_ops
  i2_data :: "nat \<Rightarrow> nat"

definition i_data :: "inode \<Rightarrow> nat \<Rightarrow> nat" where
  "i_data ino = i2_data ino"

definition mark_inode_dirty :: "inode \<Rightarrow> inode" where
  "mark_inode_dirty ino = ino\<lparr>i_dirty := True\<rparr>"

definition minus_one32 :: nat where "minus_one32 = 2 ^ 32 - 1"

definition set_zone :: "inode \<Rightarrow> nat \<Rightarrow> nat \<Rightarrow> inode" where
  "set_zone ino k v = ino\<lparr>i2_data := (i2_data ino)(k := u32 v)\<rparr>"

definition switch_inode_to_chunked :: "inode \<Rightarrow> inode" where
  "switch_inode_to_chunked ino = set_zone (set_zone ino 0 minus_one32) 9 minus_one32"

definition inode_is_chunked :: "inode \<Rightarrow> bool" where
  "inode_is_chunked ino \<longleftrightarrow> i_data ino 0 = minus_one32 \<and> i_data ino 9 = minus_one32"

text \<open>\<open>struct chunk_entry\<close>: one item of a chunked file's list.\<close>

record chunk_entry =
  ce_location :: nat
  ce_size :: nat

section \<open>Facts\<close>

lemma set_zone_data [simp]:
  "i_data (set_zone ino k v) j = (if j = k then u32 v else i_data ino j)"
  by (simp add: set_zone_def i_data_def)

lemma minus_one32_u32 [simp]: "u32 minus_one32 = minus_one32"
  by (simp add: minus_one32_def u32_def)

lemma switch_inode_to_chunked_is_chunked [simp]: "inode_is_chunked (switch_inode_to_chunked ino)"
  by (simp add: inode_is_chunked_def switch_inode_to_chunked_def)

lemma switch_inode_other_zones:
  "k \<noteq> 0 \<Longrightarrow> k \<noteq> 9 \<Longrightarrow> i_data (switch_inode_to_chunked ino) k = i_data ino k"
  by (simp add: switch_inode_to_chunked_def)

lemma div_round_up32_exact:
  assumes "0 < d" "n + d < 2 ^ 32"
  shows "div_round_up32 n d = (n + (d - 1)) div d"
proof -
  define m where "m = n + (d - 1)"
  have m: "n + d + (2 ^ 32 - 1) = m + 2 ^ 32" "m < 2 ^ 32" using assms by (simp_all add: m_def)
  have "u32 (n + d + (2 ^ 32 - 1)) = m" unfolding m(1) u32_def using m(2) by simp
  then show ?thesis using assms by (simp add: div_round_up32_def u32_id m_def)
qed

text \<open>The rounding wraps when the bits are close to 4 G: no block at all is asked for.\<close>

lemma div_round_up32_wraps:
  assumes "d < 2 ^ 32" "n < 2 ^ 32" "2 ^ 32 < n + d"
  shows "div_round_up32 n d = 0"
proof -
  define m where "m = n + d - 1 - 2 ^ 32"
  have m: "n + d + (2 ^ 32 - 1) = m + 2 * 2 ^ 32" "m < 2 ^ 32" "m < d" using assms by (simp_all add: m_def)
  have "u32 (n + d + (2 ^ 32 - 1)) = m"
    unfolding m(1) u32_def mod_mult_self1 using m(2) by (rule mod_less)
  then show ?thesis using assms(1,2) m(3) by (simp add: div_round_up32_def u32_id)
qed

lemma blocks_needed_covers:
  assumes "0 < blocksize" "bits + blocksize * 8 < 2 ^ 32"
  shows "bits \<le> cominix_blocks_needed bits blocksize * (blocksize * 8)"
proof -
  let ?k = "blocksize * 8"
  have k: "0 < ?k" using assms by simp
  have "bits + (?k - 1) < Suc (cominix_blocks_needed bits blocksize) * ?k"
    unfolding cominix_blocks_needed_def div_round_up32_exact [OF k assms(2)] using k
    by (metis dividend_less_div_times mult_Suc add.commute)
  then show ?thesis by simp
qed

lemma blocks_needed_least:
  assumes "0 < blocksize" "bits + blocksize * 8 < 2 ^ 32" and "bits \<le> n * (blocksize * 8)"
  shows "cominix_blocks_needed bits blocksize \<le> n"
proof -
  let ?k = "blocksize * 8"
  have k: "0 < ?k" using assms by simp
  have "bits + (?k - 1) < Suc n * ?k"
    using assms by simp
  then show ?thesis
    unfolding cominix_blocks_needed_def div_round_up32_exact [OF k assms(2)]
    by (metis less_Suc_eq_le less_mult_imp_div_less)
qed

end
