(* ===== verification/ChunkHandler.thy ===== *)
theory ChunkHandler
  imports FsState
begin

text \<open>
  chunk_handler.c: the chunk heap (a stack that only grows, its top \<open>heap_brk\<close>), the hash table
  in front of it, and the copying of byte strings into and out of the chunk area across block
  boundaries. First the operations in the order of the file, then what they compute on the
  device seen as a flat array of bytes.
\<close>

section \<open>Addresses\<close>

definition sizeof_chunk_head :: nat where "sizeof_chunk_head = 24"

definition block_no :: "super_block \<Rightarrow> nat \<Rightarrow> nat" where
  "block_no sb off = u32 (drop_bit (s_blocksize_bits sb) off)"

definition sector_no :: "super_block \<Rightarrow> nat \<Rightarrow> nat" where
  "sector_no sb off = drop_bit 9 off"

definition inblock_offset :: "super_block \<Rightarrow> nat \<Rightarrow> nat res" where
  "inblock_offset sb off =
     bindE (bug_on (30 < s_blocksize_bits sb)) (\<lambda>_. Inr (take_bit (s_blocksize_bits sb) off))"

section \<open>The heap break\<close>

text \<open>The field \<open>heap_brk\<close> of \<open>struct cminix_extra_super_block\<close> is at offset 16.\<close>

definition update_brk_on_disk :: "fs \<Rightarrow> nat \<Rightarrow> fs res" where
  "update_brk_on_disk s new_brk =
     bindE (load_block (fs_sb s) (fs_bufs s) (extra_sb_location (fs_info s))) (\<lambda>p.
     bindE (deref p) (\<lambda>bh.
     bindE (set_num (fs_sb s) (fs_bufs s) bh 16 8 new_brk) (\<lambda>bc.
     Inr (s\<lparr>fs_bufs := mark_buffer_dirty bc bh\<rparr>))))"

text \<open>The block number is 32 bits wide, and so is the shift that rounds the break up.\<close>

definition align_brk :: "super_block \<Rightarrow> nat \<Rightarrow> nat" where
  "align_brk sb brk =
     (if block_no sb brk \<noteq> block_no sb (u64 (brk + sizeof_chunk_head - 1))
      then shl32 (u32 (block_no sb brk + 1)) (s_blocksize_bits sb) else brk)"

definition chunk_alloc :: "fs \<Rightarrow> int \<Rightarrow> (fs \<times> nat) res" where
  "chunk_alloc s sz =
     bindE (bug_on (sz \<le> 0)) (\<lambda>_.
     let sb = fs_sb s; brk = heap_brk (fs_info s) in
     bindE (bug_on (brk \<le> shl64 (s_nzones (fs_info s)) (s_blocksize_bits sb))) (\<lambda>_.
     let new = align_brk sb brk; brk' = u64 (new + sizeof_chunk_head + nat sz) in
     bindE (bug_on (max_brk (fs_info s) \<le> brk')) (\<lambda>_.
     bindE (update_brk_on_disk (s\<lparr>fs_info := (fs_info s)\<lparr>heap_brk := brk'\<rparr>\<rparr>) brk') (\<lambda>s'.
     Inr (s', new)))))"

section \<open>Loading a byte offset\<close>

text \<open>The result is the buffer, the offset of the pointer in it and \<open>bytes_left\<close>.\<close>

definition load_blockoff :: "super_block \<Rightarrow> bufcache \<Rightarrow> nat \<Rightarrow> (nat \<times> nat \<times> nat) res" where
  "load_blockoff sb bc off =
     bindE (bug_on (off = 0)) (\<lambda>_.
     case sb_bread bc (block_no sb off) of
       None \<Rightarrow> Inl Bug
     | Some bh \<Rightarrow> bindE (inblock_offset sb off) (\<lambda>o'. Inr (bh, o', s_blocksize sb - o')))"

section \<open>Looking a hash up\<close>

definition hashtable_hash :: "cominix_sb_info \<Rightarrow> nat \<Rightarrow> nat res" where
  "hashtable_hash msi chunk_hash =
     (if hashtable_size msi div 8 = 0 then Inl DivideError
      else Inr (chunk_hash mod (hashtable_size msi div 8)))"

text \<open>The walk along \<open>next\<close>: \<open>None\<close> is a walk that does not end.\<close>

partial_function (option) search_chain ::
    "super_block \<Rightarrow> bufcache \<Rightarrow> nat \<Rightarrow> nat \<Rightarrow> nat res option" where
  "search_chain sb bc chunk_hash chunk_location =
     (if chunk_location = 0 then Some (Inr 0)
      else (case load_blockoff sb bc chunk_location of
          Inl e \<Rightarrow> Some (Inl e)
        | Inr r \<Rightarrow> (case get_num sb bc (fst r) (fst (snd r)) 8 of
              Inl e \<Rightarrow> Some (Inl e)
            | Inr hash \<Rightarrow>
                if hash = chunk_hash then Some (Inr chunk_location)
                else (case get_num sb bc (fst r) (fst (snd r) + 16) 8 of
                    Inl e \<Rightarrow> Some (Inl e)
                  | Inr next \<Rightarrow> search_chain sb bc chunk_hash next))))"

definition chunk_search_hashtable :: "fs \<Rightarrow> nat \<Rightarrow> nat res" where
  "chunk_search_hashtable s chunk_hash =
     (let msi = cominix_sb s; sb = fs_sb s; bc = fs_bufs s in
      bindE (hashtable_hash msi chunk_hash) (\<lambda>index.
      let off = u64 (hashtable msi + index * 8) in
      bindE (load_blockoff sb bc off) (\<lambda>(bh, o', bytes_left).
      bindE (bug_on (bytes_left < 8)) (\<lambda>_.
      bindE (get_num sb bc bh o' 8) (\<lambda>chunk_location.
      case search_chain sb bc chunk_hash chunk_location of
        None \<Rightarrow> Inl Diverge | Some r \<Rightarrow> r)))))"

section \<open>Copying across blocks\<close>

definition get_next_block :: "super_block \<Rightarrow> bufcache \<Rightarrow> nat \<Rightarrow> bool \<Rightarrow> (bufcache \<times> nat) res" where
  "get_next_block sb bc bh dirty =
     (let next_blockno = u32 (bh + 1) in
      bindE (inblock_offset sb (s_blocksize sb)) (\<lambda>_.
      let bc' = (if dirty then mark_buffer_dirty bc bh else bc) in
      case sb_bread bc' next_blockno of None \<Rightarrow> Inl Bug | Some bh' \<Rightarrow> Inr (bc', bh')))"

text \<open>\<open>memcpy\<close> from \<open>data\<close> or, when \<open>data\<close> is NULL, \<open>memset\<close> to zero.\<close>

definition copy_to_buf ::
    "super_block \<Rightarrow> bufcache \<Rightarrow> nat \<Rightarrow> nat \<Rightarrow> byte list option \<Rightarrow> nat \<Rightarrow> bufcache res" where
  "copy_to_buf sb bc b off data n =
     bindE (in_block sb off n) (\<lambda>_.
     case data of
       None \<Rightarrow> Inr (fill_bytes bc b off n 0)
     | Some xs \<Rightarrow> if n \<le> length xs then Inr (put_bytes bc b off (take n xs)) else Inl OutOfBounds)"

text \<open>The \<open>while (remaining > 0)\<close> loop of \<open>write_data_storage\<close> with the code after it.\<close>

function write_rest ::
    "super_block \<Rightarrow> bufcache \<Rightarrow> nat \<Rightarrow> byte list option \<Rightarrow> nat \<Rightarrow> bufcache res" where
  "write_rest sb bc bh data remaining =
     (if remaining = 0 then Inr (mark_buffer_dirty bc bh)
      else bindE (get_next_block sb bc bh True) (\<lambda>(bc', bh').
        let to_write = min (s_blocksize sb) remaining in
        bindE (copy_to_buf sb bc' bh' 0 data to_write) (\<lambda>bc''.
        write_rest sb bc'' bh' (map_option (drop to_write) data) (remaining - to_write))))"
  by pat_completeness auto
termination
  by (relation "measure (\<lambda>(sb, bc, bh, data, remaining). remaining)") auto

definition write_data_storage ::
    "super_block \<Rightarrow> bufcache \<Rightarrow> nat \<Rightarrow> byte list option \<Rightarrow> nat \<Rightarrow> bufcache res" where
  "write_data_storage sb bc storage data len =
     bindE (load_blockoff sb bc storage) (\<lambda>(bh, o', bytes_left).
     let to_write = min bytes_left len in
     bindE (copy_to_buf sb bc bh o' data to_write) (\<lambda>bc'.
     write_rest sb bc' bh (map_option (drop to_write) data) (len - to_write)))"

text \<open>
  Reading goes to a user buffer. \<open>ulen\<close> is how many bytes of it can be written; \<open>copy_to_user\<close>
  returns how many bytes it could not copy.
\<close>

definition copy_to_user :: "nat \<Rightarrow> nat \<Rightarrow> nat \<Rightarrow> nat" where
  "copy_to_user ulen cursor n = n - min n (ulen - cursor)"

function read_rest ::
    "super_block \<Rightarrow> bufcache \<Rightarrow> nat \<Rightarrow> nat \<Rightarrow> nat \<Rightarrow> nat \<Rightarrow> byte list res" where
  "read_rest sb bc bh ulen cursor remaining =
     (if remaining = 0 then Inr []
      else bindE (get_next_block sb bc bh False) (\<lambda>(bc', bh').
        let to_read = min (s_blocksize sb) remaining in
        bindE (in_block sb 0 to_read) (\<lambda>_.
        bindE (bug_on (copy_to_user ulen cursor to_read \<noteq> 0)) (\<lambda>_.
        bindE (read_rest sb bc' bh' ulen (cursor + to_read) (remaining - to_read)) (\<lambda>xs.
        Inr (bytes_at bc' bh' 0 to_read @ xs))))))"
  by pat_completeness auto
termination
  by (relation "measure (\<lambda>(sb, bc, bh, ulen, cursor, remaining). remaining)") auto

definition read_data_storage ::
    "super_block \<Rightarrow> bufcache \<Rightarrow> nat \<Rightarrow> nat \<Rightarrow> nat \<Rightarrow> byte list res" where
  "read_data_storage sb bc storage ulen len =
     bindE (load_blockoff sb bc storage) (\<lambda>(bh, o', bytes_left).
     let to_read = min bytes_left len in
     bindE (in_block sb o' to_read) (\<lambda>_.
     bindE (bug_on (copy_to_user ulen 0 to_read \<noteq> 0)) (\<lambda>_.
     bindE (read_rest sb bc bh ulen to_read (len - to_read)) (\<lambda>xs.
     Inr (bytes_at bc bh o' to_read @ xs)))))"

declare write_rest.simps [simp del] read_rest.simps [simp del]

section \<open>Storing a chunk\<close>

text \<open>\<open>struct chunk\<close> without its flexible \<open>data\<close> member, and its 24 bytes.\<close>

record chunk =
  ck_hash :: nat
  ck_length :: nat
  ck_refcount :: nat
  ck_flags :: nat
  ck_next :: nat

definition chunk_bytes :: "chunk \<Rightarrow> byte list" where
  "chunk_bytes c = le_bytes 8 (ck_hash c) @ le_bytes 4 (ck_length c) @
     le_bytes 2 (ck_refcount c) @ le_bytes 2 (ck_flags c) @ le_bytes 8 (ck_next c)"

definition copy_chunk_into_storage ::
    "super_block \<Rightarrow> bufcache \<Rightarrow> nat \<Rightarrow> chunk \<Rightarrow> byte list \<Rightarrow> bufcache res" where
  "copy_chunk_into_storage sb bc storage metadata data =
     bindE (write_data_storage sb bc storage (Some (chunk_bytes metadata)) sizeof_chunk_head) (\<lambda>bc'.
     write_data_storage sb bc' (u64 (storage + sizeof_chunk_head)) (Some data) (ck_length metadata))"

definition chunk_reset_hashtable :: "fs \<Rightarrow> fs res" where
  "chunk_reset_hashtable s =
     (let msi = fs_info s;
          msi' = msi\<lparr>heap_brk := u64 (hashtable msi + hashtable_size msi)\<rparr> in
      bindE (write_data_storage (fs_sb s) (fs_bufs s) (hashtable msi') None (hashtable_size msi'))
        (\<lambda>bc. Inr (s\<lparr>fs_info := msi', fs_bufs := bc\<rparr>)))"

definition chunk_fill_hashtable :: "fs \<Rightarrow> chunk \<Rightarrow> byte list \<Rightarrow> (fs \<times> nat) res" where
  "chunk_fill_hashtable s metadata data =
     bindE (chunk_alloc s (int (ck_length metadata))) (\<lambda>(s1, fresh_chunk).
     let msi = fs_info s1; sb = fs_sb s1; bc = fs_bufs s1 in
     bindE (hashtable_hash msi (ck_hash metadata)) (\<lambda>index.
     let off = u64 (hashtable msi + index * 8) in
     bindE (load_blockoff sb bc off) (\<lambda>(bh, o', bytes_left).
     bindE (get_num sb bc bh o' 8) (\<lambda>entry.
     bindE (set_num sb bc bh o' 8 fresh_chunk) (\<lambda>bc1.
     let bc2 = mark_buffer_dirty bc1 bh in
     bindE (copy_chunk_into_storage sb bc2 fresh_chunk (metadata\<lparr>ck_next := entry\<rparr>) data) (\<lambda>bc3.
     Inr (s1\<lparr>fs_bufs := bc3\<rparr>, fresh_chunk)))))))"

text \<open>\<open>pos\<close> is relative to the chunk; the bytes copied stand for the return value. \<open>count\<close> and \<open>pos\<close> have
  signed types and are not negative: the VFS refuses other values. A size of \<open>2 ^ 63\<close> or more becomes
  negative; for other sizes the subtraction cannot wrap.\<close>

definition chunk_copy_into_buffer ::
    "super_block \<Rightarrow> bufcache \<Rightarrow> chunk_entry \<Rightarrow> nat \<Rightarrow> nat \<Rightarrow> nat \<Rightarrow> byte list res" where
  "chunk_copy_into_buffer sb bc ce ulen count pos =
     (let to_read = min (int count) (to_ssize (int (ce_size ce)) - int pos) in
      if to_read \<le> 0 then Inr []
      else read_data_storage sb bc (u64 (ce_location ce + sizeof_chunk_head + pos)) ulen (nat to_read))"

end
