(* ===== verification/FlatStore.thy ===== *)
theory FlatStore
  imports ChunkHandler
begin

text \<open>
  What the block-by-block copying of chunk_handler.c computes: on the device seen as one array
  of bytes, \<open>write_data_storage\<close> stores a string and \<open>read_data_storage\<close> loads one, whatever
  block boundaries lie between. The reference versions are \<open>store_bytes\<close> and \<open>load_bytes\<close>.
\<close>

section \<open>Reference store and load\<close>

definition store_bytes :: "super_block \<Rightarrow> bufcache \<Rightarrow> nat \<Rightarrow> byte list \<Rightarrow> bufcache" where
  "store_bytes sb bc st xs = bc\<lparr>
     bdata := (\<lambda>b o'. let a = b * s_blocksize sb + o' in
        if o' < s_blocksize sb \<and> st \<le> a \<and> a < st + length xs then xs ! (a - st)
        else bdata bc b o'),
     bdirty := bdirty bc \<union> (\<lambda>a. a div s_blocksize sb) ` {st..<st + length xs}\<rparr>"

definition load_bytes :: "super_block \<Rightarrow> bufcache \<Rightarrow> nat \<Rightarrow> nat \<Rightarrow> byte list" where
  "load_bytes sb bc st n = map (byte_at sb bc) [st..<st + n]"

definition fnum :: "super_block \<Rightarrow> bufcache \<Rightarrow> nat \<Rightarrow> nat \<Rightarrow> nat" where
  "fnum sb bc st n = le_num (load_bytes sb bc st n)"

text \<open>The blocks of a non-empty range exist and have 32-bit numbers.\<close>

definition valid_range :: "super_block \<Rightarrow> bufcache \<Rightarrow> nat \<Rightarrow> nat \<Rightarrow> bool" where
  "valid_range sb bc lo n \<longleftrightarrow> s_blocksize_bits sb \<le> 30 \<and> 0 < lo \<and>
     (\<forall>b. lo div s_blocksize sb \<le> b \<longrightarrow> b * s_blocksize sb < lo + max 1 n \<longrightarrow>
        breadable bc b \<and> b < 2 ^ 32)"

definition data_of :: "byte list option \<Rightarrow> nat \<Rightarrow> byte list" where
  "data_of data n = (case data of None \<Rightarrow> replicate n 0 | Some xs \<Rightarrow> take n xs)"

definition enough_data :: "byte list option \<Rightarrow> nat \<Rightarrow> bool" where
  "enough_data data n = (case data of None \<Rightarrow> True | Some xs \<Rightarrow> n \<le> length xs)"

lemma length_data_of [simp]: "enough_data data n \<Longrightarrow> length (data_of data n) = n"
  by (auto simp: enough_data_def data_of_def split: option.splits)

lemma data_of_split:
  assumes "k \<le> n"
  shows "data_of data n = data_of data k @ data_of (map_option (drop k) data) (n - k)"
proof (cases data)
  case None
  with assms show ?thesis by (simp add: data_of_def replicate_add [symmetric])
next
  case (Some xs)
  have "take n xs = take k (take n xs) @ drop k (take n xs)"
    by (simp only: append_take_drop_id)
  also have "\<dots> = take k xs @ take (n - k) (drop k xs)"
    using assms by (simp add: drop_take min_def)
  finally show ?thesis using Some by (simp add: data_of_def)
qed

lemma enough_data_take: "enough_data data n \<Longrightarrow> k \<le> n \<Longrightarrow> enough_data data k"
  by (auto simp: enough_data_def split: option.splits)

lemma enough_data_drop:
  "enough_data data n \<Longrightarrow> k \<le> n \<Longrightarrow> enough_data (map_option (drop k) data) (n - k)"
  by (auto simp: enough_data_def split: option.splits)

lemma length_load_bytes [simp]: "length (load_bytes sb bc st n) = n"
  by (simp add: load_bytes_def)

lemma load_bytes_append:
  "load_bytes sb bc st (m + n) = load_bytes sb bc st m @ load_bytes sb bc (st + m) n"
  unfolding load_bytes_def
  by (metis add.assoc le_add1 map_append upt_add_eq_append)

lemma load_bytes_cong:
  "(\<And>a. st \<le> a \<Longrightarrow> a < st + n \<Longrightarrow> byte_at sb bc a = byte_at sb bc' a) \<Longrightarrow>
   load_bytes sb bc st n = load_bytes sb bc' st n"
  by (simp add: load_bytes_def)

lemma fnum_cong:
  "(\<And>a. st \<le> a \<Longrightarrow> a < st + n \<Longrightarrow> byte_at sb bc a = byte_at sb bc' a) \<Longrightarrow>
   fnum sb bc st n = fnum sb bc' st n"
  unfolding fnum_def using load_bytes_cong [of st n sb bc bc'] by simp

lemma byte_at_store [simp]:
  "byte_at sb (store_bytes sb bc st xs) a =
     (if st \<le> a \<and> a < st + length xs then xs ! (a - st) else byte_at sb bc a)"
  by (simp add: byte_at_def store_bytes_def Let_def)

lemma store_bytes_sel [simp]:
  "bdisk (store_bytes sb bc st xs) = bdisk bc"
  "breadable (store_bytes sb bc st xs) = breadable bc"
  by (simp_all add: store_bytes_def)

lemma data_of_0 [simp]: "data_of data 0 = []"
  by (simp add: data_of_def split: option.split)

lemma put_bytes_Nil [simp]: "put_bytes bc b off [] = bc"
  by (intro bufcache.equality ext) (auto simp: put_bytes_def)

lemma load_store_same [simp]: "length xs = n \<Longrightarrow> load_bytes sb (store_bytes sb bc st xs) st n = xs"
  by (rule nth_equalityI) (simp_all add: load_bytes_def)

lemma load_store_disjoint:
  "a + n \<le> st \<or> st + length xs \<le> a \<Longrightarrow>
   load_bytes sb (store_bytes sb bc st xs) a n = load_bytes sb bc a n"
  by (rule load_bytes_cong) auto

lemma byte_at_mark [simp]: "byte_at sb (mark_buffer_dirty bc b) a = byte_at sb bc a"
  by (simp add: byte_at_def)

lemma load_bytes_mark [simp]: "load_bytes sb (mark_buffer_dirty bc b) a n = load_bytes sb bc a n"
  by (simp add: load_bytes_def)

lemma fnum_mark [simp]: "fnum sb (mark_buffer_dirty bc b) a n = fnum sb bc a n"
  by (simp add: fnum_def)

lemma valid_range_mark [simp]: "valid_range sb (mark_buffer_dirty bc b) lo n = valid_range sb bc lo n"
  by (simp add: valid_range_def)

lemma valid_range_store [simp]: "valid_range sb (store_bytes sb bc st xs) lo n = valid_range sb bc lo n"
  by (simp add: valid_range_def)

lemma valid_range_cong: "breadable bc = breadable bc' \<Longrightarrow> valid_range sb bc = valid_range sb bc'"
  by (intro ext) (simp add: valid_range_def)

section \<open>Bytes inside one block\<close>

lemma block_addr_div [simp]: "o' < s_blocksize sb \<Longrightarrow> (b * s_blocksize sb + o') div s_blocksize sb = b"
  by simp

lemma block_addr_mod [simp]: "o' < s_blocksize sb \<Longrightarrow> (b * s_blocksize sb + o') mod s_blocksize sb = o'"
  by simp

lemma within_block_div:
  assumes "a mod s_blocksize sb + n \<le> s_blocksize sb" and "i < n"
  shows "(a + i) div s_blocksize sb = a div s_blocksize sb"
    and "(a + i) mod s_blocksize sb = a mod s_blocksize sb + i"
proof -
  let ?k = "s_blocksize sb"
  have lt: "a mod ?k + i < ?k" using assms by simp
  have eq: "a + i = (a div ?k) * ?k + (a mod ?k + i)" by simp
  show "(a + i) div ?k = a div ?k" by (subst eq) (simp only: block_addr_div [OF lt])
  show "(a + i) mod ?k = a mod ?k + i" by (subst eq) (simp only: block_addr_mod [OF lt])
qed

lemma bytes_at_load:
  assumes "a mod s_blocksize sb + n \<le> s_blocksize sb"
  shows "bytes_at bc (a div s_blocksize sb) (a mod s_blocksize sb) n = load_bytes sb bc a n"
proof (rule nth_equalityI)
  fix i assume "i < length (bytes_at bc (a div s_blocksize sb) (a mod s_blocksize sb) n)"
  then have i: "i < n" by simp
  show "bytes_at bc (a div s_blocksize sb) (a mod s_blocksize sb) n ! i = load_bytes sb bc a n ! i"
    using within_block_div [OF assms i] i
    by (simp add: bytes_at_def load_bytes_def byte_at_def)
qed simp

lemma num_at_fnum:
  "a mod s_blocksize sb + n \<le> s_blocksize sb \<Longrightarrow>
   num_at bc (a div s_blocksize sb) (a mod s_blocksize sb) n = fnum sb bc a n"
  by (simp add: num_at_def fnum_def bytes_at_load)

lemma fnum_bound: "fnum sb bc a n < 256 ^ n"
  unfolding fnum_def using le_num_bound [of "load_bytes sb bc a n"] by simp

lemma block_le_iff:
  assumes "o' < k" shows "q * k \<le> b * k + o' \<longleftrightarrow> q \<le> (b::nat)"
proof
  assume "q * k \<le> b * k + o'"
  with assms have "q * k < Suc b * k" by simp
  then have "q < Suc b" by (simp only: mult_less_cancel2)
  then show "q \<le> b" by simp
next
  assume "q \<le> b"
  then have "q * k \<le> b * k" by (rule mult_le_mono1)
  then show "q * k \<le> b * k + o'" by (rule trans_le_add1)
qed

lemma block_range_iff:
  assumes "o' < k" and "r + n \<le> (k::nat)"
  shows "q * k + r \<le> b * k + o' \<and> b * k + o' < q * k + r + n \<longleftrightarrow>
    b = q \<and> r \<le> o' \<and> o' < r + n"
proof (cases b q rule: linorder_cases)
  case less
  then have "Suc b * k \<le> q * k" by (intro mult_le_mono1) simp
  with assms less show ?thesis by simp
next
  case equal
  then show ?thesis by auto
next
  case greater
  then have "Suc q * k \<le> b * k" by (intro mult_le_mono1) simp
  with assms greater show ?thesis by simp
qed

text \<open>Storing inside a block is \<open>put_bytes\<close> on that block.\<close>

lemma store_bytes_block:
  assumes "a mod s_blocksize sb + length xs \<le> s_blocksize sb" and "xs \<noteq> []"
  shows "store_bytes sb bc a xs =
    mark_buffer_dirty (put_bytes bc (a div s_blocksize sb) (a mod s_blocksize sb) xs)
      (a div s_blocksize sb)"
proof -
  let ?k = "s_blocksize sb"
  let ?q = "a div ?k" and ?r = "a mod ?k"
  have a: "?q * ?k + ?r = a" by simp
  have iff: "(a \<le> b * ?k + o' \<and> b * ?k + o' < a + length xs) \<longleftrightarrow>
      b = ?q \<and> ?r \<le> o' \<and> o' < ?r + length xs" if o': "o' < ?k" for b o'
    using block_range_iff [OF o' assms(1), of ?q b] unfolding a .
  have idx: "?q * ?k + o' - a = o' - ?r" if "?r \<le> o'" for o'
    using that a by linarith
  have data: "bdata (store_bytes sb bc a xs) = bdata (put_bytes bc ?q ?r xs)"
  proof (intro ext)
    fix b o'
    show "bdata (store_bytes sb bc a xs) b o' = bdata (put_bytes bc ?q ?r xs) b o'"
    proof (cases "o' < ?k")
      case True
      then show ?thesis
        using iff [OF True, of b] idx [of o'] by (auto simp: store_bytes_def put_bytes_def Let_def)
    next
      case False
      then show ?thesis
        using assms(1) by (auto simp: store_bytes_def put_bytes_def Let_def)
    qed
  qed
  have "(\<lambda>x. x div ?k) ` {a..<a + length xs} = {?q}"
  proof
    show "(\<lambda>x. x div ?k) ` {a..<a + length xs} \<subseteq> {?q}"
    proof
      fix y assume "y \<in> (\<lambda>x. x div ?k) ` {a..<a + length xs}"
      then obtain x where x: "x \<in> {a..<a + length xs}" and y: "y = x div ?k" by auto
      from x obtain i where "x = a + i" and "i < length xs"
        by (metis atLeastLessThan_iff le_iff_add nat_add_left_cancel_less)
      with y show "y \<in> {?q}" using within_block_div(1) [OF assms(1)] by simp
    qed
    show "{?q} \<subseteq> (\<lambda>x. x div ?k) ` {a..<a + length xs}" using assms(2) by force
  qed
  then show ?thesis
    using data by (intro bufcache.equality) (simp_all add: store_bytes_def)
qed

lemma store_bytes_append:
  "store_bytes sb (store_bytes sb bc st xs) (st + length xs) ys = store_bytes sb bc st (xs @ ys)"
proof (rule bufcache.equality)
  show "bdata (store_bytes sb (store_bytes sb bc st xs) (st + length xs) ys) =
        bdata (store_bytes sb bc st (xs @ ys))"
    by (intro ext) (auto simp: store_bytes_def Let_def nth_append)
  have "{st..<st + length xs} \<union> {st + length xs..<st + length xs + length ys} =
      {st..<st + length (xs @ ys)}" by auto
  then show "bdirty (store_bytes sb (store_bytes sb bc st xs) (st + length xs) ys) =
        bdirty (store_bytes sb bc st (xs @ ys))"
    by (simp add: store_bytes_def Un_assoc image_Un [symmetric])
qed simp_all

lemma store_bytes_Nil [simp]: "store_bytes sb bc st [] = bc"
  by (intro bufcache.equality ext) (auto simp: store_bytes_def Let_def)

section \<open>The block walk stays inside a valid range\<close>

lemma block_no_valid: "off div s_blocksize sb < 2 ^ 32 \<Longrightarrow> block_no sb off = off div s_blocksize sb"
  by (simp add: block_no_def drop_bit_nat_div s_blocksize_def u32_id)

lemma inblock_offset_ok: "s_blocksize_bits sb \<le> 30 \<Longrightarrow> inblock_offset sb off = Inr (off mod s_blocksize sb)"
  by (simp add: inblock_offset_def take_bit_nat_mod s_blocksize_def)

lemma valid_range_first:
  assumes "valid_range sb bc lo n"
  shows "breadable bc (lo div s_blocksize sb)" and "lo div s_blocksize sb < 2 ^ 32"
proof -
  have "lo div s_blocksize sb * s_blocksize sb < lo + max 1 n"
    by (rule le_less_trans [OF div_times_less_eq_dividend]) simp
  with assms show "breadable bc (lo div s_blocksize sb)" and "lo div s_blocksize sb < 2 ^ 32"
    unfolding valid_range_def by blast+
qed

lemma load_blockoff_valid:
  assumes "valid_range sb bc lo n"
  shows "load_blockoff sb bc lo =
    Inr (lo div s_blocksize sb, lo mod s_blocksize sb, s_blocksize sb - lo mod s_blocksize sb)"
  using assms valid_range_first [OF assms]
  by (simp add: load_blockoff_def block_no_valid inblock_offset_ok valid_range_def sb_bread_def)

lemma valid_range_next:
  assumes "valid_range sb bc lo n" and "lo div s_blocksize sb \<le> b"
    and "Suc b * s_blocksize sb < lo + n"
  shows "get_next_block sb bc b dirty =
    Inr (if dirty then mark_buffer_dirty bc b else bc, Suc b)"
proof -
  have "breadable bc (Suc b)" and "Suc b < 2 ^ 32"
    using assms unfolding valid_range_def by (metis le_SucI less_le_trans add_left_mono max.cobounded2)+
  then show ?thesis
    using assms(1) by (simp add: get_next_block_def inblock_offset_ok valid_range_def u32_id sb_bread_def)
qed

lemma copy_to_buf_ok:
  assumes "off + n \<le> s_blocksize sb" and "enough_data data n"
  shows "copy_to_buf sb bc b off data n = Inr (put_bytes bc b off (data_of data n))"
proof (cases data)
  case None
  have "fill_bytes bc b off n 0 = put_bytes bc b off (replicate n 0)"
    by (auto simp: fill_bytes_def put_bytes_def intro!: bufcache.equality ext)
  with None assms show ?thesis by (simp add: copy_to_buf_def data_of_def)
next
  case (Some xs)
  with assms show ?thesis by (simp add: copy_to_buf_def data_of_def enough_data_def)
qed

lemma store_aligned_head:
  assumes "length xs \<le> s_blocksize sb" and "xs \<noteq> []"
  shows "mark_buffer_dirty (put_bytes bc b 0 xs) b = store_bytes sb bc (b * s_blocksize sb) xs"
  using store_bytes_block [of "b * s_blocksize sb" sb xs bc] assms by simp

lemma mark_store_commute:
  "mark_buffer_dirty (store_bytes sb bc st xs) b = store_bytes sb (mark_buffer_dirty bc b) st xs"
  by (intro bufcache.equality ext) (simp_all add: store_bytes_def Let_def)

lemma mark_put_commute:
  "mark_buffer_dirty (put_bytes bc b off xs) b' = put_bytes (mark_buffer_dirty bc b') b off xs"
  by (intro bufcache.equality ext) (simp_all add: put_bytes_def)

lemma mark_mark [simp]:
  "mark_buffer_dirty (mark_buffer_dirty bc b) b = mark_buffer_dirty bc b"
  by (rule bufcache.equality) simp_all

lemma write_rest_spec:
  assumes "valid_range sb bc lo n" and "lo div s_blocksize sb \<le> b"
    and "enough_data data remaining" and "remaining = 0 \<or> Suc b * s_blocksize sb + remaining \<le> lo + n"
  shows "write_rest sb bc b data remaining =
    Inr (store_bytes sb (mark_buffer_dirty bc b) (Suc b * s_blocksize sb) (data_of data remaining))"
  using assms
proof (induction remaining arbitrary: bc b data rule: less_induct)
  case (less remaining)
  let ?k = "s_blocksize sb"
  show ?case
  proof (cases "remaining = 0")
    case True
    then show ?thesis
      by (subst write_rest.simps) (simp add: data_of_def split: option.split)
  next
    case False
    define w where "w = min ?k remaining"
    have w: "w \<le> ?k" "w \<le> remaining" "0 < w" using False by (auto simp: w_def)
    let ?bc = "put_bytes (mark_buffer_dirty bc b) (Suc b) 0 (data_of data w)"
    have len: "length (data_of data w) = w"
      using less.prems(3) w(2) by (simp add: enough_data_take)
    have next_ok: "get_next_block sb bc b True = Inr (mark_buffer_dirty bc b, Suc b)"
      using valid_range_next [OF less.prems(1,2)] less.prems(4) False by simp
    have copy: "copy_to_buf sb (mark_buffer_dirty bc b) (Suc b) 0 data w = Inr ?bc"
      using copy_to_buf_ok [of 0 w sb data] w less.prems(3) by (simp add: enough_data_take)
    have rest: "write_rest sb ?bc (Suc b) (map_option (drop w) data) (remaining - w) =
        Inr (store_bytes sb (mark_buffer_dirty ?bc (Suc b)) (Suc (Suc b) * ?k)
          (data_of (map_option (drop w) data) (remaining - w)))"
    proof (rule less.IH)
      show "remaining - w < remaining" using w False by simp
      show "valid_range sb ?bc lo n" using less.prems(1) by (simp add: valid_range_def)
      show "lo div ?k \<le> Suc b" using less.prems(2) by simp
      show "enough_data (map_option (drop w) data) (remaining - w)"
        using less.prems(3) w(2) by (rule enough_data_drop)
      show "remaining - w = 0 \<or> Suc (Suc b) * ?k + (remaining - w) \<le> lo + n"
        using less.prems(4) False by (auto simp: w_def min_def)
    qed
    have head: "mark_buffer_dirty ?bc (Suc b) =
        store_bytes sb (mark_buffer_dirty bc b) (Suc b * ?k) (data_of data w)"
      using len w by (intro store_aligned_head) auto
    have tail: "store_bytes sb (store_bytes sb (mark_buffer_dirty bc b) (Suc b * ?k) (data_of data w))
          (Suc (Suc b) * ?k) (data_of (map_option (drop w) data) (remaining - w)) =
        store_bytes sb (mark_buffer_dirty bc b) (Suc b * ?k) (data_of data remaining)"
    proof (cases "w = ?k")
      case True
      then have "Suc (Suc b) * ?k = Suc b * ?k + length (data_of data w)" using len by simp
      then show ?thesis
        by (simp only: store_bytes_append data_of_split [OF w(2), symmetric])
    next
      case F: False
      then have "w = remaining" by (simp add: w_def min_def split: if_splits)
      then show ?thesis by (simp add: data_of_def split: option.split)
    qed
    show ?thesis
      using False next_ok copy rest head tail
      by (subst write_rest.simps) (simp add: w_def [symmetric])
  qed
qed

text \<open>\<open>write_data_storage\<close> is the reference store, and it marks its first block dirty even when
  it stores nothing.\<close>

lemma write_data_storage_spec:
  assumes v: "valid_range sb bc lo n" and e: "enough_data data n"
  shows "write_data_storage sb bc lo data n =
    Inr (mark_buffer_dirty (store_bytes sb bc lo (data_of data n)) (lo div s_blocksize sb))"
proof -
  let ?k = "s_blocksize sb"
  let ?q = "lo div ?k" and ?r = "lo mod ?k"
  define w where "w = min (?k - ?r) n"
  have r: "?r < ?k" by simp
  have w: "?r + w \<le> ?k" "w \<le> n" using r unfolding w_def by linarith+
  have lo: "?q * ?k + ?r = lo" by simp
  have len: "length (data_of data w) = w" using e w(2) by (simp add: enough_data_take)
  have copy: "copy_to_buf sb bc ?q ?r data w = Inr (put_bytes bc ?q ?r (data_of data w))"
    using copy_to_buf_ok [OF w(1)] e w(2) by (simp add: enough_data_take)
  have rest: "write_rest sb (put_bytes bc ?q ?r (data_of data w)) ?q (map_option (drop w) data) (n - w) =
      Inr (store_bytes sb (mark_buffer_dirty (put_bytes bc ?q ?r (data_of data w)) ?q) (Suc ?q * ?k)
        (data_of (map_option (drop w) data) (n - w)))"
  proof (rule write_rest_spec)
    show "valid_range sb (put_bytes bc ?q ?r (data_of data w)) lo n"
      using v by (simp add: valid_range_def)
    show "enough_data (map_option (drop w) data) (n - w)" using e w(2) by (rule enough_data_drop)
    show "n - w = 0 \<or> Suc ?q * ?k + (n - w) \<le> lo + n"
      using lo r by (auto simp: w_def min_def)
  qed simp
  have "store_bytes sb (mark_buffer_dirty (put_bytes bc ?q ?r (data_of data w)) ?q) (Suc ?q * ?k)
        (data_of (map_option (drop w) data) (n - w)) =
      mark_buffer_dirty (store_bytes sb bc lo (data_of data n)) ?q"
  proof (cases "w = 0")
    case True
    then have "n = 0 \<or> ?k - ?r = 0" by (auto simp: w_def min_def split: if_splits)
    with r have "n = 0" by linarith
    with True show ?thesis by simp
  next
    case False
    then have head: "mark_buffer_dirty (put_bytes bc ?q ?r (data_of data w)) ?q =
        store_bytes sb bc lo (data_of data w)"
      using len w(1) by (intro store_bytes_block [symmetric]) auto
    have marked: "?q \<in> bdirty (store_bytes sb bc lo (data_of data n))"
    proof -
      have "lo \<in> {lo..<lo + length (data_of data n)}" using e False w(2) by simp
      then show ?thesis by (auto simp: store_bytes_def)
    qed
    have absorb: "mark_buffer_dirty (store_bytes sb bc lo (data_of data n)) ?q =
        store_bytes sb bc lo (data_of data n)"
      using marked by (intro bufcache.equality) auto
    show ?thesis
    proof (cases "w = n")
      case True
      then show ?thesis using head absorb by (simp add: data_of_def split: option.split)
    next
      case F: False
      then have "w = ?k - ?r" by (simp add: w_def min_def split: if_splits)
      then have "Suc ?q * ?k = lo + length (data_of data w)"
        using lo r unfolding len by (simp only: mult_Suc)
      then have "store_bytes sb (store_bytes sb bc lo (data_of data w)) (Suc ?q * ?k)
            (data_of (map_option (drop w) data) (n - w)) =
          store_bytes sb bc lo (data_of data w @ data_of (map_option (drop w) data) (n - w))"
        by (simp only: store_bytes_append)
      then show ?thesis
        using head absorb by (simp only: data_of_split [OF w(2), symmetric])
    qed
  qed
  then show ?thesis
    using load_blockoff_valid [OF v] copy rest
    by (simp add: write_data_storage_def w_def [symmetric])
qed

lemma copy_to_user_ok [simp]: "cursor + n \<le> ulen \<Longrightarrow> copy_to_user ulen cursor n = 0"
  by (simp add: copy_to_user_def)

lemma load_bytes_block:
  "n \<le> s_blocksize sb \<Longrightarrow> bytes_at bc b 0 n = load_bytes sb bc (b * s_blocksize sb) n"
  using bytes_at_load [of "b * s_blocksize sb" sb n bc] by simp

lemma read_rest_spec:
  assumes "valid_range sb bc lo n" and "lo div s_blocksize sb \<le> b"
    and "cursor + remaining \<le> ulen"
    and "remaining = 0 \<or> Suc b * s_blocksize sb + remaining \<le> lo + n"
  shows "read_rest sb bc b ulen cursor remaining =
    Inr (load_bytes sb bc (Suc b * s_blocksize sb) remaining)"
  using assms
proof (induction remaining arbitrary: b cursor rule: less_induct)
  case (less remaining)
  let ?k = "s_blocksize sb"
  show ?case
  proof (cases "remaining = 0")
    case True
    then show ?thesis by (subst read_rest.simps) (simp add: load_bytes_def)
  next
    case False
    define w where "w = min ?k remaining"
    have w: "w \<le> ?k" "w \<le> remaining" "0 < w" using False by (auto simp: w_def)
    have next_ok: "get_next_block sb bc b False = Inr (bc, Suc b)"
      using valid_range_next [OF less.prems(1,2)] less.prems(4) False by simp
    have rest: "read_rest sb bc (Suc b) ulen (cursor + w) (remaining - w) =
        Inr (load_bytes sb bc (Suc (Suc b) * ?k) (remaining - w))"
      by (rule less.IH) (use less.prems w False in \<open>auto simp: w_def min_def\<close>)
    have "load_bytes sb bc (Suc b * ?k) w @ load_bytes sb bc (Suc (Suc b) * ?k) (remaining - w) =
        load_bytes sb bc (Suc b * ?k) remaining"
    proof (cases "w = ?k")
      case True
      then have "Suc (Suc b) * ?k = Suc b * ?k + w" by simp
      then show ?thesis
        using load_bytes_append [of sb bc "Suc b * ?k" w "remaining - w"] w(2)
        by (simp add: ac_simps)
    next
      case F: False
      then have "w = remaining" by (simp add: w_def min_def split: if_splits)
      then show ?thesis by (simp add: load_bytes_def)
    qed
    then show ?thesis
      using False next_ok rest w less.prems(3) load_bytes_block [OF w(1), of bc "Suc b"]
      by (subst read_rest.simps) (simp add: w_def [symmetric])
  qed
qed

text \<open>\<open>read_data_storage\<close> is the reference load, when the user buffer is large enough.\<close>

lemma read_data_storage_spec:
  assumes v: "valid_range sb bc lo n" and u: "n \<le> ulen"
  shows "read_data_storage sb bc lo ulen n = Inr (load_bytes sb bc lo n)"
proof -
  let ?k = "s_blocksize sb"
  let ?q = "lo div ?k" and ?r = "lo mod ?k"
  define w where "w = min (?k - ?r) n"
  have r: "?r < ?k" by simp
  have w: "?r + w \<le> ?k" "w \<le> n" using r unfolding w_def by linarith+
  have lo: "?q * ?k + ?r = lo" by simp
  have rest: "read_rest sb bc ?q ulen w (n - w) = Inr (load_bytes sb bc (Suc ?q * ?k) (n - w))"
    by (rule read_rest_spec [OF v]) (use u w(2) lo r in \<open>auto simp: w_def min_def\<close>)
  have "load_bytes sb bc lo w @ load_bytes sb bc (Suc ?q * ?k) (n - w) = load_bytes sb bc lo n"
  proof (cases "w = n")
    case True
    then show ?thesis by (simp add: load_bytes_def)
  next
    case False
    then have "w = ?k - ?r" by (simp add: w_def min_def split: if_splits)
    then have "Suc ?q * ?k = lo + w" using lo r by (simp only: mult_Suc)
    then show ?thesis using load_bytes_append [of sb bc lo w "n - w"] w(2) by simp
  qed
  then show ?thesis
    using load_blockoff_valid [OF v] rest w u bytes_at_load [OF w(1), of bc]
    by (simp add: read_data_storage_def w_def [symmetric])
qed

text \<open>A user buffer that is too small panics the kernel: \<open>BUG_ON(ret)\<close>.\<close>

lemma read_data_storage_small_user_buffer:
  assumes v: "valid_range sb bc lo n" and "0 < n" and "ulen = 0"
  shows "read_data_storage sb bc lo ulen n = Inl Bug"
proof -
  have r: "lo mod s_blocksize sb < s_blocksize sb" by simp
  then have "lo mod s_blocksize sb + min (s_blocksize sb - lo mod s_blocksize sb) n \<le> s_blocksize sb"
    by linarith
  moreover have "0 < min (s_blocksize sb - lo mod s_blocksize sb) n" using assms(2) r by linarith
  ultimately show ?thesis
    using load_blockoff_valid [OF v] assms(3)
    by (simp add: read_data_storage_def copy_to_user_def)
qed

section \<open>Durability of a store\<close>

lemma store_bytes_tracks: "tracks {} bc (store_bytes sb bc lo xs)"
proof -
  have "bdata (store_bytes sb bc lo xs) b x = bdata bc b x" if b: "b \<notin> bdirty (store_bytes sb bc lo xs)" for b x
  proof -
    have "\<not> (x < s_blocksize sb \<and> lo \<le> b * s_blocksize sb + x \<and> b * s_blocksize sb + x < lo + length xs)"
    proof
      assume a: "x < s_blocksize sb \<and> lo \<le> b * s_blocksize sb + x \<and> b * s_blocksize sb + x < lo + length xs"
      define y where "y = b * s_blocksize sb + x"
      have "b = y div s_blocksize sb" and "y \<in> {lo..<lo + length xs}" using a by (simp_all add: y_def)
      with b show False by (auto simp: store_bytes_def)
    qed
    then show ?thesis by (auto simp: store_bytes_def Let_def)
  qed
  then show ?thesis by (auto simp: tracks_def store_bytes_def fun_eq_iff)
qed

lemma coherent_store_bytes [intro]: "coherent bc \<Longrightarrow> coherent (store_bytes sb bc lo xs)"
  by (rule coherent_tracks [OF _ store_bytes_tracks])

lemma coherent_mark [intro]: "coherent bc \<Longrightarrow> coherent (mark_buffer_dirty bc b)"
  by (simp add: coherent_def)

end
