(* ===== verification/ChunkStore.thy ===== *)
theory ChunkStore
  imports FlatStore
begin

text \<open>
  The chunk heap and its hash table as a store of keyed byte strings. \<open>chunk_store\<close> is the
  contract a client (file.c) relies on; \<open>heap_wf\<close> is the invariant of the on-disk structure
  under which the operations of chunk_handler.c meet it.
\<close>

section \<open>The contract\<close>

text \<open>
  \<open>holds s l h d\<close>: at location \<open>l\<close> the chunk with hash \<open>h\<close> and contents \<open>d\<close> is stored.
  \<open>fits s n\<close>: there is room for one more chunk of \<open>n\<close> bytes.
\<close>

locale chunk_store =
  fixes inv :: "'s \<Rightarrow> bool"
    and holds :: "'s \<Rightarrow> nat \<Rightarrow> nat \<Rightarrow> byte list \<Rightarrow> bool"
    and fits :: "'s \<Rightarrow> nat \<Rightarrow> bool"
    and search :: "'s \<Rightarrow> nat \<Rightarrow> nat res"
    and fill :: "'s \<Rightarrow> chunk \<Rightarrow> byte list \<Rightarrow> ('s \<times> nat) res"
  assumes search_total: "inv s \<Longrightarrow> \<exists>l. search s h = Inr l"
    and search_hit: "inv s \<Longrightarrow> search s h = Inr l \<Longrightarrow> l \<noteq> 0 \<Longrightarrow> \<exists>d. holds s l h d"
    and holds_found: "inv s \<Longrightarrow> holds s l h d \<Longrightarrow> search s h \<noteq> Inr 0"
    and holds_unique: "holds s l h d \<Longrightarrow> holds s l h' d' \<Longrightarrow> h = h' \<and> d = d'"
    and fill_ok: "inv s \<Longrightarrow> ck_hash m < 2 ^ 64 \<Longrightarrow> ck_length m = length d \<Longrightarrow> d \<noteq> [] \<Longrightarrow>
      fits s (length d) \<Longrightarrow> \<exists>s' l. fill s m d = Inr (s', l) \<and> inv s' \<and> l \<noteq> 0 \<and>
        holds s' l (ck_hash m) d \<and> search s' (ck_hash m) = Inr l \<and>
        (\<forall>h. h \<noteq> ck_hash m \<longrightarrow> search s' h = search s h) \<and>
        (\<forall>l' h' d'. holds s l' h' d' \<longrightarrow> holds s' l' h' d') \<and>
        (\<forall>l' h' d'. holds s' l' h' d' \<longrightarrow> holds s l' h' d' \<or> l' = l)"
begin

text \<open>Looking a chunk up and storing it only when it is absent, as file.c does.\<close>

definition keyed :: "(byte list \<Rightarrow> nat) \<Rightarrow> 's \<Rightarrow> bool" where
  "keyed H s \<longleftrightarrow> (\<forall>l h d. holds s l h d \<longrightarrow> h = H d)"

lemma place_hit:
  assumes "inv s" and "keyed H s" and "search s (H d) = Inr l" and "l \<noteq> 0"
    and "\<And>l d'. holds s l (H d) d' \<Longrightarrow> d' = d"
  shows "holds s l (H d) d"
  using search_hit [OF assms(1,3,4)] assms(5) by blast

lemma place_miss:
  assumes "inv s" and "keyed H s" and "ck_hash m = H d" and "H d < 2 ^ 64"
    and "ck_length m = length d" and "d \<noteq> []" and "fits s (length d)"
  shows "\<exists>s' l. fill s m d = Inr (s', l) \<and> inv s' \<and> keyed H s' \<and> l \<noteq> 0 \<and> holds s' l (H d) d \<and>
    (\<forall>l' h' d'. holds s l' h' d' \<longrightarrow> holds s' l' h' d')"
proof -
  from fill_ok [of s m d] assms obtain s' l where
      f: "fill s m d = Inr (s', l)" "inv s'" "l \<noteq> 0" "holds s' l (H d) d"
        "\<forall>l' h' d'. holds s l' h' d' \<longrightarrow> holds s' l' h' d'"
        "\<forall>l' h' d'. holds s' l' h' d' \<longrightarrow> holds s l' h' d' \<or> l' = l"
    by auto
  have "keyed H s'"
    unfolding keyed_def
  proof (intro allI impI)
    fix l' h' d' assume h: "holds s' l' h' d'"
    with f(6) consider "holds s l' h' d'" | "l' = l" by blast
    then show "h' = H d'"
    proof cases
      case 1
      then show ?thesis using assms(2) by (simp add: keyed_def)
    next
      case 2
      then show ?thesis using holds_unique [OF h, of "H d" d] f(4) by auto
    qed
  qed
  with f show ?thesis by blast
qed

end

section \<open>The structure on disk\<close>

definition chunk_hash_at :: "super_block \<Rightarrow> bufcache \<Rightarrow> nat \<Rightarrow> nat" where
  "chunk_hash_at sb bc l = fnum sb bc l 8"

definition chunk_len_at :: "super_block \<Rightarrow> bufcache \<Rightarrow> nat \<Rightarrow> nat" where
  "chunk_len_at sb bc l = fnum sb bc (l + 8) 4"

definition chunk_next_at :: "super_block \<Rightarrow> bufcache \<Rightarrow> nat \<Rightarrow> nat" where
  "chunk_next_at sb bc l = fnum sb bc (l + 16) 8"

primrec chain :: "super_block \<Rightarrow> bufcache \<Rightarrow> nat \<Rightarrow> nat list \<Rightarrow> bool" where
  "chain sb bc p [] \<longleftrightarrow> p = 0"
| "chain sb bc p (c # cs) \<longleftrightarrow> p = c \<and> 0 < c \<and> chain sb bc (chunk_next_at sb bc c) cs"

definition buckets :: "fs \<Rightarrow> nat" where
  "buckets s = hashtable_size (fs_info s) div 8"

definition entry_addr :: "fs \<Rightarrow> nat \<Rightarrow> nat" where
  "entry_addr s i = hashtable (fs_info s) + i * 8"

definition bucket :: "fs \<Rightarrow> nat \<Rightarrow> nat list \<Rightarrow> bool" where
  "bucket s i cs \<longleftrightarrow>
     chain (fs_sb s) (fs_bufs s) (fnum (fs_sb s) (fs_bufs s) (entry_addr s i) 8) cs"

definition heap_base :: "fs \<Rightarrow> nat" where
  "heap_base s = hashtable (fs_info s) + hashtable_size (fs_info s)"

definition chunk_wf :: "fs \<Rightarrow> nat \<Rightarrow> bool" where
  "chunk_wf s c \<longleftrightarrow> heap_base s \<le> c \<and>
     c mod s_blocksize (fs_sb s) + sizeof_chunk_head \<le> s_blocksize (fs_sb s) \<and>
     c + sizeof_chunk_head + chunk_len_at (fs_sb s) (fs_bufs s) c \<le> heap_brk (fs_info s)"

text \<open>The fixed geometry: where the table and the extra super block lie, and that the device
  returns every block of the volume. A volume is at most 4 GiB.\<close>

definition geometry_ok :: "fs \<Rightarrow> bool" where
  "geometry_ok s \<longleftrightarrow> (let sb = fs_sb s; info = fs_info s; bs = s_blocksize sb in
     9 \<le> s_blocksize_bits sb \<and> s_blocksize_bits sb \<le> 30 \<and>
     hashtable info mod 8 = 0 \<and> 0 < hashtable_size info div 8 \<and>
     s_nzones info * bs \<le> hashtable info \<and> 0 < hashtable info \<and>
     Suc (extra_sb_location info) * bs \<le> hashtable info \<and>
     max_brk info \<le> 2 ^ 32 \<and>
     (\<forall>b. b * bs < max_brk info \<longrightarrow> breadable (fs_bufs s) b))"

definition heap_wf :: "fs \<Rightarrow> bool" where
  "heap_wf s \<longleftrightarrow> geometry_ok s \<and>
     heap_base s \<le> heap_brk (fs_info s) \<and> heap_brk (fs_info s) \<le> max_brk (fs_info s) \<and>
     (\<forall>i < buckets s. \<exists>cs. bucket s i cs \<and>
        (\<forall>c \<in> set cs. chunk_wf s c \<and> chunk_hash_at (fs_sb s) (fs_bufs s) c mod buckets s = i))"

definition stored :: "fs \<Rightarrow> nat \<Rightarrow> bool" where
  "stored s l \<longleftrightarrow> (\<exists>i < buckets s. \<exists>cs. bucket s i cs \<and> l \<in> set cs)"

definition chunk_holds :: "fs \<Rightarrow> nat \<Rightarrow> nat \<Rightarrow> byte list \<Rightarrow> bool" where
  "chunk_holds s l h d \<longleftrightarrow> stored s l \<and> chunk_hash_at (fs_sb s) (fs_bufs s) l = h \<and>
     chunk_len_at (fs_sb s) (fs_bufs s) l = length d \<and>
     load_bytes (fs_sb s) (fs_bufs s) (l + sizeof_chunk_head) (length d) = d"

text \<open>Where the next chunk goes if no arithmetic wraps: a header does not straddle a block.\<close>

definition next_head :: "super_block \<Rightarrow> nat \<Rightarrow> nat" where
  "next_head sb brk = (if brk mod s_blocksize sb + sizeof_chunk_head \<le> s_blocksize sb then brk
     else Suc (brk div s_blocksize sb) * s_blocksize sb)"

definition chunk_fits :: "fs \<Rightarrow> nat \<Rightarrow> bool" where
  "chunk_fits s n \<longleftrightarrow>
     next_head (fs_sb s) (heap_brk (fs_info s)) + sizeof_chunk_head + n < max_brk (fs_info s)"

lemma chain_unique: "chain sb bc p cs \<Longrightarrow> chain sb bc p cs' \<Longrightarrow> cs = cs'"
proof (induction cs arbitrary: p cs')
  case Nil
  then show ?case by (cases cs') auto
next
  case (Cons c cs)
  then show ?case by (cases cs') auto
qed

lemma chain_pos: "chain sb bc p cs \<Longrightarrow> c \<in> set cs \<Longrightarrow> 0 < c"
  by (induction cs arbitrary: p) auto

lemma chain_cong:
  "(\<And>c. c \<in> set cs \<Longrightarrow> chunk_next_at sb bc c = chunk_next_at sb bc' c) \<Longrightarrow>
   chain sb bc p cs = chain sb bc' p cs"
  by (induction cs arbitrary: p) auto

lemma next_head_bounds:
  assumes "sizeof_chunk_head \<le> s_blocksize sb"
  shows "brk \<le> next_head sb brk" and "next_head sb brk < brk + sizeof_chunk_head"
    and "next_head sb brk mod s_blocksize sb + sizeof_chunk_head \<le> s_blocksize sb"
proof -
  let ?k = "s_blocksize sb"
  have d: "brk = brk div ?k * ?k + brk mod ?k" and m: "brk mod ?k < ?k" by simp_all
  have s: "Suc (brk div ?k) * ?k = brk div ?k * ?k + ?k" by simp
  show "brk \<le> next_head sb brk"
    unfolding next_head_def s using d m by (simp only: split: if_split) linarith
  show "next_head sb brk < brk + sizeof_chunk_head"
    unfolding next_head_def s using d m by (auto simp only: sizeof_chunk_head_def split: if_split)
  show "next_head sb brk mod ?k + sizeof_chunk_head \<le> ?k"
    using assms by (auto simp: next_head_def simp del: mult_Suc)
qed

section \<open>Allocating from the heap\<close>

lemma straddle_iff:
  "a div s_blocksize sb \<noteq> (a + (sizeof_chunk_head - 1)) div s_blocksize sb \<longleftrightarrow>
   \<not> a mod s_blocksize sb + sizeof_chunk_head \<le> s_blocksize sb"
proof -
  let ?k = "s_blocksize sb" and ?n = "sizeof_chunk_head"
  show ?thesis
  proof (cases "a mod ?k + ?n \<le> ?k")
    case True
    then show ?thesis
      using within_block_div(1) [OF True, of "?n - 1"] by (simp add: sizeof_chunk_head_def)
  next
    case False
    have "Suc (a div ?k) * ?k = a div ?k * ?k + ?k" by simp
    also have "\<dots> \<le> a + (?n - 1)"
      using False div_mult_mod_eq [of a ?k] by linarith
    finally have "Suc (a div ?k) \<le> (a + (?n - 1)) div ?k"
      by (simp only: less_eq_div_iff_mult_less_eq [OF s_blocksize_pos])
    with False show ?thesis by simp
  qed
qed

text \<open>What the 32-bit arithmetic of the alignment really computes.\<close>

lemma align_brk_eq:
  assumes "sizeof_chunk_head \<le> s_blocksize sb" and "brk + sizeof_chunk_head < 2 ^ 64"
    and "Suc (brk div s_blocksize sb) < 2 ^ 32"
  shows "align_brk sb brk =
    (if brk mod s_blocksize sb + sizeof_chunk_head \<le> s_blocksize sb then brk
     else next_head sb brk mod 2 ^ 32)"
proof -
  let ?k = "s_blocksize sb"
  let ?e = "brk + (sizeof_chunk_head - 1)"
  have n: "u64 (brk + sizeof_chunk_head - 1) = ?e"
    using assms(2) by (simp add: u64_id sizeof_chunk_head_def)
  have "?e div ?k \<le> (brk + ?k) div ?k"
    using assms(1) by (intro div_le_mono) simp
  also have "\<dots> = Suc (brk div ?k)" by (simp add: div_add_self2)
  finally have "?e div ?k < 2 ^ 32" using assms(3) by (rule le_less_trans)
  then have "block_no sb ?e = ?e div ?k" and "block_no sb brk = brk div ?k"
    using assms(3) by (simp_all add: block_no_valid)
  then have "align_brk sb brk = (if brk div ?k \<noteq> ?e div ?k
      then shl32 (u32 (brk div ?k + 1)) (s_blocksize_bits sb) else brk)"
    unfolding align_brk_def n by simp
  also have "\<dots> = (if brk mod ?k + sizeof_chunk_head \<le> ?k then brk else next_head sb brk mod 2 ^ 32)"
    unfolding straddle_iff using assms(3)
    by (simp add: shl32_def u32_id next_head_def s_blocksize_def [symmetric] del: mult_Suc) (simp add: u32_def)
  finally show ?thesis .
qed

lemma align_brk_next_head:
  assumes "sizeof_chunk_head \<le> s_blocksize sb" and "brk + sizeof_chunk_head < 2 ^ 64"
    and "Suc (brk div s_blocksize sb) < 2 ^ 32" and "next_head sb brk < 2 ^ 32"
  shows "align_brk sb brk = next_head sb brk"
  using align_brk_eq [OF assms(1-3)] assms(4) by (auto simp: next_head_def)

lemma align_brk_wraps:
  assumes "sizeof_chunk_head \<le> s_blocksize sb" and "brk + sizeof_chunk_head < 2 ^ 64"
    and "Suc (brk div s_blocksize sb) < 2 ^ 32" and "2 ^ 32 \<le> next_head sb brk"
    and "\<not> brk mod s_blocksize sb + sizeof_chunk_head \<le> s_blocksize sb"
  shows "align_brk sb brk = next_head sb brk mod 2 ^ 32"
  using align_brk_eq [OF assms(1-3)] assms(5) by simp

lemma geometry_okD:
  assumes "geometry_ok s"
  shows "9 \<le> s_blocksize_bits (fs_sb s)" and "s_blocksize_bits (fs_sb s) \<le> 30"
    and "hashtable (fs_info s) mod 8 = 0" and "0 < buckets s"
    and "s_nzones (fs_info s) * s_blocksize (fs_sb s) \<le> hashtable (fs_info s)"
    and "0 < hashtable (fs_info s)"
    and "Suc (extra_sb_location (fs_info s)) * s_blocksize (fs_sb s) \<le> hashtable (fs_info s)"
    and "max_brk (fs_info s) \<le> 2 ^ 32"
    and "\<And>b. b * s_blocksize (fs_sb s) < max_brk (fs_info s) \<Longrightarrow> breadable (fs_bufs s) b"
  using assms by (simp_all add: geometry_ok_def buckets_def Let_def)

lemma geometry_blocksize:
  assumes "geometry_ok s"
  shows "512 \<le> s_blocksize (fs_sb s)" and "8 dvd s_blocksize (fs_sb s)"
    and "sizeof_chunk_head \<le> s_blocksize (fs_sb s)"
proof -
  have "(2::nat) ^ 9 \<le> s_blocksize (fs_sb s)"
    unfolding s_blocksize_def using geometry_okD(1) [OF assms] by (rule power_increasing) simp
  then show "512 \<le> s_blocksize (fs_sb s)" by simp
  then show "sizeof_chunk_head \<le> s_blocksize (fs_sb s)" by (simp add: sizeof_chunk_head_def)
  have "(2::nat) ^ 3 dvd s_blocksize (fs_sb s)"
    unfolding s_blocksize_def using geometry_okD(1) [OF assms] by (intro le_imp_power_dvd) simp
  then show "8 dvd s_blocksize (fs_sb s)" by simp
qed

text \<open>Every address range of the volume is a valid range.\<close>

lemma geometry_valid_range:
  assumes g: "geometry_ok s" and "0 < lo" and "lo + max 1 n \<le> max_brk (fs_info s)"
  shows "valid_range (fs_sb s) (fs_bufs s) lo n"
  unfolding valid_range_def
proof (intro conjI allI impI)
  show "s_blocksize_bits (fs_sb s) \<le> 30" by (rule geometry_okD(2) [OF g])
  show "0 < lo" by fact
  fix b assume "b * s_blocksize (fs_sb s) < lo + max 1 n"
  with assms(3) have b: "b * s_blocksize (fs_sb s) < max_brk (fs_info s)" by simp
  then show "breadable (fs_bufs s) b" by (rule geometry_okD(9) [OF g])
  have "b \<le> b * s_blocksize (fs_sb s)" by simp
  with b geometry_okD(8) [OF g] show "b < 2 ^ 32" by linarith
qed

text \<open>\<open>update_brk_on_disk\<close> stores into the extra super block.\<close>

definition esb_addr :: "fs \<Rightarrow> nat" where
  "esb_addr s = extra_sb_location (fs_info s) * s_blocksize (fs_sb s) + 16"

lemma update_brk_spec:
  assumes g: "geometry_ok s" and m: "hashtable (fs_info s) \<le> max_brk (fs_info s)"
  shows "update_brk_on_disk s brk =
    Inr (s\<lparr>fs_bufs := store_bytes (fs_sb s) (fs_bufs s) (esb_addr s) (le_bytes 8 brk)\<rparr>)"
proof -
  let ?e = "extra_sb_location (fs_info s)" and ?k = "s_blocksize (fs_sb s)"
  have "Suc ?e * ?k \<le> max_brk (fs_info s)" using geometry_okD(7) [OF g] m by linarith
  then have "?e * ?k < max_brk (fs_info s)"
    by (rule less_le_trans [rotated]) simp
  then have r: "breadable (fs_bufs s) ?e" by (rule geometry_okD(9) [OF g])
  have k: "16 < ?k" "24 \<le> ?k" using geometry_blocksize(1) [OF g] by simp_all
  have "store_bytes (fs_sb s) (fs_bufs s) (esb_addr s) (le_bytes 8 brk) =
      mark_buffer_dirty (put_num (fs_bufs s) ?e 16 8 brk) ?e"
    using store_bytes_block [of "esb_addr s" "fs_sb s" "le_bytes 8 brk" "fs_bufs s"] k
    by (simp add: esb_addr_def put_num_def)
  then show ?thesis
    using geometry_okD(1) [OF g] r k
    by (simp add: update_brk_on_disk_def load_block_def sb_bread_def set_num_def)
qed

definition after_alloc :: "fs \<Rightarrow> nat \<Rightarrow> fs" where
  "after_alloc s brk = s\<lparr>fs_info := (fs_info s)\<lparr>heap_brk := brk\<rparr>,
     fs_bufs := store_bytes (fs_sb s) (fs_bufs s) (esb_addr s) (le_bytes 8 brk)\<rparr>"

lemma chunk_fits_bounds:
  assumes h: "heap_wf s" and f: "chunk_fits s n"
  defines "new \<equiv> next_head (fs_sb s) (heap_brk (fs_info s))"
  shows "heap_brk (fs_info s) \<le> new" and "heap_base s \<le> new" and "hashtable (fs_info s) < new"
    and "new + sizeof_chunk_head + n < max_brk (fs_info s)"
    and "new + sizeof_chunk_head + n < 2 ^ 32"
    and "align_brk (fs_sb s) (heap_brk (fs_info s)) = new"
    and "new mod s_blocksize (fs_sb s) + sizeof_chunk_head \<le> s_blocksize (fs_sb s)"
proof -
  from h have g: "geometry_ok s" and b: "heap_base s \<le> heap_brk (fs_info s)"
    by (simp_all add: heap_wf_def)
  note k = geometry_blocksize [OF g]
  show new: "heap_brk (fs_info s) \<le> new" unfolding new_def by (rule next_head_bounds(1) [OF k(3)])
  with b show "heap_base s \<le> new" by simp
  moreover have "hashtable (fs_info s) < heap_base s"
    using geometry_okD(4) [OF g] by (simp add: heap_base_def buckets_def)
  ultimately show "hashtable (fs_info s) < new" by simp
  show m: "new + sizeof_chunk_head + n < max_brk (fs_info s)"
    using f by (simp add: chunk_fits_def new_def)
  with geometry_okD(8) [OF g] show l: "new + sizeof_chunk_head + n < 2 ^ 32" by simp
  have "heap_brk (fs_info s) div s_blocksize (fs_sb s) \<le> heap_brk (fs_info s) div 2"
    using k(1) by (intro div_le_mono2) auto
  moreover have "heap_brk (fs_info s) < 2 ^ 32" using l new by linarith
  ultimately have q: "Suc (heap_brk (fs_info s) div s_blocksize (fs_sb s)) < 2 ^ 32" by simp
  show "align_brk (fs_sb s) (heap_brk (fs_info s)) = new"
    unfolding new_def
  proof (rule align_brk_next_head [OF k(3) _ q])
    show "heap_brk (fs_info s) + sizeof_chunk_head < 2 ^ 64" using l new by simp
    show "next_head (fs_sb s) (heap_brk (fs_info s)) < 2 ^ 32" using l by (simp add: new_def)
  qed
  show "new mod s_blocksize (fs_sb s) + sizeof_chunk_head \<le> s_blocksize (fs_sb s)"
    unfolding new_def by (rule next_head_bounds(3) [OF k(3)])
qed

lemma chunk_alloc_spec:
  assumes h: "heap_wf s" and "0 < n" and f: "chunk_fits s n"
  defines "new \<equiv> next_head (fs_sb s) (heap_brk (fs_info s))"
  shows "chunk_alloc s (int n) = Inr (after_alloc s (new + sizeof_chunk_head + n), new)"
proof -
  from h have g: "geometry_ok s" and b: "heap_base s \<le> heap_brk (fs_info s)"
    by (simp_all add: heap_wf_def)
  note B = chunk_fits_bounds [OF h f, folded new_def]
  have z: "s_nzones (fs_info s) * s_blocksize (fs_sb s) < heap_brk (fs_info s)"
    using geometry_okD(4,5) [OF g] b by (simp add: heap_base_def buckets_def)
  then have "shl64 (s_nzones (fs_info s)) (s_blocksize_bits (fs_sb s)) < heap_brk (fs_info s)"
    using B(1,5) by (simp add: shl64_def s_blocksize_def u64_def)
  moreover have "u64 (new + sizeof_chunk_head + n) = new + sizeof_chunk_head + n"
    using B(5) by (intro u64_id) simp
  moreover have "update_brk_on_disk (s\<lparr>fs_info := (fs_info s)\<lparr>heap_brk := v\<rparr>\<rparr>) v = Inr (after_alloc s v)" for v
  proof -
    have "geometry_ok (s\<lparr>fs_info := (fs_info s)\<lparr>heap_brk := v\<rparr>\<rparr>)"
      using g by (simp add: geometry_ok_def Let_def)
    then show ?thesis
      using B(3,4) by (subst update_brk_spec) (simp_all add: after_alloc_def esb_addr_def)
  qed
  ultimately show ?thesis
    using assms(2) B(4,6) by (simp add: chunk_alloc_def Let_def new_def [symmetric])
qed

section \<open>Searching\<close>

definition header_readable :: "super_block \<Rightarrow> bufcache \<Rightarrow> nat \<Rightarrow> bool" where
  "header_readable sb bc c \<longleftrightarrow> valid_range sb bc c sizeof_chunk_head \<and>
     c mod s_blocksize sb + sizeof_chunk_head \<le> s_blocksize sb"

definition first_match :: "super_block \<Rightarrow> bufcache \<Rightarrow> nat \<Rightarrow> nat list \<Rightarrow> nat" where
  "first_match sb bc h cs =
     (case find (\<lambda>c. chunk_hash_at sb bc c = h) cs of None \<Rightarrow> 0 | Some c \<Rightarrow> c)"

lemma get_num_field:
  assumes "c mod s_blocksize sb + (k + n) \<le> s_blocksize sb" and "0 < n"
  shows "get_num sb bc (c div s_blocksize sb) (c mod s_blocksize sb + k) n = Inr (fnum sb bc (c + k) n)"
proof -
  have w: "c mod s_blocksize sb + Suc k \<le> s_blocksize sb" using assms by simp
  have "(c + k) div s_blocksize sb = c div s_blocksize sb"
    and "(c + k) mod s_blocksize sb = c mod s_blocksize sb + k"
    using within_block_div [OF w, of k] by simp_all
  then show ?thesis
    using num_at_fnum [of "c + k" sb n bc] assms(1) by (simp add: get_num_def)
qed

lemma search_chain_spec:
  assumes "chain sb bc p cs" and "\<forall>c \<in> set cs. header_readable sb bc c"
  shows "search_chain sb bc h p = Some (Inr (first_match sb bc h cs))"
  using assms
proof (induction cs arbitrary: p)
  case Nil
  then show ?case by (simp add: search_chain.simps first_match_def)
next
  case (Cons c cs)
  have c: "p = c" "0 < c" "chain sb bc (chunk_next_at sb bc c) cs" using Cons.prems(1) by auto
  have r: "valid_range sb bc c sizeof_chunk_head"
    "c mod s_blocksize sb + sizeof_chunk_head \<le> s_blocksize sb"
    using Cons.prems(2) by (simp_all add: header_readable_def)
  have hash: "get_num sb bc (c div s_blocksize sb) (c mod s_blocksize sb) 8 = Inr (chunk_hash_at sb bc c)"
    using get_num_field [of c sb 0 8 bc] r(2) by (simp add: chunk_hash_at_def sizeof_chunk_head_def)
  have nxt: "get_num sb bc (c div s_blocksize sb) (c mod s_blocksize sb + 16) 8 = Inr (chunk_next_at sb bc c)"
    using get_num_field [of c sb 16 8 bc] r(2) by (simp add: chunk_next_at_def sizeof_chunk_head_def)
  show ?case
    using Cons.IH [OF c(3)] Cons.prems(2) c(1,2) load_blockoff_valid [OF r(1)] hash nxt
    by (subst search_chain.simps) (simp add: first_match_def)
qed

lemma chunk_wf_readable:
  assumes "heap_wf s" and "chunk_wf s c"
  shows "header_readable (fs_sb s) (fs_bufs s) c"
proof -
  from assms have g: "geometry_ok s" and b: "heap_brk (fs_info s) \<le> max_brk (fs_info s)"
    by (simp_all add: heap_wf_def)
  have "0 < c" using assms(2) geometry_okD(6) [OF g] by (simp add: chunk_wf_def heap_base_def)
  then have "valid_range (fs_sb s) (fs_bufs s) c sizeof_chunk_head"
    using assms(2) b by (intro geometry_valid_range [OF g])
      (auto simp: chunk_wf_def sizeof_chunk_head_def)
  then show ?thesis using assms(2) by (simp add: header_readable_def chunk_wf_def)
qed

lemma entry_bounds:
  assumes h: "heap_wf s" and i: "i < buckets s"
  shows "0 < entry_addr s i" and "entry_addr s i + 8 \<le> heap_base s"
    and "entry_addr s i mod s_blocksize (fs_sb s) + 8 \<le> s_blocksize (fs_sb s)"
    and "entry_addr s i < 2 ^ 32" and "valid_range (fs_sb s) (fs_bufs s) (entry_addr s i) 8"
    and "hashtable (fs_info s) \<le> entry_addr s i"
proof -
  from h have g: "geometry_ok s" and b: "heap_base s \<le> max_brk (fs_info s)"
    by (auto simp: heap_wf_def)
  show z: "0 < entry_addr s i" and t: "hashtable (fs_info s) \<le> entry_addr s i"
    using geometry_okD(6) [OF g] by (simp_all add: entry_addr_def)
  have "Suc i * 8 \<le> hashtable_size (fs_info s) div 8 * 8"
    using i unfolding buckets_def by (intro mult_le_mono1) simp
  also have "\<dots> \<le> hashtable_size (fs_info s)" by (rule div_times_less_eq_dividend)
  finally have "Suc i * 8 \<le> hashtable_size (fs_info s)" .
  then show e: "entry_addr s i + 8 \<le> heap_base s"
    by (simp add: entry_addr_def heap_base_def)
  from e b geometry_okD(8) [OF g] show "entry_addr s i < 2 ^ 32" by linarith
  from e b z show "valid_range (fs_sb s) (fs_bufs s) (entry_addr s i) 8"
    by (intro geometry_valid_range [OF g]) auto
  have d: "8 dvd s_blocksize (fs_sb s)" by (rule geometry_blocksize(2) [OF g])
  have "8 dvd entry_addr s i"
    using geometry_okD(3) [OF g] by (simp add: entry_addr_def dvd_eq_mod_eq_0)
  with d have "8 dvd entry_addr s i mod s_blocksize (fs_sb s)" by (simp add: dvd_mod)
  then obtain m where m: "entry_addr s i mod s_blocksize (fs_sb s) = 8 * m" by blast
  from d obtain n where n: "s_blocksize (fs_sb s) = 8 * n" by blast
  have "entry_addr s i mod s_blocksize (fs_sb s) < s_blocksize (fs_sb s)" by simp
  then have "8 * m < 8 * n" using m n by linarith
  then have "m + 1 \<le> n" by simp
  then show "entry_addr s i mod s_blocksize (fs_sb s) + 8 \<le> s_blocksize (fs_sb s)"
    using m n by linarith
qed

lemma hashtable_hash_bucket:
  "0 < buckets s \<Longrightarrow> hashtable_hash (fs_info s) h = Inr (h mod buckets s)"
  by (simp add: hashtable_hash_def buckets_def)

lemma chunk_search_spec:
  assumes h: "heap_wf s" and b: "bucket s (h mod buckets s) cs"
  shows "chunk_search_hashtable s h = Inr (first_match (fs_sb s) (fs_bufs s) h cs)"
proof -
  let ?i = "h mod buckets s" and ?sb = "fs_sb s" and ?bc = "fs_bufs s"
  from h have g: "geometry_ok s" by (simp add: heap_wf_def)
  have i: "?i < buckets s" using geometry_okD(4) [OF g] by simp
  note E = entry_bounds [OF h i]
  have u: "u64 (hashtable (fs_info s) + ?i * 8) = entry_addr s ?i"
    using E(4) by (simp add: entry_addr_def u64_id)
  have num: "get_num ?sb ?bc (entry_addr s ?i div s_blocksize ?sb) (entry_addr s ?i mod s_blocksize ?sb) 8 =
      Inr (fnum ?sb ?bc (entry_addr s ?i) 8)"
    using get_num_field [of "entry_addr s ?i" ?sb 0 8 ?bc] E(3) by simp
  obtain cs' where cs': "bucket s ?i cs'" "\<forall>c \<in> set cs'. chunk_wf s c"
    using h i unfolding heap_wf_def by blast
  have "cs' = cs" using cs'(1) b unfolding bucket_def by (rule chain_unique)
  then have "search_chain ?sb ?bc h (fnum ?sb ?bc (entry_addr s ?i) 8) =
      Some (Inr (first_match ?sb ?bc h cs))"
    using b cs'(2) chunk_wf_readable [OF h] by (intro search_chain_spec) (auto simp: bucket_def)
  moreover have "\<not> s_blocksize ?sb - entry_addr s ?i mod s_blocksize ?sb < 8"
    using E(3) by linarith
  ultimately show ?thesis
    using geometry_okD(4) [OF g] load_blockoff_valid [OF E(5)] num u
    by (simp add: chunk_search_hashtable_def cominix_sb_def hashtable_hash_bucket Let_def)
qed

lemma heap_bucket:
  assumes "heap_wf s"
  obtains cs where "bucket s (h mod buckets s) cs"
    and "\<And>c. c \<in> set cs \<Longrightarrow> chunk_wf s c"
    and "\<And>c. c \<in> set cs \<Longrightarrow> chunk_hash_at (fs_sb s) (fs_bufs s) c mod buckets s = h mod buckets s"
proof -
  have "h mod buckets s < buckets s"
    using assms geometry_okD(4) by (simp add: heap_wf_def)
  then show ?thesis using assms that unfolding heap_wf_def by blast
qed

lemma heap_bucket_ex:
  "heap_wf s \<Longrightarrow> \<exists>cs. bucket s (h mod buckets s) cs \<and> (\<forall>c \<in> set cs. chunk_wf s c)"
  by (rule heap_bucket [of s h]) auto

lemma stored_bucket:
  assumes h: "heap_wf s" and l: "stored s l"
  shows "\<exists>cs. bucket s (chunk_hash_at (fs_sb s) (fs_bufs s) l mod buckets s) cs \<and> l \<in> set cs \<and> chunk_wf s l"
proof -
  from l obtain i cs where i: "i < buckets s" and b: "bucket s i cs" and c: "l \<in> set cs"
    by (auto simp: stored_def)
  from h i obtain cs' where cs': "bucket s i cs'"
      "\<forall>c \<in> set cs'. chunk_wf s c \<and> chunk_hash_at (fs_sb s) (fs_bufs s) c mod buckets s = i"
    unfolding heap_wf_def by blast
  have "cs' = cs" using cs'(1) b unfolding bucket_def by (rule chain_unique)
  with cs' b c show ?thesis by auto
qed

section \<open>Storing\<close>

lemma length_chunk_bytes [simp]: "length (chunk_bytes m) = sizeof_chunk_head"
  by (simp add: chunk_bytes_def sizeof_chunk_head_def)

lemma load_bytes_part:
  assumes "load_bytes sb bc st n = xs" and "i + k \<le> n"
  shows "load_bytes sb bc (st + i) k = take k (drop i xs)"
proof -
  have "load_bytes sb bc st n = load_bytes sb bc st i @ load_bytes sb bc (st + i) (n - i)"
    using load_bytes_append [of sb bc st i "n - i"] assms(2) by simp
  moreover have "load_bytes sb bc (st + i) (n - i) =
      load_bytes sb bc (st + i) k @ load_bytes sb bc (st + i + k) (n - i - k)"
    using load_bytes_append [of sb bc "st + i" k "n - i - k"] assms(2) by simp
  ultimately show ?thesis using assms(1) by auto
qed

lemma chunk_bytes_fields:
  assumes "load_bytes sb bc l sizeof_chunk_head = chunk_bytes m"
  shows "chunk_hash_at sb bc l = ck_hash m mod 2 ^ 64"
    and "chunk_len_at sb bc l = ck_length m mod 2 ^ 32"
    and "chunk_next_at sb bc l = ck_next m mod 2 ^ 64"
  using load_bytes_part [OF assms, of 0 8] load_bytes_part [OF assms, of 8 4]
    load_bytes_part [OF assms, of 16 8]
  by (simp_all add: chunk_hash_at_def chunk_len_at_def chunk_next_at_def fnum_def
      sizeof_chunk_head_def chunk_bytes_def)

text \<open>The state after \<open>chunk_fill_hashtable\<close>: four stores on the flat device.\<close>

definition after_fill :: "fs \<Rightarrow> chunk \<Rightarrow> byte list \<Rightarrow> fs" where
  "after_fill s m d = (let sb = fs_sb s; new = next_head sb (heap_brk (fs_info s));
       s1 = after_alloc s (new + sizeof_chunk_head + length d);
       e = entry_addr s (ck_hash m mod buckets s);
       old = fnum sb (fs_bufs s) e 8;
       b1 = store_bytes sb (fs_bufs s1) e (le_bytes 8 new);
       b2 = store_bytes sb b1 new (chunk_bytes (m\<lparr>ck_next := old\<rparr>))
     in s1\<lparr>fs_bufs := store_bytes sb b2 (new + sizeof_chunk_head) d\<rparr>)"

lemma store_marks: "xs \<noteq> [] \<Longrightarrow> mark_buffer_dirty (store_bytes sb bc st xs) (st div s_blocksize sb) = store_bytes sb bc st xs"
  by (intro bufcache.equality) (force simp: store_bytes_def)+

lemma set_num_store:
  assumes "a mod s_blocksize sb + n \<le> s_blocksize sb" and "0 < n"
  shows "set_num sb bc (a div s_blocksize sb) (a mod s_blocksize sb) n v =
      Inr (put_num bc (a div s_blocksize sb) (a mod s_blocksize sb) n v)"
    and "mark_buffer_dirty (put_num bc (a div s_blocksize sb) (a mod s_blocksize sb) n v)
      (a div s_blocksize sb) = store_bytes sb bc a (le_bytes n v)"
  using assms store_bytes_block [of a sb "le_bytes n v" bc]
  by (simp_all add: set_num_def put_num_def)

lemma copy_chunk_spec:
  assumes "d \<noteq> []"
    and "ck_length m = length d" and "st + sizeof_chunk_head < 2 ^ 64"
    and "valid_range sb bc (st + sizeof_chunk_head) (length d)"
    and "valid_range sb bc st sizeof_chunk_head"
  shows "copy_chunk_into_storage sb bc st m d =
    Inr (store_bytes sb (store_bytes sb bc st (chunk_bytes m)) (st + sizeof_chunk_head) d)"
proof -
  have "chunk_bytes m \<noteq> []"
    using length_chunk_bytes [of m] by (metis length_greater_0_conv sizeof_chunk_head_def zero_less_numeral)
  then have "write_data_storage sb bc st (Some (chunk_bytes m)) sizeof_chunk_head =
      Inr (store_bytes sb bc st (chunk_bytes m))"
    using write_data_storage_spec [OF assms(5), of "Some (chunk_bytes m)"]
    by (simp add: enough_data_def data_of_def store_marks)
  moreover have "write_data_storage sb (store_bytes sb bc st (chunk_bytes m))
        (st + sizeof_chunk_head) (Some d) (length d) =
      Inr (store_bytes sb (store_bytes sb bc st (chunk_bytes m)) (st + sizeof_chunk_head) d)"
    using write_data_storage_spec [of sb _ "st + sizeof_chunk_head" "length d" "Some d"] assms(1,4)
    by (simp add: enough_data_def data_of_def store_marks)
  ultimately show ?thesis
    using assms(2,3) by (simp add: copy_chunk_into_storage_def u64_id)
qed

lemma esb_below:
  assumes "geometry_ok s" shows "esb_addr s + 8 \<le> hashtable (fs_info s)"
proof -
  have "esb_addr s + 8 \<le> Suc (extra_sb_location (fs_info s)) * s_blocksize (fs_sb s)"
    using geometry_blocksize(1) [OF assms] by (simp add: esb_addr_def)
  with geometry_okD(7) [OF assms] show ?thesis by linarith
qed

lemma after_alloc_sel [simp]:
  "fs_sb (after_alloc s brk) = fs_sb s"
  "fs_info (after_alloc s brk) = (fs_info s)\<lparr>heap_brk := brk\<rparr>"
  "breadable (fs_bufs (after_alloc s brk)) = breadable (fs_bufs s)"
  by (simp_all add: after_alloc_def)

lemma after_alloc_byte:
  assumes "geometry_ok s" and "hashtable (fs_info s) \<le> a"
  shows "byte_at (fs_sb s) (fs_bufs (after_alloc s brk)) a = byte_at (fs_sb s) (fs_bufs s) a"
  using esb_below [OF assms(1)] assms(2) by (simp add: after_alloc_def)

lemma after_alloc_fnum:
  assumes "geometry_ok s" and "hashtable (fs_info s) \<le> a"
  shows "fnum (fs_sb s) (fs_bufs (after_alloc s brk)) a n = fnum (fs_sb s) (fs_bufs s) a n"
  using assms by (intro fnum_cong after_alloc_byte) auto

lemma after_fill_sel:
  "fs_sb (after_fill s m d) = fs_sb s"
  "fs_info (after_fill s m d) = (fs_info s)\<lparr>heap_brk :=
     next_head (fs_sb s) (heap_brk (fs_info s)) + sizeof_chunk_head + length d\<rparr>"
  "breadable (fs_bufs (after_fill s m d)) = breadable (fs_bufs s)"
  by (simp_all add: after_fill_def Let_def)

lemma chunk_fill_spec:
  assumes h: "heap_wf s" and d: "d \<noteq> []" "ck_length m = length d" and f: "chunk_fits s (length d)"
  shows "chunk_fill_hashtable s m d =
    Inr (after_fill s m d, next_head (fs_sb s) (heap_brk (fs_info s)))"
proof -
  let ?sb = "fs_sb s" and ?i = "ck_hash m mod buckets s"
  define new where "new = next_head ?sb (heap_brk (fs_info s))"
  define s1 where "s1 = after_alloc s (new + sizeof_chunk_head + length d)"
  define e where "e = entry_addr s ?i"
  define old where "old = fnum ?sb (fs_bufs s) e 8"
  define b1 where "b1 = store_bytes ?sb (fs_bufs s1) e (le_bytes 8 new)"
  from h have g: "geometry_ok s" by (simp add: heap_wf_def)
  have i: "?i < buckets s" using geometry_okD(4) [OF g] by simp
  note E = entry_bounds [OF h i, folded e_def] and B = chunk_fits_bounds [OF h f, folded new_def]
  have alloc: "chunk_alloc s (int (ck_length m)) = Inr (s1, new)"
    using chunk_alloc_spec [OF h _ f] d by (simp add: s1_def new_def)
  have s1: "fs_sb s1 = ?sb" "hashtable (fs_info s1) = hashtable (fs_info s)"
      "hashtable_hash (fs_info s1) (ck_hash m) = Inr ?i"
    using geometry_okD(4) [OF g] by (auto simp: s1_def hashtable_hash_def buckets_def)
  have u: "u64 (hashtable (fs_info s) + ?i * 8) = e"
    using E(4) by (simp add: e_def entry_addr_def u64_id)
  have vr: "valid_range ?sb bc lo k"
    if "breadable bc = breadable (fs_bufs s)" "valid_range ?sb (fs_bufs s) lo k" for bc lo k
    using that by (simp add: valid_range_def)
  have load: "load_blockoff ?sb (fs_bufs s1) e =
      Inr (e div s_blocksize ?sb, e mod s_blocksize ?sb, s_blocksize ?sb - e mod s_blocksize ?sb)"
    by (rule load_blockoff_valid [of _ _ _ 8], rule vr) (simp_all add: s1_def E(5))
  have entry: "get_num ?sb (fs_bufs s1) (e div s_blocksize ?sb) (e mod s_blocksize ?sb) 8 = Inr old"
    using get_num_field [of e ?sb 0 8 "fs_bufs s1"] E(3) after_alloc_fnum [OF g E(6)]
    by (simp add: s1_def old_def)
  have copy: "copy_chunk_into_storage ?sb b1 new (m\<lparr>ck_next := old\<rparr>) d =
      Inr (store_bytes ?sb (store_bytes ?sb b1 new (chunk_bytes (m\<lparr>ck_next := old\<rparr>))) (new + sizeof_chunk_head) d)"
  proof (rule copy_chunk_spec)
    show "valid_range ?sb b1 (new + sizeof_chunk_head) (length d)"
      and "valid_range ?sb b1 new sizeof_chunk_head"
      using B(3,4) d(1) geometry_okD(6) [OF g]
      by (auto simp: b1_def s1_def sizeof_chunk_head_def Suc_le_eq intro!: vr geometry_valid_range [OF g])
    show "new + sizeof_chunk_head < 2 ^ 64" using B(5) by simp
  qed (use d in simp_all)
  show ?thesis
    using alloc s1 u load entry set_num_store [OF E(3)] copy
    by (simp add: chunk_fill_hashtable_def after_fill_def Let_def new_def [symmetric]
        s1_def [symmetric] e_def [symmetric] old_def [symmetric] b1_def [symmetric])
qed

text \<open>What the four stores leave unchanged in the table and the heap, and what they write.\<close>

lemma after_fill_byte:
  assumes g: "geometry_ok s" and "hashtable (fs_info s) \<le> a"
    and "a < entry_addr s (ck_hash m mod buckets s) \<or> entry_addr s (ck_hash m mod buckets s) + 8 \<le> a"
    and "a < next_head (fs_sb s) (heap_brk (fs_info s))"
  shows "byte_at (fs_sb s) (fs_bufs (after_fill s m d)) a = byte_at (fs_sb s) (fs_bufs s) a"
  using assms(2-4) after_alloc_byte [OF g] by (auto simp: after_fill_def Let_def)

lemma after_fill_contents:
  fixes m :: chunk
  assumes h: "heap_wf s" and f: "chunk_fits s (length d)"
  defines "new \<equiv> next_head (fs_sb s) (heap_brk (fs_info s))"
    and "e \<equiv> entry_addr s (ck_hash m mod buckets s)"
  shows "load_bytes (fs_sb s) (fs_bufs (after_fill s m d)) (new + sizeof_chunk_head) (length d) = d"
    and "load_bytes (fs_sb s) (fs_bufs (after_fill s m d)) new sizeof_chunk_head =
      chunk_bytes (m\<lparr>ck_next := fnum (fs_sb s) (fs_bufs s) e 8\<rparr>)"
    and "fnum (fs_sb s) (fs_bufs (after_fill s m d)) e 8 = new"
proof -
  from h have g: "geometry_ok s" by (simp add: heap_wf_def)
  have i: "ck_hash m mod buckets s < buckets s" using geometry_okD(4) [OF g] by simp
  note E = entry_bounds [OF h i, folded e_def] and B = chunk_fits_bounds [OF h f, folded new_def]
  have below: "e + 8 \<le> new" using E(2) B(2) by simp
  show "load_bytes (fs_sb s) (fs_bufs (after_fill s m d)) (new + sizeof_chunk_head) (length d) = d"
    by (simp add: after_fill_def Let_def new_def)
  show "load_bytes (fs_sb s) (fs_bufs (after_fill s m d)) new sizeof_chunk_head =
      chunk_bytes (m\<lparr>ck_next := fnum (fs_sb s) (fs_bufs s) e 8\<rparr>)"
    by (simp add: after_fill_def Let_def new_def e_def load_store_disjoint)
  have "new < 256 ^ 8" using B(5) by simp
  then show "fnum (fs_sb s) (fs_bufs (after_fill s m d)) e 8 = new"
    using below unfolding fnum_def
    by (simp add: after_fill_def Let_def new_def [symmetric] e_def [symmetric] load_store_disjoint)
qed

lemma after_fill_chunk:
  assumes h: "heap_wf s" and f: "chunk_fits s (length d)" and c: "chunk_wf s c"
  shows "chunk_hash_at (fs_sb s) (fs_bufs (after_fill s m d)) c = chunk_hash_at (fs_sb s) (fs_bufs s) c"
    and "chunk_len_at (fs_sb s) (fs_bufs (after_fill s m d)) c = chunk_len_at (fs_sb s) (fs_bufs s) c"
    and "chunk_next_at (fs_sb s) (fs_bufs (after_fill s m d)) c = chunk_next_at (fs_sb s) (fs_bufs s) c"
    and "load_bytes (fs_sb s) (fs_bufs (after_fill s m d)) (c + sizeof_chunk_head)
        (chunk_len_at (fs_sb s) (fs_bufs s) c) =
      load_bytes (fs_sb s) (fs_bufs s) (c + sizeof_chunk_head) (chunk_len_at (fs_sb s) (fs_bufs s) c)"
proof -
  from h have g: "geometry_ok s" by (simp add: heap_wf_def)
  have i: "ck_hash m mod buckets s < buckets s" using geometry_okD(4) [OF g] by simp
  note E = entry_bounds [OF h i] and B = chunk_fits_bounds [OF h f]
  have t: "hashtable (fs_info s) \<le> heap_base s" by (simp add: heap_base_def)
  have b: "byte_at (fs_sb s) (fs_bufs (after_fill s m d)) a = byte_at (fs_sb s) (fs_bufs s) a"
    if "c \<le> a" "a < c + sizeof_chunk_head + chunk_len_at (fs_sb s) (fs_bufs s) c" for a
    using c that E(2) B(1) t by (intro after_fill_byte [OF g]) (auto simp: chunk_wf_def)
  show "chunk_hash_at (fs_sb s) (fs_bufs (after_fill s m d)) c = chunk_hash_at (fs_sb s) (fs_bufs s) c"
    and "chunk_len_at (fs_sb s) (fs_bufs (after_fill s m d)) c = chunk_len_at (fs_sb s) (fs_bufs s) c"
    and "chunk_next_at (fs_sb s) (fs_bufs (after_fill s m d)) c = chunk_next_at (fs_sb s) (fs_bufs s) c"
    unfolding chunk_hash_at_def chunk_len_at_def chunk_next_at_def
    by (rule fnum_cong, rule b, simp_all add: sizeof_chunk_head_def)+
  show "load_bytes (fs_sb s) (fs_bufs (after_fill s m d)) (c + sizeof_chunk_head)
        (chunk_len_at (fs_sb s) (fs_bufs s) c) =
      load_bytes (fs_sb s) (fs_bufs s) (c + sizeof_chunk_head) (chunk_len_at (fs_sb s) (fs_bufs s) c)"
    by (rule load_bytes_cong, rule b) simp_all
qed

lemma after_fill_bucket:
  assumes h: "heap_wf s" and f: "chunk_fits s (length d)" and j: "j < buckets s"
    and b: "bucket s j cs" and w: "\<And>c. c \<in> set cs \<Longrightarrow> chunk_wf s c"
  shows "bucket (after_fill s m d) j (if j = ck_hash m mod buckets s
    then next_head (fs_sb s) (heap_brk (fs_info s)) # cs else cs)"
proof -
  let ?sb = "fs_sb s" and ?bc = "fs_bufs s" and ?bc' = "fs_bufs (after_fill s m d)"
  let ?new = "next_head ?sb (heap_brk (fs_info s))" and ?i = "ck_hash m mod buckets s"
  from h have g: "geometry_ok s" by (simp add: heap_wf_def)
  note B = chunk_fits_bounds [OF h f] and C = after_fill_contents [OF h f, of m]
  have entry: "entry_addr (after_fill s m d) k = entry_addr s k" for k
    by (simp add: entry_addr_def after_fill_sel)
  have tail: "chain ?sb ?bc' p cs = chain ?sb ?bc p cs" for p
    using after_fill_chunk(3) [OF h f w] by (intro chain_cong) blast
  show ?thesis
  proof (cases "j = ?i")
    case True
    have "chunk_next_at ?sb ?bc' ?new = fnum ?sb ?bc (entry_addr s ?i) 8"
      using chunk_bytes_fields(3) [OF C(2)] fnum_bound [of ?sb ?bc "entry_addr s ?i" 8] by simp
    then show ?thesis
      using True b C(3) B(3) tail by (simp add: bucket_def after_fill_sel entry)
  next
    case False
    have i: "?i < buckets s" using geometry_okD(4) [OF g] by simp
    have "fnum ?sb ?bc' (entry_addr s j) 8 = fnum ?sb ?bc (entry_addr s j) 8"
    proof (rule fnum_cong)
      fix a assume a: "entry_addr s j \<le> a" "a < entry_addr s j + 8"
      have "entry_addr s j + 8 \<le> entry_addr s ?i \<or> entry_addr s ?i + 8 \<le> entry_addr s j"
        using False by (simp add: entry_addr_def) linarith
      then show "byte_at ?sb ?bc' a = byte_at ?sb ?bc a"
        using a entry_bounds(2,6) [OF h j] B(2)
        by (intro after_fill_byte [OF g]) auto
    qed
    then show ?thesis using False b tail by (simp add: bucket_def after_fill_sel entry)
  qed
qed

lemma after_fill_chunk_wf:
  assumes h: "heap_wf s" and f: "chunk_fits s (length d)" and "chunk_wf s c"
  shows "chunk_wf (after_fill s m d) c"
  using assms(3) chunk_fits_bounds(1) [OF h f] after_fill_chunk(2) [OF h f assms(3), of m]
  by (simp add: chunk_wf_def after_fill_sel heap_base_def)

lemma after_fill_new_chunk:
  assumes h: "heap_wf s" and f: "chunk_fits s (length d)" and m: "ck_hash m < 2 ^ 64" "ck_length m = length d"
  defines "new \<equiv> next_head (fs_sb s) (heap_brk (fs_info s))"
  shows "chunk_wf (after_fill s m d) new"
    and "chunk_hash_at (fs_sb s) (fs_bufs (after_fill s m d)) new = ck_hash m"
    and "chunk_len_at (fs_sb s) (fs_bufs (after_fill s m d)) new = length d"
proof -
  note B = chunk_fits_bounds [OF h f, folded new_def]
    and C = chunk_bytes_fields [OF after_fill_contents(2) [OF h f, of m, folded new_def]]
  show hash: "chunk_hash_at (fs_sb s) (fs_bufs (after_fill s m d)) new = ck_hash m"
    using C(1) m(1) by simp
  show len: "chunk_len_at (fs_sb s) (fs_bufs (after_fill s m d)) new = length d"
    using C(2) m(2) B(5) by simp
  show "chunk_wf (after_fill s m d) new"
    using B(2,7) len by (simp add: chunk_wf_def after_fill_sel heap_base_def new_def)
qed

lemma after_fill_wf:
  assumes h: "heap_wf s" and f: "chunk_fits s (length d)" and m: "ck_hash m < 2 ^ 64" "ck_length m = length d"
  shows "heap_wf (after_fill s m d)"
proof -
  let ?s' = "after_fill s m d"
  from h have g: "geometry_ok s" by (simp add: heap_wf_def)
  note B = chunk_fits_bounds [OF h f] and N = after_fill_new_chunk [OF h f m]
  have sel: "buckets ?s' = buckets s" "heap_base ?s' = heap_base s" "fs_sb ?s' = fs_sb s"
    by (simp_all add: buckets_def heap_base_def after_fill_sel)
  have "\<exists>cs. bucket ?s' j cs \<and> (\<forall>c \<in> set cs. chunk_wf ?s' c \<and>
      chunk_hash_at (fs_sb s) (fs_bufs ?s') c mod buckets s = j)" if j: "j < buckets s" for j
  proof -
    from h j obtain cs where cs: "bucket s j cs" "\<And>c. c \<in> set cs \<Longrightarrow> chunk_wf s c"
        "\<And>c. c \<in> set cs \<Longrightarrow> chunk_hash_at (fs_sb s) (fs_bufs s) c mod buckets s = j"
      unfolding heap_wf_def by blast
    have "bucket ?s' j (if j = ck_hash m mod buckets s
        then next_head (fs_sb s) (heap_brk (fs_info s)) # cs else cs)"
      by (rule after_fill_bucket [OF h f j cs(1,2)])
    moreover have "chunk_wf ?s' c \<and> chunk_hash_at (fs_sb s) (fs_bufs ?s') c mod buckets s = j"
      if "c \<in> set cs" for c
      using after_fill_chunk_wf [OF h f cs(2) [OF that]] after_fill_chunk(1) [OF h f cs(2) [OF that]]
        cs(3) [OF that] by simp
    ultimately show ?thesis using N(1,2) by (intro exI conjI) (auto split: if_splits)
  qed
  moreover have "geometry_ok ?s'" using g by (simp add: geometry_ok_def after_fill_sel Let_def)
  ultimately show ?thesis
    using B(2,4) by (simp add: heap_wf_def sel after_fill_sel)
qed

section \<open>The heap meets the contract\<close>

lemma find_cong_on:
  "(\<And>c. c \<in> set cs \<Longrightarrow> P c = Q c) \<Longrightarrow> find P cs = find Q cs"
  by (induction cs) auto

lemma first_match_hit:
  assumes "first_match sb bc h cs = l" and "l \<noteq> 0"
  shows "l \<in> set cs" and "chunk_hash_at sb bc l = h"
proof -
  from assms obtain c where f: "find (\<lambda>c. chunk_hash_at sb bc c = h) cs = Some c" and "c = l"
    by (auto simp: first_match_def split: option.splits)
  with f show "l \<in> set cs" and "chunk_hash_at sb bc l = h"
    by (auto simp: find_Some_iff)
qed

lemma first_match_found:
  assumes "l \<in> set cs" and "chunk_hash_at sb bc l = h" and "\<And>c. c \<in> set cs \<Longrightarrow> 0 < c"
  shows "first_match sb bc h cs \<noteq> 0"
proof (cases "find (\<lambda>c. chunk_hash_at sb bc c = h) cs")
  case None
  with assms show ?thesis by (auto simp: find_None_iff)
next
  case (Some c)
  then have "c \<in> set cs" by (auto simp: find_Some_iff)
  with Some assms(3) show ?thesis by (auto simp: first_match_def)
qed

lemma chunk_wf_pos: "geometry_ok s \<Longrightarrow> chunk_wf s c \<Longrightarrow> 0 < c"
  using geometry_okD(6) by (fastforce simp: chunk_wf_def heap_base_def)

lemma heap_search_total: "heap_wf s \<Longrightarrow> \<exists>l. chunk_search_hashtable s h = Inr l"
  by (metis heap_bucket chunk_search_spec)

lemma heap_search_hit:
  assumes "heap_wf s" and "chunk_search_hashtable s h = Inr l" and "l \<noteq> 0"
  shows "\<exists>d. chunk_holds s l h d"
proof -
  from assms(1) obtain cs where b: "bucket s (h mod buckets s) cs" by (rule heap_bucket)
  have i: "h mod buckets s < buckets s"
    using assms(1) geometry_okD(4) by (simp add: heap_wf_def)
  have "first_match (fs_sb s) (fs_bufs s) h cs = l"
    using chunk_search_spec [OF assms(1) b] assms(2) by simp
  note hit = first_match_hit [OF this assms(3)]
  have "stored s l" using i b hit(1) by (auto simp: stored_def)
  with hit(2) show ?thesis
    by (intro exI [of _ "load_bytes (fs_sb s) (fs_bufs s) (l + sizeof_chunk_head)
      (chunk_len_at (fs_sb s) (fs_bufs s) l)"]) (simp add: chunk_holds_def)
qed

lemma heap_holds_found:
  assumes "heap_wf s" and "chunk_holds s l h d"
  shows "chunk_search_hashtable s h \<noteq> Inr 0"
proof -
  from assms(2) have st: "stored s l" and hash: "chunk_hash_at (fs_sb s) (fs_bufs s) l = h"
    by (simp_all add: chunk_holds_def)
  from stored_bucket [OF assms(1) st] hash obtain cs where
      b: "bucket s (h mod buckets s) cs" and l: "l \<in> set cs" by auto
  have "first_match (fs_sb s) (fs_bufs s) h cs \<noteq> 0"
    using l hash chain_pos b unfolding bucket_def by (intro first_match_found) blast+
  then show ?thesis using chunk_search_spec [OF assms(1) b] by simp
qed

lemma heap_holds_unique:
  "chunk_holds s l h d \<Longrightarrow> chunk_holds s l h' d' \<Longrightarrow> h = h' \<and> d = d'"
  by (auto simp: chunk_holds_def)

lemma after_fill_search:
  assumes h: "heap_wf s" and f: "chunk_fits s (length d)" and m: "ck_hash m < 2 ^ 64" "ck_length m = length d"
  shows "chunk_search_hashtable (after_fill s m d) k =
    (if k = ck_hash m then Inr (next_head (fs_sb s) (heap_brk (fs_info s)))
     else chunk_search_hashtable s k)"
proof -
  let ?s' = "after_fill s m d" and ?new = "next_head (fs_sb s) (heap_brk (fs_info s))"
  from h have g: "geometry_ok s" by (simp add: heap_wf_def)
  note N = after_fill_new_chunk [OF h f m] and w = after_fill_wf [OF h f m]
  have nb: "buckets ?s' = buckets s" by (simp add: buckets_def after_fill_sel)
  have j: "k mod buckets s < buckets s" using geometry_okD(4) [OF g] by simp
  obtain cs where cs: "bucket s (k mod buckets s) cs" "\<And>c. c \<in> set cs \<Longrightarrow> chunk_wf s c"
    using heap_bucket_ex [OF h, of k] by auto
  have b: "bucket ?s' (k mod buckets ?s') (if k mod buckets s = ck_hash m mod buckets s then ?new # cs else cs)"
    unfolding nb by (rule after_fill_bucket [OF h f j cs])
  have same: "first_match (fs_sb ?s') (fs_bufs ?s') k cs = first_match (fs_sb s) (fs_bufs s) k cs"
    unfolding first_match_def after_fill_sel
    using find_cong_on [of cs "\<lambda>c. chunk_hash_at (fs_sb s) (fs_bufs ?s') c = k"
      "\<lambda>c. chunk_hash_at (fs_sb s) (fs_bufs s) c = k"] after_fill_chunk(1) [OF h f cs(2)] by simp
  show ?thesis
    using chunk_search_spec [OF w b] chunk_search_spec [OF h cs(1)] same N(2)
    by (auto simp: after_fill_sel first_match_def)
qed

lemma after_fill_holds_old:
  assumes h: "heap_wf s" and f: "chunk_fits s (length d)" and l: "chunk_holds s l k d'"
  shows "chunk_holds (after_fill s m d) l k d'"
proof -
  have nb: "buckets (after_fill s m d) = buckets s" by (simp add: buckets_def after_fill_sel)
  from l have st: "stored s l" by (simp add: chunk_holds_def)
  from stored_bucket [OF h st] have w: "chunk_wf s l" by blast
  from st obtain j cs where j: "j < buckets s" and b: "bucket s j cs" and c: "l \<in> set cs"
    by (auto simp: stored_def)
  from h j obtain cs' where cs': "bucket s j cs'" "\<forall>c \<in> set cs'. chunk_wf s c"
    unfolding heap_wf_def by blast
  have "cs' = cs" using cs'(1) b unfolding bucket_def by (rule chain_unique)
  then have "bucket (after_fill s m d) j (if j = ck_hash m mod buckets s
      then next_head (fs_sb s) (heap_brk (fs_info s)) # cs else cs)"
    using cs'(2) by (intro after_fill_bucket [OF h f j b]) blast
  then have "stored (after_fill s m d) l"
    using j c unfolding stored_def nb by (metis list.set_intros(2))
  then show ?thesis
    using l after_fill_chunk [OF h f w, of m] by (simp add: chunk_holds_def after_fill_sel)
qed

lemma after_fill_holds_only:
  assumes h: "heap_wf s" and f: "chunk_fits s (length d)" and l: "chunk_holds (after_fill s m d) l k d'"
  shows "chunk_holds s l k d' \<or> l = next_head (fs_sb s) (heap_brk (fs_info s))"
proof -
  from l obtain j cs where j: "j < buckets s" and b: "bucket (after_fill s m d) j cs" and c: "l \<in> set cs"
    by (auto simp: chunk_holds_def stored_def buckets_def after_fill_sel)
  from h j obtain cs' where cs': "bucket s j cs'" "\<And>c. c \<in> set cs' \<Longrightarrow> chunk_wf s c"
    unfolding heap_wf_def by blast
  have "cs = (if j = ck_hash m mod buckets s
      then next_head (fs_sb s) (heap_brk (fs_info s)) # cs' else cs')"
    using b after_fill_bucket [OF h f j cs'] unfolding bucket_def by (rule chain_unique)
  with c have "l = next_head (fs_sb s) (heap_brk (fs_info s)) \<or> l \<in> set cs'"
    by (auto split: if_splits)
  moreover have "chunk_holds s l k d'" if "l \<in> set cs'"
  proof -
    have "stored s l" using j cs'(1) that by (auto simp: stored_def)
    then show ?thesis
      using l after_fill_chunk [OF h f cs'(2) [OF that], of m]
      by (simp add: chunk_holds_def after_fill_sel)
  qed
  ultimately show ?thesis by blast
qed

lemma after_fill_holds_new:
  assumes h: "heap_wf s" and f: "chunk_fits s (length d)" and m: "ck_hash m < 2 ^ 64" "ck_length m = length d"
  shows "chunk_holds (after_fill s m d) (next_head (fs_sb s) (heap_brk (fs_info s))) (ck_hash m) d"
proof -
  let ?new = "next_head (fs_sb s) (heap_brk (fs_info s))" and ?i = "ck_hash m mod buckets s"
  from h have g: "geometry_ok s" by (simp add: heap_wf_def)
  have i: "?i < buckets s" using geometry_okD(4) [OF g] by simp
  obtain cs where cs: "bucket s ?i cs" "\<And>c. c \<in> set cs \<Longrightarrow> chunk_wf s c"
    using heap_bucket_ex [OF h, of "ck_hash m"] by auto
  have "bucket (after_fill s m d) ?i (?new # cs)"
    using after_fill_bucket [OF h f i cs, of m] by simp
  then have "stored (after_fill s m d) ?new"
    using i by (force simp: stored_def buckets_def after_fill_sel)
  then show ?thesis
    using after_fill_new_chunk(2,3) [OF h f m] after_fill_contents(1) [OF h f, of m]
    by (simp add: chunk_holds_def after_fill_sel)
qed

section \<open>Reading a stored chunk\<close>

lemma copy_region_spec:
  assumes g: "geometry_ok s" and ld: "load_bytes (fs_sb s) (fs_bufs s) (l + sizeof_chunk_head) (length d) = d"
    and end_le: "l + sizeof_chunk_head + length d \<le> max_brk (fs_info s)" and u: "min cnt (length d - pos) \<le> ulen"
  shows "chunk_copy_into_buffer (fs_sb s) (fs_bufs s) \<lparr>ce_location = l, ce_size = length d\<rparr> ulen cnt pos =
    Inr (take cnt (drop pos d))"
proof -
  let ?sb = "fs_sb s" and ?bc = "fs_bufs s"
  define n where "n = min cnt (length d - pos)"
  have mx: "max_brk (fs_info s) \<le> 2 ^ 32" using g by (simp add: geometry_ok_def Let_def)
  have sz: "to_ssize (int (length d)) = int (length d)" using mx end_le by (intro to_ssize_id) simp_all
  show ?thesis
  proof (cases "n = 0")
    case True
    then have "min (int cnt) (int (length d) - int pos) \<le> 0" by (auto simp: n_def min_def split: if_splits)
    with True sz show ?thesis by (auto simp: chunk_copy_into_buffer_def n_def min_def split: if_splits)
  next
    case False
    then have n: "0 < n" "pos + n \<le> length d" by (auto simp: n_def)
    have i: "min (int cnt) (int (length d) - int pos) = int n" using n by (auto simp: n_def min_def)
    let ?a = "l + sizeof_chunk_head + pos"
    have lt: "?a + n \<le> max_brk (fs_info s)" using n(2) end_le by linarith
    then have "?a < 2 ^ 64" using mx n(1) by simp
    then have a: "u64 ?a = ?a" by (rule u64_id)
    have "valid_range ?sb ?bc ?a n"
      using geometry_valid_range [OF g, of ?a n] lt n(1) by (simp add: sizeof_chunk_head_def max_def)
    from read_data_storage_spec [OF this, of ulen] have
      "read_data_storage ?sb ?bc ?a ulen n = Inr (load_bytes ?sb ?bc ?a n)" using u by (simp add: n_def)
    moreover have "load_bytes ?sb ?bc ?a n = take n (drop pos d)"
      using load_bytes_part [OF ld n(2)] by simp
    moreover have "take n (drop pos d) = take cnt (drop pos d)" by (simp add: n_def min_def)
    ultimately show ?thesis using n(1) i a sz by (simp add: chunk_copy_into_buffer_def)
  qed
qed

lemma copy_into_buffer_spec:
  assumes h: "heap_wf s" and c: "chunk_holds s l hash d" and u: "min cnt (length d - pos) \<le> ulen"
  shows "chunk_copy_into_buffer (fs_sb s) (fs_bufs s) \<lparr>ce_location = l, ce_size = length d\<rparr> ulen cnt pos =
    Inr (take cnt (drop pos d))"
proof (rule copy_region_spec [OF _ _ _ u])
  have wf: "chunk_wf s l" using stored_bucket [OF h] c by (auto simp: chunk_holds_def)
  then show "l + sizeof_chunk_head + length d \<le> max_brk (fs_info s)"
    using h c by (simp add: chunk_wf_def chunk_holds_def heap_wf_def)
qed (use h c in \<open>simp_all add: heap_wf_def chunk_holds_def\<close>)

interpretation heap: chunk_store heap_wf chunk_holds chunk_fits chunk_search_hashtable chunk_fill_hashtable
proof
  fix s l h h' d d' and m :: chunk
  show "heap_wf s \<Longrightarrow> \<exists>l. chunk_search_hashtable s h = Inr l" by (rule heap_search_total)
  show "heap_wf s \<Longrightarrow> chunk_search_hashtable s h = Inr l \<Longrightarrow> l \<noteq> 0 \<Longrightarrow> \<exists>d. chunk_holds s l h d"
    by (rule heap_search_hit)
  show "heap_wf s \<Longrightarrow> chunk_holds s l h d \<Longrightarrow> chunk_search_hashtable s h \<noteq> Inr 0"
    by (rule heap_holds_found)
  show "chunk_holds s l h d \<Longrightarrow> chunk_holds s l h' d' \<Longrightarrow> h = h' \<and> d = d'"
    by (rule heap_holds_unique)
  assume a: "heap_wf s" "ck_hash m < 2 ^ 64" "ck_length m = length d" "d \<noteq> []" "chunk_fits s (length d)"
  let ?new = "next_head (fs_sb s) (heap_brk (fs_info s))"
  have "?new \<noteq> 0" using chunk_fits_bounds(3) [OF a(1,5)] by simp
  then show "\<exists>s' l. chunk_fill_hashtable s m d = Inr (s', l) \<and> heap_wf s' \<and> l \<noteq> 0 \<and>
      chunk_holds s' l (ck_hash m) d \<and> chunk_search_hashtable s' (ck_hash m) = Inr l \<and>
      (\<forall>h. h \<noteq> ck_hash m \<longrightarrow> chunk_search_hashtable s' h = chunk_search_hashtable s h) \<and>
      (\<forall>l' h' d'. chunk_holds s l' h' d' \<longrightarrow> chunk_holds s' l' h' d') \<and>
      (\<forall>l' h' d'. chunk_holds s' l' h' d' \<longrightarrow> chunk_holds s l' h' d' \<or> l' = l)"
    using chunk_fill_spec [OF a(1,4,3,5)] after_fill_wf [OF a(1,5,2,3)]
      after_fill_holds_new [OF a(1,5,2,3)] after_fill_search [OF a(1,5,2,3)]
      after_fill_holds_old [OF a(1,5)] after_fill_holds_only [OF a(1,5)]
    by (intro exI [of _ "after_fill s m d"] exI [of _ ?new] conjI) auto
qed

section \<open>Resetting the hash table\<close>

definition after_reset :: "fs \<Rightarrow> fs" where
  "after_reset s = (let sb = fs_sb s; t = hashtable (fs_info s) in
     s\<lparr>fs_info := (fs_info s)\<lparr>heap_brk := heap_base s\<rparr>,
       fs_bufs := mark_buffer_dirty (store_bytes sb (fs_bufs s) t (replicate (hashtable_size (fs_info s)) 0))
         (t div s_blocksize sb)\<rparr>)"

lemma after_reset_sel [simp]:
  "fs_sb (after_reset s) = fs_sb s" "fs_info (after_reset s) = (fs_info s)\<lparr>heap_brk := heap_base s\<rparr>"
  "breadable (fs_bufs (after_reset s)) = breadable (fs_bufs s)"
  by (simp_all add: after_reset_def Let_def)

lemma reset_tracks: "tracks {} (fs_bufs s) (fs_bufs (after_reset s))"
  unfolding after_reset_def Let_def by (simp, rule tracks_same [OF store_bytes_tracks tracks_mark])

lemma reset_geometry: "geometry_ok s \<Longrightarrow> geometry_ok (after_reset s)"
  by (simp add: geometry_ok_def Let_def)

lemma reset_spec:
  assumes g: "geometry_ok s" and m: "heap_base s \<le> max_brk (fs_info s)"
    and t: "8 dvd hashtable_size (fs_info s)"
  shows "chunk_reset_hashtable s = Inr (after_reset s)"
proof -
  have n: "0 < hashtable_size (fs_info s)" and t0: "0 < hashtable (fs_info s)" and mx: "max_brk (fs_info s) \<le> 2 ^ 32"
    using g by (auto simp: geometry_ok_def Let_def)
  have v: "valid_range (fs_sb s) (fs_bufs s) (hashtable (fs_info s)) (hashtable_size (fs_info s))"
    using geometry_valid_range [OF g t0, of "hashtable_size (fs_info s)"] m n by (simp add: heap_base_def max_def)
  have "u64 (hashtable (fs_info s) + hashtable_size (fs_info s)) = heap_base s"
    using m mx by (simp add: heap_base_def u64_def)
  then show ?thesis
    using write_data_storage_spec [OF v, of None]
    by (simp add: chunk_reset_hashtable_def Let_def enough_data_def data_of_def after_reset_def)
qed

lemma reset_bucket:
  assumes t: "8 dvd hashtable_size (fs_info s)" and i: "i < buckets s"
  shows "bucket (after_reset s) i []"
proof -
  let ?sb = "fs_sb s" and ?t = "hashtable (fs_info s)" and ?n = "hashtable_size (fs_info s)"
  let ?bc = "fs_bufs (after_reset s)"
  have "i * 8 + 8 \<le> ?n" using i t by (auto simp: buckets_def dvd_def)
  moreover have "load_bytes ?sb ?bc (?t + i * 8) 8 = load_bytes ?sb (store_bytes ?sb (fs_bufs s) ?t (replicate ?n 0)) (?t + i * 8) 8"
    by (simp add: load_bytes_def byte_at_def after_reset_def Let_def)
  ultimately have "load_bytes ?sb ?bc (?t + i * 8) 8 = replicate 8 0"
    using load_bytes_part [OF load_store_same [OF length_replicate], of "i * 8" 8 ?n ?sb "fs_bufs s" ?t 0] by simp
  then show ?thesis by (simp add: bucket_def entry_addr_def fnum_def)
qed

lemma reset_heap_wf:
  assumes "geometry_ok s" and "heap_base s \<le> max_brk (fs_info s)" and "8 dvd hashtable_size (fs_info s)"
  shows "heap_wf (after_reset s)"
  using reset_geometry [OF assms(1)] assms(2) reset_bucket [OF assms(3)]
  by (auto simp: heap_wf_def heap_base_def buckets_def intro!: exI [of _ "[]"])

lemma reset_coherent: "coherent (fs_bufs s) \<Longrightarrow> coherent (fs_bufs (after_reset s))"
  by (simp add: after_reset_def Let_def coherent_mark coherent_store_bytes)

text \<open>The reset writes the bytes of the table only.\<close>

lemma reset_below:
  assumes t: "Suc b * s_blocksize (fs_sb s) \<le> hashtable (fs_info s)" and o': "o' < s_blocksize (fs_sb s)"
  shows "bdata (fs_bufs (after_reset s)) b o' = bdata (fs_bufs s) b o'"
proof -
  let ?k = "s_blocksize (fs_sb s)"
  have "byte_at (fs_sb s) (fs_bufs (after_reset s)) (b * ?k + o') = byte_at (fs_sb s) (fs_bufs s) (b * ?k + o')"
    using t o' by (simp add: after_reset_def Let_def)
  then show ?thesis using o' by (simp add: byte_at_def)
qed

lemma empty_heap_search:
  assumes "heap_wf s" "\<And>i. i < buckets s \<Longrightarrow> bucket s i []"
  shows "chunk_search_hashtable s h = Inr 0"
proof -
  have "0 < buckets s" using assms(1) geometry_okD(4) by (auto simp: heap_wf_def)
  then show ?thesis using chunk_search_spec [OF assms(1) assms(2), of h] by (simp add: first_match_def)
qed

lemma reset_search:
  assumes "geometry_ok s" and "heap_base s \<le> max_brk (fs_info s)" and "8 dvd hashtable_size (fs_info s)"
  shows "chunk_search_hashtable (after_reset s) h = Inr 0"
proof (rule empty_heap_search [OF reset_heap_wf [OF assms]])
  show "bucket (after_reset s) i []" if "i < buckets (after_reset s)" for i
    using that by (intro reset_bucket [OF assms(3)]) (simp add: buckets_def)
qed

end
