(* ===== verification/GearTable.thy ===== *)
theory GearTable
  imports Prelude
begin

text \<open>gear_table.c: the 256 fixed random words of the gear rolling hash.\<close>

definition gear_table :: "64 word list" where
  "gear_table = [
    0xf11f8417de6594d7, 0x2450250d2e126a9b, 0x4f7a159051b3816a, 0x872fee8d090e7325,
    0xa015ca0230210d6b, 0xd74615cfd76a37ce, 0xac0e47372f99aa4b, 0x69b1cc2b7cacf732,
    0xcb1d4423f65a8454, 0x8f0f8479508c0135, 0x76b2b27eba5508de, 0x2cdcf43a5b8b284e,
    0x52401bd0acba16bb, 0x2c370d9286eb187e, 0x3061a8caad0726af, 0x28dcfffa8928e8b7,
    0xcd59b38e496c6a06, 0x4c533e31bfa3fb39, 0xf824a31b29426af6, 0x261a023df6141dfc,
    0xa9f771d6dc85d3fe, 0x28fd56e22af60333, 0x7f68c62635f078c3, 0xc8e3858432fb907b,
    0xeb236106b75f235d, 0xec658bf05a8eac93, 0xce6fb6fc9388ce5e, 0x2499b30f4c655366,
    0xdcd9863260c12218, 0xccf5070a5971b0ab, 0x1ad510c0e7cecd40, 0xf9a10bbacfb7566e,
    0xaf78a8ecd3d33438, 0x909b647e4c822227, 0x2005eddaaff80cc3, 0xf6fb8a7ad1ad8648,
    0x9369a00e4350711f, 0x01112666f0adccae, 0xa7e661e0b2880ee5, 0x333781e5df50556c,
    0xfd5e82270103fdf6, 0xa804f8a6dc34ce8a, 0x54908a741806ae7d, 0xfbf73c2e7ddc594b,
    0x075d24b6cd21aae8, 0x89cab34531dba16c, 0x0af2cfa24525a01b, 0x7d57f472cd729935,
    0xa8569909fd9bc868, 0x5f33c258cbfce2d2, 0x33c32030d661819d, 0x5800401d923c9b84,
    0xa0353f1169d1a2e5, 0xbd08400ad58dd5e0, 0x1bc6b725f23a12ad, 0x724796d2acaaccb8,
    0xe438339e1496b750, 0xf9286237d0a4262d, 0xed5cf03d60c2e010, 0x6edf5807b419fdf9,
    0xc62df6b062966dd1, 0xee80aaeffbca80dc, 0xc2a8c5103e86b0e6, 0xa1ab19f8d9184c38,
    0x30705d2b8ded4896, 0x4c2cc1b8bae48fe2, 0x81c0acf47d81e249, 0x3b59bda633c832a7,
    0xe7aa73925c19687c, 0x93325bb1f7660182, 0xf2b4203b6ccc76a3, 0x0c1d8432d6e2982b,
    0x1f535b240641ebc4, 0x58e452cc808196ab, 0xca474357a681e871, 0xd087193119eee545,
    0x7db81c7c94ce96e6, 0x4ae9ec7e7ae43704, 0x8cefdf3f3919804b, 0x14d8b9bb90ea7980,
    0xfd828f63cfd9d111, 0x8d56271a886c146c, 0x0cf443a684e9e18b, 0x997fea35335590ca,
    0x8ab1205d80eb86ea, 0x4b27df0984623665, 0x96dceca39314c9b2, 0xa2fa4d5827093726,
    0x3f574bf2793ac685, 0xb4895f3feb808c89, 0xca2a12d9dd9d0de7, 0xc76e84a83bcb5e53,
    0x1c5f9d18a4269ea1, 0xed07f7802ecce574, 0xc300dd38b8ae11f3, 0x6e5096739dc0f173,
    0xaed14801fd4c42fe, 0x7b6f5c702e751110, 0x10eb06560a7318bd, 0x4a7192f03ccd970f,
    0xbaab33acadbfb83a, 0x55c168fa74e4f71e, 0x31a62f42d9e4400a, 0x3b5bfe82d444beea,
    0xb775064fb961bc01, 0x069ba3c3d3fa4362, 0xfa612a3a95f7cb86, 0x839c57a223dddcd9,
    0x1317cd0e6dc28ffd, 0x197d4d61fee13452, 0x2d327ceca3c6744b, 0x3f0733204b59fd3f,
    0x4b0d7980a59f51a3, 0xbed4b57ff34db917, 0x40dd5ba459f33609, 0x670d7d44753dc3c9,
    0xf75216e18fca2cf9, 0x1bc2c66d3b830cb9, 0x4c7d2f5e661c1432, 0x0608ca4516c95470,
    0x323e0f750693d44a, 0xc0066dc521dcdc99, 0x5e2a27b51c8ef93e, 0xf4b2323db5e50a57,
    0xc663ad2af619e1f9, 0x1ff62ac316a6ab04, 0x062d8255a086892b, 0x295fbb71fa7a0e88,
    0x409e70501ab5159a, 0x6184439357fd0a3d, 0xee62751f4c154874, 0x0b70d1ac52fb782a,
    0x563b20feca2ebab1, 0x8d44c539bd8ec0f6, 0x055e725ffc0df86b, 0x05c65b7636d3f4e2,
    0xed259825cc0049df, 0x1b06f91495c39ef5, 0xd9717eb2d74bd6e6, 0xb539ce8df48772f5,
    0x4fcbbb8930e89e13, 0xc2b879a4b6374ea0, 0xc1cc3b96c5c3374c, 0xe20c5ec712983406,
    0x970e4f3e1fc9db88, 0x2a51110241d9a94a, 0x3e61dcf71597ec94, 0xc0ee1d9b9687f8e8,
    0x60eb956a27a3dcf6, 0xcd49d1c6483f3551, 0x825e74eb9d338ccb, 0x6e97592867a1f19f,
    0x0012f175892540e9, 0xcadaaef86c6b43c5, 0x1bbf269225bb9405, 0x176228dcf44c9df1,
    0x08b991cab0495247, 0x6c63d1236a8fda05, 0xf7760354d795208a, 0x9d99912b8b59fea0,
    0x9eaf58157387fe63, 0x0d9459e2bb0532e6, 0xd8ed10d84a3097c3, 0xf48a34b73bd4fbd8,
    0x90fb4036ba4ade49, 0x2715ed6680d9c2a1, 0x5de5ce9805d036fa, 0x28942a9cd2b55e22,
    0x7d46854be2a83a1a, 0x5d91415827f692b1, 0x17e775110b5fb245, 0x34f2b2b846c30de0,
    0xf930cdc1af2af4b1, 0x6d61601a237d272f, 0xcec3025500658a81, 0x4a7bf1ea6e9c7eb2,
    0x300b6ba89da9c391, 0x37195299499ace2f, 0x3178b716303cb537, 0xe63ff43c344335f7,
    0x0501969155f0ee8f, 0x7daa875cb2d5db82, 0xdc000a8c519b03a3, 0x32dbc25cc773edc9,
    0x639835c6549fb65a, 0x4220039de95138ed, 0xe26d7f0e3bd74ae4, 0x768cbe20c1d761c6,
    0xa8edacd9fd451393, 0x5c6e8b1b211a2f54, 0xe959a30e4a69c22b, 0xef64819e1fb12b3b,
    0xb618b5e7f1af8698, 0xf7ce9f178952d5e8, 0x399c9aeccf5a3567, 0x74c8149afe714b9d,
    0x85cfd2a5b178543b, 0x1ab6612987f84baf, 0xcf713db525d076aa, 0xe81d000324cd350d,
    0x06a14b492bde2d76, 0x76ee99db92c7fe6c, 0x8f60d8bcb3a553ba, 0x6f6beef7bcd2c267,
    0x4d6d07e100a0e4f2, 0xed9c0c3a51858879, 0x2b829cd60fdc7502, 0x71fdd60db55aa624,
    0x4521f8b39894c915, 0x61afb73ed4d9d9d7, 0xbe4a01bf50a5a389, 0xfca9e62f5df0bd91,
    0xa7c0890d44fa05f7, 0x3f7b31ee0ed68b3c, 0xd6cc2ea3b22f1bee, 0x7488027360b9bf98,
    0x7db436745ecb81e6, 0x9383901ea18e33be, 0x9b77be19a80cbc7e, 0x3a32c82b9c024943,
    0xc331b5733ace8d7b, 0x7dc940aca5ade735, 0x8ab4261581021193, 0x903cbe13ad501387,
    0x65c10d906ee67c86, 0x0cad9aa89ebf2005, 0x7bd8cc91e7ca76df, 0xd9e21d036d14ecaf,
    0xe18edca9b6e84171, 0x3d90c5eea70db7d4, 0xa99cd9c89d446556, 0x1b365063bc732d53,
    0xc7f80b7f98965851, 0x3fd6796c4cf283ad, 0x59863e3066382899, 0x85cbe86bbe8644a5,
    0x0f6be6cb529250cd, 0xde94f44e4f80fa11, 0xe6ba009c9ed8437e, 0xd85167bb0a915bba,
    0x8857469e28760924, 0xbe268143b5f4f3f5, 0x176f245560dec055, 0xa5112d4ce4427795,
    0xd8d7a7d5d15f0d14, 0x04b249c29590b295, 0x193b523f27e71d5a, 0xf84ea1ad520dd735,
    0xaf60d05a9198a907, 0xaf11a096d17a585d, 0x5cdfab7a588451ed, 0x7e9c28b20770abb7,
    0xaf259fefcc6d0c70, 0x5344ee46b8185fc3, 0x6b54d3a935ee37e2, 0x7620cbd50c249040]"

lemma length_gear_table [simp]: "length gear_table = 256"
  by (simp add: gear_table_def)

end
