(* ===== verification/Cdc.thy ===== *)
theory Cdc
  imports GearTable
begin

unbundle bit_operations_syntax

text \<open>
  cdc.h: FastCDC. \<open>cdc_get_chunk_size\<close> scans a file from a position with the gear rolling hash
  and returns where the next chunk ends. The file is reached through \<open>kernel_read\<close>, a
  parameter: \<open>rd pos\<close> is the byte a one-byte read at \<open>pos\<close> delivers, \<open>None\<close> when it delivers
  none (the return value is ignored by the code, the buffer keeps its old value and the
  position does not move). \<open>file_bytes\<close> is that parameter for a file with known contents.
\<close>

section \<open>The code\<close>

definition MaskS :: "64 word" where "MaskS = 0x0003590703530000"
definition MaskL :: "64 word" where "MaskL = 0x0003590703530000"
definition MinSize :: nat where "MinSize = 2 * 2 ^ 10"
definition MaxSize :: nat where "MaxSize = 64 * 2 ^ 10"
definition NormalSize :: nat where "NormalSize = 8 * 2 ^ 10"

definition gear_step :: "64 word \<Rightarrow> byte \<Rightarrow> 64 word" where
  "gear_step fp b = push_bit 1 fp + gear_table ! unat b"

definition read_byte :: "(nat \<Rightarrow> byte option) \<Rightarrow> byte \<Rightarrow> nat \<Rightarrow> byte \<times> nat" where
  "read_byte rd b pos = (case rd pos of None \<Rightarrow> (b, pos) | Some c \<Rightarrow> (c, Suc pos))"

text \<open>One of the two loops: stopped at a boundary or not, then \<open>i\<close>, \<open>pos\<close>, \<open>b\<close> and \<open>fp\<close>.\<close>

function cdc_scan :: "(nat \<Rightarrow> byte option) \<Rightarrow> 64 word \<Rightarrow> nat \<Rightarrow> nat \<Rightarrow> nat \<Rightarrow> byte \<Rightarrow> 64 word \<Rightarrow>
    bool \<times> nat \<times> nat \<times> byte \<times> 64 word" where
  "cdc_scan rd msk limit i pos b fp =
     (if i < limit then
        let (b', pos') = read_byte rd b pos; fp' = gear_step fp b' in
        if fp' AND msk = 0 then (True, i, pos', b', fp')
        else cdc_scan rd msk limit (Suc i) pos' b' fp'
      else (False, i, pos, b, fp))"
  by pat_completeness auto
termination
  by (relation "measure (\<lambda>(rd, msk, limit, i, pos, b, fp). limit - i)") auto

declare cdc_scan.simps [simp del]

definition cdc_get_chunk_size :: "(nat \<Rightarrow> byte option) \<Rightarrow> nat \<Rightarrow> nat \<Rightarrow> nat" where
  "cdc_get_chunk_size rd i_size pos =
     (let n = nat ((int i_size - int pos) mod 2 ^ 64) in
      if n \<le> MinSize then n
      else
        let (n', normal) = (if MaxSize \<le> n then (MaxSize, NormalSize)
                            else if n \<le> NormalSize then (n, n) else (n, NormalSize));
            (hit, i, pos', b, fp) = cdc_scan rd MaskS normal MinSize (pos + MinSize) 0 0
        in if hit then i
           else let (hit', i', pos'', b', fp') = cdc_scan rd MaskL n' i pos' b fp in i')"

definition file_bytes :: "byte list \<Rightarrow> nat \<Rightarrow> byte option" where
  "file_bytes d p = (if p < length d then Some (d ! p) else None)"

section \<open>The rolling hash\<close>

definition gear_hash :: "64 word \<Rightarrow> byte list \<Rightarrow> 64 word" where
  "gear_hash = foldl gear_step"

lemma gear_hash_simps [simp]:
  "gear_hash fp [] = fp" "gear_hash fp (b # bs) = gear_hash (gear_step fp b) bs"
  by (simp_all add: gear_hash_def)

lemma gear_hash_append: "gear_hash fp (xs @ ys) = gear_hash (gear_hash fp xs) ys"
  by (simp add: gear_hash_def)

lemma gear_hash_shift: "gear_hash fp xs = push_bit (length xs) fp + gear_hash 0 xs"
proof (induction xs arbitrary: fp)
  case Nil
  then show ?case by simp
next
  case (Cons x xs)
  have "gear_hash (gear_step fp x) xs = push_bit (length xs) (gear_step fp x) + gear_hash 0 xs"
    by (rule Cons.IH)
  moreover have "gear_hash (gear_step 0 x) xs = push_bit (length xs) (gear_step 0 x) + gear_hash 0 xs"
    by (rule Cons.IH)
  ultimately show ?case
    by (simp add: gear_step_def push_bit_add push_bit_push_bit ac_simps)
qed

text \<open>After 64 bytes nothing that came before can be seen in the fingerprint.\<close>

lemma gear_hash_window:
  assumes "64 \<le> length ys"
  shows "gear_hash fp ys = gear_hash 0 ys"
proof -
  have "push_bit (length ys) fp = (0 :: 64 word)"
    using assms by (simp add: push_bit_word_beyond)
  then show ?thesis using gear_hash_shift [of fp ys] by simp
qed

section \<open>Scanning\<close>

lemma cdc_scan_stop: "\<not> i < limit \<Longrightarrow> cdc_scan rd msk limit i pos b fp = (False, i, pos, b, fp)"
  by (subst cdc_scan.simps) simp

lemma cdc_scan_range:
  assumes "cdc_scan rd msk limit i pos b fp = (hit, j, pos', b', fp')" and "i \<le> limit"
  shows "i \<le> j \<and> (if hit then j < limit else j = limit)"
  using assms
proof (induction rd msk limit i pos b fp rule: cdc_scan.induct)
  case (1 rd msk limit i pos b fp)
  obtain c p where r: "read_byte rd b pos = (c, p)" by (cases "read_byte rd b pos")
  consider "\<not> i < limit" | "i < limit" "gear_step fp c AND msk = 0"
    | "i < limit" "gear_step fp c AND msk \<noteq> 0" by blast
  then show ?case
  proof cases
    case 1
    then show ?thesis using "1.prems" cdc_scan_stop [OF 1, of rd msk pos b fp] by simp
  next
    case 2
    then show ?thesis using "1.prems" by (auto simp: cdc_scan.simps [of rd msk limit i] r Let_def)
  next
    case 3
    then have "cdc_scan rd msk limit (Suc i) p c (gear_step fp c) = (hit, j, pos', b', fp')"
      using "1.prems" by (simp add: cdc_scan.simps [of rd msk limit i] r Let_def)
    then show ?thesis
      using "1.IH" [OF 3(1) r [symmetric] refl refl 3(2)] 3(1) by simp
  qed
qed

text \<open>Two loops over the same mask are one loop.\<close>

lemma cdc_scan_two_loops:
  assumes "l1 \<le> l2"
  shows "cdc_scan rd msk l2 i pos b fp =
    (let (hit, j, pos', b', fp') = cdc_scan rd msk l1 i pos b fp in
     if hit then (hit, j, pos', b', fp') else cdc_scan rd msk l2 j pos' b' fp')"
  using assms
proof (induction rd msk l1 i pos b fp rule: cdc_scan.induct)
  case (1 rd msk l1 i pos b fp)
  obtain c p where r: "read_byte rd b pos = (c, p)" by (cases "read_byte rd b pos")
  show ?case
  proof (cases "i < l1")
    case False
    then show ?thesis by (simp add: cdc_scan_stop)
  next
    case True
    with "1.prems" have "i < l2" by simp
    with True show ?thesis
      using "1.IH" [OF True r [symmetric] refl refl] "1.prems"
      by (simp add: cdc_scan.simps [of rd msk l1 i] cdc_scan.simps [of rd msk l2 i] r Let_def)
  qed
qed

text \<open>The scan of a file finds the first index whose fingerprint misses the msk.\<close>

definition byte_range :: "byte list \<Rightarrow> nat \<Rightarrow> nat \<Rightarrow> byte list" where
  "byte_range d lo hi = map ((!) d) [lo..<hi]"

lemma byte_range_Cons: "lo < hi \<Longrightarrow> byte_range d lo hi = d ! lo # byte_range d (Suc lo) hi"
  by (simp add: byte_range_def upt_conv_Cons)

lemma byte_range_nth: "i < hi - lo \<Longrightarrow> byte_range d lo hi ! i = d ! (lo + i)"
  by (simp add: byte_range_def del: upt_Suc)

lemma byte_range_take_drop: "hi \<le> length d \<Longrightarrow> byte_range d lo hi = take (hi - lo) (drop lo d)"
  by (rule nth_equalityI) (auto simp: byte_range_def)

definition first_cut :: "byte list \<Rightarrow> 64 word \<Rightarrow> 64 word \<Rightarrow> nat \<Rightarrow> nat \<Rightarrow> nat \<Rightarrow> nat" where
  "first_cut d msk fp start i limit =
     (case find (\<lambda>j. gear_hash fp (byte_range d start (Suc (start + (j - i)))) AND msk = 0) [i..<limit] of
        None \<Rightarrow> limit | Some j \<Rightarrow> j)"

lemma find_upt_cong:
  "(\<And>j. i \<le> j \<Longrightarrow> j < k \<Longrightarrow> P j = Q j) \<Longrightarrow> find P [i..<k] = find Q [i..<k]"
  by (rule find_cong) auto

lemma cdc_scan_first_cut:
  assumes "i \<le> limit" and "pos + (limit - i) \<le> length d"
  shows "fst (snd (cdc_scan (file_bytes d) msk limit i pos b fp)) = first_cut d msk fp pos i limit"
  using assms
proof (induction "limit - i" arbitrary: i pos b fp)
  case 0
  then show ?case by (simp add: cdc_scan.simps first_cut_def)
next
  case (Suc k)
  then have i: "i < limit" and p: "pos < length d" by simp_all
  have r: "read_byte (file_bytes d) b pos = (d ! pos, Suc pos)"
    using p by (simp add: read_byte_def file_bytes_def)
  have first: "byte_range d pos (Suc (pos + (i - i))) = [d ! pos]" by (simp add: byte_range_def)
  have rest: "find (\<lambda>j. gear_hash fp (byte_range d pos (Suc (pos + (j - i)))) AND msk = 0) [Suc i..<limit] =
      find (\<lambda>j. gear_hash (gear_step fp (d ! pos)) (byte_range d (Suc pos) (Suc (Suc pos + (j - Suc i)))) AND msk = 0)
        [Suc i..<limit]"
  proof (rule find_upt_cong)
    fix j assume "Suc i \<le> j"
    then have "Suc (pos + (j - i)) = Suc (Suc pos + (j - Suc i))" by simp
    then show "(gear_hash fp (byte_range d pos (Suc (pos + (j - i)))) AND msk = 0) =
        (gear_hash (gear_step fp (d ! pos)) (byte_range d (Suc pos) (Suc (Suc pos + (j - Suc i)))) AND msk = 0)"
      by (simp add: byte_range_Cons)
  qed
  have ih: "fst (snd (cdc_scan (file_bytes d) msk limit (Suc i) (Suc pos) (d ! pos) (gear_step fp (d ! pos)))) =
      first_cut d msk (gear_step fp (d ! pos)) (Suc pos) (Suc i) limit"
    by (rule Suc.hyps) (use Suc in auto)
  show ?case
    using i ih first rest
    by (simp add: cdc_scan.simps [of _ _ limit i] r Let_def first_cut_def upt_conv_Cons)
qed

section \<open>The chunk size\<close>

text \<open>The reference: one scan with one mask over the bytes after the minimum size.\<close>

definition chunk_size_spec :: "byte list \<Rightarrow> nat \<Rightarrow> nat" where
  "chunk_size_spec d pos =
     (let n = length d - pos in
      if n \<le> MinSize then n
      else first_cut d MaskL 0 (pos + MinSize) MinSize (min n MaxSize))"

lemma size_diff: "pos \<le> i_size \<Longrightarrow> i_size < 2 ^ 63 \<Longrightarrow> nat ((int i_size - int pos) mod 2 ^ 64) = i_size - pos"
  by (simp add: of_nat_diff [symmetric] nat_mod_as_int del: of_nat_diff)

lemma size_constants:
  "MinSize \<le> NormalSize" "NormalSize \<le> MaxSize" "0 < MinSize" "MinSize < MaxSize" "MinSize < NormalSize"
  by (simp_all add: MinSize_def NormalSize_def MaxSize_def)

text \<open>Both masks are the same number, so the two loops are one.\<close>

lemma cdc_one_loop:
  assumes "pos \<le> i_size" and "i_size < 2 ^ 63"
  shows "cdc_get_chunk_size rd i_size pos =
    (if i_size - pos \<le> MinSize then i_size - pos
     else fst (snd (cdc_scan rd MaskL (min (i_size - pos) MaxSize) MinSize (pos + MinSize) 0 0)))"
proof -
  define n where "n = i_size - pos"
  have two: "fst (snd (cdc_scan rd MaskL l2 MinSize p 0 0)) =
      (let (hit, i, pos', b, fp) = cdc_scan rd MaskS l1 MinSize p 0 0 in
       if hit then i else let (hit', i', pos'', b', fp') = cdc_scan rd MaskL l2 i pos' b fp in i')"
    if "l1 \<le> l2" for l1 l2 p
    using cdc_scan_two_loops [OF that, of rd MaskL MinSize p 0 0]
    by (auto simp: MaskS_def MaskL_def split: prod.split)
  show ?thesis
    unfolding cdc_get_chunk_size_def size_diff [OF assms] n_def [symmetric]
    using two [of NormalSize MaxSize "pos + MinSize"] two [of n n "pos + MinSize"]
      two [of NormalSize n "pos + MinSize"] size_constants
    by (auto simp: Let_def min_def)
qed

lemma cdc_equals_spec:
  assumes "pos \<le> length d" and "length d < 2 ^ 63"
  shows "cdc_get_chunk_size (file_bytes d) (length d) pos = chunk_size_spec d pos"
  using cdc_one_loop [OF assms, of "file_bytes d"] assms(1)
    cdc_scan_first_cut [of MinSize "min (length d - pos) MaxSize" "pos + MinSize" d MaskL 0 0] size_constants
  by (auto simp: chunk_size_spec_def Let_def)

lemma cdc_bounds:
  fixes rd :: "nat \<Rightarrow> byte option"
  assumes "pos < i_size" and "i_size < 2 ^ 63"
  defines "r \<equiv> cdc_get_chunk_size rd i_size pos"
  shows "0 < r" and "r \<le> i_size - pos" and "r \<le> MaxSize" and "r < i_size - pos \<Longrightarrow> MinSize \<le> r"
proof -
  let ?n = "i_size - pos"
  obtain hit j p b fp where s: "cdc_scan rd MaskL (min ?n MaxSize) MinSize (pos + MinSize) 0 0 = (hit, j, p, b, fp)"
    by (cases "cdc_scan rd MaskL (min ?n MaxSize) MinSize (pos + MinSize) 0 0") auto
  have r: "r = (if ?n \<le> MinSize then ?n else j)"
    using cdc_one_loop [of pos i_size rd] assms s by simp
  have "MinSize \<le> j \<and> j \<le> min ?n MaxSize" if "\<not> ?n \<le> MinSize"
    using cdc_scan_range [OF s] that size_constants by (cases hit) auto
  then show "0 < r" and "r \<le> i_size - pos" and "r \<le> MaxSize" and "r < i_size - pos \<Longrightarrow> MinSize \<le> r"
    using r assms(1) size_constants by (auto split: if_splits)
qed

lemma cdc_local:
  assumes "pos \<le> length d" and "length d < 2 ^ 63" and "pos' \<le> length d'" and "length d' < 2 ^ 63"
    and eq: "take MaxSize (drop pos d) = take MaxSize (drop pos' d')"
  shows "cdc_get_chunk_size (file_bytes d) (length d) pos =
    cdc_get_chunk_size (file_bytes d') (length d') pos'"
proof -
  have len: "min (length d - pos) MaxSize = min (length d' - pos') MaxSize"
    using arg_cong [OF eq, of length] by (simp add: min.commute)
  let ?n = "min (length d - pos) MaxSize"
  have sl: "byte_range d (pos + MinSize) (Suc (pos + MinSize + k)) = byte_range d' (pos' + MinSize) (Suc (pos' + MinSize + k))"
    if k: "MinSize + k < ?n" for k
  proof (rule nth_equalityI)
    fix i assume "i < length (byte_range d (pos + MinSize) (Suc (pos + MinSize + k)))"
    then have i: "i \<le> k" by (simp add: byte_range_def)
    have "take MaxSize (drop pos d) ! (MinSize + i) = take MaxSize (drop pos' d') ! (MinSize + i)"
      using eq by simp
    then have "d ! (pos + MinSize + i) = d' ! (pos' + MinSize + i)"
      using k i len assms(1,3) by (simp add: add.assoc)
    then show "byte_range d (pos + MinSize) (Suc (pos + MinSize + k)) ! i =
        byte_range d' (pos' + MinSize) (Suc (pos' + MinSize + k)) ! i"
      using i by (simp add: byte_range_nth)
  qed (simp add: byte_range_def)
  have cut: "first_cut d MaskL 0 (pos + MinSize) MinSize ?n = first_cut d' MaskL 0 (pos' + MinSize) MinSize ?n"
  proof -
    have "find (\<lambda>j. gear_hash 0 (byte_range d (pos + MinSize) (Suc (pos + MinSize + (j - MinSize)))) AND MaskL = 0)
          [MinSize..<?n] =
        find (\<lambda>j. gear_hash 0 (byte_range d' (pos' + MinSize) (Suc (pos' + MinSize + (j - MinSize)))) AND MaskL = 0)
          [MinSize..<?n]"
    proof (rule find_upt_cong)
      fix j assume "MinSize \<le> j" and "j < ?n"
      then show "(gear_hash 0 (byte_range d (pos + MinSize) (Suc (pos + MinSize + (j - MinSize)))) AND MaskL = 0) =
          (gear_hash 0 (byte_range d' (pos' + MinSize) (Suc (pos' + MinSize + (j - MinSize)))) AND MaskL = 0)"
        using sl [of "j - MinSize"] by simp
    qed
    then show ?thesis by (simp add: first_cut_def)
  qed
  have small: "length d - pos \<le> MinSize \<longleftrightarrow> length d' - pos' \<le> MinSize"
    "length d - pos \<le> MinSize \<Longrightarrow> length d - pos = length d' - pos'"
    using len size_constants by (auto simp: min_def split: if_splits)
  show ?thesis
    using cut small len
    by (simp add: cdc_equals_spec [OF assms(1,2)] cdc_equals_spec [OF assms(3,4)] chunk_size_spec_def Let_def)
qed

end
