(* ===== verification/Bitmap.thy ===== *)
theory Bitmap
  imports FsState
begin

unbundle bit_operations_syntax

text \<open>
  bitmap.c: allocation and release of data blocks and of inodes through the zone map and the
  inode map, bit maps kept in device blocks (\<open>s_zmap\<close>, \<open>s_imap\<close>). A set bit is a busy object.
  The little-endian bit operations (the default of cominix.h) address bit \<open>nr\<close> of a buffer as
  bit \<open>nr mod 8\<close> of byte \<open>nr div 8\<close>. Block numbers are assumed to fit \<open>int\<close> (below 2 to the 31).
\<close>

section \<open>Bit operations on a buffer\<close>

definition cominix_test_bit :: "bufcache \<Rightarrow> nat \<Rightarrow> nat \<Rightarrow> bool" where
  "cominix_test_bit bc b nr = bit (bdata bc b (nr div 8)) (nr mod 8)"

definition put_byte :: "bufcache \<Rightarrow> nat \<Rightarrow> nat \<Rightarrow> byte \<Rightarrow> bufcache" where
  "put_byte bc b off v = bc\<lparr>bdata := (bdata bc)(b := (bdata bc b)(off := v))\<rparr>"

definition cominix_set_bit :: "bufcache \<Rightarrow> nat \<Rightarrow> nat \<Rightarrow> bufcache" where
  "cominix_set_bit bc b nr =
     put_byte bc b (nr div 8) (bdata bc b (nr div 8) OR push_bit (nr mod 8) 1)"

definition cominix_clear_bit :: "bufcache \<Rightarrow> nat \<Rightarrow> nat \<Rightarrow> bufcache" where
  "cominix_clear_bit bc b nr =
     put_byte bc b (nr div 8) (bdata bc b (nr div 8) AND NOT (push_bit (nr mod 8) 1))"

definition cominix_test_and_set_bit :: "bufcache \<Rightarrow> nat \<Rightarrow> nat \<Rightarrow> bufcache \<times> bool" where
  "cominix_test_and_set_bit bc b nr = (cominix_set_bit bc b nr, cominix_test_bit bc b nr)"

definition cominix_test_and_clear_bit :: "bufcache \<Rightarrow> nat \<Rightarrow> nat \<Rightarrow> bufcache \<times> bool" where
  "cominix_test_and_clear_bit bc b nr = (cominix_clear_bit bc b nr, cominix_test_bit bc b nr)"

text \<open>\<open>find_first_zero_bit_le\<close>: the first clear bit, or the size when there is none.\<close>

function find_zero_from :: "bufcache \<Rightarrow> nat \<Rightarrow> nat \<Rightarrow> nat \<Rightarrow> nat" where
  "find_zero_from bc b j n =
     (if j < n then if cominix_test_bit bc b j then find_zero_from bc b (Suc j) n else j else n)"
  by pat_completeness auto
termination
  by (relation "measure (\<lambda>(bc, b, j, n). n - j)") auto

declare find_zero_from.simps [simp del]

definition cominix_find_first_zero_bit :: "bufcache \<Rightarrow> nat \<Rightarrow> nat \<Rightarrow> nat" where
  "cominix_find_first_zero_bit bc b n = find_zero_from bc b 0 n"

section \<open>Counting\<close>

definition hweight16 :: "nat \<Rightarrow> nat" where
  "hweight16 v = length (filter (\<lambda>i. bit v i) [0..<16])"

text \<open>The words of one map block, then the blocks; reading behind the array \<open>map\<close> is a fault.\<close>

definition count_free_block :: "bufcache \<Rightarrow> nat \<Rightarrow> nat \<Rightarrow> nat" where
  "count_free_block bc b blocksize =
     sum_list (map (\<lambda>w. 16 - hweight16 (num_at bc b (2 * w) 2)) [0..<blocksize div 2])"

definition count_free :: "bufcache \<Rightarrow> nat list \<Rightarrow> nat \<Rightarrow> nat \<Rightarrow> nat res" where
  "count_free bc bmap blocksize numbits =
     (let blocks = div_round_up32 numbits (blocksize * 8) in
      if length bmap < blocks then Inl OutOfBounds
      else Inr (u32 (sum_list (map (\<lambda>i. count_free_block bc (bmap ! i) blocksize) [0..<blocks]))))"

text \<open>The count is 32 bits wide, and so is the shift.\<close>

definition cominix_count_free_blocks :: "fs \<Rightarrow> nat res" where
  "cominix_count_free_blocks s =
     (let sbi = cominix_sb s;
          bits = nat ((int (s_nzones sbi) - int (s_firstdatazone sbi) + 1) mod 2 ^ 32) in
      bindE (count_free (fs_bufs s) (s_zmap sbi) (s_blocksize (fs_sb s)) bits) (\<lambda>n.
      Inr (shl32 n (s_log_zone_size sbi))))"

definition cominix_count_free_inodes :: "fs \<Rightarrow> nat res" where
  "cominix_count_free_inodes s =
     (let sbi = cominix_sb s; bits = u32 (s_ninodes sbi + 1) in
      count_free (fs_bufs s) (s_imap sbi) (s_blocksize (fs_sb s)) bits)"

section \<open>Data blocks\<close>

definition bits_per_zone :: "super_block \<Rightarrow> nat" where
  "bits_per_zone sb = 8 * s_blocksize sb"

text \<open>The loop over the map blocks, from block \<open>i\<close> on. The result 0 is the failure value.\<close>

function new_block_from :: "super_block \<Rightarrow> cominix_sb_info \<Rightarrow> bufcache \<Rightarrow> nat \<Rightarrow> bufcache \<times> nat" where
  "new_block_from sb sbi bc i =
     (if i < s_zmap_blocks sbi then
        let bh = s_zmap sbi ! i; j = cominix_find_first_zero_bit bc bh (bits_per_zone sb) in
        if j < bits_per_zone sb then
          let bc' = mark_buffer_dirty (cominix_set_bit bc bh j) bh;
              j' = j + i * bits_per_zone sb + s_firstdatazone sbi - 1 in
          if j' < s_firstdatazone sbi \<or> s_nzones sbi \<le> j' then (bc', 0) else (bc', j')
        else new_block_from sb sbi bc (Suc i)
      else (bc, 0))"
  by pat_completeness auto
termination
  by (relation "measure (\<lambda>(sb, sbi, bc, i). s_zmap_blocks sbi - i)") auto

declare new_block_from.simps [simp del]

definition cominix_new_block_sb :: "fs \<Rightarrow> fs \<times> nat" where
  "cominix_new_block_sb s =
     (let (bc, n) = new_block_from (fs_sb s) (fs_info s) (fs_bufs s) 0 in (s\<lparr>fs_bufs := bc\<rparr>, n))"

text \<open>\<open>cominix_new_block\<close> is the same code reached from an inode.\<close>

definition cominix_new_block :: "fs \<Rightarrow> fs \<times> nat" where
  "cominix_new_block s =
     (let (bc, n) = new_block_from (fs_sb s) (fs_info s) (fs_bufs s) 0 in (s\<lparr>fs_bufs := bc\<rparr>, n))"

definition cominix_free_block :: "fs \<Rightarrow> nat \<Rightarrow> fs" where
  "cominix_free_block s block =
     (let sbi = cominix_sb s; k = s_blocksize_bits (fs_sb s) + 3 in
      if block < s_firstdatazone sbi \<or> s_nzones sbi \<le> block then s
      else
        let zone = block - s_firstdatazone sbi + 1; nr = take_bit k zone; zone' = drop_bit k zone in
        if s_zmap_blocks sbi \<le> zone' then s
        else
          let bh = s_zmap sbi ! zone'; (bc, was) = cominix_test_and_clear_bit (fs_bufs s) bh nr
          in s\<lparr>fs_bufs := mark_buffer_dirty bc bh\<rparr>)"

section \<open>Inodes\<close>

text \<open>The raw inode functions return the buffer and the byte offset of the inode in it, or
  nothing when the number is bad or the block cannot be read.\<close>

definition cominix_V1_raw_inode :: "fs \<Rightarrow> nat \<Rightarrow> (nat \<times> nat) option" where
  "cominix_V1_raw_inode s ino =
     (let sbi = cominix_sb s; inodes_per_block = 1024 div 32 in
      if ino = 0 \<or> s_ninodes sbi < ino then None
      else
        let ino' = ino - 1; block = 2 + s_imap_blocks sbi + s_zmap_blocks sbi + ino' div inodes_per_block in
        case sb_bread (fs_bufs s) block of
          None \<Rightarrow> None | Some bh \<Rightarrow> Some (bh, (ino' mod inodes_per_block) * 32))"

definition cominix_V2_raw_inode :: "fs \<Rightarrow> nat \<Rightarrow> (nat \<times> nat) option" where
  "cominix_V2_raw_inode s ino =
     (let sbi = cominix_sb s; inodes_per_block = s_blocksize (fs_sb s) div 64 in
      if ino = 0 \<or> s_ninodes sbi < ino then None
      else
        let ino' = ino - 1; block = 2 + s_imap_blocks sbi + s_zmap_blocks sbi + ino' div inodes_per_block in
        case sb_bread (fs_bufs s) block of
          None \<Rightarrow> None | Some bh \<Rightarrow> Some (bh, (ino' mod inodes_per_block) * 64))"

text \<open>Offsets in the raw inode: V1 has \<open>i_mode\<close> at 0 and a one-byte \<open>i_nlinks\<close> at 13, V2 has
  \<open>i_mode\<close> at 0 and \<open>i_nlinks\<close> at 2.\<close>

definition cominix_clear_inode :: "fs \<Rightarrow> nat \<Rightarrow> fs" where
  "cominix_clear_inode s ino =
     (if s_version (cominix_sb s) = MINIX_V1 then
        (case cominix_V1_raw_inode s ino of
           None \<Rightarrow> s
         | Some (bh, off) \<Rightarrow>
             s\<lparr>fs_bufs := mark_buffer_dirty
               (put_num (put_num (fs_bufs s) bh (off + 13) 1 0) bh off 2 0) bh\<rparr>)
      else
        (case cominix_V2_raw_inode s ino of
           None \<Rightarrow> s
         | Some (bh, off) \<Rightarrow>
             s\<lparr>fs_bufs := mark_buffer_dirty
               (put_num (put_num (fs_bufs s) bh (off + 2) 2 0) bh off 2 0) bh\<rparr>))"

definition cominix_free_inode :: "fs \<Rightarrow> inode \<Rightarrow> fs" where
  "cominix_free_inode s inode =
     (let sbi = cominix_sb s; k = s_blocksize_bits (fs_sb s) + 3; ino = i_ino inode in
      if ino < 1 \<or> s_ninodes sbi < ino then s
      else
        let nr = take_bit k ino; ino' = drop_bit k ino in
        if s_imap_blocks sbi \<le> ino' then s
        else
          let s' = cominix_clear_inode s ino; bh = s_imap sbi ! ino';
              (bc, was) = cominix_test_and_clear_bit (fs_bufs s') bh nr
          in s'\<lparr>fs_bufs := mark_buffer_dirty bc bh\<rparr>)"

text \<open>The search loop of \<open>cominix_new_inode\<close>: the map index where it stopped and \<open>j\<close>.\<close>

function imap_search :: "super_block \<Rightarrow> cominix_sb_info \<Rightarrow> bufcache \<Rightarrow> nat \<Rightarrow> nat \<Rightarrow> nat \<times> nat" where
  "imap_search sb sbi bc i j =
     (if i < s_imap_blocks sbi then
        let j' = cominix_find_first_zero_bit bc (s_imap sbi ! i) (bits_per_zone sb) in
        if j' < bits_per_zone sb then (i, j') else imap_search sb sbi bc (Suc i) j'
      else (i, j))"
  by pat_completeness auto
termination
  by (relation "measure (\<lambda>(sb, sbi, bc, i, j). s_imap_blocks sbi - i)") auto

declare imap_search.simps [simp del]

text \<open>
  \<open>new_inode\<close> and \<open>inode_init_owner\<close> are kernel functions: \<open>fresh\<close> is the inode the first one
  returns, \<open>init_owner\<close> what the second one does to it, \<open>now\<close> the clock.
\<close>

definition cominix_new_inode ::
    "fs \<Rightarrow> inode option \<Rightarrow> (inode \<Rightarrow> nat \<Rightarrow> inode) \<Rightarrow> nat \<Rightarrow> nat \<Rightarrow> fs \<times> (errno + inode)" where
  "cominix_new_inode s fresh init_owner now mode =
     (let sb = fs_sb s; sbi = cominix_sb s in
      case fresh of
        None \<Rightarrow> (s, Inl ENOMEM)
      | Some inode \<Rightarrow>
          let (i, j) = imap_search sb sbi (fs_bufs s) 0 (bits_per_zone sb) in
          if s_imap_blocks sbi = 0 \<or> bits_per_zone sb \<le> j then (s, Inl ENOSPC)
          else
            let bh = s_imap sbi ! i; (bc, was) = cominix_test_and_set_bit (fs_bufs s) bh j;
                s' = s\<lparr>fs_bufs := bc\<rparr> in
            if was then (s', Inl ENOSPC)
            else
              let s'' = s'\<lparr>fs_bufs := mark_buffer_dirty bc bh\<rparr>; n = j + i * bits_per_zone sb in
              if n = 0 \<or> s_ninodes sbi < n then (s'', Inl ENOSPC)
              else (s'', Inr (mark_inode_dirty ((init_owner inode mode)\<lparr>i_ino := n,
                i_atime := now, i_mtime := now, i_ctime := now, i2_data := (\<lambda>_. 0)\<rparr>))))"

end
