(* ===== verification/BitmapSpec.thy ===== *)
theory BitmapSpec
  imports Bitmap
begin

text \<open>
  The zone map as an allocator of data blocks. \<open>block_alloc\<close> is the contract the linked list
  and the indirect-block tree rely on; \<open>zmap_wf\<close> is the invariant under which bitmap.c meets it.
\<close>

section \<open>Single bits\<close>

lemma bit_or_single: "k < 8 \<Longrightarrow> m < 8 \<Longrightarrow> bit ((x :: byte) OR 2 ^ k) m \<longleftrightarrow> bit x m \<or> m = k"
  by (auto simp: bit_or_iff bit_exp_iff)

lemma bit_and_not_single:
  "k < 8 \<Longrightarrow> m < 8 \<Longrightarrow> bit ((x :: byte) AND NOT (2 ^ k)) m \<longleftrightarrow> bit x m \<and> m \<noteq> k"
  by (auto simp: bit_and_iff bit_not_iff bit_exp_iff)

lemma div_mod_8_eq: "m div 8 = n div 8 \<Longrightarrow> m mod 8 = n mod 8 \<longleftrightarrow> m = (n::nat)"
  by (metis div_mult_mod_eq)

lemma test_set_bit [simp]:
  "cominix_test_bit (cominix_set_bit bc b n) b' m \<longleftrightarrow> b' = b \<and> m = n \<or> cominix_test_bit bc b' m"
proof (cases "b' = b \<and> m div 8 = n div 8")
  case True
  then show ?thesis
    by (auto simp: cominix_test_bit_def cominix_set_bit_def put_byte_def bit_or_single div_mod_8_eq)
next
  case False
  then show ?thesis by (auto simp: cominix_test_bit_def cominix_set_bit_def put_byte_def)
qed

lemma test_clear_bit [simp]:
  "cominix_test_bit (cominix_clear_bit bc b n) b' m \<longleftrightarrow> \<not> (b' = b \<and> m = n) \<and> cominix_test_bit bc b' m"
proof (cases "b' = b \<and> m div 8 = n div 8")
  case True
  then show ?thesis
    by (auto simp: cominix_test_bit_def cominix_clear_bit_def put_byte_def bit_and_not_single div_mod_8_eq)
next
  case False
  then show ?thesis by (auto simp: cominix_test_bit_def cominix_clear_bit_def put_byte_def)
qed

lemma test_bit_mark [simp]: "cominix_test_bit (mark_buffer_dirty bc b) b' m = cominix_test_bit bc b' m"
  by (simp add: cominix_test_bit_def)

lemma set_bit_sel [simp]:
  "bdisk (cominix_set_bit bc b n) = bdisk bc"
  "bdirty (cominix_set_bit bc b n) = bdirty bc"
  "breadable (cominix_set_bit bc b n) = breadable bc"
  "b' \<noteq> b \<Longrightarrow> bdata (cominix_set_bit bc b n) b' = bdata bc b'"
  by (simp_all add: cominix_set_bit_def put_byte_def)

lemma clear_bit_sel [simp]:
  "bdisk (cominix_clear_bit bc b n) = bdisk bc"
  "bdirty (cominix_clear_bit bc b n) = bdirty bc"
  "breadable (cominix_clear_bit bc b n) = breadable bc"
  "b' \<noteq> b \<Longrightarrow> bdata (cominix_clear_bit bc b n) b' = bdata bc b'"
  by (simp_all add: cominix_clear_bit_def put_byte_def)

lemma find_zero_from_spec:
  assumes "j \<le> n"
  shows "j \<le> find_zero_from bc b j n \<and> find_zero_from bc b j n \<le> n \<and>
    (\<forall>k. j \<le> k \<longrightarrow> k < find_zero_from bc b j n \<longrightarrow> cominix_test_bit bc b k) \<and>
    (find_zero_from bc b j n < n \<longrightarrow> \<not> cominix_test_bit bc b (find_zero_from bc b j n))"
  using assms
proof (induction bc b j n rule: find_zero_from.induct)
  case (1 bc b j n)
  show ?case
  proof (cases "j < n \<and> cominix_test_bit bc b j")
    case True
    then have eq: "find_zero_from bc b j n = find_zero_from bc b (Suc j) n"
      by (subst find_zero_from.simps) simp
    have "Suc j \<le> n" using True by simp
    note ih = "1.IH" [OF conjunct1 [OF True] conjunct2 [OF True] this]
    have "cominix_test_bit bc b k" if "j \<le> k" "k < find_zero_from bc b (Suc j) n" for k
      using ih True that by (cases "k = j") (auto simp: Suc_le_eq)
    then show ?thesis unfolding eq using ih by auto
  next
    case False
    then have eq: "find_zero_from bc b j n = j"
      using "1.prems" by (subst find_zero_from.simps) auto
    show ?thesis unfolding eq using False "1.prems" by auto
  qed
qed

lemma find_first_zero_spec:
  "cominix_find_first_zero_bit bc b n \<le> n"
  "k < cominix_find_first_zero_bit bc b n \<Longrightarrow> cominix_test_bit bc b k"
  "cominix_find_first_zero_bit bc b n < n \<Longrightarrow> \<not> cominix_test_bit bc b (cominix_find_first_zero_bit bc b n)"
  using find_zero_from_spec [of 0 n bc b] by (simp_all add: cominix_find_first_zero_bit_def)

section \<open>Zones\<close>

text \<open>Zone \<open>z\<close> is bit \<open>z mod bits_per_zone\<close> of map block \<open>z div bits_per_zone\<close>; data block \<open>b\<close>
  is zone \<open>b - s_firstdatazone + 1\<close>.\<close>

definition zone_busy :: "super_block \<Rightarrow> cominix_sb_info \<Rightarrow> bufcache \<Rightarrow> nat \<Rightarrow> bool" where
  "zone_busy sb sbi bc z =
     cominix_test_bit bc (s_zmap sbi ! (z div bits_per_zone sb)) (z mod bits_per_zone sb)"

definition block_zone :: "cominix_sb_info \<Rightarrow> nat \<Rightarrow> nat" where
  "block_zone sbi b = b - s_firstdatazone sbi + 1"

definition data_block :: "fs \<Rightarrow> nat \<Rightarrow> bool" where
  "data_block s b \<longleftrightarrow> s_firstdatazone (fs_info s) \<le> b \<and> b < s_nzones (fs_info s)"

definition block_busy :: "fs \<Rightarrow> nat \<Rightarrow> bool" where
  "block_busy s b = zone_busy (fs_sb s) (fs_info s) (fs_bufs s) (block_zone (fs_info s) b)"

definition zmap_wf :: "fs \<Rightarrow> bool" where
  "zmap_wf s \<longleftrightarrow> (let sbi = fs_info s in
     0 < s_zmap_blocks sbi \<and> length (s_zmap sbi) = s_zmap_blocks sbi \<and> distinct (s_zmap sbi) \<and>
     0 < s_firstdatazone sbi \<and> s_firstdatazone sbi \<le> s_nzones sbi \<and>
     (\<forall>b \<in> set (s_zmap sbi). b < s_firstdatazone sbi) \<and>
     s_nzones sbi - s_firstdatazone sbi + 1 \<le> s_zmap_blocks sbi * bits_per_zone (fs_sb s) \<and>
     cominix_test_bit (fs_bufs s) (s_zmap sbi ! 0) 0)"

lemma bits_per_zone_pos [simp]: "0 < bits_per_zone sb"
  by (simp add: bits_per_zone_def)

lemma bits_per_zone_power: "bits_per_zone sb = 2 ^ (s_blocksize_bits sb + 3)"
  by (simp add: bits_per_zone_def s_blocksize_def power_add)

lemma zone_split: "i < s_zmap_blocks sbi \<Longrightarrow> j < bits_per_zone sb \<Longrightarrow>
    (j + i * bits_per_zone sb) div bits_per_zone sb = i \<and>
    (j + i * bits_per_zone sb) mod bits_per_zone sb = j"
  by simp

text \<open>What the allocation loop does: it takes the first clear bit of the maps, whatever it stands
  for, and fails when that bit is not a data block or when there is none.\<close>

lemma new_block_from_spec:
  assumes "i \<le> s_zmap_blocks sbi"
  shows "((\<forall>z. i * bits_per_zone sb \<le> z \<longrightarrow> z < s_zmap_blocks sbi * bits_per_zone sb \<longrightarrow> zone_busy sb sbi bc z)
      \<and> new_block_from sb sbi bc i = (bc, 0)) \<or>
    (\<exists>z. i * bits_per_zone sb \<le> z \<and> z < s_zmap_blocks sbi * bits_per_zone sb \<and> \<not> zone_busy sb sbi bc z \<and>
      (\<forall>y. i * bits_per_zone sb \<le> y \<longrightarrow> y < z \<longrightarrow> zone_busy sb sbi bc y) \<and>
      new_block_from sb sbi bc i =
        (mark_buffer_dirty (cominix_set_bit bc (s_zmap sbi ! (z div bits_per_zone sb)) (z mod bits_per_zone sb))
           (s_zmap sbi ! (z div bits_per_zone sb)),
         let n = z + s_firstdatazone sbi - 1 in
         if n < s_firstdatazone sbi \<or> s_nzones sbi \<le> n then 0 else n))"
  using assms
proof (induction sb sbi bc i rule: new_block_from.induct)
  case (1 sb sbi bc i)
  let ?k = "bits_per_zone sb"
  show ?case
  proof (cases "i < s_zmap_blocks sbi")
    case False
    with "1.prems" have i: "i = s_zmap_blocks sbi" by simp
    have "new_block_from sb sbi bc i = (bc, 0)"
      using False by (subst new_block_from.simps) simp
    then show ?thesis using i by auto
  next
    case True
    define bh where "bh = s_zmap sbi ! i"
    define j where "j = cominix_find_first_zero_bit bc bh ?k"
    note J = find_first_zero_spec [where bc = bc and b = bh and n = ?k, folded j_def]
    have bit: "zone_busy sb sbi bc (m + i * ?k) = cominix_test_bit bc bh m" if "m < ?k" for m
      using that by (simp add: zone_busy_def bh_def)
    have block: "\<exists>m < ?k. z = m + i * ?k" if "i * ?k \<le> z" "z < Suc i * ?k" for z
      using that by (intro exI [of _ "z - i * ?k"]) auto
    show ?thesis
    proof (cases "j < ?k")
      case found: True
      have step: "new_block_from sb sbi bc i =
          (mark_buffer_dirty (cominix_set_bit bc bh j) bh,
           let n = j + i * ?k + s_firstdatazone sbi - 1 in
           if n < s_firstdatazone sbi \<or> s_nzones sbi \<le> n then 0 else n)"
        using True found
        by (subst new_block_from.simps) (simp add: Let_def bh_def [symmetric] j_def [symmetric])
      have "Suc i * ?k \<le> s_zmap_blocks sbi * ?k" using True by (intro mult_le_mono1) simp
      then have lt: "j + i * ?k < s_zmap_blocks sbi * ?k" using found by simp
      have before: "\<forall>y. i * ?k \<le> y \<longrightarrow> y < j + i * ?k \<longrightarrow> zone_busy sb sbi bc y"
      proof (intro allI impI)
        fix y assume y: "i * ?k \<le> y" "y < j + i * ?k"
        then have "y - i * ?k < j" by simp
        with J(2) found bit [of "y - i * ?k"] y(1) show "zone_busy sb sbi bc y" by simp
      qed
      show ?thesis
        using lt before J(3) [OF found] bit [OF found] found step
        by (intro disjI2 exI [of _ "j + i * ?k"]) (simp add: bh_def)
    next
      case full: False
      with J(1) have "j = ?k" by simp
      then have here: "zone_busy sb sbi bc z" if "i * ?k \<le> z" "z < Suc i * ?k" for z
        using block [OF that] J(2) bit by auto
      have step: "new_block_from sb sbi bc i = new_block_from sb sbi bc (Suc i)"
        using True full
        by (subst new_block_from.simps) (simp add: Let_def bh_def [symmetric] j_def [symmetric])
      have ih: "((\<forall>z. Suc i * ?k \<le> z \<longrightarrow> z < s_zmap_blocks sbi * ?k \<longrightarrow> zone_busy sb sbi bc z)
          \<and> new_block_from sb sbi bc (Suc i) = (bc, 0)) \<or>
        (\<exists>z. Suc i * ?k \<le> z \<and> z < s_zmap_blocks sbi * ?k \<and> \<not> zone_busy sb sbi bc z \<and>
          (\<forall>y. Suc i * ?k \<le> y \<longrightarrow> y < z \<longrightarrow> zone_busy sb sbi bc y) \<and>
          new_block_from sb sbi bc (Suc i) =
            (mark_buffer_dirty (cominix_set_bit bc (s_zmap sbi ! (z div ?k)) (z mod ?k)) (s_zmap sbi ! (z div ?k)),
             let n = z + s_firstdatazone sbi - 1 in
             if n < s_firstdatazone sbi \<or> s_nzones sbi \<le> n then 0 else n))"
        using "1.IH" [OF True bh_def j_def full] True by simp
      have ext: "\<And>y. i * ?k \<le> y \<Longrightarrow> (Suc i * ?k \<le> y \<Longrightarrow> zone_busy sb sbi bc y) \<Longrightarrow> zone_busy sb sbi bc y"
        using here by (metis not_le)
      from ih show ?thesis
      proof
        assume a: "(\<forall>z. Suc i * ?k \<le> z \<longrightarrow> z < s_zmap_blocks sbi * ?k \<longrightarrow> zone_busy sb sbi bc z)
          \<and> new_block_from sb sbi bc (Suc i) = (bc, 0)"
        then show ?thesis unfolding step using ext by (intro disjI1 conjI) blast+
      next
        assume "\<exists>z. Suc i * ?k \<le> z \<and> z < s_zmap_blocks sbi * ?k \<and> \<not> zone_busy sb sbi bc z \<and>
          (\<forall>y. Suc i * ?k \<le> y \<longrightarrow> y < z \<longrightarrow> zone_busy sb sbi bc y) \<and>
          new_block_from sb sbi bc (Suc i) =
            (mark_buffer_dirty (cominix_set_bit bc (s_zmap sbi ! (z div ?k)) (z mod ?k)) (s_zmap sbi ! (z div ?k)),
             let n = z + s_firstdatazone sbi - 1 in
             if n < s_firstdatazone sbi \<or> s_nzones sbi \<le> n then 0 else n)"
        then obtain z where z: "Suc i * ?k \<le> z" "z < s_zmap_blocks sbi * ?k" "\<not> zone_busy sb sbi bc z"
            "\<forall>y. Suc i * ?k \<le> y \<longrightarrow> y < z \<longrightarrow> zone_busy sb sbi bc y"
            "new_block_from sb sbi bc (Suc i) =
            (mark_buffer_dirty (cominix_set_bit bc (s_zmap sbi ! (z div ?k)) (z mod ?k)) (s_zmap sbi ! (z div ?k)),
             let n = z + s_firstdatazone sbi - 1 in
             if n < s_firstdatazone sbi \<or> s_nzones sbi \<le> n then 0 else n)"
          by blast
        have "i * ?k \<le> z" using z(1) by simp
        then show ?thesis
          unfolding step using z ext by (intro disjI2 exI [of _ z] conjI) blast+
      qed
    qed
  qed
qed

lemma zone_in_map:
  assumes "z < s_zmap_blocks sbi * bits_per_zone sb"
  shows "z div bits_per_zone sb < s_zmap_blocks sbi"
  using assms by (simp add: less_mult_imp_div_less)

lemma zone_busy_set:
  assumes "distinct (s_zmap sbi)" "length (s_zmap sbi) = s_zmap_blocks sbi"
    and "z < s_zmap_blocks sbi * bits_per_zone sb" "y < s_zmap_blocks sbi * bits_per_zone sb"
  defines "bh \<equiv> s_zmap sbi ! (z div bits_per_zone sb)"
  shows "zone_busy sb sbi (mark_buffer_dirty (cominix_set_bit bc bh (z mod bits_per_zone sb)) bh) y
           \<longleftrightarrow> y = z \<or> zone_busy sb sbi bc y"
    and "zone_busy sb sbi (mark_buffer_dirty (cominix_clear_bit bc bh (z mod bits_per_zone sb)) bh) y
           \<longleftrightarrow> y \<noteq> z \<and> zone_busy sb sbi bc y"
proof -
  have "s_zmap sbi ! (y div bits_per_zone sb) = bh \<longleftrightarrow> y div bits_per_zone sb = z div bits_per_zone sb"
    using assms(1,2) zone_in_map [OF assms(3)] zone_in_map [OF assms(4)]
    by (simp add: bh_def nth_eq_iff_index_eq)
  moreover have "y div bits_per_zone sb = z div bits_per_zone sb \<and>
      y mod bits_per_zone sb = z mod bits_per_zone sb \<longleftrightarrow> y = z"
    by (metis div_mult_mod_eq)
  ultimately show "zone_busy sb sbi (mark_buffer_dirty (cominix_set_bit bc bh (z mod bits_per_zone sb)) bh) y
           \<longleftrightarrow> y = z \<or> zone_busy sb sbi bc y"
    and "zone_busy sb sbi (mark_buffer_dirty (cominix_clear_bit bc bh (z mod bits_per_zone sb)) bh) y
           \<longleftrightarrow> y \<noteq> z \<and> zone_busy sb sbi bc y"
    by (auto simp: zone_busy_def)
qed

lemma zmap_wfD:
  assumes "zmap_wf s"
  shows "distinct (s_zmap (fs_info s))" "length (s_zmap (fs_info s)) = s_zmap_blocks (fs_info s)"
    and "0 < s_zmap_blocks (fs_info s)" "0 < s_firstdatazone (fs_info s)"
    and "s_firstdatazone (fs_info s) \<le> s_nzones (fs_info s)"
    and "b \<in> set (s_zmap (fs_info s)) \<Longrightarrow> b < s_firstdatazone (fs_info s)"
    and "s_nzones (fs_info s) - s_firstdatazone (fs_info s) + 1
           \<le> s_zmap_blocks (fs_info s) * bits_per_zone (fs_sb s)"
    and "zone_busy (fs_sb s) (fs_info s) (fs_bufs s) 0"
  using assms by (auto simp: zmap_wf_def Let_def zone_busy_def)

lemma block_zone_bounds:
  assumes "zmap_wf s" "data_block s b"
  shows "0 < block_zone (fs_info s) b"
    and "block_zone (fs_info s) b < s_zmap_blocks (fs_info s) * bits_per_zone (fs_sb s)"
  using assms(2) zmap_wfD(7) [OF assms(1)] by (auto simp: block_zone_def data_block_def)

lemma block_zone_inj:
  "data_block s b \<Longrightarrow> data_block s b' \<Longrightarrow> block_zone (fs_info s) b = block_zone (fs_info s) b' \<longleftrightarrow> b = b'"
  by (auto simp: block_zone_def data_block_def)

lemma zmap_block_not_data: "zmap_wf s \<Longrightarrow> data_block s b \<Longrightarrow> b \<notin> set (s_zmap (fs_info s))"
  using zmap_wfD(6) by (fastforce simp: data_block_def)

section \<open>Allocation and release\<close>

lemma new_block_cases:
  assumes wf: "zmap_wf s"
  obtains (full) "\<And>b. data_block s b \<Longrightarrow> block_busy s b" "cominix_new_block_sb s = (s, 0)"
  | (leak) z where "\<And>b. data_block s b \<Longrightarrow> block_busy s b"
      "z < s_zmap_blocks (fs_info s) * bits_per_zone (fs_sb s)"
      "\<And>b. data_block s b \<Longrightarrow> block_zone (fs_info s) b \<noteq> z"
      "cominix_new_block_sb s = (s\<lparr>fs_bufs := mark_buffer_dirty
         (cominix_set_bit (fs_bufs s) (s_zmap (fs_info s) ! (z div bits_per_zone (fs_sb s)))
            (z mod bits_per_zone (fs_sb s))) (s_zmap (fs_info s) ! (z div bits_per_zone (fs_sb s)))\<rparr>, 0)"
  | (found) b where "data_block s b" "\<not> block_busy s b"
      "\<And>b'. data_block s b' \<Longrightarrow> b' < b \<Longrightarrow> block_busy s b'"
      "cominix_new_block_sb s = (let z = block_zone (fs_info s) b in (s\<lparr>fs_bufs := mark_buffer_dirty
         (cominix_set_bit (fs_bufs s) (s_zmap (fs_info s) ! (z div bits_per_zone (fs_sb s)))
            (z mod bits_per_zone (fs_sb s))) (s_zmap (fs_info s) ! (z div bits_per_zone (fs_sb s)))\<rparr>, b))"
proof -
  let ?sb = "fs_sb s" and ?i = "fs_info s" and ?bc = "fs_bufs s"
  let ?k = "bits_per_zone ?sb"
  let ?set = "\<lambda>z. mark_buffer_dirty (cominix_set_bit ?bc (s_zmap ?i ! (z div ?k)) (z mod ?k)) (s_zmap ?i ! (z div ?k))"
  from new_block_from_spec [of 0 ?i ?sb ?bc]
  consider (a) "\<forall>z < s_zmap_blocks ?i * ?k. zone_busy ?sb ?i ?bc z" "new_block_from ?sb ?i ?bc 0 = (?bc, 0)"
    | (b) z where "z < s_zmap_blocks ?i * ?k" "\<not> zone_busy ?sb ?i ?bc z" "\<forall>y < z. zone_busy ?sb ?i ?bc y"
      "new_block_from ?sb ?i ?bc 0 = (?set z, let n = z + s_firstdatazone ?i - 1 in
         if n < s_firstdatazone ?i \<or> s_nzones ?i \<le> n then 0 else n)"
    by auto
  then show thesis
  proof cases
    case a
    show thesis
      by (rule full) (use a block_zone_bounds [OF wf] in \<open>auto simp: block_busy_def cominix_new_block_sb_def\<close>)
  next
    case b
    define n where "n = z + s_firstdatazone ?i - 1"
    have z: "0 < z" using b(2) zmap_wfD(8) [OF wf] by (metis gr0I)
    then have n: "s_firstdatazone ?i \<le> n" "block_zone ?i n = z" by (auto simp: n_def block_zone_def)
    show thesis
    proof (cases "n < s_nzones ?i")
      case True
      have z_eq: "block_zone ?i n = z" by (rule n(2))
      show thesis
      proof (rule found [of n])
        show "data_block s n" using True n(1) by (simp add: data_block_def)
        show "\<not> block_busy s n" using b(2) z_eq by (simp add: block_busy_def)
        show "block_busy s b'" if "data_block s b'" "b' < n" for b'
          using that b(3) z_eq n(1) by (auto simp: block_busy_def block_zone_def data_block_def)
        show "cominix_new_block_sb s = (let z = block_zone ?i n in (s\<lparr>fs_bufs := ?set z\<rparr>, n))"
          using True n(1) b(4) z_eq by (simp add: cominix_new_block_sb_def Let_def n_def [simplified, symmetric])
      qed
    next
      case False
      have lt: "block_zone ?i b' < z" if "data_block s b'" for b'
        using that False z by (auto simp: n_def data_block_def block_zone_def)
      show thesis
      proof (rule leak [of z])
        show "block_busy s b'" if "data_block s b'" for b'
          using b(3) lt [OF that] by (simp add: block_busy_def)
        show "z < s_zmap_blocks ?i * ?k" by (rule b(1))
        show "block_zone ?i b' \<noteq> z" if "data_block s b'" for b'
          using lt [OF that] by simp
        show "cominix_new_block_sb s = (s\<lparr>fs_bufs := ?set z\<rparr>, 0)"
          using False b(4) by (simp add: cominix_new_block_sb_def Let_def n_def [simplified, symmetric])
      qed
    qed
  qed
qed


lemma new_block_same: "cominix_new_block = cominix_new_block_sb"
  by (rule ext) (simp add: cominix_new_block_def cominix_new_block_sb_def)

text \<open>The two ways a map bit of the state changes.\<close>

definition zmap_set :: "fs \<Rightarrow> nat \<Rightarrow> fs" where
  "zmap_set s z = s\<lparr>fs_bufs := mark_buffer_dirty
     (cominix_set_bit (fs_bufs s) (s_zmap (fs_info s) ! (z div bits_per_zone (fs_sb s)))
        (z mod bits_per_zone (fs_sb s))) (s_zmap (fs_info s) ! (z div bits_per_zone (fs_sb s)))\<rparr>"

definition zmap_clear :: "fs \<Rightarrow> nat \<Rightarrow> fs" where
  "zmap_clear s z = s\<lparr>fs_bufs := mark_buffer_dirty
     (cominix_clear_bit (fs_bufs s) (s_zmap (fs_info s) ! (z div bits_per_zone (fs_sb s)))
        (z mod bits_per_zone (fs_sb s))) (s_zmap (fs_info s) ! (z div bits_per_zone (fs_sb s)))\<rparr>"

lemma zmap_change_sel [simp, frame_simps]:
  "fs_sb (zmap_set s z) = fs_sb s" "fs_info (zmap_set s z) = fs_info s"
  "fs_sb (zmap_clear s z) = fs_sb s" "fs_info (zmap_clear s z) = fs_info s"
  "breadable (fs_bufs (zmap_set s z)) = breadable (fs_bufs s)"
  "breadable (fs_bufs (zmap_clear s z)) = breadable (fs_bufs s)"
  "data_block (zmap_set s z) = data_block s" "data_block (zmap_clear s z) = data_block s"
  by (simp_all add: zmap_set_def zmap_clear_def data_block_def fun_eq_iff)

lemma zmap_change_busy:
  assumes wf: "zmap_wf s" and z: "z < s_zmap_blocks (fs_info s) * bits_per_zone (fs_sb s)"
    and "data_block s b"
  shows "block_busy (zmap_set s z) b \<longleftrightarrow> block_zone (fs_info s) b = z \<or> block_busy s b"
    and "block_busy (zmap_clear s z) b \<longleftrightarrow> block_zone (fs_info s) b \<noteq> z \<and> block_busy s b"
  unfolding zmap_set_def zmap_clear_def block_busy_def
  using zone_busy_set [OF zmap_wfD(1,2) [OF wf] z block_zone_bounds(2) [OF wf assms(3)]] by simp_all

lemma zmap_change_wf:
  assumes wf: "zmap_wf s" and z: "z < s_zmap_blocks (fs_info s) * bits_per_zone (fs_sb s)"
  shows "zmap_wf (zmap_set s z)" and "0 < z \<Longrightarrow> zmap_wf (zmap_clear s z)"
proof -
  have zero: "0 < s_zmap_blocks (fs_info s) * bits_per_zone (fs_sb s)"
    using zmap_wfD(3) [OF wf] by simp
  note zb = zone_busy_set [OF zmap_wfD(1,2) [OF wf] z zero]
  have "zone_busy (fs_sb s) (fs_info s) (fs_bufs (zmap_set s z)) 0"
    using zb(1) zmap_wfD(8) [OF wf] by (simp add: zmap_set_def)
  then show "zmap_wf (zmap_set s z)"
    using wf by (simp add: zmap_wf_def Let_def zone_busy_def)
  show "zmap_wf (zmap_clear s z)" if "0 < z"
  proof -
    have "zone_busy (fs_sb s) (fs_info s) (fs_bufs (zmap_clear s z)) 0"
      using zb(2) zmap_wfD(8) [OF wf] that by (simp add: zmap_clear_def)
    then show ?thesis using wf by (simp add: zmap_wf_def Let_def zone_busy_def)
  qed
qed

lemma zmap_change_content:
  assumes wf: "zmap_wf s" and z: "z < s_zmap_blocks (fs_info s) * bits_per_zone (fs_sb s)"
    and "b \<notin> set (s_zmap (fs_info s))"
  shows "bdata (fs_bufs (zmap_set s z)) b = bdata (fs_bufs s) b"
    and "bdata (fs_bufs (zmap_clear s z)) b = bdata (fs_bufs s) b"
proof -
  have "s_zmap (fs_info s) ! (z div bits_per_zone (fs_sb s)) \<in> set (s_zmap (fs_info s))"
    using zone_in_map [OF z] zmap_wfD(2) [OF wf] by simp
  with assms(3) have "b \<noteq> s_zmap (fs_info s) ! (z div bits_per_zone (fs_sb s))" by auto
  then show "bdata (fs_bufs (zmap_set s z)) b = bdata (fs_bufs s) b"
    and "bdata (fs_bufs (zmap_clear s z)) b = bdata (fs_bufs s) b"
    by (simp_all add: zmap_set_def zmap_clear_def)
qed

lemma zmap_change_coherent:
  "coherent (fs_bufs s) \<Longrightarrow> coherent (fs_bufs (zmap_set s z)) \<and> coherent (fs_bufs (zmap_clear s z))"
  by (auto simp: zmap_set_def zmap_clear_def intro: coherent_mark_change)

lemmas new_block_outcome = new_block_cases [folded zmap_set_def, unfolded Let_def]

lemma free_block_eq:
  assumes wf: "zmap_wf s"
  shows "cominix_free_block s b = (if data_block s b then zmap_clear s (block_zone (fs_info s) b) else s)"
proof (cases "data_block s b")
  case False
  then show ?thesis by (auto simp: cominix_free_block_def cominix_sb_def Let_def data_block_def)
next
  case True
  have "block_zone (fs_info s) b div bits_per_zone (fs_sb s) < s_zmap_blocks (fs_info s)"
    by (rule zone_in_map) (rule block_zone_bounds(2) [OF wf True])
  with True show ?thesis
    by (simp add: cominix_free_block_def cominix_sb_def Let_def zmap_clear_def block_zone_def
        data_block_def bits_per_zone_power drop_bit_nat_div take_bit_nat_mod
        cominix_test_and_clear_bit_def)
qed


lemma set_clear_bit_sel:
  "bdirty (cominix_set_bit bc b n) = bdirty bc" "bdirty (cominix_clear_bit bc b n) = bdirty bc"
  "bdisk (cominix_set_bit bc b n) = bdisk bc" "bdisk (cominix_clear_bit bc b n) = bdisk bc"
  "c \<noteq> b \<Longrightarrow> bdata (cominix_set_bit bc b n) c = bdata bc c" "c \<noteq> b \<Longrightarrow> bdata (cominix_clear_bit bc b n) c = bdata bc c"
  by (simp_all add: cominix_set_bit_def cominix_clear_bit_def put_byte_def)

lemma zmap_change_tracks: "tracks {} (fs_bufs s) (fs_bufs (zmap_set s z))" "tracks {} (fs_bufs s) (fs_bufs (zmap_clear s z))"
  by (auto simp: tracks_def zmap_set_def zmap_clear_def set_clear_bit_sel)

lemma new_block_tracks:
  assumes wf: "zmap_wf s" and r: "cominix_new_block_sb s = (t, b)"
  shows "tracks {} (fs_bufs s) (fs_bufs t)"
  using new_block_outcome [OF wf] r by (metis Pair_inject tracks_refl zmap_change_tracks(1))

lemma free_block_tracks: "zmap_wf s \<Longrightarrow> tracks {} (fs_bufs s) (fs_bufs (cominix_free_block s b))"
  by (simp add: free_block_eq zmap_change_tracks)

section \<open>The contract of a block allocator\<close>

text \<open>
  What the clients of bitmap.c rely on: an allocation yields a free data block and makes it busy,
  fails (0) only when no data block is free, and touches neither the other blocks' state nor
  the content of any block outside the maps; a release makes a data block free again.
\<close>

locale block_alloc =
  fixes wf :: "'s \<Rightarrow> bool"
    and is_block :: "'s \<Rightarrow> nat \<Rightarrow> bool"
    and busy :: "'s \<Rightarrow> nat \<Rightarrow> bool"
    and content :: "'s \<Rightarrow> nat \<Rightarrow> 'c"
    and alloc :: "'s \<Rightarrow> 's \<times> nat"
    and free :: "'s \<Rightarrow> nat \<Rightarrow> 's"
  assumes finite_blocks: "finite {b. is_block s b}"
    and zero_not_block: "wf s \<Longrightarrow> \<not> is_block s 0"
    and alloc_wf: "wf s \<Longrightarrow> alloc s = (s', b) \<Longrightarrow> wf s'"
    and alloc_blocks: "wf s \<Longrightarrow> alloc s = (s', b) \<Longrightarrow> is_block s' = is_block s"
    and alloc_fresh: "wf s \<Longrightarrow> alloc s = (s', b) \<Longrightarrow> b \<noteq> 0 \<Longrightarrow> is_block s b \<and> \<not> busy s b"
    and alloc_full: "wf s \<Longrightarrow> alloc s = (s', 0) \<Longrightarrow> is_block s c \<Longrightarrow> busy s c"
    and alloc_busy: "wf s \<Longrightarrow> alloc s = (s', b) \<Longrightarrow> is_block s c \<Longrightarrow> busy s' c \<longleftrightarrow> c = b \<or> busy s c"
    and alloc_content: "wf s \<Longrightarrow> alloc s = (s', b) \<Longrightarrow> is_block s c \<Longrightarrow> content s' c = content s c"
    and free_wf: "wf s \<Longrightarrow> wf (free s b)"
    and free_blocks: "wf s \<Longrightarrow> is_block (free s b) = is_block s"
    and free_busy: "wf s \<Longrightarrow> is_block s c \<Longrightarrow> busy (free s b) c \<longleftrightarrow> c \<noteq> b \<and> busy s c"
    and free_content: "wf s \<Longrightarrow> is_block s c \<Longrightarrow> content (free s b) c = content s c"
begin

definition free_set :: "'s \<Rightarrow> nat set" where
  "free_set s = {b. is_block s b \<and> \<not> busy s b}"

lemma finite_free_set [simp]: "finite (free_set s)"
  using finite_blocks [of s] by (auto simp: free_set_def)

lemma alloc_free_set:
  assumes "wf s" "alloc s = (s', b)"
  shows "free_set s' = free_set s - {b}"
  using alloc_busy [OF assms] alloc_blocks [OF assms] by (auto simp: free_set_def)

lemma alloc_zero_iff:
  assumes "wf s" "alloc s = (s', b)"
  shows "b = 0 \<longleftrightarrow> free_set s = {}"
  using alloc_fresh [OF assms] alloc_full [OF assms(1)] assms(2) by (auto simp: free_set_def)

lemma alloc_count:
  assumes "wf s" "alloc s = (s', b)"
  shows "card (free_set s') = card (free_set s) - 1"
proof (cases "b = 0")
  case True
  then have "free_set s = {}" using alloc_zero_iff [OF assms] by simp
  then show ?thesis using alloc_free_set [OF assms] by simp
next
  case False
  then have "b \<in> free_set s" using alloc_fresh [OF assms] by (simp add: free_set_def)
  then show ?thesis using alloc_free_set [OF assms] by simp
qed

lemma free_free_set:
  assumes "wf s" "is_block s b"
  shows "free_set (free s b) = insert b (free_set s)"
  using free_busy [OF assms(1)] free_blocks [OF assms(1)] assms(2) by (auto simp: free_set_def)

lemma free_after_alloc:
  assumes "wf s" "alloc s = (s', b)" "b \<noteq> 0"
  shows "free_set (free s' b) = free_set s"
proof -
  have b: "is_block s' b" "b \<in> free_set s"
    using alloc_fresh [OF assms] alloc_blocks [OF assms(1,2)] by (auto simp: free_set_def)
  have "free_set (free s' b) = insert b (free_set s')"
    by (rule free_free_set) (rule alloc_wf [OF assms(1,2)], rule b(1))
  then show ?thesis using alloc_free_set [OF assms(1,2)] b(2) by auto
qed

text \<open>A run of \<open>n\<close> allocations and the blocks it returned, failures included.\<close>

primrec alloc_n :: "nat \<Rightarrow> 's \<Rightarrow> 's \<times> nat list" where
  "alloc_n 0 s = (s, [])"
| "alloc_n (Suc n) s = (let (s', b) = alloc s; (s'', bs) = alloc_n n s' in (s'', b # bs))"

lemma alloc_n_spec:
  assumes "wf s" "alloc_n n s = (s', bs)"
  shows "wf s' \<and> free_set s' = free_set s - set bs \<and> (\<forall>b \<in> set bs. b \<noteq> 0 \<longrightarrow> b \<in> free_set s) \<and>
    distinct (filter (\<lambda>b. b \<noteq> 0) bs) \<and> length bs = n"
  using assms
proof (induction n arbitrary: s bs)
  case 0
  then show ?case by auto
next
  case (Suc n)
  obtain t b cs where a: "alloc s = (t, b)" and r: "alloc_n n t = (s', cs)" and bs: "bs = b # cs"
    using Suc.prems(2) by (auto split: prod.splits)
  have t: "wf t" "free_set t = free_set s - {b}"
    using alloc_wf [OF Suc.prems(1) a] alloc_free_set [OF Suc.prems(1) a] by auto
  note ih = Suc.IH [OF t(1) r]
  have "b \<noteq> 0 \<Longrightarrow> b \<in> free_set s"
    using alloc_fresh [OF Suc.prems(1) a] by (simp add: free_set_def)
  with ih t(2) bs show ?case by auto
qed

lemma alloc_n_succeeds:
  assumes "wf s" "alloc_n n s = (s', bs)" "n \<le> card (free_set s)"
  shows "0 \<notin> set bs"
  using assms
proof (induction n arbitrary: s bs)
  case 0
  then show ?case by auto
next
  case (Suc n)
  obtain t b cs where a: "alloc s = (t, b)" and r: "alloc_n n t = (s', cs)" and bs: "bs = b # cs"
    using Suc.prems(2) by (auto split: prod.splits)
  have "n \<le> card (free_set t)" using alloc_count [OF Suc.prems(1) a] Suc.prems(3) by simp
  then have "0 \<notin> set cs" by (rule Suc.IH [OF alloc_wf [OF Suc.prems(1) a] r])
  moreover have "b \<noteq> 0" using alloc_zero_iff [OF Suc.prems(1) a] Suc.prems(3) by auto
  ultimately show ?case using bs by simp
qed

end

section \<open>bitmap.c meets the contract\<close>

definition block_content :: "fs \<Rightarrow> nat \<Rightarrow> nat \<Rightarrow> byte" where
  "block_content s = bdata (fs_bufs s)"

lemma finite_data_blocks: "finite {b. data_block s b}"
proof -
  have "{b. data_block s b} \<subseteq> {..<s_nzones (fs_info s)}" by (auto simp: data_block_def)
  then show ?thesis by (rule finite_subset) simp
qed

lemma new_block_laws:
  assumes wf: "zmap_wf s" and r: "cominix_new_block_sb s = (s', b)"
  shows "zmap_wf s'" and "data_block s' = data_block s"
    and "b \<noteq> 0 \<Longrightarrow> data_block s b \<and> \<not> block_busy s b"
    and "b = 0 \<Longrightarrow> data_block s c \<Longrightarrow> block_busy s c"
    and "data_block s c \<Longrightarrow> block_busy s' c \<longleftrightarrow> c = b \<or> block_busy s c"
    and "c \<notin> set (s_zmap (fs_info s)) \<Longrightarrow> bdata (fs_bufs s') c = bdata (fs_bufs s) c"
    and "fs_sb s' = fs_sb s" "fs_info s' = fs_info s" "breadable (fs_bufs s') = breadable (fs_bufs s)"
    and "coherent (fs_bufs s) \<Longrightarrow> coherent (fs_bufs s')"
proof -
  have zero: "\<not> data_block s 0" using zmap_wfD(4) [OF wf] by (simp add: data_block_def)
  have all: "zmap_wf s' \<and> data_block s' = data_block s \<and> (b \<noteq> 0 \<longrightarrow> data_block s b \<and> \<not> block_busy s b)
    \<and> (b = 0 \<longrightarrow> (\<forall>c. data_block s c \<longrightarrow> block_busy s c))
    \<and> (\<forall>c. data_block s c \<longrightarrow> (block_busy s' c \<longleftrightarrow> c = b \<or> block_busy s c))
    \<and> (\<forall>c. c \<notin> set (s_zmap (fs_info s)) \<longrightarrow> bdata (fs_bufs s') c = bdata (fs_bufs s) c)
    \<and> fs_sb s' = fs_sb s \<and> fs_info s' = fs_info s \<and> breadable (fs_bufs s') = breadable (fs_bufs s)
    \<and> (coherent (fs_bufs s) \<longrightarrow> coherent (fs_bufs s'))"
  proof (cases rule: new_block_outcome [OF wf])
    case 1
    then show ?thesis using r wf zero by auto
  next
    case (2 z)
    then show ?thesis
      using r zmap_change_wf(1) [OF wf 2(2)] zmap_change_busy(1) [OF wf 2(2)]
        zmap_change_content(1) [OF wf 2(2)] zmap_change_coherent zero by auto
  next
    case (3 n)
    note z = block_zone_bounds(2) [OF wf 3(1)]
    show ?thesis
      using 3 r zmap_change_wf(1) [OF wf z] zmap_change_busy(1) [OF wf z] zmap_change_content(1) [OF wf z]
        zmap_change_coherent block_zone_inj [OF _ 3(1)] zero by auto
  qed
  then show "zmap_wf s'" and "data_block s' = data_block s"
    and "b \<noteq> 0 \<Longrightarrow> data_block s b \<and> \<not> block_busy s b"
    and "b = 0 \<Longrightarrow> data_block s c \<Longrightarrow> block_busy s c"
    and "data_block s c \<Longrightarrow> block_busy s' c \<longleftrightarrow> c = b \<or> block_busy s c"
    and "c \<notin> set (s_zmap (fs_info s)) \<Longrightarrow> bdata (fs_bufs s') c = bdata (fs_bufs s) c"
    and "fs_sb s' = fs_sb s" "fs_info s' = fs_info s" "breadable (fs_bufs s') = breadable (fs_bufs s)"
    and "coherent (fs_bufs s) \<Longrightarrow> coherent (fs_bufs s')"
    by blast+
qed

lemma free_block_laws:
  assumes wf: "zmap_wf s"
  shows "zmap_wf (cominix_free_block s b)" and "data_block (cominix_free_block s b) = data_block s"
    and "data_block s c \<Longrightarrow> block_busy (cominix_free_block s b) c \<longleftrightarrow> c \<noteq> b \<and> block_busy s c"
    and "c \<notin> set (s_zmap (fs_info s)) \<Longrightarrow>
      bdata (fs_bufs (cominix_free_block s b)) c = bdata (fs_bufs s) c"
proof -
  have all: "zmap_wf (cominix_free_block s b) \<and> data_block (cominix_free_block s b) = data_block s \<and>
    (data_block s c \<longrightarrow> (block_busy (cominix_free_block s b) c \<longleftrightarrow> c \<noteq> b \<and> block_busy s c)) \<and>
    (c \<notin> set (s_zmap (fs_info s)) \<longrightarrow> bdata (fs_bufs (cominix_free_block s b)) c = bdata (fs_bufs s) c)"
  proof (cases "data_block s b")
    case False
    then show ?thesis using wf by (auto simp: free_block_eq [OF wf])
  next
    case True
    note z = block_zone_bounds [OF wf True]
    show ?thesis
      using True zmap_change_wf(2) [OF wf z(2) z(1)] zmap_change_busy(2) [OF wf z(2)]
        zmap_change_content(2) [OF wf z(2)] block_zone_inj [OF _ True]
      by (auto simp: free_block_eq [OF wf])
  qed
  then show "zmap_wf (cominix_free_block s b)" and "data_block (cominix_free_block s b) = data_block s"
    and "data_block s c \<Longrightarrow> block_busy (cominix_free_block s b) c \<longleftrightarrow> c \<noteq> b \<and> block_busy s c"
    and "c \<notin> set (s_zmap (fs_info s)) \<Longrightarrow>
      bdata (fs_bufs (cominix_free_block s b)) c = bdata (fs_bufs s) c"
    by blast+
qed

interpretation zones: block_alloc zmap_wf data_block block_busy block_content cominix_new_block_sb cominix_free_block
proof unfold_locales
  show "finite {b. data_block s b}" for s by (rule finite_data_blocks)
  show "\<not> data_block s 0" if "zmap_wf s" for s using zmap_wfD(4) [OF that] by (simp add: data_block_def)
  show "block_busy s c" if "zmap_wf s" "cominix_new_block_sb s = (s', 0)" "data_block s c" for s s' c
    using new_block_laws(4) [OF that(1,2)] that(3) by simp
  show "block_content s' c = block_content s c"
    if "zmap_wf s" "cominix_new_block_sb s = (s', b)" "data_block s c" for s s' b c
    using new_block_laws(6) [OF that(1,2) zmap_block_not_data [OF that(1,3)]] by (simp add: block_content_def)
  show "block_content (cominix_free_block s b) c = block_content s c" if "zmap_wf s" "data_block s c" for s b c
    using free_block_laws(4) [OF that(1) zmap_block_not_data [OF that]] by (simp add: block_content_def)
qed (simp_all add: new_block_laws(1,2,3,5) free_block_laws(1,2,3))

section \<open>Counting free objects\<close>

text \<open>The words of a map block are read as 16-bit little-endian numbers; the count of clear bits
  does not depend on that.\<close>

lemma bit_le_num2:
  assumes "i < 16"
  shows "bit (le_num [b0, b1]) i \<longleftrightarrow> (if i < 8 then bit b0 i else bit b1 (i - 8))"
proof -
  have b0: "bit b0 n \<Longrightarrow> n < 8" for n using bit_imp_le_length [of b0 n] by simp
  have "le_num [b0, b1] = unat b0 OR push_bit 8 (unat b1)"
  proof -
    have "\<not> bit (unat b0) n \<or> \<not> bit (push_bit 8 (unat b1)) n" for n
      using b0 [of n] by (auto simp: bit_push_bit_iff bit_unsigned_iff)
    then have "unat b0 + push_bit 8 (unat b1) = unat b0 OR push_bit 8 (unat b1)"
      by (rule disjunctive_add)
    then show ?thesis by (simp add: push_bit_eq_mult mult.commute)
  qed
  then show ?thesis
    using b0 [of i] by (auto simp: bit_or_iff bit_push_bit_iff bit_unsigned_iff)
qed

lemma bit_num_at_2:
  assumes "i < 16"
  shows "bit (num_at bc b (2 * w) 2) i \<longleftrightarrow> cominix_test_bit bc b (16 * w + i)"
proof -
  have "bytes_at bc b (2 * w) 2 = [bdata bc b (2 * w), bdata bc b (2 * w + 1)]"
    by (simp add: bytes_at_def upt_rec)
  moreover have "(16 * w + i) div 8 = 2 * w + i div 8" "(16 * w + i) mod 8 = i mod 8"
    using mod_mult_self2 [of i 8 "2 * w"] by (simp_all add: add.commute)
  moreover have "i < 8 \<Longrightarrow> i div 8 = 0 \<and> i mod 8 = i" "8 \<le> i \<Longrightarrow> i div 8 = 1 \<and> i mod 8 = i - 8"
    using assms by (auto simp: div_eq_iff_block mod_block [of 1])
  ultimately show ?thesis
    using assms by (auto simp: num_at_def bit_le_num2 cominix_test_bit_def not_less simp del: le_num.simps)
qed

definition zero_bits :: "bufcache \<Rightarrow> nat \<Rightarrow> nat \<Rightarrow> nat" where
  "zero_bits bc b n = length (filter (\<lambda>k. \<not> cominix_test_bit bc b k) [0..<n])"

lemma hweight16_zeros:
  "16 - hweight16 (num_at bc b (2 * w) 2) = length (filter (\<lambda>i. \<not> cominix_test_bit bc b (16 * w + i)) [0..<16])"
proof -
  have "hweight16 (num_at bc b (2 * w) 2) = length (filter (\<lambda>i. cominix_test_bit bc b (16 * w + i)) [0..<16])"
    unfolding hweight16_def by (rule arg_cong [where f = length], rule filter_cong) (simp_all add: bit_num_at_2)
  then show ?thesis
    using sum_length_filter_compl [of "\<lambda>i. cominix_test_bit bc b (16 * w + i)" "[0..<16]"] by simp
qed

lemma zero_bits_16: "zero_bits bc b (16 * m) = sum_list (map (\<lambda>w. 16 - hweight16 (num_at bc b (2 * w) 2)) [0..<m])"
proof (induction m)
  case 0
  then show ?case by (simp add: zero_bits_def)
next
  case (Suc m)
  have "[0..<16 * Suc m] = [0..<16 * m] @ map (\<lambda>i. 16 * m + i) [0..<16]"
    using upt_add_eq_append [of 0 "16 * m" 16] map_add_upt [of "16 * m" 16] by (simp add: add.commute)
  then have "zero_bits bc b (16 * Suc m) =
      zero_bits bc b (16 * m) + length (filter (\<lambda>i. \<not> cominix_test_bit bc b (16 * m + i)) [0..<16])"
    by (simp only: zero_bits_def filter_append length_append filter_map length_map comp_def)
  with Suc show ?case by (simp only: hweight16_zeros) simp
qed

lemma count_free_block_exact:
  "even bs \<Longrightarrow> count_free_block bc b bs = zero_bits bc b (8 * bs)"
  using zero_bits_16 [of bc b "bs div 2"] by (auto simp: count_free_block_def elim: evenE)

lemma zero_bits_card: "zero_bits bc b n = card {k. k < n \<and> \<not> cominix_test_bit bc b k}"
proof -
  have "zero_bits bc b n = card (set (filter (\<lambda>k. \<not> cominix_test_bit bc b k) [0..<n]))"
    unfolding zero_bits_def by (rule distinct_card [symmetric]) simp
  then show ?thesis by (simp add: conj_commute)
qed

text \<open>\<open>count_free\<close> adds up the clear bits of the blocks that cover \<open>numbits\<close> bits, the tail of the
  last one included; the sum is a 32-bit number.\<close>

lemma count_free_exact:
  assumes "even bs" and "cominix_blocks_needed numbits bs \<le> length bmap"
  shows "count_free bc bmap bs numbits =
    Inr (u32 (\<Sum>i<cominix_blocks_needed numbits bs. card {k. k < 8 * bs \<and> \<not> cominix_test_bit bc (bmap ! i) k}))"
  using assms
  by (simp add: count_free_def cominix_blocks_needed_def count_free_block_exact zero_bits_card
      interv_sum_list_conv_sum_set_nat atLeast0LessThan Let_def)

lemma even_blocksize: "0 < s_blocksize_bits sb \<Longrightarrow> even (s_blocksize sb)"
  by (simp add: s_blocksize_def)

section \<open>Volumes\<close>

text \<open>A volume: well-formed zone maps, 32-bit block numbers, blocks of at least 512 bytes, every data
  block readable.\<close>

definition volume_ok :: "fs \<Rightarrow> bool" where
  "volume_ok s \<longleftrightarrow> zmap_wf s \<and> 9 \<le> s_blocksize_bits (fs_sb s) \<and> s_nzones (fs_info s) < 2 ^ 32 \<and>
     (\<forall>b. data_block s b \<longrightarrow> breadable (fs_bufs s) b)"

lemma block_busy_bufs:
  assumes "\<And>b. b \<in> set (s_zmap (fs_info s)) \<Longrightarrow> bdata bc b = bdata (fs_bufs s) b" "zmap_wf s" "data_block s c"
  shows "block_busy (s\<lparr>fs_bufs := bc\<rparr>) c = block_busy s c"
proof -
  have "s_zmap (fs_info s) ! (block_zone (fs_info s) c div bits_per_zone (fs_sb s)) \<in> set (s_zmap (fs_info s))"
    using zone_in_map [OF block_zone_bounds(2) [OF assms(2,3)]] zmap_wfD(2) [OF assms(2)] by simp
  from assms(1) [OF this] show ?thesis by (simp add: block_busy_def zone_busy_def cominix_test_bit_def)
qed

lemma zmap_wf_bufs:
  assumes "\<And>b. b \<in> set (s_zmap (fs_info s)) \<Longrightarrow> bdata bc b = bdata (fs_bufs s) b" "zmap_wf s"
  shows "zmap_wf (s\<lparr>fs_bufs := bc\<rparr>)"
proof -
  have "s_zmap (fs_info s) ! 0 \<in> set (s_zmap (fs_info s))"
    using zmap_wfD(2,3) [OF assms(2)] by simp
  from assms(1) [OF this] assms(2) show ?thesis
    by (simp add: zmap_wf_def cominix_test_bit_def)
qed

text \<open>
  \<open>grow s s' bs\<close>: \<open>s'\<close> is \<open>s\<close> after the blocks \<open>bs\<close>, free in \<open>s\<close>, have been allocated and
  written; no other data block and nothing outside the data zone but the maps has changed.
\<close>

definition grow :: "fs \<Rightarrow> fs \<Rightarrow> nat list \<Rightarrow> bool" where
  "grow s s' bs \<longleftrightarrow> volume_ok s' \<and> fs_sb s' = fs_sb s \<and> fs_info s' = fs_info s \<and>
     breadable (fs_bufs s') = breadable (fs_bufs s) \<and> distinct bs \<and>
     (\<forall>b \<in> set bs. data_block s b \<and> \<not> block_busy s b) \<and>
     (\<forall>c. data_block s c \<longrightarrow> (block_busy s' c \<longleftrightarrow> c \<in> set bs \<or> block_busy s c)) \<and>
     (\<forall>c. c \<notin> set (s_zmap (fs_info s)) \<longrightarrow> c \<notin> set bs \<longrightarrow> bdata (fs_bufs s') c = bdata (fs_bufs s) c) \<and>
     tracks (set bs) (fs_bufs s) (fs_bufs s')"

lemma volume_okD:
  assumes "volume_ok s"
  shows "zmap_wf s" "9 \<le> s_blocksize_bits (fs_sb s)"
    and "data_block s b \<Longrightarrow> breadable (fs_bufs s) b" "data_block s b \<Longrightarrow> b < 2 ^ 32"
    and "data_block s b \<Longrightarrow> b \<noteq> 0"
  using assms zmap_wfD(4) [of s] by (auto simp: volume_ok_def data_block_def)

lemma grow_data_block: "grow s s' bs \<Longrightarrow> data_block s' = data_block s"
  by (simp add: grow_def data_block_def fun_eq_iff)

lemma grow_refl: "volume_ok s \<Longrightarrow> grow s s []"
  by (simp add: grow_def)

lemma grow_trans:
  assumes "grow s t bs" "grow t u cs"
  shows "grow s u (bs @ cs)"
  using assms grow_data_block [OF assms(1)] tracks_trans [of "set bs" "fs_bufs s" "fs_bufs t" "set cs"]
  unfolding grow_def by (auto simp: data_block_def)

lemma grow_new_block:
  assumes v: "volume_ok s" and r: "cominix_new_block s = (s', b)" and nz: "b \<noteq> 0"
  shows "grow s s' [b]"
proof -
  note A = new_block_laws [OF volume_okD(1) [OF v] r [unfolded new_block_same]]
  have "volume_ok s'" using v A(1,2,7,8,9) by (simp add: volume_ok_def)
  moreover have "tracks {b} (fs_bufs s) (fs_bufs s')"
    using new_block_tracks [OF volume_okD(1) [OF v] r [unfolded new_block_same]] by (rule tracks_mono) simp
  ultimately show ?thesis using A(3) [OF nz] A(5-9) by (simp add: grow_def)
qed

lemma grow_write:
  assumes g: "grow s t bs" and b: "b \<in> set bs" and e: "\<And>c. c \<noteq> b \<Longrightarrow> bdata bc c = bdata (fs_bufs t) c"
    and r: "breadable bc = breadable (fs_bufs t)" and k: "tracks {b} (fs_bufs t) bc"
  shows "grow s (t\<lparr>fs_bufs := bc\<rparr>) bs"
proof -
  have v: "volume_ok t" and db: "data_block t b"
    using g b grow_data_block [OF g] by (auto simp: grow_def)
  have wf: "zmap_wf t" by (rule volume_okD(1) [OF v])
  have z: "\<And>c. c \<in> set (s_zmap (fs_info t)) \<Longrightarrow> bdata bc c = bdata (fs_bufs t) c"
    using zmap_block_not_data [OF wf db] e by metis
  have v': "volume_ok (t\<lparr>fs_bufs := bc\<rparr>)"
    using v zmap_wf_bufs [OF z wf] r by (simp add: volume_ok_def data_block_def)
  have "block_busy (t\<lparr>fs_bufs := bc\<rparr>) c = block_busy t c" if "data_block s c" for c
    using block_busy_bufs [OF z wf] that grow_data_block [OF g] by simp
  moreover have "bdata bc c = bdata (fs_bufs s) c" if "c \<notin> set (s_zmap (fs_info s))" "c \<notin> set bs" for c
  proof -
    have "c \<noteq> b" using b that(2) by auto
    then show ?thesis using e g that by (simp add: grow_def)
  qed
  moreover have "tracks (set bs) (fs_bufs s) bc"
  proof -
    have "tracks (set bs) (fs_bufs t) bc" using k by (rule tracks_mono) (use b in simp)
    moreover have "tracks (set bs) (fs_bufs s) (fs_bufs t)" using g by (simp add: grow_def)
    ultimately show ?thesis using tracks_same by blast
  qed
  ultimately show ?thesis using g v' r by (simp add: grow_def)
qed

lemma free_set_grow: "grow s t bs \<Longrightarrow> zones.free_set t = zones.free_set s - set bs"
  using grow_data_block [of s t bs] by (auto simp: zones.free_set_def grow_def)

lemma new_block_available:
  assumes "volume_ok s" "zones.free_set s \<noteq> {}"
  obtains t b where "cominix_new_block s = (t, b)" "b \<noteq> 0" "grow s t [b]" "b \<in> zones.free_set s"
proof -
  obtain t b where r: "cominix_new_block s = (t, b)" by fastforce
  have "b \<noteq> 0"
    using zones.alloc_zero_iff [OF volume_okD(1) [OF assms(1)] r [unfolded new_block_same]] assms(2) by simp
  moreover from grow_new_block [OF assms(1) r this] have "grow s t [b]" .
  ultimately show thesis using that r by (auto simp: grow_def zones.free_set_def)
qed

text \<open>A write to a data block.\<close>

lemma volume_write:
  assumes v: "volume_ok t" and db: "data_block t w" and e: "\<And>c. c \<noteq> w \<Longrightarrow> bdata bc c = bdata (fs_bufs t) c"
    and r: "breadable bc = breadable (fs_bufs t)"
  shows "volume_ok (t\<lparr>fs_bufs := bc\<rparr>)"
    and "\<And>c. data_block t c \<Longrightarrow> block_busy (t\<lparr>fs_bufs := bc\<rparr>) c = block_busy t c"
proof -
  have wf: "zmap_wf t" by (rule volume_okD(1) [OF v])
  have z: "\<And>c. c \<in> set (s_zmap (fs_info t)) \<Longrightarrow> bdata bc c = bdata (fs_bufs t) c"
    using zmap_block_not_data [OF wf db] e by metis
  show "volume_ok (t\<lparr>fs_bufs := bc\<rparr>)"
    using v zmap_wf_bufs [OF z wf] r by (simp add: volume_ok_def data_block_def)
  show "\<And>c. data_block t c \<Longrightarrow> block_busy (t\<lparr>fs_bufs := bc\<rparr>) c = block_busy t c"
    using block_busy_bufs [OF z wf] .
qed

lemma volume_bdata_cong:
  assumes "bdata bc = bdata (fs_bufs t)" "breadable bc = breadable (fs_bufs t)"
  shows "volume_ok (t\<lparr>fs_bufs := bc\<rparr>) = volume_ok t" and "block_busy (t\<lparr>fs_bufs := bc\<rparr>) = block_busy t"
  using assms by (simp_all add: volume_ok_def zmap_wf_def cominix_test_bit_def data_block_def
      block_busy_def zone_busy_def fun_eq_iff)

end
