(* ===== verification/LinkedList.thy ===== *)
theory LinkedList
  imports BitmapSpec FlatStore
begin

text \<open>
  linked_list.h: the list of chunk entries of a chunked file. A list block is an array of
  16-byte entries with a 32-bit block number in its last four bytes; an entry of size 0 ends
  the used part of a block. First the operations, then the abstraction \<open>ll_list\<close> (the entries
  a chain of blocks stands for) and what appending and searching do to it.
\<close>

section \<open>Operations\<close>

definition sizeof_chunk_entry :: nat where "sizeof_chunk_entry = 16"

definition entries_per_block :: "super_block \<Rightarrow> nat" where
  "entries_per_block sb = s_blocksize sb div sizeof_chunk_entry - 1"

text \<open>The offset of the next pointer in the buffer.\<close>

definition ptr_next :: "super_block \<Rightarrow> nat" where
  "ptr_next sb = s_blocksize sb - 4"

definition ll_alloc_new_block :: "fs \<Rightarrow> (fs \<times> nat) res" where
  "ll_alloc_new_block s =
     (let (s', new) = cominix_new_block_sb s in bindE (bug_on (new = 0)) (\<lambda>_. Inr (s', u32 new)))"

text \<open>The buffer is not marked dirty.\<close>

definition zero_out_block :: "fs \<Rightarrow> nat \<Rightarrow> fs res" where
  "zero_out_block s block =
     bindE (load_block (fs_sb s) (fs_bufs s) block) (\<lambda>p.
     bindE (deref p) (\<lambda>bh.
     bindE (memset_buf (fs_sb s) (fs_bufs s) bh 0 (s_blocksize (fs_sb s)) 0) (\<lambda>bc.
     Inr (s\<lparr>fs_bufs := bc\<rparr>))))"

definition entry_bytes :: "chunk_entry \<Rightarrow> byte list" where
  "entry_bytes e = le_bytes 8 (ce_location e) @ le_bytes 8 (ce_size e)"

definition set_entry :: "super_block \<Rightarrow> bufcache \<Rightarrow> nat \<Rightarrow> nat \<Rightarrow> chunk_entry \<Rightarrow> bufcache res" where
  "set_entry sb bc bh i e =
     bindE (in_block sb (i * sizeof_chunk_entry) sizeof_chunk_entry) (\<lambda>_.
     Inr (put_bytes bc bh (i * sizeof_chunk_entry) (entry_bytes e)))"

definition get_entry :: "super_block \<Rightarrow> bufcache \<Rightarrow> nat \<Rightarrow> nat \<Rightarrow> chunk_entry res" where
  "get_entry sb bc bh i =
     bindE (get_num sb bc bh (i * sizeof_chunk_entry) 8) (\<lambda>l.
     bindE (get_num sb bc bh (i * sizeof_chunk_entry + 8) 8) (\<lambda>n.
     Inr \<lparr>ce_location = l, ce_size = n\<rparr>))"

text \<open>\<open>ll_end\<close> and \<open>ll_size\<close> are passed by reference: their new values are returned.\<close>

definition ll_append :: "fs \<Rightarrow> nat \<Rightarrow> nat \<Rightarrow> chunk_entry \<Rightarrow> (fs \<times> nat \<times> nat) res" where
  "ll_append s ll_end ll_size new_entry =
     (let sb = fs_sb s in
      bindE (load_block sb (fs_bufs s) ll_end) (\<lambda>p.
      if entries_per_block sb = 0 then Inl DivideError
      else
        let i = ll_size mod entries_per_block sb in
        bindE (if i = 0 \<and> ll_size \<noteq> 0 then
            bindE (ll_alloc_new_block s) (\<lambda>(s1, new).
            bindE (deref p) (\<lambda>bh.
            bindE (set_num sb (fs_bufs s1) bh (ptr_next sb) 4 new) (\<lambda>bc.
            let bc1 = mark_buffer_dirty bc bh in
            bindE (load_block sb bc1 new) (\<lambda>p'.
            bindE (deref p') (\<lambda>bh'.
            bindE (memset_buf sb bc1 bh' 0 (s_blocksize sb) 0) (\<lambda>bc2.
            Inr (s1\<lparr>fs_bufs := bc2\<rparr>, new, p')))))))
          else Inr (s, ll_end, p)) (\<lambda>(s2, ll_end', p2).
        case p2 of
          None \<Rightarrow> Inl Bug
        | Some bh \<Rightarrow>
            bindE (set_entry sb (fs_bufs s2) bh i new_entry) (\<lambda>bc3.
            Inr (s2\<lparr>fs_bufs := mark_buffer_dirty bc3 bh\<rparr>, ll_end', ll_size + 1)))))"

text \<open>The loop of \<open>ll_search_left\<close> over one block: the entry found, or nothing, and \<open>*accum\<close>.\<close>

function ll_scan :: "super_block \<Rightarrow> bufcache \<Rightarrow> nat \<Rightarrow> int \<Rightarrow> nat \<Rightarrow> int \<Rightarrow> (chunk_entry option \<times> int) res" where
  "ll_scan sb bc bh pos i accum =
     (if i < entries_per_block sb then
        bindE (get_entry sb bc bh i) (\<lambda>e.
        if ce_size e = 0 then Inr (None, accum)
        else if pos < to_ssize (accum + to_ssize (int (ce_size e))) then Inr (Some e, accum)
        else ll_scan sb bc bh pos (Suc i) (to_ssize (accum + to_ssize (int (ce_size e)))))
      else Inr (None, accum))"
  by pat_completeness auto
termination
  by (relation "measure (\<lambda>(sb, bc, bh, pos, i, accum). entries_per_block sb - i)") auto

declare ll_scan.simps [simp del]

text \<open>\<open>None\<close> is a walk along a cyclic list.\<close>

partial_function (option) ll_search_left ::
    "super_block \<Rightarrow> bufcache \<Rightarrow> nat \<Rightarrow> int \<Rightarrow> int \<Rightarrow> (chunk_entry \<times> int) res option" where
  "ll_search_left sb bc head pos accum =
     (if pos < accum then Some (Inl Bug)
      else (case bindE (load_block sb bc head) deref of
          Inl e \<Rightarrow> Some (Inl e)
        | Inr bh \<Rightarrow> (case ll_scan sb bc bh pos 0 accum of
              Inl e \<Rightarrow> Some (Inl e)
            | Inr r \<Rightarrow> (case fst r of
                  Some e \<Rightarrow> Some (Inr (e, snd r))
                | None \<Rightarrow> (case get_num sb bc bh (ptr_next sb) 4 of
                      Inl e \<Rightarrow> Some (Inl e)
                    | Inr next \<Rightarrow>
                        if next = 0 then Some (Inr (\<lparr>ce_location = 0, ce_size = 0\<rparr>, snd r))
                        else ll_search_left sb bc next pos (snd r))))))"

section \<open>Entries of a block\<close>

definition entry_at :: "bufcache \<Rightarrow> nat \<Rightarrow> nat \<Rightarrow> chunk_entry" where
  "entry_at bc b i = \<lparr>ce_location = num_at bc b (i * sizeof_chunk_entry) 8,
     ce_size = num_at bc b (i * sizeof_chunk_entry + 8) 8\<rparr>"

definition next_at :: "super_block \<Rightarrow> bufcache \<Rightarrow> nat \<Rightarrow> nat" where
  "next_at sb bc b = num_at bc b (ptr_next sb) 4"

definition entry_ok :: "chunk_entry \<Rightarrow> bool" where
  "entry_ok e \<longleftrightarrow> ce_location e < 2 ^ 64 \<and> 0 < ce_size e \<and> ce_size e < 2 ^ 63"

definition block_entries :: "super_block \<Rightarrow> bufcache \<Rightarrow> nat \<Rightarrow> chunk_entry list \<Rightarrow> bool" where
  "block_entries sb bc b es \<longleftrightarrow> breadable bc b \<and> length es \<le> entries_per_block sb \<and>
     (\<forall>i < length es. entry_at bc b i = es ! i) \<and>
     (\<forall>i. length es \<le> i \<longrightarrow> i < entries_per_block sb \<longrightarrow> ce_size (entry_at bc b i) = 0)"

text \<open>The chain of blocks \<open>bs\<close> stands for the entries \<open>es\<close>; every block but the last is full.\<close>

fun ll_list :: "super_block \<Rightarrow> bufcache \<Rightarrow> nat list \<Rightarrow> chunk_entry list \<Rightarrow> bool" where
  "ll_list sb bc [] es \<longleftrightarrow> False"
| "ll_list sb bc [b] es \<longleftrightarrow> block_entries sb bc b es \<and> next_at sb bc b = 0"
| "ll_list sb bc (b # b' # bs) es \<longleftrightarrow>
     entries_per_block sb < length es \<and> block_entries sb bc b (take (entries_per_block sb) es) \<and>
     next_at sb bc b = b' \<and> b' \<noteq> 0 \<and> ll_list sb bc (b' # bs) (drop (entries_per_block sb) es)"

lemma blocksize_entries:
  assumes "9 \<le> s_blocksize_bits sb"
  shows "s_blocksize sb = (entries_per_block sb + 1) * sizeof_chunk_entry" and "31 \<le> entries_per_block sb"
proof -
  have "(2::nat) ^ s_blocksize_bits sb = 2 ^ (9 + (s_blocksize_bits sb - 9))" using assms by simp
  then have k: "s_blocksize sb = 512 * 2 ^ (s_blocksize_bits sb - 9)"
    unfolding s_blocksize_def by (simp add: power_add)
  then have d: "s_blocksize sb div 16 = 32 * 2 ^ (s_blocksize_bits sb - 9)" by simp
  have p: "1 \<le> (2::nat) ^ (s_blocksize_bits sb - 9)" by simp
  then have "32 \<le> s_blocksize sb div 16" unfolding d by simp
  then show "31 \<le> entries_per_block sb" by (simp add: entries_per_block_def sizeof_chunk_entry_def)
  show "s_blocksize sb = (entries_per_block sb + 1) * sizeof_chunk_entry"
    using p k d by (simp add: entries_per_block_def sizeof_chunk_entry_def algebra_simps)
qed

lemma entry_fits:
  assumes "9 \<le> s_blocksize_bits sb" "i < entries_per_block sb"
  shows "i * sizeof_chunk_entry + sizeof_chunk_entry \<le> ptr_next sb" and "ptr_next sb + 4 = s_blocksize sb"
proof -
  note bs = blocksize_entries [OF assms(1)]
  have "Suc i * 16 \<le> entries_per_block sb * 16" using assms(2) by (intro mult_le_mono1) simp
  then show "i * sizeof_chunk_entry + sizeof_chunk_entry \<le> ptr_next sb"
    using bs(1) by (simp add: ptr_next_def sizeof_chunk_entry_def)
  show "ptr_next sb + 4 = s_blocksize sb"
    using bs by (simp add: ptr_next_def sizeof_chunk_entry_def)
qed

lemma get_entry_spec:
  assumes "9 \<le> s_blocksize_bits sb" "i < entries_per_block sb"
  shows "get_entry sb bc b i = Inr (entry_at bc b i)"
  using entry_fits [OF assms]
  by (simp add: get_entry_def get_num_def entry_at_def sizeof_chunk_entry_def)

lemma get_next_spec:
  "9 \<le> s_blocksize_bits sb \<Longrightarrow> get_num sb bc b (ptr_next sb) 4 = Inr (next_at sb bc b)"
  using entry_fits(2) [of sb 0] blocksize_entries(2) [of sb] by (simp add: get_num_def next_at_def)

lemma length_entry_bytes [simp]: "length (entry_bytes e) = 16"
  by (simp add: entry_bytes_def)

definition put_entry :: "bufcache \<Rightarrow> nat \<Rightarrow> nat \<Rightarrow> chunk_entry \<Rightarrow> bufcache" where
  "put_entry bc b i e = mark_buffer_dirty (put_bytes bc b (i * sizeof_chunk_entry) (entry_bytes e)) b"

lemma set_entry_spec:
  assumes "9 \<le> s_blocksize_bits sb" "i < entries_per_block sb"
  shows "set_entry sb bc b i e = Inr (put_bytes bc b (i * sizeof_chunk_entry) (entry_bytes e))"
proof -
  have "i * sizeof_chunk_entry + sizeof_chunk_entry \<le> s_blocksize sb" using entry_fits [OF assms] by linarith
  then show ?thesis by (simp add: set_entry_def)
qed

lemma put_entry_sel [simp]:
  "bdisk (put_entry bc b i e) = bdisk bc"
  "bdirty (put_entry bc b i e) = insert b (bdirty bc)"
  "breadable (put_entry bc b i e) = breadable bc"
  "b' \<noteq> b \<Longrightarrow> bdata (put_entry bc b i e) b' = bdata bc b'"
  by (simp_all add: put_entry_def)

lemma num_at_put_part:
  assumes "k + n \<le> length xs"
  shows "num_at (put_bytes bc b off xs) b (off + k) n = le_num (take n (drop k xs))"
  unfolding num_at_def
  by (rule arg_cong [where f = le_num], rule nth_equalityI)
    (use assms in \<open>auto simp: bytes_at_def put_bytes_def\<close>)

lemma entry_at_put:
  assumes "entry_ok e"
  shows "entry_at (put_entry bc b i e) b j = (if j = i then e else entry_at bc b j)"
proof (cases "j = i")
  case True
  then show ?thesis
    using assms num_at_put_part [of 0 8 "entry_bytes e" bc b "i * 16"]
      num_at_put_part [of 8 8 "entry_bytes e" bc b "i * 16"]
    by (simp add: entry_at_def put_entry_def sizeof_chunk_entry_def entry_bytes_def entry_ok_def)
next
  case False
  then have "j * 16 + 16 \<le> i * 16 \<or> i * 16 + 16 \<le> j * 16" by linarith
  then have "num_at (put_bytes bc b (i * 16) (entry_bytes e)) b (j * 16 + k) 8 = num_at bc b (j * 16 + k) 8"
    if "k = 0 \<or> k = 8" for k
    unfolding num_at_def by (subst bytes_at_put_disjoint) (use that in auto)
  from this [of 0] this [of 8] False show ?thesis
    by (simp add: entry_at_def put_entry_def sizeof_chunk_entry_def)
qed

lemma next_at_put:
  assumes "9 \<le> s_blocksize_bits sb" "i < entries_per_block sb"
  shows "next_at sb (put_entry bc b i e) c = next_at sb bc c"
proof -
  have "num_at (put_bytes bc b (i * 16) (entry_bytes e)) c (ptr_next sb) 4 = num_at bc c (ptr_next sb) 4"
    unfolding num_at_def
    using entry_fits [OF assms] by (subst bytes_at_put_disjoint) (auto simp: sizeof_chunk_entry_def)
  then show ?thesis by (simp add: next_at_def put_entry_def sizeof_chunk_entry_def)
qed

lemma block_entries_put:
  assumes "9 \<le> s_blocksize_bits sb" "block_entries sb bc b es" "length es < entries_per_block sb" "entry_ok e"
  shows "block_entries sb (put_entry bc b (length es) e) b (es @ [e])"
  using assms by (auto simp: block_entries_def entry_at_put nth_append less_Suc_eq)

lemma block_entries_cong:
  assumes "bdata bc' b = bdata bc b" "breadable bc' = breadable bc"
  shows "block_entries sb bc' b es = block_entries sb bc b es" and "next_at sb bc' b = next_at sb bc b"
  using assms num_at_other_block [OF assms(1)]
  by (simp_all add: block_entries_def entry_at_def next_at_def)

lemma ll_list_cong:
  assumes "\<And>b. b \<in> set bs \<Longrightarrow> bdata bc' b = bdata bc b" "breadable bc' = breadable bc"
  shows "ll_list sb bc' bs es = ll_list sb bc bs es"
  using assms
proof (induction sb bc bs es rule: ll_list.induct)
  case (2 sb bc b es)
  have b: "bdata bc' b = bdata bc b" by (rule "2.prems"(1)) simp
  show ?case using block_entries_cong [OF b "2.prems"(2)] by simp
next
  case (3 sb bc b b' bs es)
  have b: "bdata bc' b = bdata bc b" by (rule "3.prems"(1)) simp
  have "ll_list sb bc' (b' # bs) xs = ll_list sb bc (b' # bs) xs"
    if "xs = drop (entries_per_block sb) es" for xs
    using "3.IH" "3.prems" that by auto
  then show ?case using block_entries_cong [OF b "3.prems"(2)] by simp
qed simp

lemma ll_list_nonempty: "ll_list sb bc bs es \<Longrightarrow> bs \<noteq> []"
  by auto

lemma ll_list_last:
  assumes "ll_list sb bc bs es"
  shows "breadable bc (last bs)" and "\<forall>b \<in> set bs. breadable bc b" and "\<forall>b \<in> set (tl bs). b \<noteq> 0"
  using assms by (induction sb bc bs es rule: ll_list.induct) (auto simp: block_entries_def)

text \<open>How many entries the last block holds.\<close>

lemma ll_list_length:
  assumes "ll_list sb bc bs es"
  shows "(length bs - 1) * entries_per_block sb \<le> length es" and "length es \<le> length bs * entries_per_block sb"
    and "1 < length bs \<Longrightarrow> (length bs - 1) * entries_per_block sb < length es"
  using assms by (induction sb bc bs es rule: ll_list.induct) (fastforce simp: block_entries_def)+

text \<open>An append to a list whose last block has room.\<close>

lemma ll_list_append_room:
  assumes "ll_list sb bc bs es" "9 \<le> s_blocksize_bits sb" "distinct bs" "entry_ok e"
    and "length es < length bs * entries_per_block sb"
  shows "ll_list sb (put_entry bc (last bs) (length es - (length bs - 1) * entries_per_block sb) e) bs (es @ [e])"
  using assms
proof (induction sb bc bs es rule: ll_list.induct)
  case (2 sb bc b es)
  then show ?case by (simp add: block_entries_put next_at_put)
next
  case (3 sb bc b b' bs es)
  let ?n = "entries_per_block sb"
  let ?i = "length es - (length (b # b' # bs) - 1) * ?n"
  let ?bc = "put_entry bc (last (b # b' # bs)) ?i e"
  have ne: "b \<noteq> last (b' # bs)" using "3.prems"(3) last_in_set [of "b' # bs"] by (auto simp del: last.simps)
  then have d: "bdata ?bc b = bdata bc b" by simp
  have "?i = length (drop ?n es) - (length (b' # bs) - 1) * ?n" by simp
  then have "ll_list sb ?bc (b' # bs) (drop ?n es @ [e])"
    using "3.IH" "3.prems" by auto
  then show ?case
    using "3.prems"(1) block_entries_cong [OF d] by simp
qed simp

text \<open>An append to a list whose last block is full: a zeroed block is linked behind it.\<close>

definition link_block :: "super_block \<Rightarrow> bufcache \<Rightarrow> nat \<Rightarrow> nat \<Rightarrow> bufcache" where
  "link_block sb bc b new =
     fill_bytes (mark_buffer_dirty (put_num bc b (ptr_next sb) 4 new) b) new 0 (s_blocksize sb) 0"

lemma link_block_sel [simp]:
  "breadable (link_block sb bc b new) = breadable bc"
  "bdisk (link_block sb bc b new) = bdisk bc"
  "bdirty (link_block sb bc b new) = insert b (bdirty bc)"
  "c \<noteq> b \<Longrightarrow> c \<noteq> new \<Longrightarrow> bdata (link_block sb bc b new) c = bdata bc c"
  by (simp_all add: link_block_def)

lemma link_block_last:
  assumes "9 \<le> s_blocksize_bits sb" "b \<noteq> new" "new < 2 ^ 32"
  shows "block_entries sb (link_block sb bc b new) b es = block_entries sb bc b es"
    and "next_at sb (link_block sb bc b new) b = new"
proof -
  have "entry_at (link_block sb bc b new) b i = entry_at bc b i" if "i < entries_per_block sb" for i
    using entry_fits [OF assms(1) that] assms(2)
    by (simp add: entry_at_def link_block_def num_at_fill_other num_at_put_disjoint sizeof_chunk_entry_def)
  then show "block_entries sb (link_block sb bc b new) b es = block_entries sb bc b es"
    by (auto simp: block_entries_def)
  show "next_at sb (link_block sb bc b new) b = new"
    using assms by (simp add: next_at_def link_block_def num_at_fill_other)
qed

lemma link_block_new:
  assumes "9 \<le> s_blocksize_bits sb" "breadable bc new"
  shows "block_entries sb (link_block sb bc b new) new []" and "next_at sb (link_block sb bc b new) new = 0"
proof -
  have "ce_size (entry_at (link_block sb bc b new) new i) = 0" if "i < entries_per_block sb" for i
    using entry_fits [OF assms(1) that]
    by (simp add: entry_at_def link_block_def num_at_fill_zero sizeof_chunk_entry_def)
  then show "block_entries sb (link_block sb bc b new) new []"
    using assms by (simp add: block_entries_def)
  show "next_at sb (link_block sb bc b new) new = 0"
    using entry_fits(2) [OF assms(1), of 0] blocksize_entries(2) [OF assms(1)]
    by (simp add: next_at_def link_block_def num_at_fill_zero)
qed

lemma ll_list_append_full:
  assumes "ll_list sb bc bs es" "9 \<le> s_blocksize_bits sb" "distinct bs" "entry_ok e"
    and "length es = length bs * entries_per_block sb"
    and "new \<notin> set bs" "0 < new" "new < 2 ^ 32" "breadable bc new"
  shows "ll_list sb (put_entry (link_block sb bc (last bs) new) new 0 e) (bs @ [new]) (es @ [e])"
  using assms
proof (induction sb bc bs es rule: ll_list.induct)
  case (2 sb bc b es)
  let ?bc = "put_entry (link_block sb bc b new) new 0 e"
  have pos: "0 < entries_per_block sb" using blocksize_entries(2) [OF "2.prems"(2)] by simp
  have ne: "b \<noteq> new" using "2.prems"(6) by auto
  have len: "length es = entries_per_block sb" using "2.prems"(5) by simp
  have "block_entries sb ?bc b es" and "next_at sb ?bc b = new"
    using block_entries_cong [of ?bc b "link_block sb bc b new" sb] link_block_last [OF "2.prems"(2) ne "2.prems"(8)] ne "2.prems"(1)
    by simp_all
  moreover have "block_entries sb ?bc new [e]" and "next_at sb ?bc new = 0"
    using block_entries_put [OF "2.prems"(2) link_block_new(1) [OF "2.prems"(2,9)] _ "2.prems"(4)] pos
      next_at_put [OF "2.prems"(2) pos] link_block_new(2) [OF "2.prems"(2,9)] by simp_all
  ultimately show ?case using len "2.prems"(7) by simp
next
  case (3 sb bc b b' bs es)
  let ?n = "entries_per_block sb" and ?l = "last (b' # bs)"
  let ?bc = "put_entry (link_block sb bc ?l new) new 0 e"
  have ne: "b \<noteq> ?l" "b \<noteq> new"
    using "3.prems"(3,6) last_in_set [of "b' # bs"] by (auto simp del: last.simps)
  then have d: "bdata ?bc b = bdata bc b" by simp
  have "length (drop ?n es) = length (b' # bs) * ?n" using "3.prems"(5) by simp
  then have "ll_list sb ?bc ((b' # bs) @ [new]) (drop ?n es @ [e])"
    using "3.IH" "3.prems" by auto
  then show ?case
    using "3.prems"(1) block_entries_cong [OF d] by simp
qed simp

section \<open>Searching\<close>

text \<open>The entry that covers byte \<open>pos\<close> when the first one starts at \<open>accum\<close>, and its start.\<close>

fun locate :: "chunk_entry list \<Rightarrow> int \<Rightarrow> int \<Rightarrow> chunk_entry option \<times> int" where
  "locate [] pos accum = (None, accum)"
| "locate (e # es) pos accum =
     (if pos < accum + int (ce_size e) then (Some e, accum) else locate es pos (accum + int (ce_size e)))"

definition total_size :: "chunk_entry list \<Rightarrow> int" where
  "total_size es = (\<Sum>e\<leftarrow>es. int (ce_size e))"

lemma total_size_simps [simp]:
  "total_size [] = 0" "total_size (e # es) = int (ce_size e) + total_size es"
  "total_size (es @ fs) = total_size es + total_size fs"
  by (simp_all add: total_size_def)

lemma total_size_nonneg: "0 \<le> total_size es"
  by (induction es) auto

lemma locate_append:
  "locate (es @ fs) pos accum =
     (case locate es pos accum of (Some e, a) \<Rightarrow> (Some e, a) | (None, a) \<Rightarrow> locate fs pos a)"
  by (induction es arbitrary: accum) auto

lemma locate_None:
  "fst (locate es pos accum) = None \<Longrightarrow> accum \<le> pos \<Longrightarrow>
   snd (locate es pos accum) = accum + total_size es \<and> accum + total_size es \<le> pos"
proof (induction es arbitrary: accum)
  case (Cons e es)
  then have "\<not> pos < accum + int (ce_size e)" "fst (locate es pos (accum + int (ce_size e))) = None"
    by (auto split: if_splits)
  with Cons.IH [of "accum + int (ce_size e)"] show ?case by simp
qed simp

lemma locate_past:
  "accum + total_size es \<le> pos \<Longrightarrow> locate es pos accum = (None, accum + total_size es)"
proof (induction es arbitrary: accum)
  case (Cons e es)
  then have "\<not> pos < accum + int (ce_size e)" using total_size_nonneg [of es] by simp
  with Cons show ?case by simp
qed simp

lemma locate_at:
  assumes "total_size (take k es) \<le> pos - accum" "pos - accum < total_size (take (Suc k) es)" "k < length es"
  shows "locate es pos accum = (Some (es ! k), accum + total_size (take k es))"
proof -
  have es: "es = take k es @ es ! k # drop (Suc k) es" using assms(3) by (simp add: id_take_nth_drop)
  have "total_size (take (Suc k) es) = total_size (take k es) + int (ce_size (es ! k))"
    using assms(3) by (simp add: take_Suc_conv_app_nth)
  moreover have "locate (take k es @ es ! k # drop (Suc k) es) pos accum =
      locate (es ! k # drop (Suc k) es) pos (accum + total_size (take k es))"
    using locate_past [of accum "take k es" pos] assms(1) by (simp add: locate_append)
  ultimately show ?thesis using assms(2) es by simp
qed

lemma ll_scan_spec:
  assumes "9 \<le> s_blocksize_bits sb" "block_entries sb bc b es" "i \<le> length es"
    and "\<forall>e \<in> set es. entry_ok e" "0 \<le> accum" "accum + total_size (drop i es) < 2 ^ 63"
  shows "ll_scan sb bc b pos i accum = Inr (locate (drop i es) pos accum)"
  using assms(3,5,6)
proof (induction "length es - i" arbitrary: i accum)
  case 0
  then have i: "i = length es" by simp
  then show ?case
    using assms(2) get_entry_spec [OF assms(1), of i]
    by (subst ll_scan.simps) (simp add: block_entries_def)
next
  case (Suc m)
  then have i: "i < length es" "i < entries_per_block sb"
    using assms(2) by (auto simp: block_entries_def)
  have e: "get_entry sb bc b i = Inr (es ! i)" "entry_ok (es ! i)"
    using get_entry_spec [OF assms(1) i(2), of bc b] assms(2,4) i by (auto simp: block_entries_def)
  have dr: "drop i es = es ! i # drop (Suc i) es" using i(1) by (simp add: Cons_nth_drop_Suc)
  have sz: "to_ssize (int (ce_size (es ! i))) = int (ce_size (es ! i))"
    using e(2) by (simp add: to_ssize_id entry_ok_def)
  have sum: "to_ssize (accum + int (ce_size (es ! i))) = accum + int (ce_size (es ! i))"
    using Suc.prems(2,3) dr total_size_nonneg [of "drop (Suc i) es"] by (simp add: to_ssize_id)
  have ih: "ll_scan sb bc b pos (Suc i) (accum + int (ce_size (es ! i))) =
      Inr (locate (drop (Suc i) es) pos (accum + int (ce_size (es ! i))))"
    using Suc.hyps(2) Suc.prems i dr by (intro Suc.hyps(1)) auto
  show ?case
    using i(2) e ih unfolding dr by (subst ll_scan.simps) (simp add: sz sum entry_ok_def)
qed

text \<open>The answer of \<open>ll_search_left\<close>: the zero entry past the end.\<close>

definition found_or_zero :: "chunk_entry option \<times> int \<Rightarrow> chunk_entry \<times> int" where
  "found_or_zero r = (case fst r of None \<Rightarrow> \<lparr>ce_location = 0, ce_size = 0\<rparr> | Some e \<Rightarrow> e, snd r)"

lemma ll_search_spec:
  assumes "ll_list sb bc bs es" "9 \<le> s_blocksize_bits sb" "\<forall>e \<in> set es. entry_ok e"
    and "0 \<le> accum" "accum \<le> pos" "accum + total_size es < 2 ^ 63"
  shows "ll_search_left sb bc (hd bs) pos accum = Some (Inr (found_or_zero (locate es pos accum)))"
  using assms
proof (induction sb bc bs es arbitrary: accum rule: ll_list.induct)
  case (2 sb bc b es)
  have "load_block sb bc b = Inr (Some b)"
    using "2.prems"(1,2) by (auto simp: load_block_def block_entries_def sb_bread_def)
  moreover have "ll_scan sb bc b pos 0 accum = Inr (locate es pos accum)"
    using "2.prems" ll_scan_spec [of sb bc b es 0 accum] by simp
  ultimately show ?case
    using "2.prems" get_next_spec [of sb bc b]
    by (subst ll_search_left.simps) (auto simp: found_or_zero_def split: option.splits)
next
  case (3 sb bc b b' bs es)
  let ?n = "entries_per_block sb" and ?es = "take (entries_per_block sb) es"
  have tot: "total_size es = total_size ?es + total_size (drop ?n es)"
    by (metis append_take_drop_id total_size_simps(3))
  have bl: "load_block sb bc b = Inr (Some b)"
    using "3.prems"(1,2) by (auto simp: load_block_def block_entries_def sb_bread_def)
  have ok: "\<forall>e \<in> set ?es. entry_ok e" "\<forall>e \<in> set (drop ?n es). entry_ok e"
    using "3.prems"(3) by (auto dest: in_set_takeD in_set_dropD)
  have sc: "ll_scan sb bc b pos 0 accum = Inr (locate ?es pos accum)"
    using "3.prems" ok(1) tot ll_scan_spec [of sb bc b ?es 0 accum] total_size_nonneg [of "drop ?n es"] by simp
  have loc: "locate es pos accum = (case locate ?es pos accum of (Some e, a) \<Rightarrow> (Some e, a)
      | (None, a) \<Rightarrow> locate (drop ?n es) pos a)"
    using locate_append [of ?es "drop ?n es"] by simp
  have nx: "get_num sb bc b (ptr_next sb) 4 = Inr b'" "b' \<noteq> 0"
    using get_next_spec "3.prems"(1,2) by auto
  obtain r a where la: "locate ?es pos accum = (r, a)" by fastforce
  show ?case
  proof (cases r)
    case (Some e)
    then show ?thesis
      using bl sc la loc "3.prems"(5) by (subst ll_search_left.simps) (simp add: found_or_zero_def)
  next
    case None
    have a: "a = accum + total_size ?es" "a \<le> pos"
      using locate_None [of ?es pos accum] la None "3.prems"(5) by simp_all
    have "ll_search_left sb bc (hd (b' # bs)) pos a = Some (Inr (found_or_zero (locate (drop ?n es) pos a)))"
      using "3.prems" ok(2) a tot total_size_nonneg [of ?es] by (intro "3.IH") auto
    then show ?thesis
      using bl sc la loc nx None "3.prems"(5) by (subst ll_search_left.simps) simp
  qed
qed simp

section \<open>The list as a component\<close>

text \<open>\<open>ll_inv\<close>: the blocks of the list are busy data blocks of a well-formed volume whose data
  blocks can all be read.\<close>

definition ll_inv :: "fs \<Rightarrow> nat list \<Rightarrow> chunk_entry list \<Rightarrow> bool" where
  "ll_inv s bs es \<longleftrightarrow> volume_ok s \<and> ll_list (fs_sb s) (fs_bufs s) bs es \<and> distinct bs \<and>
     (\<forall>b \<in> set bs. data_block s b \<and> block_busy s b) \<and> (\<forall>e \<in> set es. entry_ok e)"

text \<open>Every block an append changes is marked.\<close>

lemma put_entry_dirty [simp]: "bdirty (put_entry bc b i e) = insert b (bdirty bc)"
  by (simp add: put_entry_def)

lemma put_entry_tracks: "tracks {} bc (put_entry bc b i e)"
  by (auto simp: tracks_def put_entry_def)

lemma link_entry_tracks: "tracks {} bc (put_entry (link_block sb bc b new) new i e)"
  by (auto simp: tracks_def put_entry_def)

text \<open>What an operation on a list may touch: the zone maps, the list's own blocks and free blocks.\<close>

definition ll_frame :: "nat list \<Rightarrow> fs \<Rightarrow> fs \<Rightarrow> bool" where
  "ll_frame bs s s' \<longleftrightarrow> fs_sb s' = fs_sb s \<and> fs_info s' = fs_info s \<and>
     breadable (fs_bufs s') = breadable (fs_bufs s) \<and>
     (\<forall>c. c \<notin> set (s_zmap (fs_info s)) \<longrightarrow> c \<notin> set bs \<longrightarrow> \<not> (data_block s c \<and> \<not> block_busy s c) \<longrightarrow>
        bdata (fs_bufs s') c = bdata (fs_bufs s) c) \<and>
     (\<forall>c. data_block s c \<longrightarrow> block_busy s c \<longrightarrow> block_busy s' c) \<and> tracks {} (fs_bufs s) (fs_bufs s')"

definition ll_room :: "fs \<Rightarrow> nat \<Rightarrow> bool" where
  "ll_room s n \<longleftrightarrow> n = 0 \<or> n mod entries_per_block (fs_sb s) \<noteq> 0 \<or>
     (\<exists>b. data_block s b \<and> \<not> block_busy s b)"

lemma last_block_index:
  assumes l: "ll_list sb bc bs es" and g: "9 \<le> s_blocksize_bits sb"
  shows "es \<noteq> [] \<Longrightarrow> length es mod entries_per_block sb = 0 \<Longrightarrow> length es = length bs * entries_per_block sb"
    and "es = [] \<or> length es mod entries_per_block sb \<noteq> 0 \<Longrightarrow> length es < length bs * entries_per_block sb \<and>
      length es mod entries_per_block sb = length es - (length bs - 1) * entries_per_block sb"
proof -
  let ?n = "entries_per_block sb"
  have n: "0 < ?n" using blocksize_entries(2) [OF g] by simp
  obtain k where bs: "length bs = Suc k" using ll_list_nonempty [OF l] by (cases bs) auto
  note len = ll_list_length [OF l, unfolded bs]
  have lo: "k * ?n \<le> length es" and hi: "length es \<le> k * ?n + ?n" using len(1,2) by simp_all
  show "length es = length bs * ?n" if "es \<noteq> []" "length es mod ?n = 0"
  proof -
    have "k * ?n < length es" using len(3) that(1) by (cases k) auto
    then have "\<not> length es < Suc k * ?n" using mod_block [of k ?n "length es"] that(2) by auto
    with hi bs show ?thesis by simp
  qed
  assume a: "es = [] \<or> length es mod ?n \<noteq> 0"
  have "length es \<noteq> Suc k * ?n" using a n by auto
  then have lt: "length es < Suc k * ?n" using hi by simp
  show "length es < length bs * ?n \<and> length es mod ?n = length es - (length bs - 1) * ?n"
    using lt bs mod_block [OF lo lt] by simp
qed

lemma ll_append_in_place:
  assumes i: "ll_inv s bs es" and e: "entry_ok e"
    and r: "es = [] \<or> length es mod entries_per_block (fs_sb s) \<noteq> 0"
  defines "s' \<equiv> s\<lparr>fs_bufs := put_entry (fs_bufs s) (last bs) (length es mod entries_per_block (fs_sb s)) e\<rparr>"
  shows "ll_append s (last bs) (length es) e = Inr (s', last bs, length es + 1)"
    and "ll_inv s' bs (es @ [e])" and "ll_frame bs s s'"
    and "data_block s' = data_block s" "\<And>c. data_block s c \<Longrightarrow> block_busy s' c = block_busy s c"
proof -
  let ?sb = "fs_sb s" and ?n = "entries_per_block (fs_sb s)" and ?bc = "fs_bufs s"
  from i have v: "volume_ok s" and l: "ll_list ?sb ?bc bs es" and d: "distinct bs"
    and b: "\<forall>b \<in> set bs. data_block s b \<and> block_busy s b" and es: "\<forall>e \<in> set es. entry_ok e"
    by (simp_all add: ll_inv_def)
  from v have wf: "zmap_wf s" and g: "9 \<le> s_blocksize_bits ?sb" by (simp_all add: volume_ok_def)
  have lb: "last bs \<in> set bs" using ll_list_nonempty [OF l] by simp
  have n: "0 < ?n" using blocksize_entries(2) [OF g] by simp
  note ix = last_block_index(2) [OF l g r]
  have ld: "load_block ?sb ?bc (last bs) = Inr (Some (last bs))"
    using g ll_list_last(1) [OF l] by (simp add: load_block_def sb_bread_def)
  have lt: "length es mod ?n < ?n" using n by simp
  show "ll_append s (last bs) (length es) e = Inr (s', last bs, length es + 1)"
    using r n ld set_entry_spec [OF g lt]
    by (auto simp: ll_append_def Let_def s'_def put_entry_def)
  have zm: "bdata (fs_bufs s') c = bdata ?bc c" if "c \<noteq> last bs" for c using that by (simp add: s'_def)
  have zl: "\<And>c. c \<in> set (s_zmap (fs_info s)) \<Longrightarrow> bdata (fs_bufs s') c = bdata ?bc c"
    using zmap_block_not_data [OF wf] b lb zm by metis
  show db: "data_block s' = data_block s" by (simp add: s'_def data_block_def fun_eq_iff)
  show bb: "block_busy s' c = block_busy s c" if "data_block s c" for c
    using block_busy_bufs [OF _ wf that, of "fs_bufs s'"] zl by (simp add: s'_def)
  have "zmap_wf s'" using zmap_wf_bufs [OF _ wf, of "fs_bufs s'"] zl by (simp add: s'_def)
  then have v': "volume_ok s'" using v db by (simp add: volume_ok_def s'_def)
  have "ll_list ?sb (fs_bufs s') bs (es @ [e])"
    using ll_list_append_room [OF l g d e] ix by (simp add: s'_def)
  then show "ll_inv s' bs (es @ [e])" using v' d b es e db bb by (simp add: ll_inv_def) (simp add: s'_def)
  have "tracks {} ?bc (fs_bufs s')" by (simp add: s'_def put_entry_tracks)
  moreover have "bdata (fs_bufs s') c = bdata ?bc c" if "c \<notin> set bs" for c using zm [of c] lb that by metis
  ultimately show "ll_frame bs s s'" using bb by (simp add: ll_frame_def) (simp add: s'_def)
qed

lemma ll_append_new_block:
  assumes i: "ll_inv s bs es" and e: "entry_ok e"
    and r: "es \<noteq> []" "length es mod entries_per_block (fs_sb s) = 0"
    and a: "cominix_new_block_sb s = (t, new)" "new \<noteq> 0"
  defines "s' \<equiv> t\<lparr>fs_bufs := put_entry (link_block (fs_sb s) (fs_bufs t) (last bs) new) new 0 e\<rparr>"
  shows "ll_append s (last bs) (length es) e = Inr (s', new, length es + 1)"
    and "ll_inv s' (bs @ [new]) (es @ [e])" and "ll_frame bs s s'"
    and "data_block s' = data_block s"
    and "\<And>c. data_block s c \<Longrightarrow> block_busy s' c \<longleftrightarrow> c = new \<or> block_busy s c"
proof -
  let ?sb = "fs_sb s" and ?n = "entries_per_block (fs_sb s)" and ?bc = "fs_bufs s"
  from i have v: "volume_ok s" and l: "ll_list ?sb ?bc bs es" and d: "distinct bs"
    and b: "\<forall>b \<in> set bs. data_block s b \<and> block_busy s b" and es: "\<forall>e \<in> set es. entry_ok e"
    by (simp_all add: ll_inv_def)
  from v have wf: "zmap_wf s" and g: "9 \<le> s_blocksize_bits ?sb" and nz: "s_nzones (fs_info s) < 2 ^ 32"
    and rd: "\<And>b. data_block s b \<Longrightarrow> breadable ?bc b"
    by (simp_all add: volume_ok_def)
  note A = new_block_laws [OF wf a(1)]
  have lb: "last bs \<in> set bs" using ll_list_nonempty [OF l] by simp
  have n: "0 < ?n" using blocksize_entries(2) [OF g] by simp
  have fresh: "data_block s new" "\<not> block_busy s new" using A(3) a(2) by simp_all
  then have nin: "new \<notin> set bs" using b by auto
  have lt: "new < 2 ^ 32" using fresh(1) nz by (simp add: data_block_def)
  have rt: "breadable (fs_bufs t) new" "breadable (fs_bufs t) (last bs)"
    using rd fresh(1) b lb A(9) by auto
  have nb: "load_block ?sb ?bc (last bs) = Inr (Some (last bs))"
    using g rd b lb by (simp add: load_block_def sb_bread_def)
  have pn: "ptr_next ?sb + 4 = s_blocksize ?sb" by (rule entry_fits(2) [OF g n])
  have al: "ll_alloc_new_block s = Inr (t, new)"
    using a lt by (simp add: ll_alloc_new_block_def u32_id)
  have ld: "load_block ?sb (mark_buffer_dirty (put_num (fs_bufs t) (last bs) (ptr_next ?sb) 4 new) (last bs)) new = Inr (Some new)"
    using g rt(1) by (simp add: load_block_def sb_bread_def)
  have sn: "set_num ?sb (fs_bufs t) (last bs) (ptr_next ?sb) 4 new = Inr (put_num (fs_bufs t) (last bs) (ptr_next ?sb) 4 new)"
    using pn by (simp add: set_num_def)
  show "ll_append s (last bs) (length es) e = Inr (s', new, length es + 1)"
    using r n nb al ld sn set_entry_spec [OF g n]
    by (simp add: ll_append_def Let_def s'_def put_entry_def link_block_def memset_buf_def)
  have zm: "bdata (fs_bufs s') c = bdata (fs_bufs t) c" if "c \<noteq> last bs" "c \<noteq> new" for c
    using that by (simp add: s'_def)
  have wft: "zmap_wf t" by (rule A(1))
  have zl: "bdata (fs_bufs s') c = bdata (fs_bufs t) c" if "c \<in> set (s_zmap (fs_info t))" for c
    using zmap_block_not_data [OF wf] b lb zm fresh(1) that A(8) by metis
  show db: "data_block s' = data_block s" using A(2) by (simp add: s'_def data_block_def fun_eq_iff)
  show bb: "block_busy s' c \<longleftrightarrow> c = new \<or> block_busy s c" if "data_block s c" for c
    using block_busy_bufs [OF _ wft, of "fs_bufs s'" c] zl A(5) [OF that] A(2) that by (simp add: s'_def)
  have "zmap_wf s'" using zmap_wf_bufs [OF _ wft, of "fs_bufs s'"] zl by (simp add: s'_def)
  then have v': "volume_ok s'" using v db A(7,8,9) by (simp add: volume_ok_def s'_def)
  have "ll_list ?sb (fs_bufs t) bs es"
    using ll_list_cong [of bs "fs_bufs t" ?bc ?sb es] A(6,9) zmap_block_not_data [OF wf] b l by blast
  then have "ll_list ?sb (fs_bufs s') (bs @ [new]) (es @ [e])"
    using ll_list_append_full [of ?sb "fs_bufs t" bs es e new] g d e last_block_index(1) [OF l g r] nin a(2) lt rt(1)
    by (simp add: s'_def)
  then show "ll_inv s' (bs @ [new]) (es @ [e])"
    using v' d b es e db bb nin fresh A(7) by (simp add: ll_inv_def) (simp add: s'_def)
  have "tracks {} (fs_bufs t) (fs_bufs s')" by (simp add: s'_def link_entry_tracks)
  then have "tracks {} ?bc (fs_bufs s')" using new_block_tracks [OF wf a(1)] tracks_same by blast
  moreover have "bdata (fs_bufs s') c = bdata ?bc c"
    if "c \<notin> set (s_zmap (fs_info s))" "c \<notin> set bs" "\<not> (data_block s c \<and> \<not> block_busy s c)" for c
    using zm [of c] A(6) that lb fresh by metis
  ultimately show "ll_frame bs s s'" using bb A(7,8,9) by (simp add: ll_frame_def) (simp add: s'_def)
qed

text \<open>When the last block is full and no data block is free the kernel stops in \<open>BUG\<close>.\<close>

lemma ll_append_no_space:
  assumes i: "ll_inv s bs es" and r: "\<not> ll_room s (length es)"
  shows "ll_append s (last bs) (length es) e = Inl Bug"
proof -
  from i have wf: "zmap_wf s" and g: "9 \<le> s_blocksize_bits (fs_sb s)" and l: "ll_list (fs_sb s) (fs_bufs s) bs es"
    by (simp_all add: ll_inv_def volume_ok_def)
  obtain t new where a: "cominix_new_block_sb s = (t, new)" by fastforce
  have "new = 0" using new_block_laws(3) [OF wf a] r by (auto simp: ll_room_def)
  with a have al: "ll_alloc_new_block s = Inl Bug" by (simp add: ll_alloc_new_block_def)
  have "load_block (fs_sb s) (fs_bufs s) (last bs) = Inr (Some (last bs))"
    using g ll_list_last(1) [OF l] by (simp add: load_block_def sb_bread_def)
  moreover have "0 < entries_per_block (fs_sb s)" using blocksize_entries(2) [OF g] by simp
  ultimately show ?thesis using r al by (simp add: ll_append_def Let_def ll_room_def)
qed

lemma ll_append_law:
  assumes i: "ll_inv s bs es" and e: "entry_ok e" and r: "ll_room s (length es)"
  shows "\<exists>s' bs'. ll_append s (last bs) (length es) e = Inr (s', last (bs @ bs'), length es + 1) \<and>
    ll_inv s' (bs @ bs') (es @ [e]) \<and> ll_frame bs s s' \<and>
    zones.free_set s' = zones.free_set s - set bs' \<and> set bs' \<subseteq> zones.free_set s \<and>
    length bs' = (if es \<noteq> [] \<and> length es mod entries_per_block (fs_sb s) = 0 then 1 else 0) \<and>
    set (last bs # bs') \<subseteq> bdirty (fs_bufs s')"
proof (cases "es = [] \<or> length es mod entries_per_block (fs_sb s) \<noteq> 0")
  case True
  from ll_append_in_place [OF i e True] show ?thesis
    using True by (intro exI conjI) (auto intro: exI [of _ "[]"] simp: zones.free_set_def)
next
  case False
  from i have wf: "zmap_wf s" by (simp add: ll_inv_def volume_ok_def)
  obtain t new where a: "cominix_new_block_sb s = (t, new)" by fastforce
  have nz: "new \<noteq> 0" using new_block_laws(4) [OF wf a] r False by (auto simp: ll_room_def)
  have F: "es \<noteq> []" "length es mod entries_per_block (fs_sb s) = 0" using False by auto
  note A = ll_append_new_block [OF i e F a nz]
  show ?thesis
    using A F new_block_laws(3) [OF wf a nz]
    by (intro exI [of _ "[new]"] exI conjI) (auto simp: zones.free_set_def)
qed

end
