(* ===== verification/SampleVolume.thy ===== *)
theory SampleVolume
  imports ChunkStore Cdc LinkedList
begin

text \<open>
  A concrete small volume, with the proofs that it meets the invariants of the components. The
  theorems of the other theories are instantiated at it: 512-byte blocks, one inode map block
  (2), one zone map block (3), inodes in blocks 4 and 5, data zones 6 to 63 of which 6 (the
  extra super block) and 7 (an empty list) are busy, the hash table behind the zones at 32768
  and the chunk heap behind it, empty.
\<close>

definition sample_sb :: super_block where
  "sample_sb = \<lparr>s_blocksize_bits = 9, s_maxbytes = 2147483647, s_magic = 0x4D5A,
     s_max_links = 65530, s_rdonly = False\<rparr>"

definition sample_info :: cominix_sb_info where
  "sample_info = \<lparr>s_ninodes = 16, s_nzones = 64, s_imap_blocks = 1, s_zmap_blocks = 1,
     s_firstdatazone = 6, s_log_zone_size = 0, s_dirsize = 64, s_namelen = 60,
     s_imap = [2], s_zmap = [3], s_mount_state = 1, s_version = 3,
     extra_sb_location = 6, hashtable = 32768, hashtable_size = 512, heap_brk = 33280,
     max_brk = 1048576\<rparr>"

text \<open>Bit 0 of either map and the root inode are busy.\<close>

definition sample_bytes :: "nat \<Rightarrow> nat \<Rightarrow> byte" where
  "sample_bytes b i = (if b = 3 \<and> i = 0 then 7 else if b = 2 \<and> i = 0 then 3 else 0)"

definition sample_bufs :: bufcache where
  "sample_bufs = \<lparr>bdata = sample_bytes, bdisk = sample_bytes, bdirty = {}, breadable = (\<lambda>_. True)\<rparr>"

definition sample_fs :: fs where
  "sample_fs = \<lparr>fs_sb = sample_sb, fs_info = sample_info, fs_bufs = sample_bufs\<rparr>"

lemmas sample_defs = sample_fs_def sample_sb_def sample_info_def sample_bufs_def

lemma sample_blocksize [simp]: "s_blocksize sample_sb = 512" "s_blocksize (fs_sb sample_fs) = 512"
  by (simp_all add: s_blocksize_def sample_defs)

lemma sample_sel [simp]:
  "s_blocksize_bits (fs_sb sample_fs) = 9" "fs_sb sample_fs = sample_sb" "fs_info sample_fs = sample_info"
  "fs_bufs sample_fs = sample_bufs" "s_blocksize_bits sample_sb = 9"
  "breadable sample_bufs b" "bdata sample_bufs = sample_bytes"
  by (simp_all add: sample_defs)

lemma sample_info_sel [simp]:
  "s_nzones sample_info = 64" "s_firstdatazone sample_info = 6" "s_zmap sample_info = [3]"
  "s_zmap_blocks sample_info = 1" "hashtable sample_info = 32768" "hashtable_size sample_info = 512"
  "heap_brk sample_info = 33280" "max_brk sample_info = 1048576" "extra_sb_location sample_info = 6"
  "s_ninodes sample_info = 16" "s_imap sample_info = [2]" "s_imap_blocks sample_info = 1"
  by (simp_all add: sample_info_def)

lemma sample_coherent: "coherent sample_bufs"
  by (simp add: coherent_def sample_bufs_def)

lemma sample_zero: "2048 \<le> a \<Longrightarrow> byte_at sample_sb sample_bufs a = 0"
  by (auto simp: byte_at_def sample_bytes_def div_eq_iff_block)

lemma sample_geometry: "geometry_ok sample_fs"
  by (simp add: geometry_ok_def Let_def)

lemma sample_fnum: "2048 \<le> a \<Longrightarrow> fnum sample_sb sample_bufs a n = 0"
proof -
  assume "2048 \<le> a"
  then have "load_bytes sample_sb sample_bufs a n = replicate n 0"
    unfolding load_bytes_def by (intro nth_equalityI) (simp_all add: sample_zero)
  then show ?thesis by (simp add: fnum_def)
qed

lemma sample_bucket: "bucket sample_fs i []"
  by (simp add: bucket_def entry_addr_def sample_fnum)

lemma sample_heap_wf: "heap_wf sample_fs"
  unfolding heap_wf_def
proof (intro conjI allI impI sample_geometry)
  show "heap_base sample_fs \<le> heap_brk (fs_info sample_fs)" by (simp add: heap_base_def)
  show "heap_brk (fs_info sample_fs) \<le> max_brk (fs_info sample_fs)" by simp
  show "\<exists>cs. bucket sample_fs i cs \<and> (\<forall>c\<in>set cs. chunk_wf sample_fs c \<and>
      chunk_hash_at (fs_sb sample_fs) (fs_bufs sample_fs) c mod buckets sample_fs = i)" for i
    by (rule exI [of _ "[]"]) (simp add: sample_bucket del: sample_sel)
qed

lemma sample_fits: "n \<le> 1000000 \<Longrightarrow> chunk_fits sample_fs n"
  by (simp add: chunk_fits_def next_head_def sizeof_chunk_head_def)

lemma sample_holds: "\<not> chunk_holds sample_fs l h d"
proof
  assume "chunk_holds sample_fs l h d"
  then obtain i cs where b: "bucket sample_fs i cs" and l: "l \<in> set cs"
    by (auto simp: chunk_holds_def stored_def simp del: sample_sel)
  have "cs = []" using b sample_bucket [of i] unfolding bucket_def by (rule chain_unique)
  with l show False by simp
qed

lemma sample_bits: "cominix_test_bit sample_bufs 3 n \<longleftrightarrow> n < 3"
proof (cases "n div 8 = 0")
  case True
  then have "n < 8" by simp
  moreover have "(7 :: byte) = mask 3" by (simp add: mask_eq_exp_minus_1)
  then have "bit (7 :: byte) n \<longleftrightarrow> n < 3" by (simp only: bit_mask_iff) auto
  ultimately show ?thesis using True by (simp add: cominix_test_bit_def sample_bytes_def)
next
  case False
  then show ?thesis by (auto simp: cominix_test_bit_def sample_bytes_def)
qed

lemma sample_zone_busy: "z < 4096 \<Longrightarrow> zone_busy sample_sb sample_info sample_bufs z \<longleftrightarrow> z < 3"
  by (simp add: zone_busy_def bits_per_zone_def sample_bits)

lemma sample_zmap_wf: "zmap_wf sample_fs"
  by (simp add: zmap_wf_def Let_def bits_per_zone_def sample_bits)

lemma sample_data_block: "data_block sample_fs b \<longleftrightarrow> 6 \<le> b \<and> b < 64"
  by (auto simp: data_block_def)

lemma sample_block_busy: "6 \<le> b \<Longrightarrow> b < 64 \<Longrightarrow> block_busy sample_fs b \<longleftrightarrow> b < 8"
  by (auto simp: block_busy_def block_zone_def sample_zone_busy)

lemma sample_volume_ok: "volume_ok sample_fs"
  by (simp add: volume_ok_def sample_zmap_wf)

lemma sample_num_at: "b \<noteq> 3 \<Longrightarrow> b \<noteq> 2 \<Longrightarrow> num_at sample_bufs b off n = 0"
proof -
  assume "b \<noteq> 3" "b \<noteq> 2"
  then have "bytes_at sample_bufs b off n = replicate n 0"
    unfolding bytes_at_def by (intro nth_equalityI) (simp_all add: sample_bytes_def)
  then show ?thesis by (simp add: num_at_def)
qed

lemma sample_ll_inv: "ll_inv sample_fs [7] []"
  by (simp add: ll_inv_def sample_volume_ok block_entries_def entry_at_def next_at_def sample_num_at
      sample_data_block sample_block_busy)

lemma sample_ll_room: "ll_room sample_fs n"
  unfolding ll_room_def by (intro disjI2 exI [of _ 8]) (simp add: sample_data_block sample_block_busy)

end
