(* ===== verification/StoreProperties.thy ===== *)
theory StoreProperties
  imports SampleVolume
begin

text \<open>
  The properties of the chunk storage, the chunk heap with its hash table and the chunk
  boundary search, each with an instance on the sample volume.
\<close>

section \<open>Byte storage across blocks\<close>

text \<open>C29: \<open>write_data_storage\<close> followed by \<open>read_data_storage\<close> over the same address range, which
  may span any number of blocks, returns the bytes written; every byte of the device outside the
  range is unchanged, and no changed buffer is left clean.\<close>

theorem storage_round_trip:
  assumes "valid_range sb bc lo (length xs)" and "length xs \<le> ulen"
  shows "\<exists>bc'. write_data_storage sb bc lo (Some xs) (length xs) = Inr bc' \<and>
    read_data_storage sb bc' lo ulen (length xs) = Inr xs \<and>
    (\<forall>a. a < lo \<or> lo + length xs \<le> a \<longrightarrow> byte_at sb bc' a = byte_at sb bc a) \<and>
    (coherent bc \<longrightarrow> coherent bc')"
proof -
  let ?bc = "mark_buffer_dirty (store_bytes sb bc lo xs) (lo div s_blocksize sb)"
  have w: "write_data_storage sb bc lo (Some xs) (length xs) = Inr ?bc"
    using write_data_storage_spec [OF assms(1), of "Some xs"] by (simp add: enough_data_def data_of_def)
  have v: "valid_range sb ?bc lo (length xs)" using assms(1) by (simp add: valid_range_def store_bytes_def)
  have "load_bytes sb ?bc lo (length xs) = load_bytes sb (store_bytes sb bc lo xs) lo (length xs)"
    by (simp add: load_bytes_def byte_at_def)
  then have "load_bytes sb ?bc lo (length xs) = xs" by simp
  then have "read_data_storage sb ?bc lo ulen (length xs) = Inr xs"
    using read_data_storage_spec [OF v assms(2)] by simp
  moreover have "byte_at sb ?bc a = byte_at sb bc a" if "a < lo \<or> lo + length xs \<le> a" for a
    using that by (auto simp: byte_at_def store_bytes_def)
  moreover have "coherent ?bc" if "coherent bc"
    using that by (intro coherent_mark coherent_store_bytes)
  ultimately show ?thesis using w by blast
qed

theorem storage_round_trip_witness:
  "\<exists>bc'. write_data_storage sample_sb sample_bufs 40000 (Some (replicate 2000 9)) 2000 = Inr bc' \<and>
    read_data_storage sample_sb bc' 40000 4096 2000 = Inr (replicate 2000 9)"
proof -
  have "valid_range sample_sb sample_bufs 40000 (length (replicate 2000 (9::byte)))"
    by (simp add: valid_range_def)
  from storage_round_trip [OF this, of 4096] show ?thesis by auto
qed

text \<open>A user buffer that cannot be written stops the kernel: \<open>read_data_storage\<close> answers a
  failing \<open>copy_to_user\<close> with \<open>BUG_ON\<close>, not with an error code.\<close>

theorem read_bad_user_buffer:
  assumes "valid_range sb bc lo n" and "0 < n"
  shows "read_data_storage sb bc lo 0 n = Inl Bug"
  using assms by (simp add: read_data_storage_small_user_buffer)

theorem read_bad_user_buffer_witness: "read_data_storage sample_sb sample_bufs 40000 0 100 = Inl Bug"
  by (rule read_bad_user_buffer) (simp_all add: valid_range_def)

section \<open>The heap break\<close>

lemma store_bytes_reopened:
  "fnum sb (reopened (store_bytes sb bc st xs)) st (length xs) = fnum sb (store_bytes sb bc st xs) st (length xs)"
  by (rule fnum_cong) (simp add: byte_at_def reopened_sel store_bytes_def)

text \<open>C28: an allocation of \<open>n\<close> bytes returns a location at or above the old break, less than a
  header above it, such that the 24-byte header does not straddle a block; the new break is just
  behind the chunk and below \<open>max_brk\<close>; it is recorded in the extra super block, in a buffer that is
  marked dirty, so that the device has it once the dirty buffers are written back; every other byte stays,
  and no changed buffer is left clean.\<close>

theorem chunk_alloc_correct:
  assumes "heap_wf s" and "0 < n" and "chunk_fits s n"
  shows "\<exists>s' l. chunk_alloc s (int n) = Inr (s', l) \<and>
    heap_brk (fs_info s) \<le> l \<and> l < heap_brk (fs_info s) + sizeof_chunk_head \<and>
    l mod s_blocksize (fs_sb s) + sizeof_chunk_head \<le> s_blocksize (fs_sb s) \<and>
    heap_brk (fs_info s') = l + sizeof_chunk_head + n \<and> heap_brk (fs_info s') < max_brk (fs_info s') \<and>
    fnum (fs_sb s') (fs_bufs s') (esb_addr s') 8 = heap_brk (fs_info s') \<and>
    fnum (fs_sb s') (reopened (fs_bufs s')) (esb_addr s') 8 = heap_brk (fs_info s') \<and>
    (\<forall>a. a < esb_addr s \<or> esb_addr s + 8 \<le> a \<longrightarrow> byte_at (fs_sb s) (fs_bufs s') a = byte_at (fs_sb s) (fs_bufs s) a) \<and>
    (coherent (fs_bufs s) \<longrightarrow> coherent (fs_bufs s'))"
proof -
  have g: "geometry_ok s" using assms(1) by (simp add: heap_wf_def)
  note nh = next_head_bounds [OF geometry_blocksize(3) [OF g], of "heap_brk (fs_info s)"]
  note B = chunk_fits_bounds [OF assms(1,3)]
  let ?l = "next_head (fs_sb s) (heap_brk (fs_info s))"
  let ?b = "?l + sizeof_chunk_head + n"
  have lt: "?b < 256 ^ 8" using B(5) by simp
  have "fnum (fs_sb s) (fs_bufs (after_alloc s ?b)) (esb_addr s) 8 = ?b"
    using lt unfolding fnum_def after_alloc_def by simp
  moreover have "esb_addr (after_alloc s ?b) = esb_addr s" by (simp add: esb_addr_def)
  moreover have "fnum (fs_sb s) (reopened (fs_bufs (after_alloc s ?b))) (esb_addr s) 8 = fnum (fs_sb s) (fs_bufs (after_alloc s ?b)) (esb_addr s) 8"
    using store_bytes_reopened [of "fs_sb s" "fs_bufs s" "esb_addr s" "le_bytes 8 ?b"] by (simp add: after_alloc_def)
  moreover have "byte_at (fs_sb s) (fs_bufs (after_alloc s ?b)) a = byte_at (fs_sb s) (fs_bufs s) a"
    if "a < esb_addr s \<or> esb_addr s + 8 \<le> a" for a using that by (auto simp: after_alloc_def)
  moreover have "coherent (fs_bufs s) \<Longrightarrow> coherent (fs_bufs (after_alloc s ?b))"
    by (simp add: after_alloc_def coherent_store_bytes)
  ultimately show ?thesis
    using chunk_alloc_spec [OF assms] nh B(4) by (intro exI [of _ "after_alloc s ?b"] exI [of _ ?l]) simp
qed

theorem chunk_alloc_correct_witness:
  "\<exists>s' l. chunk_alloc sample_fs (int 1000) = Inr (s', l) \<and> 33280 \<le> l \<and>
     heap_brk (fs_info s') = l + sizeof_chunk_head + 1000 \<and>
     fnum (fs_sb s') (reopened (fs_bufs s')) (esb_addr s') 8 = l + sizeof_chunk_head + 1000"
  using chunk_alloc_correct [OF sample_heap_wf, of 1000] sample_fits [of 1000] by auto

text \<open>With no room left below \<open>max_brk\<close> the allocation does not return, it is a \<open>BUG\<close>
  (provided the rounded break itself still fits 32 bits).\<close>

theorem chunk_alloc_exhausted:
  assumes h: "heap_wf s" and n: "0 < n" "n < 2 ^ 63" and f: "\<not> chunk_fits s n"
    and w: "next_head (fs_sb s) (heap_brk (fs_info s)) < 2 ^ 32"
  shows "chunk_alloc s (int n) = Inl Bug"
proof -
  have g: "geometry_ok s" using h by (simp add: heap_wf_def)
  let ?sb = "fs_sb s" and ?b = "heap_brk (fs_info s)"
  note nh = next_head_bounds [OF geometry_blocksize(3) [OF g], of ?b]
  have b: "?b < 2 ^ 32" using nh(1) w by linarith
  have "Suc (?b div s_blocksize ?sb) < 2 ^ 32"
  proof -
    have "?b div s_blocksize ?sb \<le> ?b div 2"
      using geometry_blocksize(1) [OF g] by (intro div_le_mono2) simp_all
    then show ?thesis using b by simp
  qed
  moreover have "?b + sizeof_chunk_head < 2 ^ 64" using b by (simp add: sizeof_chunk_head_def)
  ultimately have a: "align_brk ?sb ?b = next_head ?sb ?b"
    using align_brk_next_head [OF geometry_blocksize(3) [OF g] _ _ w] by simp
  have "next_head ?sb ?b + sizeof_chunk_head + n < 2 ^ 64" using w n(2) by (simp add: sizeof_chunk_head_def)
  then have u: "u64 (next_head ?sb ?b + sizeof_chunk_head + n) = next_head ?sb ?b + sizeof_chunk_head + n"
    by (rule u64_id)
  show ?thesis
    using f n a u by (simp add: chunk_alloc_def Let_def bug_on_def chunk_fits_def)
qed

theorem chunk_alloc_exhausted_witness: "chunk_alloc sample_fs (int 1100000) = Inl Bug"
  by (rule chunk_alloc_exhausted [OF sample_heap_wf])
    (simp_all add: chunk_fits_def next_head_def sizeof_chunk_head_def)

text \<open>Past 4 GiB the rounding of the break wraps: the expression is evaluated in 32 bits, so
  when a header would straddle a block there, the heap break falls back to a low address.\<close>

theorem align_brk_falls_back:
  assumes "9 \<le> s_blocksize_bits sb" and "2 ^ 32 \<le> brk" and "brk < 2 ^ 40"
    and "\<not> brk mod s_blocksize sb + sizeof_chunk_head \<le> s_blocksize sb"
  shows "align_brk sb brk = next_head sb brk mod 2 ^ 32 \<and> align_brk sb brk < brk"
proof -
  have "(2::nat) ^ 9 \<le> s_blocksize sb"
    unfolding s_blocksize_def using assms(1) by (rule power_increasing) simp
  then have k: "512 \<le> s_blocksize sb" by simp
  have "brk div s_blocksize sb \<le> brk div 512" using k by (intro div_le_mono2) simp_all
  also have "brk div 512 < 2 ^ 31" using assms(3) by (intro less_mult_imp_div_less) simp
  finally have d: "Suc (brk div s_blocksize sb) < 2 ^ 32" by simp
  have sz: "sizeof_chunk_head \<le> s_blocksize sb" using k by (simp add: sizeof_chunk_head_def)
  have nh: "2 ^ 32 \<le> next_head sb brk" using next_head_bounds(1) [OF sz, of brk] assms(2) by linarith
  have "brk + sizeof_chunk_head < 2 ^ 64" using assms(3) by (simp add: sizeof_chunk_head_def)
  from align_brk_wraps [OF sz this d nh assms(4)]
  have "align_brk sb brk = next_head sb brk mod 2 ^ 32" .
  moreover have "next_head sb brk mod 2 ^ 32 < 2 ^ 32" by simp
  ultimately show ?thesis using assms(2) by linarith
qed

theorem align_brk_falls_back_witness: "align_brk sample_sb (2 ^ 32 + 500) < 2 ^ 32 + 500"
  using align_brk_falls_back [of sample_sb "2 ^ 32 + 500"] by (simp add: sizeof_chunk_head_def)

section \<open>The hash table\<close>

text \<open>C21: on a well-formed heap a lookup always ends and is exact: 0 if and only if no stored
  chunk has the hash, else the location of a stored chunk with that hash.\<close>

theorem search_exact:
  assumes "heap_wf s"
  shows "\<exists>l. chunk_search_hashtable s h = Inr l \<and> (l = 0 \<longleftrightarrow> (\<forall>l' d. \<not> chunk_holds s l' h d)) \<and>
    (l \<noteq> 0 \<longrightarrow> (\<exists>d. chunk_holds s l h d))"
proof -
  obtain l where l: "chunk_search_hashtable s h = Inr l" using heap.search_total [OF assms] by blast
  then show ?thesis
    using heap.search_hit [OF assms l] heap.holds_found [OF assms, of _ h] by (intro exI [of _ l]) auto
qed

theorem search_exact_witness: "chunk_search_hashtable sample_fs 123456789 = Inr 0"
  using search_exact [OF sample_heap_wf, of 123456789] sample_holds by blast

text \<open>C20: filling the table with a chunk that fits succeeds, keeps the heap well formed, stores
  the bytes under the hash at the returned location, makes a lookup of that hash find it, and
  leaves every other lookup and every chunk stored before as they were.\<close>

theorem fill_stores:
  assumes "heap_wf s" and "chunk_fits s (length d)" and "d \<noteq> []"
    and "ck_hash m < 2 ^ 64" and "ck_length m = length d"
  shows "\<exists>s' l. chunk_fill_hashtable s m d = Inr (s', l) \<and> heap_wf s' \<and> l \<noteq> 0 \<and>
    chunk_holds s' l (ck_hash m) d \<and> chunk_search_hashtable s' (ck_hash m) = Inr l \<and>
    (\<forall>h. h \<noteq> ck_hash m \<longrightarrow> chunk_search_hashtable s' h = chunk_search_hashtable s h) \<and>
    (\<forall>l' h' d'. chunk_holds s l' h' d' \<longrightarrow> chunk_holds s' l' h' d')"
  using heap.fill_ok [OF assms(1,4,5,3,2)] by blast

definition sample_chunk :: chunk where
  "sample_chunk = \<lparr>ck_hash = 77, ck_length = 3000, ck_refcount = 0, ck_flags = 0, ck_next = 0\<rparr>"

theorem fill_stores_witness:
  "\<exists>s' l. chunk_fill_hashtable sample_fs sample_chunk (replicate 3000 5) = Inr (s', l) \<and>
     chunk_search_hashtable s' 77 = Inr l \<and> l \<noteq> 0"
  using fill_stores [OF sample_heap_wf, of "replicate 3000 5" sample_chunk] sample_fits [of 3000]
  by (auto simp: sample_chunk_def)

text \<open>Reading a stored chunk through its list entry returns exactly the requested part of its
  bytes, cut at the end of the chunk, and nothing at or past the end.\<close>

theorem copy_into_buffer_correct:
  assumes h: "heap_wf s" and c: "chunk_holds s l hash d" and u: "min cnt (length d - pos) \<le> ulen"
  shows "chunk_copy_into_buffer (fs_sb s) (fs_bufs s) \<lparr>ce_location = l, ce_size = length d\<rparr> ulen cnt pos =
    Inr (take cnt (drop pos d))"
  using assms by (rule copy_into_buffer_spec)

theorem copy_into_buffer_correct_witness:
  "\<exists>s' l. chunk_fill_hashtable sample_fs sample_chunk (replicate 3000 5) = Inr (s', l) \<and>
     chunk_copy_into_buffer (fs_sb s') (fs_bufs s') \<lparr>ce_location = l, ce_size = 3000\<rparr> 4096 4096 1000 =
       Inr (replicate 2000 5)"
proof -
  obtain s' l where f: "chunk_fill_hashtable sample_fs sample_chunk (replicate 3000 5) = Inr (s', l)"
      "heap_wf s'" "chunk_holds s' l 77 (replicate 3000 5)"
    using heap.fill_ok [OF sample_heap_wf, of sample_chunk "replicate 3000 5"] sample_fits [of 3000]
    by (auto simp: sample_chunk_def)
  from copy_into_buffer_correct [OF f(2,3), of 4096 1000 4096] f(1) show ?thesis by auto
qed

text \<open>\<open>chunk_reset_hashtable\<close> turns any volume of a valid geometry into a well-formed, empty
  heap: the break is just behind the table and no lookup finds anything.\<close>

theorem reset_empties:
  assumes g: "geometry_ok s" and m: "heap_base s \<le> max_brk (fs_info s)"
    and t: "8 dvd hashtable_size (fs_info s)"
  shows "\<exists>s'. chunk_reset_hashtable s = Inr s' \<and> heap_wf s' \<and> heap_brk (fs_info s') = heap_base s \<and>
    (\<forall>h. chunk_search_hashtable s' h = Inr 0)"
  using reset_spec [OF assms] reset_heap_wf [OF assms] reset_search [OF assms] by simp

theorem reset_empties_witness: "\<exists>s'. chunk_reset_hashtable sample_fs = Inr s' \<and> heap_wf s'"
  using reset_empties [OF sample_geometry] by (auto simp: heap_base_def)

section \<open>Chunk boundaries\<close>

text \<open>C30: a chunk is never empty, never reaches past the end of the file, never exceeds 64 KiB, and
  only the last chunk of a file can be shorter than 2 KiB; so cutting makes progress and ends.\<close>

theorem chunk_size_bounds:
  assumes "pos < n" and "n < 2 ^ 63"
  shows "0 < cdc_get_chunk_size rd n pos \<and> cdc_get_chunk_size rd n pos \<le> n - pos \<and>
    cdc_get_chunk_size rd n pos \<le> MaxSize \<and>
    (cdc_get_chunk_size rd n pos = n - pos \<or> MinSize \<le> cdc_get_chunk_size rd n pos)"
  using cdc_bounds [OF assms, of rd] by (metis le_neq_implies_less)

theorem chunk_size_bounds_witness:
  "0 < cdc_get_chunk_size (\<lambda>_. None) 100000 5 \<and> cdc_get_chunk_size (\<lambda>_. None) 100000 5 \<le> 65536"
  using chunk_size_bounds [of 5 100000 "\<lambda>_. None"] by (simp add: MaxSize_def)

text \<open>C24: the two-loop search equals the one-line specification: the first position past the
  minimum at which the gear hash of the bytes read so far has zeros under the mask.\<close>

theorem chunk_size_first_cut:
  assumes "pos \<le> length d" and "length d < 2 ^ 63"
  shows "cdc_get_chunk_size (file_bytes d) (length d) pos = chunk_size_spec d pos"
  using assms by (rule cdc_equals_spec)

theorem chunk_size_first_cut_witness:
  "cdc_get_chunk_size (file_bytes (replicate 10000 3)) 10000 1 = chunk_size_spec (replicate 10000 3) 1"
  using chunk_size_first_cut [of 1 "replicate 10000 3"] by simp

text \<open>Cut points depend on content, not on position: equal bytes in the next 64 KiB give
  equal chunk sizes, whatever the files hold elsewhere. This is what makes shifted duplicates
  deduplicate.\<close>

theorem chunk_size_local:
  assumes "pos \<le> length d" and "length d < 2 ^ 63" and "pos' \<le> length d'" and "length d' < 2 ^ 63"
    and "take MaxSize (drop pos d) = take MaxSize (drop pos' d')"
  shows "cdc_get_chunk_size (file_bytes d) (length d) pos =
    cdc_get_chunk_size (file_bytes d') (length d') pos'"
  using assms by (rule cdc_local)

theorem chunk_size_local_witness:
  "cdc_get_chunk_size (file_bytes (9 # replicate 5000 4)) 5001 1 =
   cdc_get_chunk_size (file_bytes (replicate 5000 4)) 5000 0"
  using chunk_size_local [of 1 "9 # replicate 5000 4" 0 "replicate 5000 4"] by simp

text \<open>The rolling hash is a window of 64 bytes: what was read before them has been shifted
  out, so a boundary decision depends on the last 64 bytes only.\<close>

theorem gear_window:
  assumes "64 \<le> length ys"
  shows "gear_hash fp (xs @ ys) = gear_hash fp' ys"
  using gear_hash_window [OF assms] by (metis gear_hash_append)

theorem gear_window_witness: "gear_hash 5 ([1, 2, 3] @ replicate 64 7) = gear_hash 0 (replicate 64 7)"
  using gear_window [of "replicate 64 7" 5 "[1, 2, 3]" 0] by simp

end
