(* ===== verification/BitmapBE.thy ===== *)
theory BitmapBE
  imports BitmapSpec
begin

text \<open>
  The bit operations of cominix.h that other configurations select. With
  \<open>CONFIG_MINIX_FS_BIG_ENDIAN_16BIT_INDEXED\<close>, on a big-endian machine with 32-bit longs, a map is an array
  of big-endian 16-bit numbers; with \<open>CONFIG_MINIX_FS_NATIVE_ENDIAN\<close> it is an array of the machine's longs.
  Both are the operations of the other theories on a map with its bytes in another order.
\<close>

unbundle bit_operations_syntax

section \<open>The operations\<close>

definition be_short :: "bufcache \<Rightarrow> nat \<Rightarrow> nat \<Rightarrow> 16 word" where
  "be_short bc b w = word_cat (bdata bc b (2 * w)) (bdata bc b (2 * w + 1))"

text \<open>\<open>__set_bit\<close> and its relatives number the bits of 32-bit longs: in memory, bit \<open>n\<close> of the array is
  in the byte \<open>3 - n mod 32 div 8\<close> of long \<open>n div 32\<close>.\<close>

definition long_byte :: "nat \<Rightarrow> nat" where
  "long_byte n = 4 * (n div 32) + (3 - n mod 32 div 8)"

definition set_bit_be :: "bufcache \<Rightarrow> nat \<Rightarrow> nat \<Rightarrow> bufcache" where
  "set_bit_be bc b n = put_byte bc b (long_byte n) (bdata bc b (long_byte n) OR push_bit (n mod 8) 1)"

definition clear_bit_be :: "bufcache \<Rightarrow> nat \<Rightarrow> nat \<Rightarrow> bufcache" where
  "clear_bit_be bc b n = put_byte bc b (long_byte n) (bdata bc b (long_byte n) AND NOT (push_bit (n mod 8) 1))"

definition old_bit_be :: "bufcache \<Rightarrow> nat \<Rightarrow> nat \<Rightarrow> bool" where
  "old_bit_be bc b n = bit (bdata bc b (long_byte n)) (n mod 8)"

definition cominix_test_and_set_bit_be :: "bufcache \<Rightarrow> nat \<Rightarrow> nat \<Rightarrow> bufcache \<times> bool" where
  "cominix_test_and_set_bit_be bc b nr = (set_bit_be bc b (nr XOR 16), old_bit_be bc b (nr XOR 16))"

definition cominix_set_bit_be :: "bufcache \<Rightarrow> nat \<Rightarrow> nat \<Rightarrow> bufcache" where
  "cominix_set_bit_be bc b nr = set_bit_be bc b (nr XOR 16)"

definition cominix_test_and_clear_bit_be :: "bufcache \<Rightarrow> nat \<Rightarrow> nat \<Rightarrow> bufcache \<times> bool" where
  "cominix_test_and_clear_bit_be bc b nr = (clear_bit_be bc b (nr XOR 16), old_bit_be bc b (nr XOR 16))"

definition cominix_test_bit_be :: "bufcache \<Rightarrow> nat \<Rightarrow> nat \<Rightarrow> bool" where
  "cominix_test_bit_be bc b nr \<longleftrightarrow> be_short bc b (drop_bit 4 nr) AND push_bit (nr AND 15) 1 \<noteq> 0"

text \<open>\<open>ffz\<close>: the lowest clear bit.\<close>

definition ffz :: "16 word \<Rightarrow> nat" where
  "ffz w = length (takeWhile (\<lambda>k. bit w k) [0..<16])"

text \<open>The loop, \<open>p\<close> counting the numbers before the pointer. \<open>size\<close> is an \<open>unsigned\<close>; a read behind the
  buffer is an error of the model.\<close>

function find_zero_word :: "super_block \<Rightarrow> bufcache \<Rightarrow> nat \<Rightarrow> nat \<Rightarrow> nat \<Rightarrow> nat res" where
  "find_zero_word sb bc b p sz =
     (if s_blocksize sb < 2 * p + 2 then Inl OutOfBounds
      else if be_short bc b p = 0xFFFF then
        let sz' = u32 (sz + (2 ^ 32 - 1)) in
        if sz' = 0 then Inr (16 * (p + 1)) else find_zero_word sb bc b (p + 1) sz'
      else Inr (16 * p + ffz (be_short bc b p)))"
  by pat_completeness auto
termination
  by (relation "measure (\<lambda>(sb, bc, b, p, sz). s_blocksize sb - 2 * p)") auto

declare find_zero_word.simps [simp del]

definition cominix_find_first_zero_bit_be :: "super_block \<Rightarrow> bufcache \<Rightarrow> nat \<Rightarrow> nat \<Rightarrow> nat res" where
  "cominix_find_first_zero_bit_be sb bc b sz =
     (if sz = 0 then Inr 0 else find_zero_word sb bc b 0 (drop_bit 4 sz))"

section \<open>The same map in the other byte order\<close>

definition partner :: "nat \<Rightarrow> nat" where
  "partner i = (if even i then i + 1 else i - 1)"

definition swapped :: "bufcache \<Rightarrow> bufcache" where
  "swapped bc = bc\<lparr>bdata := (\<lambda>b i. bdata bc b (partner i))\<rparr>"

lemma partner_partner [simp]: "partner (partner i) = i"
  by (auto simp: partner_def elim: oddE)

lemma bdata_swapped [simp]: "bdata (swapped bc) b i = bdata bc b (partner i)"
  by (simp add: swapped_def)

lemma swapped_put_byte: "swapped (put_byte bc b i v) = put_byte (swapped bc) b (partner i) v"
  by (rule bufcache.equality) (auto simp: swapped_def put_byte_def fun_eq_iff)

lemma partner_half:
  assumes "a < 4" "b < 4" "b + 2 = a \<or> b = a + 2"
  shows "4 * q + (3 - b) = partner (4 * q + a)"
proof -
  consider "a = 0" "b = 2" | "a = 1" "b = 3" | "a = 2" "b = 0" | "a = 3" "b = 1" using assms by linarith
  then show ?thesis by cases (simp_all add: partner_def)
qed

lemma long_byte_xor: "long_byte (nr XOR 16) = partner (nr div 8)" "(nr XOR 16) mod 8 = nr mod 8"
proof -
  have u: "unset_bit 4 nr = nr - 16" if "odd (nr div 16)"
  proof -
    have "bit nr 4" using that by (simp add: bit_iff_odd)
    then have "nr = set_bit 4 (unset_bit 4 nr)"
      by (intro bit_eqI) (auto simp: bit_set_bit_iff bit_unset_bit_iff)
    then show ?thesis by (simp add: set_bit_eq bit_unset_bit_iff)
  qed
  define q r where "q = nr div 32" and "r = nr mod 32"
  have nr: "nr = 32 * q + r" "r < 32" by (simp_all add: q_def r_def)
  have d: "nr div 16 = 2 * q + r div 16" "nr div 8 = 4 * q + r div 8" using nr(1) by simp_all
  have "r div 16 = 0 \<and> r < 16 \<or> r div 16 = 1 \<and> 16 \<le> r" using nr(2) by auto
  moreover have "nr XOR 16 = flip_bit 4 nr" by (simp add: flip_bit_eq_xor)
  ultimately have x: "nr XOR 16 = 32 * q + (if r < 16 then r + 16 else r - 16)"
    using u d(1) nr(1) by (auto simp: flip_bit_eq_if set_bit_eq bit_iff_odd)
  define r' where "r' = (if r < 16 then r + 16 else r - 16)"
  have s: "(k + 16) mod 8 = k mod 8" "(k + 16) div 8 = k div 8 + 2" for k :: nat by presburger+
  have r': "r' < 32 \<and> r' mod 8 = r mod 8 \<and> (r' div 8 + 2 = r div 8 \<or> r' div 8 = r div 8 + 2)"
  proof (cases "r < 16")
    case True
    then show ?thesis using s [of r] by (simp add: r'_def)
  next
    case False
    then show ?thesis using s [of "r - 16"] nr(2) by (simp add: r'_def)
  qed
  have "nr XOR 16 = 32 * q + r'" using x unfolding r'_def .
  moreover have "(32 * q + r') div 32 = q" "(32 * q + r') mod 32 = r'" using r' by simp_all
  moreover have "(32 * q + r') mod 8 = r mod 8"
    using r' mod_mult_self4 [of 8 "4 * q" r'] by simp
  moreover have "nr mod 8 = r mod 8" unfolding nr(1) using mod_mult_self4 [of 8 "4 * q" r] by simp
  moreover have k: "r div 8 < 4" "r' div 8 < 4" using nr(2) r' by (simp_all add: less_mult_imp_div_less)
  moreover have "4 * q + (3 - r' div 8) = partner (4 * q + r div 8)"
    using partner_half [OF k] r' by blast
  ultimately show "long_byte (nr XOR 16) = partner (nr div 8)" "(nr XOR 16) mod 8 = nr mod 8"
    unfolding d(2) long_byte_def by simp_all
qed

lemma bit_be_short:
  assumes "k < 16"
  shows "bit (be_short bc b w) k \<longleftrightarrow> cominix_test_bit (swapped bc) b (16 * w + k)"
proof -
  have "(16 * w + k) div 8 = (if k < 8 then 2 * w else 2 * w + 1)" "(16 * w + k) mod 8 = (if k < 8 then k else k - 8)"
    using assms by (auto; presburger)+
  then show ?thesis using assms
    by (simp add: be_short_def cominix_test_bit_def swapped_def partner_def bit_word_cat_iff)
qed

lemma test_bit_swapped: "cominix_test_bit_be bc b nr = cominix_test_bit (swapped bc) b nr"
proof -
  have w: "drop_bit 4 nr = nr div 16" "nr AND 15 = nr mod 16"
    using take_bit_eq_mask [of 4 nr] by (simp_all add: drop_bit_eq_div mask_eq_exp_minus_1 take_bit_eq_mod)
  have "x AND push_bit k 1 \<noteq> 0 \<longleftrightarrow> bit x k" if "k < 16" for x :: "16 word" and k
    by (simp add: push_bit_of_1 and_exp_eq_0_iff_not_bit)
  then have "cominix_test_bit_be bc b nr = bit (be_short bc b (nr div 16)) (nr mod 16)"
    by (simp add: cominix_test_bit_be_def w)
  then show ?thesis using bit_be_short [of "nr mod 16" bc b "nr div 16"] by simp
qed

lemma update_bit_swapped:
  "swapped (cominix_set_bit_be bc b nr) = cominix_set_bit (swapped bc) b nr"
  "swapped (fst (cominix_test_and_set_bit_be bc b nr)) = fst (cominix_test_and_set_bit (swapped bc) b nr)"
  "snd (cominix_test_and_set_bit_be bc b nr) = snd (cominix_test_and_set_bit (swapped bc) b nr)"
  "swapped (fst (cominix_test_and_clear_bit_be bc b nr)) = fst (cominix_test_and_clear_bit (swapped bc) b nr)"
  "snd (cominix_test_and_clear_bit_be bc b nr) = snd (cominix_test_and_clear_bit (swapped bc) b nr)"
  by (simp_all add: cominix_set_bit_be_def set_bit_be_def cominix_set_bit_def cominix_test_and_set_bit_be_def
      cominix_test_and_set_bit_def cominix_test_and_clear_bit_be_def cominix_test_and_clear_bit_def clear_bit_be_def
      cominix_clear_bit_def old_bit_be_def cominix_test_bit_def swapped_put_byte long_byte_xor)

section \<open>Searching\<close>

lemma find_zero_from_eq:
  assumes "j \<le> k" "k \<le> n" "\<And>i. j \<le> i \<Longrightarrow> i < k \<Longrightarrow> cominix_test_bit bc b i"
    and "k < n \<Longrightarrow> \<not> cominix_test_bit bc b k"
  shows "find_zero_from bc b j n = k"
proof -
  have "j \<le> n" using assms(1,2) by simp
  note s = find_zero_from_spec [OF this, of bc b]
  show ?thesis
  proof (rule ccontr)
    assume "find_zero_from bc b j n \<noteq> k"
    then consider "find_zero_from bc b j n < k" | "k < find_zero_from bc b j n" by linarith
    then show False using s assms by cases fastforce+
  qed
qed

lemma find_zero_from_skip:
  assumes "j \<le> k" "k \<le> n" "\<And>i. j \<le> i \<Longrightarrow> i < k \<Longrightarrow> cominix_test_bit bc b i"
  shows "find_zero_from bc b j n = find_zero_from bc b k n"
proof (rule find_zero_from_eq)
  note s = find_zero_from_spec [OF assms(2), of bc b]
  show "cominix_test_bit bc b i" if "j \<le> i" "i < find_zero_from bc b k n" for i
    using s assms(3) that by (cases "i < k") auto
qed (use find_zero_from_spec [OF assms(2), of bc b] assms(1) in auto)

lemma ffz_spec:
  assumes "w \<noteq> 0xFFFF"
  shows "ffz w < 16" "\<not> bit w (ffz w)" "k < ffz w \<Longrightarrow> bit w k"
proof -
  have "\<exists>k < 16. \<not> bit w k"
  proof (rule ccontr)
    assume "\<not> ?thesis"
    then have "w = mask 16" by (intro bit_word_eqI) (simp add: bit_mask_iff)
    then show False using assms by (simp add: mask_eq_exp_minus_1)
  qed
  then have s: "takeWhile (\<lambda>k. bit w k) [0..<16] \<noteq> [0..<16]" by (auto simp: takeWhile_eq_all_conv)
  then show l: "ffz w < 16" unfolding ffz_def
    by (metis length_takeWhile_le length_upt minus_nat.diff_0 order_le_less takeWhile_eq_take take_all_iff)
  show "\<not> bit w (ffz w)" using nth_length_takeWhile [of "\<lambda>k. bit w k" "[0..<16]"] l by (simp add: ffz_def)
  show "bit w k" if "k < ffz w"
  proof -
    have "[0..<16] ! k = k" using that l by simp
    moreover have "takeWhile (\<lambda>k. bit w k) [0..<16] ! k = [0..<16] ! k" using that unfolding ffz_def by (rule takeWhile_nth)
    ultimately show ?thesis using that set_takeWhileD [of k "\<lambda>k. bit w k" "[0..<16]"] nth_mem [of k "takeWhile (\<lambda>k. bit w k) [0..<16]"]
      unfolding ffz_def by simp
  qed
qed

lemma find_zero_word_spec:
  assumes "2 * (p + n) \<le> s_blocksize sb" "0 < n" "n < 2 ^ 32"
  shows "find_zero_word sb bc b p n = Inr (find_zero_from (swapped bc) b (16 * p) (16 * (p + n)))"
  using assms
proof (induction n arbitrary: p)
  case (Suc n)
  have bits: "cominix_test_bit (swapped bc) b i = bit (be_short bc b p) (i - 16 * p)" if "16 * p \<le> i" "i < 16 * p + 16" for i
    using bit_be_short [of "i - 16 * p" bc b p] that by simp
  have ok: "\<not> s_blocksize sb < 2 * p + 2" using Suc.prems(1) by simp
  have sz: "u32 (Suc n + (2 ^ 32 - 1)) = n" using Suc.prems(3) by (simp add: u32_def)
  show ?case
  proof (cases "be_short bc b p = 0xFFFF")
    case True
    have "(0xFFFF :: 16 word) = mask 16" by (simp add: mask_eq_exp_minus_1)
    then have ones: "bit (be_short bc b p) k" if "k < 16" for k using that True by (simp only: bit_mask_iff) simp
    have "find_zero_from (swapped bc) b (16 * p) (16 * (p + Suc n)) = find_zero_from (swapped bc) b (16 * (p + 1)) (16 * (p + Suc n))"
      by (rule find_zero_from_skip) (use bits ones in auto)
    moreover have "find_zero_from (swapped bc) b (16 * (p + 1)) (16 * (p + Suc 0)) = 16 * (p + 1)"
      by (rule find_zero_from_eq) simp_all
    ultimately show ?thesis using Suc.IH [of "p + 1"] Suc.prems ok sz True
      by (subst find_zero_word.simps) (auto simp: Let_def)
  next
    case False
    note z = ffz_spec [OF False]
    have "find_zero_from (swapped bc) b (16 * p) (16 * (p + Suc n)) = 16 * p + ffz (be_short bc b p)"
      by (rule find_zero_from_eq) (use bits z in auto)
    then show ?thesis using ok False by (subst find_zero_word.simps) simp
  qed
qed simp

lemma find_first_zero_swapped:
  assumes "16 dvd sz" "sz \<le> 8 * s_blocksize sb" "sz < 2 ^ 32"
  shows "cominix_find_first_zero_bit_be sb bc b sz = Inr (cominix_find_first_zero_bit (swapped bc) b sz)"
proof (cases "sz = 0")
  case True
  then show ?thesis by (simp add: cominix_find_first_zero_bit_be_def cominix_find_first_zero_bit_def find_zero_from.simps)
next
  case False
  then obtain n where n: "sz = 16 * n" "0 < n" using assms(1) by auto
  then have "drop_bit 4 sz = n" by (simp add: drop_bit_eq_div)
  moreover have "2 * (0 + n) \<le> s_blocksize sb" "n < 2 ^ 32" using assms(2,3) n by simp_all
  ultimately show ?thesis using False n find_zero_word_spec [of 0 n sb bc b]
    by (simp add: cominix_find_first_zero_bit_be_def cominix_find_first_zero_bit_def)
qed

section \<open>Native bit operations\<close>

text \<open>The operations that cominix.h selects with \<open>CONFIG_MINIX_FS_NATIVE_ENDIAN\<close> number the bits of the
  machine's longs, of \<open>w\<close> bytes, \<open>big\<close> telling the machine's byte order: the bytes of every long in reverse
  order on a big-endian machine, the addressing of the little-endian operations on a little-endian one.\<close>

definition native_byte :: "bool \<Rightarrow> nat \<Rightarrow> nat \<Rightarrow> nat" where
  "native_byte big w n = (if big then w * (n div (8 * w)) + (w - 1 - n mod (8 * w) div 8) else n div 8)"

definition cominix_test_bit_native :: "bool \<Rightarrow> nat \<Rightarrow> bufcache \<Rightarrow> nat \<Rightarrow> nat \<Rightarrow> bool" where
  "cominix_test_bit_native big w bc b nr = bit (bdata bc b (native_byte big w nr)) (nr mod 8)"

definition cominix_set_bit_native :: "bool \<Rightarrow> nat \<Rightarrow> bufcache \<Rightarrow> nat \<Rightarrow> nat \<Rightarrow> bufcache" where
  "cominix_set_bit_native big w bc b nr =
     put_byte bc b (native_byte big w nr) (bdata bc b (native_byte big w nr) OR push_bit (nr mod 8) 1)"

definition cominix_test_and_set_bit_native :: "bool \<Rightarrow> nat \<Rightarrow> bufcache \<Rightarrow> nat \<Rightarrow> nat \<Rightarrow> bufcache \<times> bool" where
  "cominix_test_and_set_bit_native big w bc b nr =
     (cominix_set_bit_native big w bc b nr, cominix_test_bit_native big w bc b nr)"

definition cominix_test_and_clear_bit_native :: "bool \<Rightarrow> nat \<Rightarrow> bufcache \<Rightarrow> nat \<Rightarrow> nat \<Rightarrow> bufcache \<times> bool" where
  "cominix_test_and_clear_bit_native big w bc b nr =
     (put_byte bc b (native_byte big w nr) (bdata bc b (native_byte big w nr) AND NOT (push_bit (nr mod 8) 1)),
      cominix_test_bit_native big w bc b nr)"

text \<open>\<open>find_first_zero_bit\<close>: the lowest clear bit, the size if there is none.\<close>

definition cominix_find_first_zero_bit_native :: "bool \<Rightarrow> nat \<Rightarrow> bufcache \<Rightarrow> nat \<Rightarrow> nat \<Rightarrow> nat" where
  "cominix_find_first_zero_bit_native big w bc b sz =
     length (takeWhile (\<lambda>k. cominix_test_bit_native big w bc b k) [0..<sz])"

definition long_swap :: "bool \<Rightarrow> nat \<Rightarrow> nat \<Rightarrow> nat" where
  "long_swap big w i = (if big then w * (i div w) + (w - 1 - i mod w) else i)"

definition reordered :: "bool \<Rightarrow> nat \<Rightarrow> bufcache \<Rightarrow> bufcache" where
  "reordered big w bc = bc\<lparr>bdata := (\<lambda>b i. bdata bc b (long_swap big w i))\<rparr>"

lemma long_swap_swap:
  assumes "0 < w"
  shows "long_swap big w (long_swap big w i) = i"
proof -
  define r where "r = w - 1 - i mod w"
  have r: "r < w" "w - 1 - r = i mod w" using assms mod_less_divisor [OF assms, of i] by (simp_all add: r_def)
  then have "(w * (i div w) + r) div w = i div w" "(w * (i div w) + r) mod w = r" using assms by simp_all
  moreover have "long_swap True w i = w * (i div w) + r" by (simp add: long_swap_def r_def)
  moreover have "long_swap True w j = w * (j div w) + (w - 1 - j mod w)" for j by (simp add: long_swap_def)
  ultimately have "long_swap True w (long_swap True w i) = i" using r(2) by simp
  then show ?thesis by (cases big) (simp_all add: long_swap_def)
qed

lemma native_byte_swap: "native_byte big w n = long_swap big w (n div 8)"
  by (simp add: native_byte_def long_swap_def div_mult2_eq mod_mult2_eq)

lemma bdata_reordered [simp]: "bdata (reordered big w bc) b i = bdata bc b (long_swap big w i)"
  by (simp add: reordered_def)

lemma reordered_put_byte:
  assumes "0 < w"
  shows "reordered big w (put_byte bc b i v) = put_byte (reordered big w bc) b (long_swap big w i) v"
proof (rule bufcache.equality)
  have "long_swap big w j = i \<longleftrightarrow> j = long_swap big w i" for j using long_swap_swap [OF assms] by metis
  then show "bdata (reordered big w (put_byte bc b i v)) = bdata (put_byte (reordered big w bc) b (long_swap big w i) v)"
    by (auto simp: reordered_def put_byte_def fun_eq_iff)
qed (simp_all add: reordered_def put_byte_def)

lemma native_ops_reordered:
  assumes "0 < w"
  shows "cominix_test_bit_native big w bc b nr = cominix_test_bit (reordered big w bc) b nr"
    and "reordered big w (cominix_set_bit_native big w bc b nr) = cominix_set_bit (reordered big w bc) b nr"
    and "map_prod (reordered big w) id (cominix_test_and_set_bit_native big w bc b nr) =
      cominix_test_and_set_bit (reordered big w bc) b nr"
    and "map_prod (reordered big w) id (cominix_test_and_clear_bit_native big w bc b nr) =
      cominix_test_and_clear_bit (reordered big w bc) b nr"
  by (simp_all add: cominix_test_bit_native_def cominix_set_bit_native_def cominix_test_and_set_bit_native_def
      cominix_test_and_clear_bit_native_def cominix_test_bit_def cominix_set_bit_def cominix_clear_bit_def
      cominix_test_and_set_bit_def cominix_test_and_clear_bit_def native_byte_swap
      reordered_put_byte [OF assms] long_swap_swap [OF assms])

lemma find_zero_from_takeWhile:
  "find_zero_from bc b 0 n = length (takeWhile (\<lambda>k. cominix_test_bit bc b k) [0..<n])" (is "_ = ?k")
proof (rule find_zero_from_eq)
  show k: "?k \<le> n" using length_takeWhile_le [of "\<lambda>k. cominix_test_bit bc b k" "[0..<n]"] by simp
  show "cominix_test_bit bc b i" if "i < ?k" for i
    using takeWhile_nth [OF that] nth_mem [OF that] k that by (auto dest: set_takeWhileD)
  show "\<not> cominix_test_bit bc b ?k" if "?k < n"
    using nth_length_takeWhile [of "\<lambda>k. cominix_test_bit bc b k" "[0..<n]"] that by simp
qed simp

lemma native_find_reordered:
  assumes "0 < w"
  shows "cominix_find_first_zero_bit_native big w bc b sz = cominix_find_first_zero_bit (reordered big w bc) b sz"
  by (simp add: cominix_find_first_zero_bit_native_def cominix_find_first_zero_bit_def find_zero_from_takeWhile
      native_ops_reordered(1) [OF assms])

end
