(* ===== verification/AllocProperties.thy ===== *)
theory AllocProperties
  imports SampleVolume BitmapBE
begin

text \<open>
  The properties of block allocation and of the chunk entry list, with instances on the sample
  volume.
\<close>

section \<open>The byte order of a map\<close>

text \<open>C25: the bit operations of every configuration are the little-endian ones on the map with its bytes in
  another order: for 16-bit big-endian maps with the two bytes of every number exchanged, for native maps
  with the bytes of every long reversed on a big-endian machine and in place on a little-endian one. That
  holds for testing, setting, setting and clearing with the old value, and the search for the first clear
  bit, with 16-bit numbers on sizes that are a multiple of 16 and within a block.\<close>

theorem map_byte_orders:
  "cominix_test_bit_be bc b nr = cominix_test_bit (swapped bc) b nr \<and>
   swapped (cominix_set_bit_be bc b nr) = cominix_set_bit (swapped bc) b nr \<and>
   map_prod swapped id (cominix_test_and_set_bit_be bc b nr) = cominix_test_and_set_bit (swapped bc) b nr \<and>
   map_prod swapped id (cominix_test_and_clear_bit_be bc b nr) = cominix_test_and_clear_bit (swapped bc) b nr \<and>
   (16 dvd sz \<and> sz \<le> 8 * s_blocksize sb \<and> sz < 2 ^ 32 \<longrightarrow>
     cominix_find_first_zero_bit_be sb bc b sz = Inr (cominix_find_first_zero_bit (swapped bc) b sz)) \<and>
   (0 < w \<longrightarrow> (let swap = reordered big w in
     cominix_test_bit_native big w bc b nr = cominix_test_bit (swap bc) b nr \<and>
     swap (cominix_set_bit_native big w bc b nr) = cominix_set_bit (swap bc) b nr \<and>
     map_prod swap id (cominix_test_and_set_bit_native big w bc b nr) = cominix_test_and_set_bit (swap bc) b nr \<and>
     map_prod swap id (cominix_test_and_clear_bit_native big w bc b nr) = cominix_test_and_clear_bit (swap bc) b nr \<and>
     cominix_find_first_zero_bit_native big w bc b sz = cominix_find_first_zero_bit (swap bc) b sz))"
  using update_bit_swapped [of bc b nr] find_first_zero_swapped [of sz sb bc b] test_bit_swapped [of bc b nr]
    native_ops_reordered [of w big bc b nr] native_find_reordered [of w big bc b sz]
  by (simp add: prod_eq_iff)

theorem map_byte_orders_witness:
  "cominix_find_first_zero_bit_be sample_sb (swapped sample_bufs) 3 4096 = Inr 3 \<and>
   cominix_find_first_zero_bit_be sample_sb (cominix_set_bit_be (swapped sample_bufs) 3 3) 3 4096 = Inr 4 \<and>
   cominix_find_first_zero_bit_native True 8 (reordered True 8 sample_bufs) 3 4096 = 3"
proof -
  have s: "swapped (swapped bc) = bc" for bc by (simp add: swapped_def)
  have w: "reordered True 8 (reordered True 8 bc) = bc" for bc by (simp add: reordered_def long_swap_swap)
  have busy: "cominix_test_bit sample_bufs 3 k \<longleftrightarrow> k < 3" if "k < 4096" for k
    using sample_zone_busy [OF that] that by (simp add: zone_busy_def bits_per_zone_def)
  have "cominix_find_first_zero_bit sample_bufs 3 4096 = 3"
    using busy unfolding cominix_find_first_zero_bit_def by (intro find_zero_from_eq) auto
  moreover have "cominix_find_first_zero_bit (cominix_set_bit sample_bufs 3 3) 3 4096 = 4"
    using busy unfolding cominix_find_first_zero_bit_def by (intro find_zero_from_eq) auto
  ultimately show ?thesis
    using map_byte_orders [of "swapped sample_bufs" 3 3 4096 sample_sb 8 True]
      map_byte_orders [of "cominix_set_bit_be (swapped sample_bufs) 3 3" 3 3 4096 sample_sb 8 True]
      map_byte_orders [of "reordered True 8 sample_bufs" 3 3 4096 sample_sb 8 True] s w
    by (simp add: Let_def)
qed

section \<open>The zone map\<close>

text \<open>C23: an allocation returns 0 exactly when every data block is busy; otherwise the lowest free
  data block, which becomes busy while the state of every other block stays. No block outside
  the maps changes its bytes and no changed buffer is left clean.\<close>

theorem new_block_correct:
  assumes wf: "zmap_wf s" and r: "cominix_new_block_sb s = (s', b)"
  shows "zmap_wf s' \<and> (b = 0 \<longleftrightarrow> (\<forall>c. data_block s c \<longrightarrow> block_busy s c)) \<and>
    (b \<noteq> 0 \<longrightarrow> data_block s b \<and> \<not> block_busy s b \<and> (\<forall>c. data_block s c \<longrightarrow> c < b \<longrightarrow> block_busy s c)) \<and>
    (\<forall>c. data_block s c \<longrightarrow> (block_busy s' c \<longleftrightarrow> c = b \<or> block_busy s c)) \<and>
    (\<forall>c. c \<notin> set (s_zmap (fs_info s)) \<longrightarrow> bdata (fs_bufs s') c = bdata (fs_bufs s) c) \<and>
    (coherent (fs_bufs s) \<longrightarrow> coherent (fs_bufs s'))"
proof -
  have first: "b \<noteq> 0 \<longrightarrow> (\<forall>c. data_block s c \<longrightarrow> c < b \<longrightarrow> block_busy s c)"
    using r by (cases rule: new_block_outcome [OF wf]) auto
  show ?thesis using new_block_laws [OF wf r] first by blast
qed

lemma sample_new_block: "cominix_new_block_sb sample_fs = (zmap_set sample_fs 3, 8)"
proof (cases rule: new_block_outcome [OF sample_zmap_wf])
  case 1
  from 1(1) [of 8] show ?thesis by (simp add: sample_data_block sample_block_busy)
next
  case (2 z)
  from 2(1) [of 8] show ?thesis by (simp add: sample_data_block sample_block_busy)
next
  case (3 b)
  have "b = 8"
    using 3(1,2) 3(3) [of 8] by (auto simp: sample_data_block sample_block_busy not_less le_less)
  with 3(4) show ?thesis by (simp add: block_zone_def)
qed

theorem new_block_correct_witness:
  "block_busy (zmap_set sample_fs 3) 8 \<and> \<not> block_busy sample_fs 8 \<and> \<not> block_busy (zmap_set sample_fs 3) 9"
  using new_block_correct [OF sample_zmap_wf sample_new_block]
  by (auto simp: sample_data_block sample_block_busy)

text \<open>Releasing a block makes that block free and no other, and keeps every block outside the
  maps; a number outside the data zone changes nothing.\<close>

theorem free_block_correct:
  assumes "zmap_wf s"
  shows "zmap_wf (cominix_free_block s b) \<and>
    (\<forall>c. data_block s c \<longrightarrow> (block_busy (cominix_free_block s b) c \<longleftrightarrow> c \<noteq> b \<and> block_busy s c)) \<and>
    (\<forall>c. c \<notin> set (s_zmap (fs_info s)) \<longrightarrow> bdata (fs_bufs (cominix_free_block s b)) c = bdata (fs_bufs s) c) \<and>
    (\<not> data_block s b \<longrightarrow> cominix_free_block s b = s)"
  using free_block_laws [OF assms] free_block_eq [OF assms] by simp

theorem free_block_correct_witness: "\<not> block_busy (cominix_free_block sample_fs 7) 7"
  using free_block_correct [OF sample_zmap_wf, of 7] by (simp add: sample_data_block)

text \<open>\<open>n\<close> allocations in a row all succeed while \<open>n\<close> blocks are free, and return \<open>n\<close> different
  blocks that were free.\<close>

theorem allocations_distinct:
  assumes "zmap_wf s" and "zones.alloc_n n s = (s', bs)" and "n \<le> card (zones.free_set s)"
  shows "length bs = n \<and> distinct bs \<and> 0 \<notin> set bs \<and> set bs \<subseteq> zones.free_set s \<and>
    zones.free_set s' = zones.free_set s - set bs"
proof -
  have z: "0 \<notin> set bs" by (rule zones.alloc_n_succeeds [OF assms])
  then have "filter (\<lambda>b. b \<noteq> 0) bs = bs" by (intro filter_True ballI) (metis not_gr0)
  with zones.alloc_n_spec [OF assms(1,2)] z show ?thesis by (auto simp: subset_iff)
qed

lemma sample_free_set: "zones.free_set sample_fs = {8..<64}"
  by (auto simp: zones.free_set_def sample_data_block sample_block_busy)

theorem allocations_distinct_witness:
  "\<exists>s' bs. zones.alloc_n 56 sample_fs = (s', bs) \<and> distinct bs \<and> set bs \<subseteq> {8..<64} \<and> length bs = 56"
proof -
  obtain s' bs where r: "zones.alloc_n 56 sample_fs = (s', bs)" by fastforce
  from allocations_distinct [OF sample_zmap_wf r] r show ?thesis by (simp add: sample_free_set)
qed

text \<open>Releasing the block just allocated restores the set of free blocks.\<close>

theorem alloc_free_inverse:
  assumes "zmap_wf s" and "cominix_new_block_sb s = (s', b)" and "b \<noteq> 0"
  shows "zones.free_set (cominix_free_block s' b) = zones.free_set s"
  by (rule zones.free_after_alloc [OF assms])

theorem alloc_free_inverse_witness:
  "zones.free_set (cominix_free_block (zmap_set sample_fs 3) 8) = {8..<64}"
  using alloc_free_inverse [OF sample_zmap_wf sample_new_block] by (simp add: sample_free_set)

text \<open>C40: a failing allocation still changes the map when the map has clear bits beyond the last
  zone of the volume: such a bit is set and stays set.\<close>

theorem failed_allocation_leaks:
  assumes wf: "zmap_wf s" and full: "\<forall>c. data_block s c \<longrightarrow> block_busy s c"
    and z: "z < s_zmap_blocks (fs_info s) * bits_per_zone (fs_sb s)"
      "\<not> zone_busy (fs_sb s) (fs_info s) (fs_bufs s) z"
  shows "\<exists>s' y. cominix_new_block_sb s = (s', 0) \<and> \<not> zone_busy (fs_sb s) (fs_info s) (fs_bufs s) y \<and>
    zone_busy (fs_sb s) (fs_info s) (fs_bufs s') y"
proof -
  obtain y where y: "y < s_zmap_blocks (fs_info s) * bits_per_zone (fs_sb s)"
      "\<not> zone_busy (fs_sb s) (fs_info s) (fs_bufs s) y"
      "fst (new_block_from (fs_sb s) (fs_info s) (fs_bufs s) 0) = fs_bufs (zmap_set s y)"
    using new_block_from_spec [of 0 "fs_info s" "fs_sb s" "fs_bufs s"] z
    by (auto simp: zmap_set_def)
  obtain s' b where r: "cominix_new_block_sb s = (s', b)" by fastforce
  then have "fs_bufs s' = fs_bufs (zmap_set s y)" using y(3) by (auto simp: cominix_new_block_sb_def split: prod.splits)
  moreover have "b = 0" using new_block_laws(3) [OF wf r] full by blast
  moreover have "zone_busy (fs_sb s) (fs_info s) (fs_bufs (zmap_set s y)) y"
    using zone_busy_set(1) [OF zmap_wfD(1,2) [OF wf] y(1) y(1)] by (simp add: zmap_set_def)
  ultimately show ?thesis using r y(2) by auto
qed

definition sample_full :: fs where
  "sample_full = sample_fs\<lparr>fs_info := sample_info\<lparr>s_nzones := 8\<rparr>\<rparr>"

theorem failed_allocation_leaks_witness:
  "\<exists>s' y. cominix_new_block_sb sample_full = (s', 0) \<and> zone_busy sample_sb sample_info (fs_bufs s') y \<and> 3 \<le> y"
proof -
  have z: "zone_busy sb (sample_info\<lparr>s_nzones := 8\<rparr>) bc y = zone_busy sb sample_info bc y" for sb bc y
    by (simp add: zone_busy_def)
  have "zmap_wf sample_full"
    by (simp add: sample_full_def zmap_wf_def Let_def bits_per_zone_def sample_bits)
  moreover have "\<forall>c. data_block sample_full c \<longrightarrow> block_busy sample_full c"
    by (auto simp: sample_full_def data_block_def block_busy_def block_zone_def z sample_zone_busy)
  moreover have "\<not> zone_busy (fs_sb sample_full) (fs_info sample_full) (fs_bufs sample_full) 3"
    by (simp add: sample_full_def z sample_zone_busy)
  ultimately obtain s' y where *: "cominix_new_block_sb sample_full = (s', 0)"
      "\<not> zone_busy sample_sb sample_info sample_bufs y" "zone_busy sample_sb sample_info (fs_bufs s') y"
    using failed_allocation_leaks [of sample_full 3] by (auto simp: sample_full_def z bits_per_zone_def)
  have "3 \<le> y"
    using *(2) sample_zone_busy [of y] by (cases "y < 4096") auto
  with * show ?thesis by blast
qed

text \<open>\<open>count_free\<close> is the number of clear bits in the map blocks that cover the requested bits,
  as a 32-bit number; the unused tail of the last block is counted too.\<close>

theorem count_free_counts:
  assumes "even blocksize" and "cominix_blocks_needed numbits blocksize \<le> length bmap"
  shows "count_free bc bmap blocksize numbits =
    Inr ((\<Sum>i<cominix_blocks_needed numbits blocksize.
       card {k. k < 8 * blocksize \<and> \<not> cominix_test_bit bc (bmap ! i) k}) mod 2 ^ 32)"
  using count_free_exact [OF assms] by (simp add: u32_def)

theorem count_free_counts_witness: "count_free sample_bufs [3] 512 59 = Inr 4093"
proof -
  have "{k. k < 4096 \<and> \<not> k < 3} = {3..<4096::nat}" by auto
  with count_free_counts [of 512 59 "[3]" sample_bufs] show ?thesis
    by (simp add: cominix_blocks_needed_def div_round_up32_def u32_def sample_bits)
qed

text \<open>\<open>cominix_blocks_needed\<close> is the least number of blocks whose bits cover the request, as long as
  the 32-bit sum does not wrap.\<close>

theorem blocks_needed_exact:
  assumes "0 < blocksize" and "bits + blocksize * 8 < 2 ^ 32"
  shows "bits \<le> n * (blocksize * 8) \<longleftrightarrow> cominix_blocks_needed bits blocksize \<le> n"
proof
  show "cominix_blocks_needed bits blocksize \<le> n" if "bits \<le> n * (blocksize * 8)"
    using blocks_needed_least [OF assms that] .
  assume "cominix_blocks_needed bits blocksize \<le> n"
  then have "cominix_blocks_needed bits blocksize * (blocksize * 8) \<le> n * (blocksize * 8)"
    by (rule mult_le_mono1)
  with blocks_needed_covers [OF assms] show "bits \<le> n * (blocksize * 8)" by linarith
qed

theorem blocks_needed_exact_witness: "cominix_blocks_needed 8193 1024 \<le> 2 \<and> \<not> cominix_blocks_needed 8193 1024 \<le> 1"
  using blocks_needed_exact [of 1024 8193 2] blocks_needed_exact [of 1024 8193 1] by simp

section \<open>The list of chunk entries\<close>

text \<open>C22: appending to a list with room (a block with a free slot, or a free data block to link)
  returns the list extended by exactly the entry, at most one block longer; the new block was
  free, and nothing else in the volume changes: the chunk heap, the other busy blocks and the
  super block keep their bytes. Every changed block is marked dirty, the one with the entry
  and the one that links it included.\<close>

theorem append_correct:
  assumes "ll_inv s bs es" and "entry_ok e" and "ll_room s (length es)"
  shows "\<exists>s' bs'. ll_append s (last bs) (length es) e = Inr (s', last (bs @ bs'), length es + 1) \<and>
    ll_inv s' (bs @ bs') (es @ [e]) \<and> ll_frame bs s s' \<and>
    zones.free_set s' = zones.free_set s - set bs' \<and> set bs' \<subseteq> zones.free_set s \<and>
    length bs' = (if es \<noteq> [] \<and> length es mod entries_per_block (fs_sb s) = 0 then 1 else 0) \<and>
    set (last bs # bs') \<subseteq> bdirty (fs_bufs s')"
  using assms by (rule ll_append_law)

theorem append_correct_witness:
  "\<exists>s'. ll_append sample_fs 7 0 \<lparr>ce_location = 33280, ce_size = 4096\<rparr> = Inr (s', 7, 1) \<and>
     ll_inv s' [7] [\<lparr>ce_location = 33280, ce_size = 4096\<rparr>]"
  using append_correct [OF sample_ll_inv _ sample_ll_room, of "\<lparr>ce_location = 33280, ce_size = 4096\<rparr>"]
  by (auto simp: entry_ok_def)

text \<open>A full list on a volume without free data blocks cannot grow: the append is a \<open>BUG\<close>.\<close>

theorem append_without_space:
  assumes "ll_inv s bs es" and "\<not> ll_room s (length es)"
  shows "ll_append s (last bs) (length es) e = Inl Bug"
  using assms by (rule ll_append_no_space)

text \<open>The sample volume cut to its two busy zones, its list block filled with 31 entries of size 1.\<close>

definition sample_stuck :: fs where
  "sample_stuck = sample_fs\<lparr>fs_info := sample_info\<lparr>s_nzones := 8\<rparr>, fs_bufs := sample_bufs\<lparr>bdata :=
     (\<lambda>b i. if b = 7 then (if i < 496 \<and> i mod 8 = 0 then 1 else 0) else sample_bytes b i)\<rparr>\<rparr>"

lemma sample_stuck_num: "a < 62 \<Longrightarrow> num_at (fs_bufs sample_stuck) 7 (a * 8) 8 = 1"
proof -
  assume a: "a < 62"
  have "bytes_at (fs_bufs sample_stuck) 7 (a * 8) 8 = 1 # replicate 7 0"
  proof (rule nth_equalityI)
    fix i assume "i < length (bytes_at (fs_bufs sample_stuck) 7 (a * 8) 8)"
    then have i: "i < 8" by simp
    then have "(a * 8 + i) mod 8 = i" "a * 8 + i < 496" using a by simp_all
    then show "bytes_at (fs_bufs sample_stuck) 7 (a * 8) 8 ! i = (1 # replicate 7 0) ! i"
      using i by (cases i) (simp_all add: bytes_at_def sample_stuck_def)
  qed simp
  then show ?thesis by (simp add: num_at_def)
qed

lemma sample_stuck_bit: "cominix_test_bit (fs_bufs sample_stuck) 3 k \<longleftrightarrow> k < 3"
  using sample_bits [of k] by (simp add: cominix_test_bit_def sample_stuck_def)

lemma sample_stuck_busy: "b < 8 \<Longrightarrow> 6 \<le> b \<Longrightarrow> block_busy sample_stuck b"
proof -
  assume b: "b < 8" "6 \<le> b"
  then have "block_busy sample_stuck b = cominix_test_bit (fs_bufs sample_stuck) 3 (Suc (b - 6))"
    by (simp add: block_busy_def block_zone_def zone_busy_def bits_per_zone_def) (simp add: sample_stuck_def)
  with b show ?thesis by (simp only: sample_stuck_bit)
qed

lemma sample_stuck_list: "ll_inv sample_stuck [7] (replicate 31 \<lparr>ce_location = 1, ce_size = 1\<rparr>)"
proof -
  have e: "entry_at (fs_bufs sample_stuck) 7 i = \<lparr>ce_location = 1, ce_size = 1\<rparr>" if "i < 31" for i
    using that sample_stuck_num [of "2 * i"] sample_stuck_num [of "2 * i + 1"]
    by (simp add: entry_at_def sizeof_chunk_entry_def algebra_simps)
  have n: "next_at sample_sb (fs_bufs sample_stuck) 7 = 0"
    unfolding next_at_def by (rule num_at_zeros) (simp add: ptr_next_def sample_stuck_def)
  note bit = sample_stuck_bit
  have v: "volume_ok sample_stuck"
    using bit by (simp add: volume_ok_def zmap_wf_def Let_def bits_per_zone_def) (simp add: sample_stuck_def)
  have "block_busy sample_stuck 7" by (rule sample_stuck_busy) simp_all
  then show ?thesis
    using e n v by (simp add: ll_inv_def block_entries_def entries_per_block_def sizeof_chunk_entry_def
        entry_ok_def data_block_def) (simp add: sample_stuck_def)
qed

theorem append_without_space_witness: "ll_append sample_stuck 7 31 \<lparr>ce_location = 5, ce_size = 5\<rparr> = Inl Bug"
proof -
  have "block_busy sample_stuck b" if "data_block sample_stuck b" for b
    using that by (intro sample_stuck_busy) (simp_all add: sample_stuck_def data_block_def)
  then have "\<not> ll_room sample_stuck 31"
    by (auto simp: ll_room_def entries_per_block_def sizeof_chunk_entry_def) (simp add: sample_stuck_def)
  with append_without_space [OF sample_stuck_list, of "\<lparr>ce_location = 5, ce_size = 5\<rparr>"] show ?thesis by simp
qed

text \<open>C26: the search finds the entry covering a byte position: with \<open>k\<close> the index for which the sizes
  of the first \<open>k\<close> entries sum to at most \<open>pos\<close> and those of the first \<open>k + 1\<close> exceed it, it
  returns entry \<open>k\<close> and the position where it starts; past the end it returns the zero entry.\<close>

theorem search_correct:
  assumes "ll_inv s bs es" and "0 \<le> pos" and "total_size es < 2 ^ 63"
  shows "(\<forall>k < length es. total_size (take k es) \<le> pos \<longrightarrow> pos < total_size (take (Suc k) es) \<longrightarrow>
      ll_search_left (fs_sb s) (fs_bufs s) (hd bs) pos 0 = Some (Inr (es ! k, total_size (take k es)))) \<and>
    (total_size es \<le> pos \<longrightarrow> ll_search_left (fs_sb s) (fs_bufs s) (hd bs) pos 0 =
      Some (Inr (\<lparr>ce_location = 0, ce_size = 0\<rparr>, total_size es)))"
proof -
  have s: "ll_search_left (fs_sb s) (fs_bufs s) (hd bs) pos 0 = Some (Inr (found_or_zero (locate es pos 0)))"
    using ll_search_spec [of "fs_sb s" "fs_bufs s" bs es 0 pos] assms by (simp add: ll_inv_def volume_ok_def)
  show ?thesis
    unfolding s using locate_at [of _ es pos 0] locate_past [of 0 es pos] by (simp add: found_or_zero_def)
qed

theorem search_correct_witness:
  "\<exists>s' l. ll_append sample_fs 7 0 \<lparr>ce_location = 33280, ce_size = 4096\<rparr> = Inr (s', l, 1) \<and>
     ll_search_left (fs_sb s') (fs_bufs s') 7 100 0 = Some (Inr (\<lparr>ce_location = 33280, ce_size = 4096\<rparr>, 0)) \<and>
     ll_search_left (fs_sb s') (fs_bufs s') 7 4096 0 = Some (Inr (\<lparr>ce_location = 0, ce_size = 0\<rparr>, 4096))"
proof -
  let ?e = "\<lparr>ce_location = 33280, ce_size = 4096\<rparr>"
  obtain s' where a: "ll_append sample_fs 7 0 ?e = Inr (s', 7, 1)" "ll_inv s' [7] [?e]"
    using ll_append_law [OF sample_ll_inv _ sample_ll_room, of ?e] by (auto simp: entry_ok_def)
  from search_correct [OF a(2), of 100] search_correct [OF a(2), of 4096] a(1)
  show ?thesis by auto
qed

end
