(* ===== verification/Itree.thy ===== *)
theory Itree
  imports BitmapSpec
begin

text \<open>
  itree_v2.c with itree_common.c: the tree of direct, indirect, double and triple indirect blocks
  that maps the blocks of a file. A \<open>block_t *\<close> is a \<open>ptr\<close>: a zone word of the inode, a word of
  a buffer, or a local variable. The pointers lock is left out: an operation runs to its end, so
  the \<open>-EAGAIN\<close> paths are modelled but can be shown never to be taken.
\<close>

section \<open>Pointers\<close>

datatype ptr = InInode nat | InBlock nat nat | Local nat

fun rd_ptr :: "fs \<Rightarrow> inode \<Rightarrow> ptr \<Rightarrow> nat" where
  "rd_ptr s ino (InInode k) = i_data ino k"
| "rd_ptr s ino (InBlock b k) = num_at (fs_bufs s) b (4 * k) 4"
| "rd_ptr s ino (Local v) = v"

text \<open>A local variable is dead after the write.\<close>

fun wr_ptr :: "ptr \<Rightarrow> nat \<Rightarrow> fs \<Rightarrow> inode \<Rightarrow> fs \<times> inode" where
  "wr_ptr (InInode k) v s ino = (s, set_zone ino k v)"
| "wr_ptr (InBlock b k) v s ino = (s\<lparr>fs_bufs := put_num (fs_bufs s) b (4 * k) 4 v\<rparr>, ino)"
| "wr_ptr (Local _) v s ino = (s, ino)"

section \<open>itree\_v2.c\<close>

definition DIRECT :: nat where "DIRECT = 7"
definition DEPTH :: nat where "DEPTH = 4"

definition INDIRCOUNT :: "super_block \<Rightarrow> nat" where
  "INDIRCOUNT sb = 2 ^ (s_blocksize_bits sb - 2)"

text \<open>The list of offsets; its length is the depth, the empty list is depth 0.\<close>

definition block_to_path :: "super_block \<Rightarrow> int \<Rightarrow> nat list" where
  "block_to_path sb block =
     (if block < 0 then []
      else if s_maxbytes sb \<le> u64 (nat block * s_blocksize sb) then []
      else
        let b = nat block; n = INDIRCOUNT sb in
        if b < DIRECT then [b]
        else if b - DIRECT < n then [DIRECT, b - DIRECT]
        else if b - DIRECT - n < n * n then
          [DIRECT + 1, (b - DIRECT - n) div n, (b - DIRECT - n) mod n]
        else
          let c = b - DIRECT - n - n * n in
          [DIRECT + 2, (c div n) div n, (c div n) mod n, c mod n])"

section \<open>Reading a branch\<close>

text \<open>\<open>Indirect\<close>: the place of a pointer, its value when it was read, the buffer it lies in.\<close>

record indirect =
  ind_p :: ptr
  ind_key :: nat
  ind_bh :: "nat option"

definition add_chain :: "fs \<Rightarrow> inode \<Rightarrow> nat option \<Rightarrow> ptr \<Rightarrow> indirect" where
  "add_chain s ino bh v = \<lparr>ind_p = v, ind_key = rd_ptr s ino v, ind_bh = bh\<rparr>"

definition verify_chain :: "fs \<Rightarrow> inode \<Rightarrow> indirect list \<Rightarrow> bool" where
  "verify_chain s ino chain \<longleftrightarrow> list_all (\<lambda>i. ind_key i = rd_ptr s ino (ind_p i)) chain"

text \<open>\<open>block_end\<close> bounds the array of pointers in a buffer: its words from index \<open>k\<close> on.\<close>

definition block_words :: "super_block \<Rightarrow> nat \<Rightarrow> nat \<Rightarrow> ptr list" where
  "block_words sb b k = map (InBlock b) [k..<s_blocksize sb div 4]"

text \<open>
  The chain read so far, whether it is complete (the code returns NULL then, and a pointer to
  the last link read otherwise) and \<open>*err\<close>.
\<close>

fun get_branch_from ::
    "fs \<Rightarrow> inode \<Rightarrow> indirect list \<Rightarrow> nat list \<Rightarrow> indirect list \<times> bool \<times> errno option" where
  "get_branch_from s ino chain [] = (chain, ind_key (last chain) \<noteq> 0, None)"
| "get_branch_from s ino chain (off # offs) =
     (if ind_key (last chain) = 0 then (chain, False, None)
      else (case sb_bread (fs_bufs s) (ind_key (last chain)) of
          None \<Rightarrow> (chain, False, Some EIO)
        | Some bh \<Rightarrow>
            if \<not> verify_chain s ino chain then (chain, False, Some EAGAIN)
            else get_branch_from s ino (chain @ [add_chain s ino (Some bh) (InBlock bh off)]) offs))"

definition get_branch :: "fs \<Rightarrow> inode \<Rightarrow> nat list \<Rightarrow> indirect list \<times> bool \<times> errno option" where
  "get_branch s ino offsets =
     get_branch_from s ino [add_chain s ino None (InInode (hd offsets))] (tl offsets)"

section \<open>Allocating a branch\<close>

text \<open>
  The loop of \<open>alloc_branch\<close>: \<open>offs\<close> are the offsets still to do, \<open>branch\<close> the links made so
  far. The answer tells whether all were made; the error otherwise. \<open>getblk\<close> stands for
  \<open>sb_getblk\<close>: whether it can give a buffer for a block.
\<close>

fun alloc_links ::
    "(nat \<Rightarrow> bool) \<Rightarrow> fs \<Rightarrow> nat \<Rightarrow> nat list \<Rightarrow> indirect list \<Rightarrow> fs \<times> indirect list \<times> errno option" where
  "alloc_links getblk s parent [] branch = (s, branch, None)"
| "alloc_links getblk s parent (off # offs) branch =
     (let (s1, nr) = cominix_new_block s in
      if nr = 0 then (s1, branch, Some ENOSPC)
      else if \<not> getblk parent then (cominix_free_block s1 nr, branch, Some ENOMEM)
      else
        let bc = fill_bytes (fs_bufs s1) parent 0 (s_blocksize (fs_sb s1)) 0;
            bc' = mark_buffer_dirty (put_num bc parent (4 * off) 4 nr) parent
        in alloc_links getblk (s1\<lparr>fs_bufs := bc'\<rparr>) nr offs
             (branch @ [\<lparr>ind_p = InBlock parent off, ind_key = u32 nr, ind_bh = Some parent\<rparr>]))"

definition forget_links :: "fs \<Rightarrow> indirect list \<Rightarrow> fs" where
  "forget_links s links =
     (let s' = foldl (\<lambda>s i. case ind_bh i of None \<Rightarrow> s
                | Some bh \<Rightarrow> s\<lparr>fs_bufs := bforget (fs_bufs s) bh\<rparr>) s (tl links)
      in foldl (\<lambda>s i. cominix_free_block s (ind_key i)) s' links)"

text \<open>\<open>where\<close> is the link that is to hold the new branch; \<open>offs\<close> the offsets below it.\<close>

definition alloc_branch ::
    "(nat \<Rightarrow> bool) \<Rightarrow> fs \<Rightarrow> nat list \<Rightarrow> indirect \<Rightarrow> fs \<times> indirect list \<times> errno option" where
  "alloc_branch getblk s offs where' =
     (let (s1, parent) = cominix_new_block s; link = where'\<lparr>ind_key := u32 parent\<rparr> in
      if parent = 0 then (s1, [link], Some ENOSPC)
      else
        let (s2, branch, err) = alloc_links getblk s1 parent offs [link] in
        (case err of None \<Rightarrow> (s2, branch, None)
         | Some e \<Rightarrow> (forget_links s2 branch, branch, Some e)))"

definition splice_branch ::
    "nat \<Rightarrow> fs \<Rightarrow> inode \<Rightarrow> indirect list \<Rightarrow> indirect list \<Rightarrow> fs \<times> inode \<times> errno option" where
  "splice_branch now s ino chain branch =
     (let where' = hd branch in
      if \<not> verify_chain s ino chain \<or> rd_ptr s ino (ind_p where') \<noteq> 0 then
        (forget_links s branch, ino, Some EAGAIN)
      else
        let (s1, ino1) = wr_ptr (ind_p where') (ind_key where') s ino;
            ino2 = mark_inode_dirty (ino1\<lparr>i_ctime := now\<rparr>) in
        (case ind_bh where' of
           None \<Rightarrow> (s1, ino2, None)
         | Some bh \<Rightarrow> (s1\<lparr>fs_bufs := mark_buffer_dirty (fs_bufs s1) bh\<rparr>, ino2, None)))"

section \<open>Mapping a block\<close>

text \<open>What \<open>get_block\<close> leaves in the buffer head: the block it is mapped to, and the new flag.\<close>

record block_map =
  bm_mapped :: "nat option"
  bm_new :: bool

text \<open>\<open>None\<close> is a reread loop that does not end.\<close>

partial_function (option) get_block_reread ::
    "(nat \<Rightarrow> bool) \<Rightarrow> nat \<Rightarrow> fs \<Rightarrow> inode \<Rightarrow> nat list \<Rightarrow> bool \<Rightarrow>
     (fs \<times> inode \<times> errno option \<times> block_map) res option" where
  "get_block_reread getblk now s ino offsets create =
     (if i_data ino 0 = 1 \<or> i_data ino 1 = 1 then Some (Inl Bug)
      else (case get_branch s ino offsets of (chain, complete, err) \<Rightarrow>
        if complete then
          Some (Inr (s, ino, err, \<lparr>bm_mapped = Some (ind_key (last chain)), bm_new = False\<rparr>))
        else if \<not> create \<or> err = Some EIO then
          Some (Inr (s, ino, err, \<lparr>bm_mapped = None, bm_new = False\<rparr>))
        else if err = Some EAGAIN then get_block_reread getblk now s ino offsets create
        else (case alloc_branch getblk s (drop (length chain) offsets) (last chain) of
            (s1, branch, Some e) \<Rightarrow>
              Some (Inr (s1, ino, Some e, \<lparr>bm_mapped = None, bm_new = False\<rparr>))
          | (s1, branch, None) \<Rightarrow>
              (case splice_branch now s1 ino (butlast chain) branch of
                 (s2, ino2, None) \<Rightarrow>
                   Some (Inr (s2, ino2, None, \<lparr>bm_mapped = Some (ind_key (last branch)), bm_new = True\<rparr>))
               | (s2, ino2, Some _) \<Rightarrow> get_block_reread getblk now s2 ino2 offsets create))))"

definition get_block ::
    "(nat \<Rightarrow> bool) \<Rightarrow> nat \<Rightarrow> fs \<Rightarrow> inode \<Rightarrow> nat \<Rightarrow> bool \<Rightarrow>
     (fs \<times> inode \<times> errno option \<times> block_map) res option" where
  "get_block getblk now s ino block create =
     (let offsets = block_to_path (fs_sb s) (int block) in
      if offsets = [] then Some (Inr (s, ino, Some EIO, \<lparr>bm_mapped = None, bm_new = False\<rparr>))
      else get_block_reread getblk now s ino offsets create)"

definition V2_cominix_get_block ::
    "(nat \<Rightarrow> bool) \<Rightarrow> nat \<Rightarrow> fs \<Rightarrow> inode \<Rightarrow> nat \<Rightarrow> bool \<Rightarrow>
     (fs \<times> inode \<times> errno option \<times> block_map) res option" where
  "V2_cominix_get_block = get_block"

section \<open>Truncation\<close>

definition all_zeroes :: "fs \<Rightarrow> inode \<Rightarrow> ptr list \<Rightarrow> bool" where
  "all_zeroes s ino ps \<longleftrightarrow> list_all (\<lambda>p. rd_ptr s ino p = 0) ps"

text \<open>The words of a pointer's buffer before it.\<close>

fun words_before :: "ptr \<Rightarrow> ptr list" where
  "words_before (InBlock b k) = map (InBlock b) [0..<k]"
| "words_before _ = []"

fun words_after :: "super_block \<Rightarrow> ptr \<Rightarrow> ptr list" where
  "words_after sb (InBlock b k) = block_words sb b (Suc k)"
| "words_after sb _ = []"

fun ptr_dec :: "ptr \<Rightarrow> ptr" where
  "ptr_dec (InBlock b k) = InBlock b (k - 1)"
| "ptr_dec p = p"

text \<open>The walk \<open>for (p = partial; p > chain && all_zeroes(\<dots>); p--)\<close>: how many links it keeps.\<close>

fun shared_top :: "fs \<Rightarrow> inode \<Rightarrow> indirect list \<Rightarrow> nat \<Rightarrow> nat" where
  "shared_top s ino chain 0 = 0"
| "shared_top s ino chain (Suc i) =
     (if all_zeroes s ino (words_before (ind_p (chain ! Suc i))) then shared_top s ino chain i else Suc i)"

text \<open>
  \<open>find_shared\<close> returns the chain up to \<open>partial\<close> and \<open>*top\<close>. The search for \<open>k\<close> drops trailing
  zero offsets.
\<close>

definition shared_depth :: "nat list \<Rightarrow> nat list" where
  "shared_depth offsets = hd offsets # rev (dropWhile (\<lambda>x. x = 0) (rev (tl offsets)))"

definition find_shared :: "fs \<Rightarrow> inode \<Rightarrow> nat list \<Rightarrow> fs \<times> inode \<times> indirect list \<times> nat" where
  "find_shared s ino offsets =
     (let offs = shared_depth offsets; k = length offs;
          (chain, complete, err) = get_branch s ino offs; partial = last chain in
      if ind_key partial = 0 \<and> rd_ptr s ino (ind_p partial) \<noteq> 0 then (s, ino, chain, 0)
      else
        let i = shared_top s ino chain (length chain - 1) in
        if i = k - 1 \<and> 0 < i then
          (s, ino, chain[i := (chain ! i)\<lparr>ind_p := ptr_dec (ind_p (chain ! i))\<rparr>], 0)
        else
          let top = rd_ptr s ino (ind_p (chain ! i)); (s', ino') = wr_ptr (ind_p (chain ! i)) 0 s ino
          in (s', ino', take (Suc i) chain, top))"

fun free_data :: "ptr list \<Rightarrow> fs \<Rightarrow> inode \<Rightarrow> fs \<times> inode" where
  "free_data [] s ino = (s, ino)"
| "free_data (p # ps) s ino =
     (let nr = rd_ptr s ino p in
      if nr = 0 then free_data ps s ino
      else let (s1, ino1) = wr_ptr p 0 s ino in free_data ps (cominix_free_block s1 nr) ino1)"

text \<open>The recursion is on the depth; at depth 0 the pointers are data blocks.\<close>

fun free_branches :: "nat \<Rightarrow> ptr list \<Rightarrow> fs \<Rightarrow> inode \<Rightarrow> fs \<times> inode" where
  "free_branches 0 ps s ino = free_data ps s ino"
| "free_branches (Suc d) [] s ino = (s, ino)"
| "free_branches (Suc d) (p # ps) s ino =
     (let nr = rd_ptr s ino p in
      if nr = 0 then free_branches (Suc d) ps s ino
      else
        let (s1, ino1) = wr_ptr p 0 s ino in
        case sb_bread (fs_bufs s1) nr of
          None \<Rightarrow> free_branches (Suc d) ps s1 ino1
        | Some bh \<Rightarrow>
            let (s2, ino2) = free_branches d (block_words (fs_sb s1) bh 0) s1 ino1;
                s3 = s2\<lparr>fs_bufs := bforget (fs_bufs s2) bh\<rparr>
            in free_branches (Suc d) ps (cominix_free_block s3 nr) (mark_inode_dirty ino2))"

text \<open>The loop over the shared branch, from the last link towards the inode; \<open>n\<close> is the depth.\<close>

fun clear_ends :: "nat \<Rightarrow> indirect list \<Rightarrow> fs \<Rightarrow> inode \<Rightarrow> fs \<times> inode" where
  "clear_ends d [] s ino = (s, ino)"
| "clear_ends d (link # links) s ino =
     (let (s1, ino1) = free_branches d (words_after (fs_sb s) (ind_p link)) s ino in
      (case ind_bh link of
         None \<Rightarrow> clear_ends (Suc d) links s1 ino1
       | Some bh \<Rightarrow> clear_ends (Suc d) links (s1\<lparr>fs_bufs := mark_buffer_dirty (fs_bufs s1) bh\<rparr>) ino1))"

text \<open>\<open>do_indirects\<close>: the remaining whole subtrees.\<close>

fun kill_indirects :: "nat list \<Rightarrow> fs \<Rightarrow> inode \<Rightarrow> fs \<times> inode" where
  "kill_indirects [] s ino = (s, ino)"
| "kill_indirects (w # ws) s ino =
     (let nr = i_data ino (DIRECT + w) in
      if nr = 0 then kill_indirects ws s ino
      else
        let (s1, ino1) = free_branches (w + 1) [Local nr] s (mark_inode_dirty (set_zone ino (DIRECT + w) 0))
        in kill_indirects ws s1 ino1)"

text \<open>\<open>page\<close> stands for \<open>block_truncate_page\<close>, a kernel function that clears the tail of the last
  page; \<open>now\<close> is the clock.\<close>

definition itree_truncate :: "(fs \<Rightarrow> inode \<Rightarrow> fs) \<Rightarrow> nat \<Rightarrow> fs \<Rightarrow> inode \<Rightarrow> fs \<times> inode" where
  "itree_truncate page now s0 ino =
     (let sb = fs_sb s0;
          iblock = (i_size ino + s_blocksize sb - 1) div 2 ^ s_blocksize_bits sb;
          s = page s0 ino; offsets = block_to_path sb (int iblock); n = length offsets;
          finish = (\<lambda>(s, ino). (s, mark_inode_dirty (ino\<lparr>i_mtime := now, i_ctime := now\<rparr>))) in
      if offsets = [] then (s, ino)
      else if n = 1 then
        let (s1, ino1) = free_data (map InInode [hd offsets..<DIRECT]) s ino
        in finish (kill_indirects [0..<DEPTH - 1] s1 ino1)
      else
        let (s1, ino1, chain, nr) = find_shared s ino offsets; d = n - length chain;
            (s2, ino2) =
              (if nr = 0 then (s1, ino1)
               else
                 let (sd, inod) =
                   (case ind_bh (last chain) of
                      None \<Rightarrow> (s1, mark_inode_dirty ino1)
                    | Some bh \<Rightarrow> (s1\<lparr>fs_bufs := mark_buffer_dirty (fs_bufs s1) bh\<rparr>, ino1))
                 in free_branches d [Local nr] sd inod);
            (s3, ino3) = clear_ends d (rev (tl chain)) s2 ino2
        in finish (kill_indirects [hd offsets + 1 - DIRECT..<DEPTH - 1] s3 ino3))"

definition V2_cominix_truncate :: "(fs \<Rightarrow> inode \<Rightarrow> fs) \<Rightarrow> nat \<Rightarrow> fs \<Rightarrow> inode \<Rightarrow> fs \<times> inode" where
  "V2_cominix_truncate = itree_truncate"

section \<open>Counting blocks\<close>

text \<open>\<open>blocks\<close>, \<open>res\<close> and \<open>direct\<close> are 32-bit; \<open>i\<close> counts the levels left.\<close>

fun nblocks_levels :: "super_block \<Rightarrow> nat \<Rightarrow> nat \<Rightarrow> nat \<Rightarrow> nat \<Rightarrow> nat" where
  "nblocks_levels sb 0 direct blocks res = res"
| "nblocks_levels sb (Suc i) direct blocks res =
     (if direct < blocks then
        let per = s_blocksize sb div 4;
            blocks' = u32 (blocks - direct + per - 1) div per
        in nblocks_levels sb i 1 blocks' (u32 (res + blocks'))
      else res)"

definition nblocks :: "nat \<Rightarrow> super_block \<Rightarrow> nat" where
  "nblocks sz sb =
     (let blocks = u32 ((sz + s_blocksize sb - 1) div 2 ^ s_blocksize_bits sb)
      in nblocks_levels sb (DEPTH - 1) DIRECT blocks blocks)"

definition V2_cominix_blocks :: "nat \<Rightarrow> super_block \<Rightarrow> nat" where
  "V2_cominix_blocks = nblocks"

end
