(* ===== verification/ItreeSpec.thy ===== *)
theory ItreeSpec
  imports Itree
begin

text \<open>
  The block tree as a map from paths to blocks. \<open>slot s ino path\<close> is the pointer stored at the end
  of a path of offsets; \<open>tree_wf\<close> says that no two paths share a block and that every block of
  the tree is a busy data block. Under it a lookup is \<open>slot\<close>, and a mapping with creation adds
  exactly one path.
\<close>

section \<open>Paths\<close>

definition block_word :: "fs \<Rightarrow> nat \<Rightarrow> nat \<Rightarrow> nat" where
  "block_word s b k = num_at (fs_bufs s) b (4 * k) 4"

fun slot_from :: "fs \<Rightarrow> nat \<Rightarrow> nat list \<Rightarrow> nat" where
  "slot_from s v [] = v"
| "slot_from s v (k # ks) = (if v = 0 then 0 else slot_from s (block_word s v k) ks)"

definition slot :: "fs \<Rightarrow> inode \<Rightarrow> nat list \<Rightarrow> nat" where
  "slot s ino path = slot_from s (i_data ino (hd path)) (tl path)"

text \<open>How many levels a zone word of the inode has below it.\<close>

definition levels :: "nat \<Rightarrow> nat" where
  "levels k = (if k < DIRECT then 0 else k - DIRECT + 1)"

definition valid_path :: "super_block \<Rightarrow> nat list \<Rightarrow> bool" where
  "valid_path sb path \<longleftrightarrow> path \<noteq> [] \<and> hd path < DIRECT + 3 \<and>
     length (tl path) \<le> levels (hd path) \<and> (\<forall>k \<in> set (tl path). k < INDIRCOUNT sb)"

definition full_path :: "super_block \<Rightarrow> nat list \<Rightarrow> bool" where
  "full_path sb path \<longleftrightarrow> valid_path sb path \<and> length (tl path) = levels (hd path)"

lemma INDIRCOUNT_words: "2 \<le> s_blocksize_bits sb \<Longrightarrow> s_blocksize sb = INDIRCOUNT sb * 4"
proof -
  assume "2 \<le> s_blocksize_bits sb"
  then obtain m where "s_blocksize_bits sb = 2 + m" using le_Suc_ex by blast
  then show ?thesis by (simp add: INDIRCOUNT_def s_blocksize_def power_add)
qed

lemma INDIRCOUNT_pos [simp]: "0 < INDIRCOUNT sb"
  by (simp add: INDIRCOUNT_def)

section \<open>From block numbers to paths\<close>

text \<open>The block number a full path stands for.\<close>

fun path_block :: "super_block \<Rightarrow> nat list \<Rightarrow> nat" where
  "path_block sb [a] = a"
| "path_block sb [_, b] = DIRECT + b"
| "path_block sb [_, b, c] = DIRECT + INDIRCOUNT sb + b * INDIRCOUNT sb + c"
| "path_block sb [_, b, c, d] = DIRECT + INDIRCOUNT sb + INDIRCOUNT sb * INDIRCOUNT sb +
     (b * INDIRCOUNT sb + c) * INDIRCOUNT sb + d"
| "path_block sb _ = 0"

text \<open>The file size limit is a 32-bit number of bytes and blocks have at least 1 KiB, so the tree is
  deep enough.\<close>

definition path_ok :: "super_block \<Rightarrow> bool" where
  "path_ok sb \<longleftrightarrow> 10 \<le> s_blocksize_bits sb \<and> s_maxbytes sb < 2 ^ 32"

lemma mappable_bound:
  assumes "path_ok sb" "block * s_blocksize sb < s_maxbytes sb"
  shows "block < INDIRCOUNT sb * INDIRCOUNT sb * INDIRCOUNT sb"
proof -
  let ?b = "s_blocksize_bits sb"
  from assms(1) have b: "10 \<le> ?b" by (simp add: path_ok_def)
  have "block * 2 ^ ?b < 2 ^ 32" using assms by (simp add: path_ok_def s_blocksize_def)
  moreover have "(2::nat) ^ 10 \<le> 2 ^ ?b" using b by (rule power_increasing) simp
  then have "block * 2 ^ 10 \<le> block * 2 ^ ?b" by (rule mult_le_mono2)
  ultimately have "block * 2 ^ 10 < 2 ^ 32" by linarith
  then have "block < 2 ^ 24" by simp
  also have "(2::nat) ^ 24 \<le> (2 ^ (?b - 2)) ^ 3"
  proof -
    have "(2::nat) ^ (8 * 3) \<le> 2 ^ ((?b - 2) * 3)" using b by (intro power_increasing) auto
    then show ?thesis by (simp add: power_mult)
  qed
  also have "(2 ^ (?b - 2)) ^ 3 = INDIRCOUNT sb * INDIRCOUNT sb * INDIRCOUNT sb"
    by (simp add: INDIRCOUNT_def power3_eq_cube)
  finally show ?thesis .
qed

lemma block_to_path_Nil:
  assumes "path_ok sb" "block * s_blocksize sb < 2 ^ 64"
  shows "block_to_path sb (int block) = [] \<longleftrightarrow> s_maxbytes sb \<le> block * s_blocksize sb"
  using assms by (simp add: block_to_path_def u64_id Let_def)

lemma block_to_path_cases:
  assumes ok: "path_ok sb" and lt: "block * s_blocksize sb < s_maxbytes sb"
  shows "block_to_path sb (int block) =
    (let n = INDIRCOUNT sb; c2 = block - DIRECT - n; c3 = c2 - n * n in
     if block < DIRECT then [block]
     else if block - DIRECT < n then [DIRECT, block - DIRECT]
     else if c2 < n * n then [DIRECT + 1, c2 div n, c2 mod n]
     else [DIRECT + 2, c3 div n div n, c3 div n mod n, c3 mod n])"
proof -
  have "s_maxbytes sb < 2 ^ 64" using ok by (simp add: path_ok_def)
  then have u: "u64 (block * s_blocksize sb) = block * s_blocksize sb" using lt by (intro u64_id) simp
  then show ?thesis using lt unfolding block_to_path_def Let_def by simp
qed

lemma block_to_path_ok:
  assumes ok: "path_ok sb" and lt: "block * s_blocksize sb < s_maxbytes sb"
  shows "full_path sb (block_to_path sb (int block)) \<and> path_block sb (block_to_path sb (int block)) = block"
proof -
  let ?n = "INDIRCOUNT sb"
  define c2 where "c2 = block - DIRECT - ?n"
  define c3 where "c3 = c2 - ?n * ?n"
  note P = block_to_path_cases [OF assms, unfolded Let_def, folded c2_def, folded c3_def]
  note D = full_path_def valid_path_def levels_def
  consider (direct) "block < DIRECT" | (single) "DIRECT \<le> block" "block - DIRECT < ?n"
    | (double) "DIRECT \<le> block" "?n \<le> block - DIRECT" "c2 < ?n * ?n"
    | (triple) "DIRECT \<le> block" "?n \<le> block - DIRECT" "?n * ?n \<le> c2"
    by linarith
  then show ?thesis
  proof cases
    case direct
    then show ?thesis unfolding P by (simp add: D)
  next
    case single
    then show ?thesis unfolding P by (simp add: D)
  next
    case double
    have "c2 div ?n < ?n" using double(3) by (simp add: less_mult_imp_div_less)
    moreover have "DIRECT + ?n + (c2 div ?n * ?n + c2 mod ?n) = block"
      unfolding div_mult_mod_eq using double(1,2) by (simp add: c2_def)
    ultimately show ?thesis unfolding P using double by (simp add: D)
  next
    case triple
    have "c3 < ?n * ?n * ?n" using mappable_bound [OF assms] unfolding c3_def c2_def by linarith
    then have "c3 div ?n < ?n * ?n" by (simp add: less_mult_imp_div_less)
    then have "c3 div ?n div ?n < ?n" by (simp add: less_mult_imp_div_less)
    moreover have "DIRECT + ?n + ?n * ?n + ((c3 div ?n div ?n * ?n + c3 div ?n mod ?n) * ?n + c3 mod ?n) = block"
      unfolding div_mult_mod_eq using triple by (simp add: c3_def c2_def)
    ultimately show ?thesis unfolding P using triple by (simp add: D)
  qed
qed

section \<open>Slots and the branch reader\<close>

lemma slot_from_0 [simp]: "slot_from s 0 ks = 0"
  by (cases ks) simp_all

lemma slot_from_append: "slot_from s v (ks @ ls) = slot_from s (slot_from s v ks) ls"
  by (induction ks arbitrary: v) simp_all

lemma slot_append: "p \<noteq> [] \<Longrightarrow> slot s ino (p @ ls) = slot_from s (slot s ino p) ls"
  by (cases p) (simp_all add: slot_def slot_from_append)

lemma slot_prefix_nonzero: "p \<noteq> [] \<Longrightarrow> slot s ino (p @ ls) \<noteq> 0 \<Longrightarrow> slot s ino p \<noteq> 0"
  by (metis slot_append slot_from_0)

text \<open>Where the pointer at the end of a path is kept.\<close>

definition slot_ptr :: "fs \<Rightarrow> inode \<Rightarrow> nat list \<Rightarrow> ptr" where
  "slot_ptr s ino p = (if tl p = [] then InInode (hd p) else InBlock (slot s ino (butlast p)) (last p))"

definition slot_link :: "fs \<Rightarrow> inode \<Rightarrow> nat list \<Rightarrow> indirect" where
  "slot_link s ino p = \<lparr>ind_p = slot_ptr s ino p, ind_key = slot s ino p,
     ind_bh = (if tl p = [] then None else Some (slot s ino (butlast p)))\<rparr>"

lemma rd_slot_ptr:
  assumes "p \<noteq> []" "tl p \<noteq> [] \<Longrightarrow> slot s ino (butlast p) \<noteq> 0"
  shows "rd_ptr s ino (slot_ptr s ino p) = slot s ino p"
proof (cases "tl p = []")
  case True
  then show ?thesis by (simp add: slot_ptr_def slot_def)
next
  case False
  then have "p = butlast p @ [last p]" "butlast p \<noteq> []" using assms(1) by (cases p; simp)+
  then have "slot s ino p = slot_from s (slot s ino (butlast p)) [last p]" by (metis slot_append)
  then show ?thesis using False assms(2) by (simp add: slot_ptr_def block_word_def)
qed

definition links :: "fs \<Rightarrow> inode \<Rightarrow> nat list \<Rightarrow> nat \<Rightarrow> indirect list" where
  "links s ino p n = map (\<lambda>i. slot_link s ino (take (Suc i) p)) [0..<n]"

lemma links_Suc: "links s ino p (Suc n) = links s ino p n @ [slot_link s ino (take (Suc n) p)]"
  by (simp add: links_def)

lemma last_links: "0 < n \<Longrightarrow> last (links s ino p n) = slot_link s ino (take n p)"
  by (cases n) (simp_all add: links_Suc)

lemma length_links [simp]: "length (links s ino p n) = n"
  by (simp add: links_def)

lemma butlast_links: "butlast (links s ino p n) = links s ino p (n - 1)"
  by (cases n) (simp_all add: links_Suc, simp add: links_def)

text \<open>Every block on the way can be read.\<close>

definition path_readable :: "fs \<Rightarrow> inode \<Rightarrow> nat list \<Rightarrow> bool" where
  "path_readable s ino p \<longleftrightarrow> (\<forall>n. 0 < n \<longrightarrow> n \<le> length p \<longrightarrow> slot s ino (take n p) \<noteq> 0 \<longrightarrow>
     breadable (fs_bufs s) (slot s ino (take n p)))"

lemma slot_take_nonzero:
  assumes "p \<noteq> []" "slot s ino (take n p) \<noteq> 0" "0 < m" "m \<le> n"
  shows "slot s ino (take m p) \<noteq> 0"
proof -
  have "take n p = take m p @ take (n - m) (drop m p)"
    using assms(4) by (metis le_add_diff_inverse take_add)
  then show ?thesis using assms slot_prefix_nonzero [of "take m p"] by simp
qed

lemma verify_links:
  assumes "p \<noteq> []" "n \<le> length p" "1 < n \<Longrightarrow> slot s ino (take (n - 1) p) \<noteq> 0"
  shows "verify_chain s ino (links s ino p n)"
proof -
  have "rd_ptr s ino (slot_ptr s ino (take (Suc i) p)) = slot s ino (take (Suc i) p)" if "i < n" for i
  proof (rule rd_slot_ptr)
    show "take (Suc i) p \<noteq> []" using assms(1) by simp
    assume "tl (take (Suc i) p) \<noteq> []"
    then have i: "0 < i" by (cases p; cases i) auto
    have "butlast (take (Suc i) p) = take i p" using that assms(2) by (simp add: butlast_take)
    moreover have "slot s ino (take i p) \<noteq> 0"
      using slot_take_nonzero [OF assms(1), of s ino "n - 1" i] assms(3) i that by simp
    ultimately show "slot s ino (butlast (take (Suc i) p)) \<noteq> 0" by simp
  qed
  then show ?thesis by (simp add: verify_chain_def links_def list_all_iff slot_link_def)
qed

text \<open>The reader follows \<open>slot\<close> until a zero pointer or the end; it never fails and never sees a
  change.\<close>

lemma get_branch_from_spec:
  assumes "p \<noteq> []" "path_readable s ino p" "0 < n" "n \<le> length p"
    and "1 < n \<Longrightarrow> slot s ino (take (n - 1) p) \<noteq> 0"
  shows "\<exists>m. n \<le> m \<and> m \<le> length p \<and>
    get_branch_from s ino (links s ino p n) (drop n p) = (links s ino p m, slot s ino p \<noteq> 0, None) \<and>
    (1 < m \<longrightarrow> slot s ino (take (m - 1) p) \<noteq> 0) \<and> (if slot s ino p \<noteq> 0 then m = length p else slot s ino (take m p) = 0)"
  using assms(3-5)
proof (induction "length p - n" arbitrary: n)
  case 0
  then have n: "n = length p" by simp
  then show ?case
    using 0 last_links [of n s ino p] by (intro exI [of _ n]) (simp add: slot_link_def)
next
  case (Suc k)
  then have n: "n < length p" by simp
  have key: "ind_key (last (links s ino p n)) = slot s ino (take n p)"
    using last_links [OF Suc.prems(1)] by (simp add: slot_link_def)
  have dr: "drop n p = p ! n # drop (Suc n) p" using n by (simp add: Cons_nth_drop_Suc)
  show ?case
  proof (cases "slot s ino (take n p) = 0")
    case True
    have "slot s ino p = 0"
      using slot_take_nonzero [OF assms(1), of s ino "length p" n] True Suc.prems(1) n by auto
    then show ?thesis using True key dr Suc.prems n by (intro exI [of _ n]) simp
  next
    case False
    have rd: "sb_bread (fs_bufs s) (slot s ino (take n p)) = Some (slot s ino (take n p))"
      using assms(2) False Suc.prems(1) n by (simp add: path_readable_def)
    have vc: "verify_chain s ino (links s ino p n)" by (rule verify_links [OF assms(1) Suc.prems(2,3)])
    have tk: "butlast (take (Suc n) p) = take n p" "last (take (Suc n) p) = p ! n"
      using n by (simp_all add: butlast_take take_Suc_conv_app_nth)
    have tl: "tl (take (Suc n) p) \<noteq> []" using Suc.prems(1) n by (cases p; cases n) auto
    have ptr: "slot_ptr s ino (take (Suc n) p) = InBlock (slot s ino (take n p)) (p ! n)"
      using tl tk by (simp add: slot_ptr_def)
    have rdp: "rd_ptr s ino (slot_ptr s ino (take (Suc n) p)) = slot s ino (take (Suc n) p)"
      using assms(1) False tk by (intro rd_slot_ptr) auto
    have "add_chain s ino (Some (slot s ino (take n p))) (InBlock (slot s ino (take n p)) (p ! n)) =
        slot_link s ino (take (Suc n) p)"
      using ptr rdp tk tl by (simp add: add_chain_def slot_link_def)
    then have step: "get_branch_from s ino (links s ino p n) (drop n p) =
        get_branch_from s ino (links s ino p (Suc n)) (drop (Suc n) p)"
      using False key rd vc by (simp add: dr links_Suc)
    have "k = length p - Suc n" using Suc.hyps(2) by simp
    from Suc.hyps(1) [OF this] n False show ?thesis unfolding step
      by (elim meta_impE exE) (simp, simp, simp, meson Suc_leD)
  qed
qed

lemma get_branch_spec:
  assumes "p \<noteq> []" "path_readable s ino p"
  shows "\<exists>m. 0 < m \<and> m \<le> length p \<and> get_branch s ino p = (links s ino p m, slot s ino p \<noteq> 0, None) \<and>
    (1 < m \<longrightarrow> slot s ino (take (m - 1) p) \<noteq> 0) \<and> (if slot s ino p \<noteq> 0 then m = length p else slot s ino (take m p) = 0)"
proof -
  have tk: "take (Suc 0) p = [hd p]" "drop (Suc 0) p = tl p" using assms(1) by (cases p; simp)+
  have "get_branch s ino p = get_branch_from s ino (links s ino p 1) (drop 1 p)"
    using tk by (simp add: get_branch_def links_def add_chain_def slot_link_def slot_ptr_def slot_def)
  moreover have "1 \<le> length p" using assms(1) by (cases p) auto
  ultimately show ?thesis using get_branch_from_spec [OF assms, of 1] by (fastforce simp: Suc_le_eq)
qed

section \<open>A freshly allocated branch\<close>

text \<open>Block \<open>b\<close> holds only a pointer, at the first offset, to the first of the blocks, and so on; the
  last block is not constrained.\<close>

fun fresh_chain :: "fs \<Rightarrow> nat \<Rightarrow> nat list \<Rightarrow> nat list \<Rightarrow> bool" where
  "fresh_chain s b [] [] \<longleftrightarrow> True"
| "fresh_chain s b (off # offs) (c # cs) \<longleftrightarrow>
     (\<forall>k < INDIRCOUNT (fs_sb s). block_word s b k = (if k = off then c else 0)) \<and> fresh_chain s c offs cs"
| "fresh_chain s b _ _ \<longleftrightarrow> False"

fun mk_links :: "nat \<Rightarrow> nat list \<Rightarrow> nat list \<Rightarrow> indirect list" where
  "mk_links b (off # offs) (c # cs) =
     \<lparr>ind_p = InBlock b off, ind_key = c, ind_bh = Some b\<rparr> # mk_links c offs cs"
| "mk_links b _ _ = []"

lemma last_mk_links: "length cs = length offs \<Longrightarrow> offs \<noteq> [] \<Longrightarrow> ind_key (last (mk_links b offs cs)) = last cs"
proof (induction b offs cs rule: mk_links.induct)
  case (1 b off offs c cs)
  then show ?case by (cases cs; cases offs) auto
qed auto

lemma block_word_cong: "bdata (fs_bufs t) b = bdata (fs_bufs s) b \<Longrightarrow> block_word t b k = block_word s b k"
  unfolding block_word_def by (rule num_at_other_block)

lemma fresh_block_words:
  assumes "2 \<le> s_blocksize_bits sb" "off < INDIRCOUNT sb" "c < 2 ^ 32" "k < INDIRCOUNT sb"
  shows "num_at (put_num (fill_bytes bc b 0 (s_blocksize sb) 0) b (4 * off) 4 c) b (4 * k) 4 = (if k = off then c else 0)"
proof (cases "k = off")
  case True
  then show ?thesis using assms(3) by simp
next
  case False
  then have "4 * k + 4 \<le> 4 * off \<or> 4 * off + 4 \<le> 4 * k" by linarith
  moreover have "4 * k + 4 \<le> s_blocksize sb" using assms(4) INDIRCOUNT_words [OF assms(1)] by linarith
  ultimately show ?thesis using False by (simp add: num_at_put_disjoint num_at_fill_zero)
qed

lemma alloc_links_spec:
  assumes "grow s0 s bs" "parent \<in> set bs" "length offs \<le> card (zones.free_set s)"
    and "\<forall>k \<in> set offs. k < INDIRCOUNT (fs_sb s0)"
  shows "\<exists>t cs. alloc_links (\<lambda>_. True) s parent offs branch = (t, branch @ mk_links parent offs cs, None) \<and>
    grow s0 t (bs @ cs) \<and> length cs = length offs \<and> fresh_chain t parent offs cs \<and>
    (\<forall>c. c \<notin> set (s_zmap (fs_info s0)) \<longrightarrow> c \<noteq> parent \<longrightarrow> c \<notin> set cs \<longrightarrow> bdata (fs_bufs t) c = bdata (fs_bufs s) c)"
  using assms
proof (induction offs arbitrary: s bs parent branch)
  case Nil
  then show ?case by (intro exI [of _ s] exI [of _ "[]"]) simp
next
  case (Cons off offs)
  note g = Cons.prems(1)
  have v: "volume_ok s" and eqs: "fs_sb s = fs_sb s0" "fs_info s = fs_info s0" using g by (simp_all add: grow_def)
  have "zones.free_set s \<noteq> {}" using Cons.prems(3) by auto
  then obtain s1 nr where r: "cominix_new_block s = (s1, nr)" "nr \<noteq> 0" and g1: "grow s s1 [nr]" and f: "nr \<in> zones.free_set s"
    using new_block_available [OF v] by metis
  have db: "data_block s nr" "data_block s0 nr" and nr: "nr < 2 ^ 32"
    using f grow_data_block [OF g] volume_okD(4) [OF v] by (auto simp: zones.free_set_def)
  let ?bc = "mark_buffer_dirty (put_num (fill_bytes (fs_bufs s1) parent 0 (s_blocksize (fs_sb s1)) 0) parent (4 * off) 4 nr) parent"
  let ?s2 = "s1\<lparr>fs_bufs := ?bc\<rparr>"
  have g2: "grow s0 ?s2 (bs @ [nr])"
    by (rule grow_write [OF grow_trans [OF g g1], of parent]) (use Cons.prems(2) in \<open>auto simp: tracks_def\<close>)
  have fs: "zones.free_set ?s2 = zones.free_set s - {nr}"
    using free_set_grow [OF g2] free_set_grow [OF g] by auto
  have lc: "length offs \<le> card (zones.free_set ?s2)"
    using Cons.prems(3) f unfolding fs by (simp add: card_Diff_singleton)
  have mem: "nr \<in> set (bs @ [nr])" and rest: "\<forall>k \<in> set offs. k < INDIRCOUNT (fs_sb s0)"
    using Cons.prems(4) by simp_all
  obtain t cs where a: "alloc_links (\<lambda>_. True) ?s2 nr offs (branch @ [\<lparr>ind_p = InBlock parent off, ind_key = nr, ind_bh = Some parent\<rparr>])
        = (t, (branch @ [\<lparr>ind_p = InBlock parent off, ind_key = nr, ind_bh = Some parent\<rparr>]) @ mk_links nr offs cs, None)"
      and gt: "grow s0 t ((bs @ [nr]) @ cs)" and len: "length cs = length offs" and fc: "fresh_chain t nr offs cs"
      and fr: "\<forall>c. c \<notin> set (s_zmap (fs_info s0)) \<longrightarrow> c \<noteq> nr \<longrightarrow> c \<notin> set cs \<longrightarrow> bdata (fs_bufs t) c = bdata (fs_bufs ?s2) c"
    using Cons.IH [OF g2 mem lc rest, of "branch @ [\<lparr>ind_p = InBlock parent off, ind_key = nr, ind_bh = Some parent\<rparr>]"]
    by blast
  have wf0: "zmap_wf s" by (rule volume_okD(1) [OF v])
  have pdb: "data_block s parent" using g Cons.prems(2) grow_data_block [OF g] by (auto simp: grow_def)
  have pz: "parent \<notin> set (s_zmap (fs_info s0))" using zmap_block_not_data [OF wf0 pdb] eqs by simp
  have "distinct (bs @ [nr] @ cs)" using gt by (simp add: grow_def)
  then have pn: "parent \<noteq> nr" "parent \<notin> set cs" using Cons.prems(2) by auto
  have words: "block_word t parent k = (if k = off then nr else 0)" if "k < INDIRCOUNT (fs_sb t)" for k
  proof -
    have sb: "fs_sb t = fs_sb s0" "fs_sb s1 = fs_sb s0" using gt g1 eqs by (simp_all add: grow_def)
    have "block_word t parent k = block_word ?s2 parent k"
      using fr pz pn by (intro block_word_cong) simp
    also have "\<dots> = (if k = off then nr else 0)"
      using fresh_block_words [of "fs_sb s0" off nr k] that sb nr Cons.prems(4) volume_okD(2) [OF v] eqs
      by (simp add: block_word_def)
    finally show ?thesis .
  qed
  have "bdata (fs_bufs t) c = bdata (fs_bufs s) c"
    if "c \<notin> set (s_zmap (fs_info s0))" "c \<noteq> parent" "c \<notin> set (nr # cs)" for c
    using fr that g1 eqs by (simp add: grow_def)
  then show ?case
    using r nr a gt len fc words
    by (intro exI [of _ t] exI [of _ "nr # cs"]) (simp add: u32_id)
qed

section \<open>Well-formed trees\<close>

definition tree_wf :: "fs \<Rightarrow> inode \<Rightarrow> bool" where
  "tree_wf s ino \<longleftrightarrow> volume_ok s \<and>
     (\<forall>p. valid_path (fs_sb s) p \<longrightarrow> slot s ino p \<noteq> 0 \<longrightarrow>
        data_block s (slot s ino p) \<and> block_busy s (slot s ino p)) \<and>
     (\<forall>p q. valid_path (fs_sb s) p \<longrightarrow> valid_path (fs_sb s) q \<longrightarrow> slot s ino p \<noteq> 0 \<longrightarrow>
        slot s ino p = slot s ino q \<longrightarrow> p = q)"

lemma tree_wfD:
  assumes "tree_wf s ino"
  shows "volume_ok s"
    and "valid_path (fs_sb s) p \<Longrightarrow> slot s ino p \<noteq> 0 \<Longrightarrow> data_block s (slot s ino p) \<and> block_busy s (slot s ino p)"
    and "valid_path (fs_sb s) p \<Longrightarrow> valid_path (fs_sb s) q \<Longrightarrow> slot s ino p \<noteq> 0 \<Longrightarrow>
      slot s ino p = slot s ino q \<Longrightarrow> p = q"
  using assms by (simp_all add: tree_wf_def)

lemma valid_path_take: "valid_path sb p \<Longrightarrow> 0 < n \<Longrightarrow> valid_path sb (take n p)"
  by (cases p; cases n) (auto simp: valid_path_def dest: in_set_takeD)

lemma valid_path_readable:
  assumes "tree_wf s ino" "valid_path (fs_sb s) p"
  shows "path_readable s ino p"
  unfolding path_readable_def
  using tree_wfD(2) [OF assms(1) valid_path_take [OF assms(2)]] volume_okD(3) [OF tree_wfD(1) [OF assms(1)]] by blast

lemma slot_from_frame:
  assumes "\<And>n. n < length ks \<Longrightarrow> slot_from s v (take n ks) \<noteq> 0 \<Longrightarrow>
      block_word t (slot_from s v (take n ks)) (ks ! n) = block_word s (slot_from s v (take n ks)) (ks ! n)"
  shows "slot_from t v ks = slot_from s v ks"
  using assms
proof (induction ks arbitrary: v)
  case (Cons k ks)
  show ?case
  proof (cases "v = 0")
    case False
    have w: "block_word t v k = block_word s v k" using Cons.prems [of 0] False by simp
    have "slot_from t (block_word s v k) ks = slot_from s (block_word s v k) ks"
      using Cons.prems [of "Suc _"] False by (intro Cons.IH) simp
    then show ?thesis using False w by simp
  qed simp
qed simp

lemma slot_frame:
  assumes "p \<noteq> []" "i_data ino' (hd p) = i_data ino (hd p)"
    and "\<And>n. 0 < n \<Longrightarrow> n < length p \<Longrightarrow> slot s ino (take n p) \<noteq> 0 \<Longrightarrow>
      block_word t (slot s ino (take n p)) (p ! n) = block_word s (slot s ino (take n p)) (p ! n)"
  shows "slot t ino' p = slot s ino p"
proof -
  obtain k ks where p: "p = k # ks" using assms(1) by (cases p) auto
  have "slot_from t (i_data ino k) ks = slot_from s (i_data ino k) ks"
    using assms(3) [of "Suc _"] by (intro slot_from_frame) (simp add: p slot_def)
  then show ?thesis using assms(2) by (simp add: p slot_def)
qed

lemma fresh_chain_slot:
  assumes "fresh_chain s b offs cs" "0 \<notin> set (b # cs)"
    and "\<forall>k \<in> set rest. k < INDIRCOUNT (fs_sb s)" "length rest \<le> length offs"
  shows "slot_from s b rest = (if rest = take (length rest) offs then (b # cs) ! length rest else 0)"
  using assms
proof (induction s b offs cs arbitrary: rest rule: fresh_chain.induct)
  case (2 s b off offs c cs)
  show ?case
  proof (cases rest)
    case (Cons k ks)
    then have "block_word s b k = (if k = off then c else 0)" using "2.prems" by simp
    then show ?thesis using "2.IH" [of ks] "2.prems" Cons by simp
  qed simp
qed simp_all

lemma fresh_chain_cong:
  assumes "fresh_chain s b offs cs" "fs_sb t = fs_sb s"
    and "\<And>c. c \<in> set (b # cs) \<Longrightarrow> bdata (fs_bufs t) c = bdata (fs_bufs s) c"
  shows "fresh_chain t b offs cs"
  using assms
proof (induction s b offs cs rule: fresh_chain.induct)
  case (2 s b off offs c cs)
  have "block_word t b k = block_word s b k" for k
    by (rule block_word_cong) (rule "2.prems"(3), simp)
  then show ?case using "2.IH" "2.prems" by simp
qed simp_all

section \<open>Splicing a fresh branch into the tree\<close>

text \<open>The state after the pointer at the end of the path \<open>q\<close> has been set to \<open>b\<close>.\<close>

definition splice :: "fs \<Rightarrow> inode \<Rightarrow> fs \<Rightarrow> nat list \<Rightarrow> nat \<Rightarrow> fs \<times> inode" where
  "splice s ino t q b = wr_ptr (slot_ptr s ino q) b t ino"

text \<open>Only paths through \<open>q\<close> change.\<close>

lemma splice_slot:
  assumes wf: "tree_wf s ino" and g: "grow s t (b # cs)" and fc: "fresh_chain t b offs cs"
    and q: "valid_path (fs_sb s) q" "1 < length q \<longrightarrow> slot s ino (butlast q) \<noteq> 0"
    and sp: "splice s ino t q b = (t', ino')"
  shows "\<And>r. valid_path (fs_sb s) r \<Longrightarrow> take (length q) r \<noteq> q \<Longrightarrow> slot t' ino' r = slot s ino r"
    and "\<And>rest. slot t' ino' (q @ rest) = slot_from t' b rest" and "fresh_chain t' b offs cs"
    and "\<And>c. c \<notin> set (s_zmap (fs_info s)) \<Longrightarrow> c \<notin> set (b # cs) \<Longrightarrow> length q = 1 \<or> c \<noteq> slot s ino (butlast q) \<Longrightarrow>
      bdata (fs_bufs t') c = bdata (fs_bufs s) c"
    and "i_size ino' = i_size ino" "i_mode ino' = i_mode ino" "i_ino ino' = i_ino ino"
proof -
  have v: "volume_ok s" by (rule tree_wfD(1) [OF wf])
  have zw: "zmap_wf s" by (rule volume_okD(1) [OF v])
  have ne: "q \<noteq> []" using q(1) by (simp add: valid_path_def)
  have b: "data_block s b" "\<not> block_busy s b" "b < 2 ^ 32" "b \<noteq> 0"
    using g volume_okD(4,5) [OF v] by (auto simp: grow_def)
  have old: "bdata (fs_bufs t) (slot s ino r) = bdata (fs_bufs s) (slot s ino r)" "slot s ino r \<notin> set (b # cs)"
    if "valid_path (fs_sb s) r" "slot s ino r \<noteq> 0" for r
    using tree_wfD(2) [OF wf that] g zmap_block_not_data [OF zw] by (auto simp: grow_def)
  let ?w = "slot s ino (butlast q)"
  show "i_size ino' = i_size ino" "i_mode ino' = i_mode ino" "i_ino ino' = i_ino ino"
    using sp by (auto simp: splice_def slot_ptr_def set_zone_def split: if_splits)
  have cases: "(length q = 1 \<and> t' = t \<and> ino' = set_zone ino (hd q) b) \<or>
      (1 < length q \<and> ino' = ino \<and> t' = t\<lparr>fs_bufs := put_num (fs_bufs t) ?w (4 * last q) 4 b\<rparr>)"
    using sp ne by (cases q; cases "tl q") (auto simp: splice_def slot_ptr_def)
  have bq: "butlast q = take (length q - 1) q" by (simp add: butlast_conv_take)
  have vb: "valid_path (fs_sb s) (butlast q)" if "1 < length q"
    unfolding bq using that by (intro valid_path_take q(1)) simp
  have ow: "?w \<notin> set (b # cs)" if "1 < length q" using old(2) [OF vb [OF that]] q(2) that by blast
  have word: "block_word t' x k = (if 1 < length q \<and> x = ?w \<and> k = last q then b else block_word t x k)" for x k
  proof (cases "1 < length q \<and> x = ?w")
    case True
    then have t': "t' = t\<lparr>fs_bufs := put_num (fs_bufs t) ?w (4 * last q) 4 b\<rparr>" using cases by auto
    show ?thesis
    proof (cases "k = last q")
      case True
      then show ?thesis using \<open>1 < length q \<and> x = ?w\<close> b(3) t' by (simp add: block_word_def)
    next
      case False
      then have "4 * k + 4 \<le> 4 * last q \<or> 4 * last q + 4 \<le> 4 * k" by linarith
      then show ?thesis using False \<open>1 < length q \<and> x = ?w\<close> t' by (simp add: block_word_def num_at_put_disjoint)
    qed
  next
    case False
    then show ?thesis using cases by (auto simp: block_word_def num_at_put_disjoint)
  qed
  show other: "slot t' ino' r = slot s ino r" if r: "valid_path (fs_sb s) r" "take (length q) r \<noteq> q" for r
  proof (rule slot_frame)
    show rne: "r \<noteq> []" using r(1) by (simp add: valid_path_def)
    show "i_data ino' (hd r) = i_data ino (hd r)"
      using cases r(2) rne ne by (cases q; cases r) auto
    fix n assume n: "0 < n" "n < length r" "slot s ino (take n r) \<noteq> 0"
    have vn: "valid_path (fs_sb s) (take n r)" by (rule valid_path_take [OF r(1) n(1)])
    have "\<not> (1 < length q \<and> slot s ino (take n r) = ?w \<and> r ! n = last q)"
    proof
      assume a: "1 < length q \<and> slot s ino (take n r) = ?w \<and> r ! n = last q"
      then have "take n r = butlast q" using tree_wfD(3) [OF wf vn vb n(3)] by blast
      then have "take (Suc n) r = butlast q @ [last q]" using a n(2) by (simp add: take_Suc_conv_app_nth)
      then have "take (Suc n) r = q" using ne by simp
      moreover from this have "length q = Suc n" using n(2) by auto
      ultimately show False using r(2) by simp
    qed
    then show "block_word t' (slot s ino (take n r)) (r ! n) = block_word s (slot s ino (take n r)) (r ! n)"
      using word block_word_cong [OF old(1) [OF vn n(3)]] by auto
  qed
  have "slot t' ino' q = b"
  proof (cases "length q = 1")
    case True
    then show ?thesis using cases b(3) by (cases q) (auto simp: slot_def u32_id)
  next
    case False
    then have l: "1 < length q" using ne by (cases q) auto
    have "take (length q) (butlast q) \<noteq> q" using ne by (metis append_butlast_last_id length_append_singleton length_butlast lessI take_all nat_less_le less_imp_le not_Cons_self2 self_append_conv)
    then have w: "slot t' ino' (butlast q) = ?w" by (rule other [OF vb [OF l]])
    have "slot t' ino' (butlast q @ [last q]) = b"
      using l w word q(2) by (subst slot_append) (auto simp: length_0_conv [symmetric] simp del: length_0_conv)
    then show ?thesis using ne by simp
  qed
  then show "slot t' ino' (q @ rest) = slot_from t' b rest" for rest using slot_append [OF ne] by simp
  have same: "bdata (fs_bufs t') c = bdata (fs_bufs t) c" if "length q = 1 \<or> c \<noteq> ?w" for c
    using cases that by auto
  have "bdata (fs_bufs t') c = bdata (fs_bufs t) c" if "c \<in> set (b # cs)" for c
    using same ow that cases by metis
  moreover have "fs_sb t' = fs_sb t" using cases by auto
  ultimately show "fresh_chain t' b offs cs" using fc fresh_chain_cong by blast
  show "bdata (fs_bufs t') c = bdata (fs_bufs s) c"
    if "c \<notin> set (s_zmap (fs_info s))" "c \<notin> set (b # cs)" "length q = 1 \<or> c \<noteq> ?w" for c
    using same [OF that(3)] g that(1,2) by (simp add: grow_def)
qed

text \<open>Slots depend on the bytes of the buffers and the zone words only.\<close>

lemma slot_cong:
  assumes "bdata (fs_bufs t) = bdata (fs_bufs s)" "i2_data ino' = i2_data ino"
  shows "slot t ino' p = slot s ino p"
proof -
  have "slot_from t v ks = slot_from s v ks" for v ks
    using assms(1) by (intro slot_from_frame) (simp add: block_word_def num_at_def bytes_at_def)
  then show ?thesis using assms(2) by (simp add: slot_def i_data_def)
qed

lemma splice_tree_wf:
  assumes wf: "tree_wf s ino" and g: "grow s t (b # cs)" and fc: "fresh_chain t b offs cs"
    and p: "full_path (fs_sb s) p" and q: "q = take n p" "0 < n" "n \<le> length p" "offs = drop n p"
    and qs: "1 < n \<longrightarrow> slot s ino (take (n - 1) p) \<noteq> 0" "slot s ino q = 0"
    and sp: "splice s ino t q b = (t', ino')"
  shows "\<And>r. valid_path (fs_sb s) r \<Longrightarrow> slot t' ino' r =
      (if take n r = q then (if r = take (length r) p then (b # cs) ! (length r - n) else 0) else slot s ino r)"
    and "tree_wf t' ino'" and "fs_sb t' = fs_sb s" "fs_info t' = fs_info s"
    and "zones.free_set t' = zones.free_set s - set (b # cs)"
proof -
  have v: "volume_ok s" by (rule tree_wfD(1) [OF wf])
  have vp: "valid_path (fs_sb s) p" using p by (simp add: full_path_def)
  have vq: "valid_path (fs_sb s) q" unfolding q(1) by (rule valid_path_take [OF vp q(2)])
  have lq: "length q = n" using q(1,3) by simp
  have bq: "butlast q = take (n - 1) p" using q by (simp add: butlast_take)
  have qb: "1 < length q \<longrightarrow> slot s ino (butlast q) \<noteq> 0" using qs(1) bq lq by simp
  note S = splice_slot [OF wf g fc vq qb sp]
  have sb: "fs_sb t' = fs_sb t" "fs_info t' = fs_info t" "breadable (fs_bufs t') = breadable (fs_bufs t)"
    using sp by (auto simp: splice_def slot_ptr_def split: if_splits)
  have gt: "fs_sb t = fs_sb s" "fs_info t = fs_info s" "volume_ok t" using g by (simp_all add: grow_def)
  show sbs: "fs_sb t' = fs_sb s" "fs_info t' = fs_info s" using sb gt by simp_all
  have fresh: "\<And>c. c \<in> set (b # cs) \<Longrightarrow> data_block s c \<and> \<not> block_busy s c" "distinct (b # cs)"
    using g by (auto simp: grow_def)
  have nz: "0 \<notin> set (b # cs)" using fresh(1) volume_okD(5) [OF v] by blast
  have lcs: "length cs = length offs"
    using fc by (induction t b offs cs rule: fresh_chain.induct) auto
  show slots: "slot t' ino' r =
      (if take n r = q then (if r = take (length r) p then (b # cs) ! (length r - n) else 0) else slot s ino r)"
    if r: "valid_path (fs_sb s) r" for r
  proof (cases "take n r = q")
    case True
    define rest where "rest = drop n r"
    have rr: "r = q @ rest" using True by (metis append_take_drop_id rest_def)
    have hd: "hd r = hd p" using rr q(1) vq by (cases p; cases n) (auto simp: valid_path_def)
    have "length r \<le> length p"
      using r p hd by (cases r; cases p) (auto simp: valid_path_def full_path_def)
    then have len: "length rest \<le> length offs" using rr q lq by simp
    have "\<forall>k \<in> set rest. k < INDIRCOUNT (fs_sb s)"
      using r vq rr by (cases q) (auto simp: valid_path_def)
    then have "slot_from t' b rest = (if rest = take (length rest) offs then (b # cs) ! length rest else 0)"
      using S(3) nz len sbs by (intro fresh_chain_slot) simp_all
    moreover have iff: "rest = take (length rest) offs \<longleftrightarrow> r = take (length r) p"
    proof -
      have "take (length r) p = q @ take (length rest) offs"
        using rr q lq by (simp add: take_add [of n "length rest" p])
      then show ?thesis using rr by simp
    qed
    moreover have ln: "length r - n = length rest" using rr lq by simp
    moreover have "slot t' ino' r = slot_from t' b rest" using S(2) [of rest] rr by simp
    ultimately have "slot t' ino' r = (if r = take (length r) p then (b # cs) ! (length r - n) else 0)"
      by (simp only: iff ln)
    then show ?thesis unfolding if_P [OF True] .
  next
    case False
    then show ?thesis using S(1) [OF r] lq by simp
  qed
  have "volume_ok t' \<and> (\<forall>c. data_block s c \<longrightarrow> block_busy t' c = block_busy t c)"
  proof (cases "length q = 1")
    case True
    then have "t' = t" using sp vq by (cases q) (auto simp: splice_def slot_ptr_def)
    then show ?thesis using gt by simp
  next
    case False
    then have l: "1 < length q" using lq q(2) by simp
    let ?w = "slot s ino (butlast q)"
    have "t' = t\<lparr>fs_bufs := put_num (fs_bufs t) ?w (4 * last q) 4 b\<rparr>"
      using sp l by (cases q) (auto simp: splice_def slot_ptr_def)
    moreover have "data_block t ?w"
      using tree_wfD(2) [OF wf, of "butlast q"] qb valid_path_take [OF vp, of "n - 1"] l lq bq
        grow_data_block [OF g] by simp
    ultimately show ?thesis
      using volume_write [OF gt(3), of ?w "put_num (fs_bufs t) ?w (4 * last q) 4 b"] grow_data_block [OF g] by simp
  qed
  then have vt: "volume_ok t'" and busy: "data_block s c \<Longrightarrow> block_busy t' c \<longleftrightarrow> c \<in> set (b # cs) \<or> block_busy s c" for c
    using g by (auto simp: grow_def)
  have db: "data_block t' = data_block s" using sbs by (simp add: data_block_def fun_eq_iff)
  show "zones.free_set t' = zones.free_set s - set (b # cs)"
    using busy db by (auto simp: zones.free_set_def)
  have idx: "length r - n < length (b # cs)" if "r = take (length r) p" "take n r = q" for r
  proof -
    have "length r \<le> length p" using that(1) by (metis length_take min.cobounded1 min.commute)
    then show ?thesis using lcs q by simp
  qed
  have new: "slot t' ino' r \<in> set (b # cs)" if "valid_path (fs_sb s) r" "take n r = q" "slot t' ino' r \<noteq> 0" for r
  proof -
    have "r = take (length r) p" using slots [OF that(1)] that(2,3) by (auto split: if_splits)
    then show ?thesis using slots [OF that(1)] that(2) idx [OF _ that(2)] nth_mem by metis
  qed
  have oldbusy: "slot s ino r \<notin> set (b # cs)" if "valid_path (fs_sb s) r" "slot s ino r \<noteq> 0" for r
    using tree_wfD(2) [OF wf that] fresh(1) by blast
  show "tree_wf t' ino'"
    unfolding tree_wf_def sbs db
  proof (intro conjI allI impI vt)
    fix r assume r: "valid_path (fs_sb s) r" "slot t' ino' r \<noteq> 0"
    have *: "data_block s (slot t' ino' r) \<and> (slot t' ino' r \<in> set (b # cs) \<or> block_busy s (slot t' ino' r))"
    proof (cases "take n r = q")
      case True
      then show ?thesis using new [OF r(1) True r(2)] fresh(1) by blast
    next
      case False
      then have "slot t' ino' r = slot s ino r" using slots [OF r(1)] by simp
      then show ?thesis using tree_wfD(2) [OF wf r(1)] r(2) by simp
    qed
    then show "data_block s (slot t' ino' r)" "block_busy t' (slot t' ino' r)" using busy by blast+
  next
    fix r r' assume r: "valid_path (fs_sb s) r" "valid_path (fs_sb s) r'" "slot t' ino' r \<noteq> 0"
      "slot t' ino' r = slot t' ino' r'"
    show "r = r'"
    proof (cases "take n r = q"; cases "take n r' = q")
      assume a: "take n r = q" "take n r' = q"
      have e: "r = take (length r) p" "r' = take (length r') p"
        using slots [OF r(1)] slots [OF r(2)] a r(3,4) by (auto split: if_splits)
      then have "(b # cs) ! (length r - n) = (b # cs) ! (length r' - n)"
        using slots [OF r(1)] slots [OF r(2)] a r(4) by simp
      then have "length r - n = length r' - n"
        using nth_eq_iff_index_eq [OF fresh(2) idx [OF e(1) a(1)] idx [OF e(2) a(2)]] by simp
      moreover have "n \<le> length r" "n \<le> length r'" using a lq by (metis length_take min.cobounded1 min.commute)+
      ultimately have "length r = length r'" by simp
      with e show ?thesis by metis
    next
      assume a: "take n r = q" "take n r' \<noteq> q"
      then have "slot t' ino' r \<in> set (b # cs)" "slot t' ino' r' = slot s ino r'"
        using new [OF r(1)] r(3) slots [OF r(2)] by simp_all
      then show ?thesis using oldbusy [OF r(2)] r(3,4) by simp
    next
      assume a: "take n r \<noteq> q" "take n r' = q"
      then have "slot t' ino' r' \<in> set (b # cs)" "slot t' ino' r = slot s ino r"
        using new [OF r(2)] r(3,4) slots [OF r(1)] by simp_all
      then show ?thesis using oldbusy [OF r(1)] r(3,4) by simp
    next
      assume a: "take n r \<noteq> q" "take n r' \<noteq> q"
      have e: "slot t' ino' r = slot s ino r" unfolding slots [OF r(1)] if_not_P [OF a(1)] ..
      have e': "slot t' ino' r' = slot s ino r'" unfolding slots [OF r(2)] if_not_P [OF a(2)] ..
      show ?thesis by (rule tree_wfD(3) [OF wf r(1,2)]) (use r(3,4) e e' in argo)+
    qed
  qed
qed

section \<open>Mapping a block\<close>

text \<open>Neither of the two stray values the code excludes can occur when zone 1 is not a data block.\<close>

lemma tree_wf_not_one:
  assumes "tree_wf s ino" "1 < s_firstdatazone (fs_info s)"
  shows "i_data ino 0 \<noteq> 1" "i_data ino 1 \<noteq> 1"
proof -
  have "i_data ino k \<noteq> 1" if "k = 0 \<or> k = 1" for k
  proof
    assume "i_data ino k = 1"
    moreover have "valid_path (fs_sb s) [k]" using that by (auto simp: valid_path_def DIRECT_def)
    ultimately show False using tree_wfD(2) [OF assms(1), of "[k]"] assms(2) by (simp add: slot_def data_block_def)
  qed
  then show "i_data ino 0 \<noteq> 1" "i_data ino 1 \<noteq> 1" by simp_all
qed

text \<open>A lookup is total, changes nothing and answers \<open>slot\<close>.\<close>

lemma get_block_lookup:
  assumes wf: "tree_wf s ino" and f: "1 < s_firstdatazone (fs_info s)"
    and ok: "path_ok (fs_sb s)" and lt: "block * s_blocksize (fs_sb s) < s_maxbytes (fs_sb s)"
  defines "p \<equiv> block_to_path (fs_sb s) (int block)"
  shows "slot s ino p = 0 \<Longrightarrow> get_block getblk now s ino block False = Some (Inr (s, ino, None, \<lparr>bm_mapped = None, bm_new = False\<rparr>))"
    and "slot s ino p \<noteq> 0 \<Longrightarrow> get_block getblk now s ino block create =
      Some (Inr (s, ino, None, \<lparr>bm_mapped = Some (slot s ino p), bm_new = False\<rparr>))"
proof -
  have p: "full_path (fs_sb s) p" using block_to_path_ok [OF ok lt] by (simp add: p_def)
  then have vp: "valid_path (fs_sb s) p" and ne: "p \<noteq> []" by (simp_all add: full_path_def valid_path_def)
  obtain m where m: "0 < m" "m \<le> length p" "get_branch s ino p = (links s ino p m, slot s ino p \<noteq> 0, None)"
      "slot s ino p \<noteq> 0 \<Longrightarrow> m = length p"
    using get_branch_spec [OF ne valid_path_readable [OF wf vp]] by metis
  note one = tree_wf_not_one [OF wf f]
  show "get_block getblk now s ino block False = Some (Inr (s, ino, None, \<lparr>bm_mapped = None, bm_new = False\<rparr>))"
    if "slot s ino p = 0"
    using m that one ne unfolding get_block_def p_def [symmetric] Let_def
    by (subst get_block_reread.simps) simp
  show "get_block getblk now s ino block create = Some (Inr (s, ino, None, \<lparr>bm_mapped = Some (slot s ino p), bm_new = False\<rparr>))"
    if "slot s ino p \<noteq> 0"
    using m that one ne last_links [OF m(1), of s ino p] unfolding get_block_def p_def [symmetric] Let_def
    by (subst get_block_reread.simps) (simp add: slot_link_def)
qed

text \<open>Allocating and splicing the missing part of a path.\<close>

lemma create_branch:
  assumes wf: "tree_wf s ino" and p: "full_path (fs_sb s) p" and z: "slot s ino p = 0"
    and m: "0 < m" "m \<le> length p" "1 < m \<Longrightarrow> slot s ino (take (m - 1) p) \<noteq> 0" "slot s ino (take m p) = 0"
    and sp: "length p \<le> card (zones.free_set s)"
  shows "\<exists>t branch t' ino' bs. alloc_branch (\<lambda>_. True) s (drop m p) (slot_link s ino (take m p)) = (t, branch, None) \<and>
    splice_branch now t ino (links s ino p (m - 1)) branch = (t', ino', None) \<and>
    ind_key (last branch) = slot t' ino' p \<and> tree_wf t' ino' \<and> slot t' ino' p = last bs \<and> bs \<noteq> [] \<and>
    set bs \<subseteq> zones.free_set s \<and> zones.free_set t' = zones.free_set s - set bs \<and>
    fs_sb t' = fs_sb s \<and> fs_info t' = fs_info s \<and>
    (\<forall>r. full_path (fs_sb s) r \<longrightarrow> r \<noteq> p \<longrightarrow> slot t' ino' r = slot s ino r \<and>
      (slot s ino r \<noteq> 0 \<longrightarrow> bdata (fs_bufs t') (slot s ino r) = bdata (fs_bufs s) (slot s ino r))) \<and>
    i_size ino' = i_size ino \<and> i_mode ino' = i_mode ino \<and> i_ino ino' = i_ino ino \<and> i_dirty ino'"
proof -
  let ?q = "take m p"
  have v: "volume_ok s" by (rule tree_wfD(1) [OF wf])
  have vp: "valid_path (fs_sb s) p" and ne: "p \<noteq> []" using p by (simp_all add: full_path_def valid_path_def)
  have vq: "valid_path (fs_sb s) ?q" by (rule valid_path_take [OF vp m(1)])
  have bq: "butlast ?q = take (m - 1) p" using m(2) by (simp add: butlast_take)
  have qne: "?q \<noteq> []" using ne m(1) by simp
  have fne: "zones.free_set s \<noteq> {}" using sp ne by auto
  obtain s1 b where r: "cominix_new_block s = (s1, b)" "b \<noteq> 0" and g1: "grow s s1 [b]" and bf: "b \<in> zones.free_set s"
    using new_block_available [OF v fne] by metis
  have b32: "b < 2 ^ 32" using volume_okD(4) [OF v] bf by (simp add: zones.free_set_def)
  have fs1: "zones.free_set s1 = zones.free_set s - {b}" using free_set_grow [OF g1] by simp
  have lc: "length (drop m p) \<le> card (zones.free_set s1)"
    using sp m(1) bf unfolding fs1 by (simp add: card_Diff_singleton)
  have rng: "\<forall>k \<in> set (drop m p). k < INDIRCOUNT (fs_sb s)"
  proof
    fix k assume "k \<in> set (drop m p)"
    then have "k \<in> set (tl p)" using m(1) by (cases m; cases p) (auto dest: in_set_dropD)
    then show "k < INDIRCOUNT (fs_sb s)" using vp by (simp add: valid_path_def)
  qed
  let ?L = "(slot_link s ino ?q)\<lparr>ind_key := b\<rparr>"
  obtain t cs where a: "alloc_links (\<lambda>_. True) s1 b (drop m p) [?L] = (t, [?L] @ mk_links b (drop m p) cs, None)"
      and g: "grow s t ([b] @ cs)" and len: "length cs = length (drop m p)" and fc: "fresh_chain t b (drop m p) cs"
    using alloc_links_spec [OF g1 _ lc rng, of b "[?L]"] by auto
  let ?branch = "?L # mk_links b (drop m p) cs"
  have ab: "alloc_branch (\<lambda>_. True) s (drop m p) (slot_link s ino ?q) = (t, ?branch, None)"
    using r a b32 by (simp add: alloc_branch_def u32_id)
  have gbc: "grow s t (b # cs)" using g by simp
  obtain t' ino' where sps: "splice s ino t ?q b = (t', ino')" by fastforce
  have m3: "1 < m \<longrightarrow> slot s ino (take (m - 1) p) \<noteq> 0" using m(3) by simp
  note W = splice_tree_wf [OF wf gbc fc p refl m(1,2) refl m3 m(4) sps]
  have zw: "zmap_wf s" by (rule volume_okD(1) [OF v])
  have st: "slot t ino x = slot s ino x" if x: "valid_path (fs_sb s) x" for x
  proof (rule slot_frame)
    show "x \<noteq> []" using x by (simp add: valid_path_def)
    fix n assume n: "0 < n" "slot s ino (take n x) \<noteq> 0"
    have "data_block s (slot s ino (take n x)) \<and> block_busy s (slot s ino (take n x))"
      by (rule tree_wfD(2) [OF wf valid_path_take [OF x n(1)] n(2)])
    then have "bdata (fs_bufs t) (slot s ino (take n x)) = bdata (fs_bufs s) (slot s ino (take n x))"
      using gbc zmap_block_not_data [OF zw] by (auto simp: grow_def)
    then show "block_word t (slot s ino (take n x)) (x ! n) = block_word s (slot s ino (take n x)) (x ! n)"
      by (rule block_word_cong)
  qed simp
  have lk: "slot_link t ino x = slot_link s ino x" if x: "valid_path (fs_sb s) x" for x
  proof -
    have "tl x \<noteq> [] \<Longrightarrow> valid_path (fs_sb s) (butlast x)"
      using valid_path_take [OF x, of "length x - 1"] by (cases x) (auto simp: butlast_conv_take)
    then show ?thesis using st x by (simp add: slot_link_def slot_ptr_def)
  qed
  have "links s ino p (m - 1) = links t ino p (m - 1)"
    unfolding links_def by (rule map_cong [OF refl]) (use lk valid_path_take [OF vp] in simp)
  then have vc: "verify_chain t ino (links s ino p (m - 1))"
  proof (cases "m - 1 = 0")
    case False
    have "1 < m - 1 \<Longrightarrow> slot t ino (take (m - 1 - 1) p) \<noteq> 0"
      using st [OF valid_path_take [OF vp]] slot_take_nonzero [OF ne m(3), of "m - 1 - 1"] by simp
    then show ?thesis
      using verify_links [OF ne, of "m - 1" t ino] m(2) \<open>links s ino p (m - 1) = links t ino p (m - 1)\<close> by simp
  qed (simp add: links_def verify_chain_def)
  have "rd_ptr t ino (slot_ptr t ino ?q) = slot t ino ?q"
  proof (rule rd_slot_ptr [OF qne])
    assume "tl ?q \<noteq> []"
    then have m1: "1 < m" by (cases m; cases p) auto
    then show "slot t ino (butlast ?q) \<noteq> 0"
      unfolding bq using st [OF valid_path_take [OF vp, of "m - 1"]] m(3) by simp
  qed
  moreover have "slot_ptr t ino ?q = slot_ptr s ino ?q" using lk [OF vq] by (simp add: slot_link_def)
  ultimately have rd: "rd_ptr t ino (slot_ptr s ino ?q) = 0" using st [OF vq] m(4) by simp
  define t'' where "t'' = (case ind_bh ?L of None \<Rightarrow> t' | Some bh \<Rightarrow> t'\<lparr>fs_bufs := mark_buffer_dirty (fs_bufs t') bh\<rparr>)"
  define ino'' where "ino'' = mark_inode_dirty (ino'\<lparr>i_ctime := now\<rparr>)"
  have sb: "splice_branch now t ino (links s ino p (m - 1)) ?branch = (t'', ino'', None)"
    using vc rd sps unfolding splice_def t''_def ino''_def
    by (simp add: splice_branch_def slot_link_def Let_def split: option.splits)
  have bd: "bdata (fs_bufs t'') = bdata (fs_bufs t')" "fs_sb t'' = fs_sb t'" "fs_info t'' = fs_info t'"
      "breadable (fs_bufs t'') = breadable (fs_bufs t')"
    by (auto simp: t''_def split: option.splits)
  have i2: "i2_data ino'' = i2_data ino'" by (simp add: ino''_def mark_inode_dirty_def)
  have sl: "slot t'' ino'' x = slot t' ino' x" for x by (rule slot_cong [OF bd(1) i2])
  have t''eq: "t'' = t'\<lparr>fs_bufs := fs_bufs t''\<rparr>" by (auto simp: t''_def split: option.splits)
  have vol: "volume_ok t'' = volume_ok t'" "block_busy t'' = block_busy t'"
    using volume_bdata_cong [of "fs_bufs t''" t'] bd t''eq by metis+
  have "tree_wf t'' ino''" using W(2) vol bd sl by (simp add: tree_wf_def data_block_def)
  moreover have key: "slot t' ino' p = last (b # cs)"
  proof -
    have "slot t' ino' p = (b # cs) ! (length p - m)" using W(1) [OF vp] by simp
    also have "length p - m = length cs" using len by simp
    also have "(b # cs) ! length cs = last (b # cs)" by (simp add: last_conv_nth nth_Cons')
    finally show ?thesis .
  qed
  moreover have "ind_key (last ?branch) = last (b # cs)"
  proof (cases "drop m p = []")
    case False
    then have "mk_links b (drop m p) cs \<noteq> []" using len by (cases "drop m p"; cases cs) auto
    then show ?thesis using last_mk_links [OF len False, of b] False len by auto
  qed (use len in simp)
  moreover have "set (b # cs) \<subseteq> zones.free_set s" using gbc by (auto simp: grow_def zones.free_set_def)
  moreover have "zones.free_set t'' = zones.free_set s - set (b # cs)"
    using W(5) vol bd by (simp add: zones.free_set_def data_block_def)
  moreover have "slot t'' ino'' r = slot s ino r \<and>
      (slot s ino r \<noteq> 0 \<longrightarrow> bdata (fs_bufs t'') (slot s ino r) = bdata (fs_bufs s) (slot s ino r))"
    if r: "full_path (fs_sb s) r" "r \<noteq> p" for r
  proof
    have vr: "valid_path (fs_sb s) r" using r(1) by (simp add: full_path_def)
    show "slot t'' ino'' r = slot s ino r"
    proof (cases "take m r = ?q")
      case True
      have hd: "hd r = hd p" using True vr ne m(1) by (cases r; cases p; cases m) (auto simp: valid_path_def)
      then have "length r = length p" using r(1) p by (cases r; cases p) (auto simp: full_path_def valid_path_def)
      then have "r \<noteq> take (length r) p" using r(2) by simp
      moreover have "slot s ino r = 0"
        using slot_take_nonzero [of r s ino "length r" m] True m(1,2,4) vr \<open>length r = length p\<close>
        by (auto simp: valid_path_def)
      ultimately show ?thesis using W(1) [OF vr] True sl by simp
    next
      case False
      then show ?thesis using W(1) [OF vr] sl by simp
    qed
    show "slot s ino r \<noteq> 0 \<longrightarrow> bdata (fs_bufs t'') (slot s ino r) = bdata (fs_bufs s) (slot s ino r)"
    proof
      assume nz: "slot s ino r \<noteq> 0"
      have db: "data_block s (slot s ino r) \<and> block_busy s (slot s ino r)" by (rule tree_wfD(2) [OF wf vr nz])
      have "length ?q = 1 \<or> slot s ino r \<noteq> slot s ino (butlast ?q)"
      proof (rule ccontr)
        assume "\<not> (length ?q = 1 \<or> slot s ino r \<noteq> slot s ino (butlast ?q))"
        then have m1: "1 < m" and e: "slot s ino r = slot s ino (take (m - 1) p)" using m(1,2) bq by auto
        have "r = take (m - 1) p" using tree_wfD(3) [OF wf vr _ nz e] valid_path_take [OF vp] m1 by simp
        moreover have "hd (take (m - 1) p) = hd p" using m1 ne by (cases p; cases "m - 1") auto
        ultimately have "length r = length p" using r(1) p ne vr by (cases r; cases p) (auto simp: full_path_def valid_path_def)
        then show False using \<open>r = take (m - 1) p\<close> m1 m(2) by simp
      qed
      moreover have "1 < length ?q \<longrightarrow> slot s ino (butlast ?q) \<noteq> 0" using m(2,3) bq by simp
      moreover have "slot s ino r \<notin> set (s_zmap (fs_info s))" using zmap_block_not_data [OF zw] db by simp
      moreover have "slot s ino r \<notin> set (b # cs)" using gbc db by (auto simp: grow_def)
      ultimately show "bdata (fs_bufs t'') (slot s ino r) = bdata (fs_bufs s) (slot s ino r)"
        using splice_slot(4) [OF wf gbc fc vq _ sps, of "slot s ino r"] bd(1) by simp
    qed
  qed
  moreover have "i_size ino'' = i_size ino" "i_mode ino'' = i_mode ino" "i_ino ino'' = i_ino ino" "i_dirty ino''"
  proof -
    have "1 < length ?q \<longrightarrow> slot s ino (butlast ?q) \<noteq> 0" using m(2,3) bq by simp
    from splice_slot(5,6,7) [OF wf gbc fc vq this sps]
    show "i_size ino'' = i_size ino" "i_mode ino'' = i_mode ino" "i_ino ino'' = i_ino ino" "i_dirty ino''"
      by (simp_all add: ino''_def mark_inode_dirty_def)
  qed
  ultimately show ?thesis
    using ab sb sl W(3,4) bd
    by (intro exI [of _ t] exI [of _ ?branch] exI [of _ t''] exI [of _ ino''] exI [of _ "b # cs"]) simp
qed

text \<open>Mapping an unmapped block with creation.\<close>

lemma get_block_create:
  assumes wf: "tree_wf s ino" and f: "1 < s_firstdatazone (fs_info s)"
    and ok: "path_ok (fs_sb s)" and lt: "block * s_blocksize (fs_sb s) < s_maxbytes (fs_sb s)"
    and p: "p = block_to_path (fs_sb s) (int block)"
    and z: "slot s ino p = 0" and sp: "length p \<le> card (zones.free_set s)"
  shows "\<exists>t ino' b. get_block (\<lambda>_. True) now s ino block True =
      Some (Inr (t, ino', None, \<lparr>bm_mapped = Some b, bm_new = True\<rparr>)) \<and>
    tree_wf t ino' \<and> fs_sb t = fs_sb s \<and> fs_info t = fs_info s \<and>
    b \<in> zones.free_set s \<and> slot t ino' p = b \<and> zones.free_set t \<subseteq> zones.free_set s - {b} \<and>
    (\<forall>r. full_path (fs_sb s) r \<longrightarrow> r \<noteq> p \<longrightarrow> slot t ino' r = slot s ino r \<and>
      (slot s ino r \<noteq> 0 \<longrightarrow> bdata (fs_bufs t) (slot s ino r) = bdata (fs_bufs s) (slot s ino r))) \<and>
    i_size ino' = i_size ino \<and> i_mode ino' = i_mode ino \<and> i_ino ino' = i_ino ino \<and> i_dirty ino'"
proof -
  have fp: "full_path (fs_sb s) p" using block_to_path_ok [OF ok lt] by (simp add: p)
  then have vp: "valid_path (fs_sb s) p" and ne: "p \<noteq> []" by (simp_all add: full_path_def valid_path_def)
  obtain m where m: "0 < m" "m \<le> length p" "get_branch s ino p = (links s ino p m, False, None)"
      "1 < m \<longrightarrow> slot s ino (take (m - 1) p) \<noteq> 0" "slot s ino (take m p) = 0"
    using get_branch_spec [OF ne valid_path_readable [OF wf vp]] z by auto
  obtain t branch t' ino' bs where C: "alloc_branch (\<lambda>_. True) s (drop m p) (slot_link s ino (take m p)) = (t, branch, None)"
    "splice_branch now t ino (links s ino p (m - 1)) branch = (t', ino', None)"
    "ind_key (last branch) = slot t' ino' p" "tree_wf t' ino'" "slot t' ino' p = last bs" "bs \<noteq> []"
    "set bs \<subseteq> zones.free_set s" "zones.free_set t' = zones.free_set s - set bs"
    "fs_sb t' = fs_sb s" "fs_info t' = fs_info s"
    "\<forall>r. full_path (fs_sb s) r \<longrightarrow> r \<noteq> p \<longrightarrow> slot t' ino' r = slot s ino r \<and>
      (slot s ino r \<noteq> 0 \<longrightarrow> bdata (fs_bufs t') (slot s ino r) = bdata (fs_bufs s) (slot s ino r))"
    "i_size ino' = i_size ino" "i_mode ino' = i_mode ino" "i_ino ino' = i_ino ino" "i_dirty ino'"
    using create_branch [OF wf fp z m(1,2) m(4) [rule_format] m(5) sp, of now] by blast
  have "get_block (\<lambda>_. True) now s ino block True =
      Some (Inr (t', ino', None, \<lparr>bm_mapped = Some (slot t' ino' p), bm_new = True\<rparr>))"
    using tree_wf_not_one [OF wf f] ne m(3) C(1-3) last_links [OF m(1)] butlast_links [of s ino p m]
    unfolding get_block_def p [symmetric] Let_def
    by (subst get_block_reread.simps) simp
  moreover have "last bs \<in> set bs" using C(6) by simp
  ultimately show ?thesis using C(4-15) by (intro exI [of _ t'] exI [of _ ino'] exI [of _ "slot t' ino' p"]) auto
qed

end
