(* ===== verification/TruncateSpec.thy ===== *)
theory TruncateSpec
  imports ItreeSpec
begin

text \<open>
  Truncation to size 0: \<open>free_branches\<close> frees exactly the blocks reachable from its pointers,
  zeroes the pointers, and leaves every other block of the volume as it was.
\<close>

section \<open>Reachable blocks\<close>

primrec reach :: "nat \<Rightarrow> fs \<Rightarrow> nat \<Rightarrow> nat set" where
  "reach 0 s v = (if v = 0 then {} else {v})"
| "reach (Suc d) s v = (if v = 0 then {} else insert v (\<Union>k<INDIRCOUNT (fs_sb s). reach d s (block_word s v k)))"

primrec tree_ok :: "nat \<Rightarrow> fs \<Rightarrow> nat \<Rightarrow> bool" where
  "tree_ok 0 s v \<longleftrightarrow> v = 0 \<or> data_block s v"
| "tree_ok (Suc d) s v \<longleftrightarrow> v = 0 \<or> data_block s v \<and>
     (\<forall>k < INDIRCOUNT (fs_sb s). tree_ok d s (block_word s v k) \<and> v \<notin> reach d s (block_word s v k)) \<and>
     (\<forall>j < INDIRCOUNT (fs_sb s). \<forall>k < INDIRCOUNT (fs_sb s). j \<noteq> k \<longrightarrow>
        reach d s (block_word s v j) \<inter> reach d s (block_word s v k) = {})"

lemma reach_0 [simp]: "reach d s 0 = {}"
  by (cases d) simp_all

lemma tree_ok_0 [simp]: "tree_ok d s 0"
  by (cases d) simp_all

lemma reach_self: "v \<noteq> 0 \<Longrightarrow> v \<in> reach d s v"
  by (cases d) simp_all

lemma tree_ok_data: "tree_ok d s v \<Longrightarrow> c \<in> reach d s v \<Longrightarrow> data_block s c"
  by (induction d arbitrary: v) (auto split: if_splits)

lemma reach_cong:
  assumes "fs_sb t = fs_sb s" "\<And>c k. c \<in> reach d s v \<Longrightarrow> k < INDIRCOUNT (fs_sb s) \<Longrightarrow> block_word t c k = block_word s c k"
  shows "reach d t v = reach d s v"
  using assms
proof (induction d arbitrary: v)
  case (Suc d)
  show ?case
  proof (cases "v = 0")
    case False
    have w: "block_word t v k = block_word s v k" if "k < INDIRCOUNT (fs_sb s)" for k
      using Suc.prems(2) False that by simp
    have "reach d t (block_word s v k) = reach d s (block_word s v k)" if "k < INDIRCOUNT (fs_sb s)" for k
      using Suc.prems that False by (intro Suc.IH) auto
    then show ?thesis using False w Suc.prems(1) by simp
  qed simp
qed simp

lemma tree_ok_cong:
  assumes "fs_sb t = fs_sb s" "data_block t = data_block s"
    and "\<And>c k. c \<in> reach d s v \<Longrightarrow> k < INDIRCOUNT (fs_sb s) \<Longrightarrow> block_word t c k = block_word s c k"
  shows "tree_ok d t v = tree_ok d s v"
  using assms
proof (induction d arbitrary: v)
  case (Suc d)
  show ?case
  proof (cases "v = 0")
    case False
    have w: "block_word t v k = block_word s v k" if "k < INDIRCOUNT (fs_sb s)" for k
      using Suc.prems(3) False that by simp
    have r: "reach d t (block_word s v k) = reach d s (block_word s v k)" if "k < INDIRCOUNT (fs_sb s)" for k
      using Suc.prems that False by (intro reach_cong) auto
    have "tree_ok d t (block_word s v k) = tree_ok d s (block_word s v k)" if "k < INDIRCOUNT (fs_sb s)" for k
      using Suc.prems that False by (intro Suc.IH) auto
    then show ?thesis using False w r Suc.prems(1,2) by simp
  qed simp
qed simp

section \<open>What a release changes\<close>

text \<open>\<open>shrink s t B P\<close>: the blocks \<open>B\<close> have been freed and the words \<open>P\<close> zeroed; the freed blocks
  may hold anything.\<close>

definition shrink :: "fs \<Rightarrow> fs \<Rightarrow> nat set \<Rightarrow> ptr set \<Rightarrow> bool" where
  "shrink s t B P \<longleftrightarrow> volume_ok t \<and> fs_sb t = fs_sb s \<and> fs_info t = fs_info s \<and>
     breadable (fs_bufs t) = breadable (fs_bufs s) \<and>
     (\<forall>c. data_block s c \<longrightarrow> (block_busy t c \<longleftrightarrow> block_busy s c \<and> c \<notin> B)) \<and>
     (\<forall>c. c \<notin> set (s_zmap (fs_info s)) \<longrightarrow> c \<notin> B \<longrightarrow> (\<forall>k. InBlock c k \<notin> P) \<longrightarrow>
        bdata (fs_bufs t) c = bdata (fs_bufs s) c) \<and>
     (\<forall>c k. c \<notin> set (s_zmap (fs_info s)) \<longrightarrow> c \<notin> B \<longrightarrow> InBlock c k \<notin> P \<longrightarrow>
        block_word t c k = block_word s c k) \<and>
     tracks (B \<union> {c. \<exists>k. InBlock c k \<in> P}) (fs_bufs s) (fs_bufs t)"

lemma shrink_data_block: "shrink s t B P \<Longrightarrow> data_block t = data_block s"
  by (simp add: shrink_def data_block_def fun_eq_iff)

lemma shrink_refl: "volume_ok s \<Longrightarrow> shrink s s {} P"
  by (simp add: shrink_def)

lemma shrink_trans:
  assumes "shrink s t B P" "shrink t u C Q"
  shows "shrink s u (B \<union> C) (P \<union> Q)"
proof -
  have "tracks (B \<union> {c. \<exists>k. InBlock c k \<in> P} \<union> (C \<union> {c. \<exists>k. InBlock c k \<in> Q})) (fs_bufs s) (fs_bufs u)"
    using assms tracks_trans unfolding shrink_def by blast
  then have "tracks (B \<union> C \<union> {c. \<exists>k. InBlock c k \<in> P \<union> Q}) (fs_bufs s) (fs_bufs u)"
    by (rule tracks_mono) auto
  then show ?thesis using assms shrink_data_block [OF assms(1)] unfolding shrink_def by auto
qed

lemma shrink_drop:
  assumes "shrink s t B (P \<union> Q)" "\<And>c k. InBlock c k \<in> Q \<Longrightarrow> c \<in> B"
  shows "shrink s t B P"
proof -
  have "tracks (B \<union> {c. \<exists>k. InBlock c k \<in> P}) (fs_bufs s) (fs_bufs t)"
    using assms(1) unfolding shrink_def by (elim conjE tracks_mono) (use assms(2) in auto)
  then show ?thesis using assms unfolding shrink_def by blast
qed

lemma shrink_free_block:
  assumes v: "volume_ok s" and db: "data_block s b"
  shows "shrink s (cominix_free_block s b) {b} P"
proof -
  note F = free_block_laws [OF volume_okD(1) [OF v]]
  have sel: "fs_sb (cominix_free_block s b) = fs_sb s" "fs_info (cominix_free_block s b) = fs_info s"
    "breadable (fs_bufs (cominix_free_block s b)) = breadable (fs_bufs s)"
    using free_block_eq [OF volume_okD(1) [OF v], of b] by auto
  have "volume_ok (cominix_free_block s b)" using v F(1,2) sel by (simp add: volume_ok_def)
  moreover have "block_word (cominix_free_block s b) c k = block_word s c k"
    if "c \<notin> set (s_zmap (fs_info s))" for c k
    by (rule block_word_cong [OF F(4) [OF that]])
  moreover have "tracks ({b} \<union> {c. \<exists>k. InBlock c k \<in> P}) (fs_bufs s) (fs_bufs (cominix_free_block s b))"
    using free_block_tracks [OF volume_okD(1) [OF v]] by (rule tracks_mono) simp
  ultimately show ?thesis using sel F(3,4) by (auto simp: shrink_def)
qed

text \<open>A freed block need not be written any more.\<close>

lemma shrink_forget_free:
  assumes v: "volume_ok s" and db: "data_block s b"
  shows "shrink s (cominix_free_block (s\<lparr>fs_bufs := bforget (fs_bufs s) b\<rparr>) b) {b} P"
proof -
  let ?s = "s\<lparr>fs_bufs := bforget (fs_bufs s) b\<rparr>"
  have e: "volume_ok ?s" "block_busy ?s = block_busy s" "data_block ?s = data_block s"
    using v volume_bdata_cong [of "bforget (fs_bufs s) b" s] by (simp_all add: data_block_def fun_eq_iff)
  have h: "shrink ?s (cominix_free_block ?s b) {b} P" using shrink_free_block [OF e(1)] db e(3) by simp
  have "tracks ({b} \<union> {c. \<exists>k. InBlock c k \<in> P}) (fs_bufs s) (fs_bufs ?s)" by (auto simp: tracks_def)
  moreover have "tracks ({b} \<union> {c. \<exists>k. InBlock c k \<in> P}) (fs_bufs ?s) (fs_bufs (cominix_free_block ?s b))"
    using h unfolding shrink_def by blast
  ultimately have "tracks ({b} \<union> {c. \<exists>k. InBlock c k \<in> P}) (fs_bufs s) (fs_bufs (cominix_free_block ?s b))"
    by (rule tracks_same)
  moreover have "block_word ?s c k = block_word s c k" for c k
    by (simp add: block_word_def num_at_def bytes_at_def)
  ultimately show ?thesis using h e unfolding shrink_def by simp
qed

text \<open>Pointers that may be written: zone words, words inside data blocks, local variables.\<close>

definition ptr_ok :: "fs \<Rightarrow> ptr \<Rightarrow> bool" where
  "ptr_ok s p \<longleftrightarrow> (case p of InBlock w k \<Rightarrow> data_block s w | _ \<Rightarrow> True)"

lemma shrink_wr_ptr:
  assumes v: "volume_ok s" and p: "ptr_ok s p" and w: "wr_ptr p 0 s ino = (t, ino')"
  shows "shrink s t {} {p}"
proof (cases p)
  case (InBlock w' k)
  then have t: "t = s\<lparr>fs_bufs := put_num (fs_bufs s) w' (4 * k) 4 0\<rparr>" using w by simp
  have db: "data_block s w'" using p InBlock by (simp add: ptr_ok_def)
  have "block_word t c j = block_word s c j" if "InBlock c j \<notin> {p}" for c j
  proof -
    have "c \<noteq> w' \<or> 4 * j + 4 \<le> 4 * k \<or> 4 * k + 4 \<le> 4 * j" using that InBlock by auto
    then show ?thesis by (simp add: t block_word_def num_at_put_disjoint)
  qed
  then show ?thesis
    using volume_write [OF v db, of "put_num (fs_bufs s) w' (4 * k) 4 0"] InBlock
    by (auto simp: shrink_def t tracks_def)
qed (use w v in \<open>auto intro: shrink_refl\<close>)

text \<open>What happens to the inode: zone words of \<open>P\<close> become 0, nothing else but flag and times changes.\<close>

definition ino_shrink :: "inode \<Rightarrow> inode \<Rightarrow> ptr set \<Rightarrow> bool" where
  "ino_shrink ino ino' P \<longleftrightarrow>
     (\<forall>k. i_data ino' k = (if InInode k \<in> P then 0 else i_data ino k)) \<and>
     i_size ino' = i_size ino \<and> i_mode ino' = i_mode ino \<and> i_ino ino' = i_ino ino \<and>
     i_nlink ino' = i_nlink ino \<and> i_fop ino' = i_fop ino"

lemma ino_shrink_refl [simp]: "ino_shrink ino ino {}"
  by (simp add: ino_shrink_def)

lemma ino_shrink_trans: "ino_shrink a b P \<Longrightarrow> ino_shrink b c Q \<Longrightarrow> ino_shrink a c (P \<union> Q)"
  by (auto simp: ino_shrink_def)

lemma ino_shrink_dirty: "ino_shrink a b P \<Longrightarrow> ino_shrink a (mark_inode_dirty b) P"
  by (simp add: ino_shrink_def mark_inode_dirty_def i_data_def)

lemma ino_shrink_wr_ptr: "wr_ptr p 0 s ino = (t, ino') \<Longrightarrow> ino_shrink ino ino' {p}"
  by (cases p) (auto simp: ino_shrink_def u32_def, auto simp: set_zone_def)

lemma ino_shrink_blocks: "ino_shrink a b P \<Longrightarrow> (\<And>k. InInode k \<notin> Q) \<Longrightarrow> ino_shrink a b (P \<union> Q)"
  by (simp add: ino_shrink_def)

section \<open>Freeing branches\<close>

lemma free_branches_Cons:
  "free_branches d (p # ps) s ino = (let (s1, ino1) = free_branches d [p] s ino in free_branches d ps s1 ino1)"
  by (cases d) (auto simp: Let_def split: prod.splits option.splits)

text \<open>Whether a word of a block outside the maps is untouched.\<close>

lemma shrink_word:
  "shrink s t B P \<Longrightarrow> volume_ok s \<Longrightarrow> data_block s c \<Longrightarrow> c \<notin> B \<Longrightarrow> InBlock c k \<notin> P \<Longrightarrow>
   block_word t c k = block_word s c k"
  using zmap_block_not_data [OF volume_okD(1)] by (simp add: shrink_def)

definition one_ok :: "nat \<Rightarrow> fs \<Rightarrow> inode \<Rightarrow> ptr \<Rightarrow> bool" where
  "one_ok d s ino p \<longleftrightarrow> ptr_ok s p \<and> tree_ok d s (rd_ptr s ino p) \<and>
     (\<forall>w k. p = InBlock w k \<longrightarrow> w \<notin> reach d s (rd_ptr s ino p))"

definition frees :: "nat \<Rightarrow> fs \<Rightarrow> inode \<Rightarrow> ptr list \<Rightarrow> bool" where
  "frees d s ino ps \<longleftrightarrow> (case free_branches d ps s ino of (t, ino') \<Rightarrow>
     shrink s t (\<Union>p \<in> set ps. reach d s (rd_ptr s ino p)) (set ps) \<and> ino_shrink ino ino' (set ps))"

definition batch_ok :: "nat \<Rightarrow> fs \<Rightarrow> inode \<Rightarrow> ptr list \<Rightarrow> bool" where
  "batch_ok d s ino ps \<longleftrightarrow> distinct ps \<and> (\<forall>p \<in> set ps. one_ok d s ino p) \<and>
     (\<forall>p \<in> set ps. \<forall>q \<in> set ps. p \<noteq> q \<longrightarrow>
        reach d s (rd_ptr s ino p) \<inter> reach d s (rd_ptr s ino q) = {} \<and>
        (\<forall>w k. p = InBlock w k \<longrightarrow> w \<notin> reach d s (rd_ptr s ino q)))"

lemma shrink_keeps_tree:
  assumes v: "volume_ok s" and h: "shrink s t B {p}" and t: "tree_ok d s v" and d: "reach d s v \<inter> B = {}"
    and p: "\<And>w k. p = InBlock w k \<Longrightarrow> w \<notin> reach d s v"
  shows "reach d t v = reach d s v" and "tree_ok d t v"
proof -
  have w: "block_word t c k = block_word s c k" if c: "c \<in> reach d s v" for c k
  proof (rule shrink_word [OF h v tree_ok_data [OF t c]])
    show "c \<notin> B" using c d by auto
    show "InBlock c k \<notin> {p}" using c p by auto
  qed
  have sb: "fs_sb t = fs_sb s" using h by (simp add: shrink_def)
  show "reach d t v = reach d s v" by (rule reach_cong [OF sb w])
  show "tree_ok d t v" using tree_ok_cong [OF sb shrink_data_block [OF h] w] t by simp
qed

lemma rd_ptr_after:
  assumes v: "volume_ok s" and h: "shrink s t B {p}" and i: "ino_shrink ino ino' {p}" and q: "q \<noteq> p" "ptr_ok s q"
    and b: "\<And>w k. q = InBlock w k \<Longrightarrow> w \<notin> B"
  shows "rd_ptr t ino' q = rd_ptr s ino q"
proof (cases q)
  case (InInode k)
  then show ?thesis using i q(1) by (auto simp: ino_shrink_def)
next
  case (InBlock w k)
  then show ?thesis
    using shrink_word [OF h v, of w k] q b by (simp add: ptr_ok_def block_word_def)
qed simp

lemma frees_list:
  assumes one: "\<And>s ino p. volume_ok s \<Longrightarrow> one_ok d s ino p \<Longrightarrow> frees d s ino [p]"
  shows "volume_ok s \<Longrightarrow> batch_ok d s ino ps \<Longrightarrow> frees d s ino ps"
proof (induction ps arbitrary: s ino)
  case Nil
  then show ?case by (cases d) (simp_all add: frees_def shrink_refl)
next
  case (Cons p ps)
  note v = Cons.prems(1)
  have ok: "one_ok d s ino p" using Cons.prems(2) by (simp add: batch_ok_def)
  obtain t ino' where a: "free_branches d [p] s ino = (t, ino')" by fastforce
  let ?B = "reach d s (rd_ptr s ino p)"
  have h: "shrink s t ?B {p}" and i: "ino_shrink ino ino' {p}"
    using one [OF v ok] a by (simp_all add: frees_def)
  have vt: "volume_ok t" using h by (simp add: shrink_def)
  have q: "q \<noteq> p" "one_ok d s ino q" "reach d s (rd_ptr s ino q) \<inter> ?B = {}"
      "\<And>w k. p = InBlock w k \<Longrightarrow> w \<notin> reach d s (rd_ptr s ino q)" "\<And>w k. q = InBlock w k \<Longrightarrow> w \<notin> ?B"
    if "q \<in> set ps" for q
    using Cons.prems(2) that by (auto simp: batch_ok_def)
  have rd: "rd_ptr t ino' q = rd_ptr s ino q" if "q \<in> set ps" for q
    using rd_ptr_after [OF v h i q(1) [OF that] _ q(5) [OF that]] q(2) [OF that] by (simp add: one_ok_def)
  have keep: "reach d t (rd_ptr s ino q) = reach d s (rd_ptr s ino q)" "tree_ok d t (rd_ptr s ino q)" if "q \<in> set ps" for q
    using shrink_keeps_tree [OF v h _ q(3) [OF that] q(4) [OF that]] q(2) [OF that] by (simp_all add: one_ok_def)
  have "one_ok d t ino' q" if "q \<in> set ps" for q
    using q(2) [OF that] keep [OF that] rd [OF that] shrink_data_block [OF h]
    by (auto simp: one_ok_def ptr_ok_def split: ptr.splits)
  then have "batch_ok d t ino' ps"
    using Cons.prems(2) rd keep by (simp add: batch_ok_def)
  from Cons.IH [OF vt this] have "frees d t ino' ps" .
  moreover obtain u ino'' where b: "free_branches d ps t ino' = (u, ino'')" by fastforce
  ultimately have h': "shrink t u (\<Union>q \<in> set ps. reach d t (rd_ptr t ino' q)) (set ps)" and i': "ino_shrink ino' ino'' (set ps)"
    by (simp_all add: frees_def)
  have "(\<Union>q \<in> set ps. reach d t (rd_ptr t ino' q)) = (\<Union>q \<in> set ps. reach d s (rd_ptr s ino q))"
    using rd keep(1) by simp
  then show ?case
    using a b shrink_trans [OF h h'] ino_shrink_trans [OF i i']
    by (simp add: frees_def free_branches_Cons [of d p ps])
qed

lemma frees_one: "volume_ok s \<Longrightarrow> one_ok d s ino p \<Longrightarrow> frees d s ino [p]"
proof (induction d arbitrary: s ino p)
  case 0
  let ?nr = "rd_ptr s ino p"
  obtain t ino' where w: "wr_ptr p 0 s ino = (t, ino')" by fastforce
  have ok: "ptr_ok s p" "tree_ok 0 s ?nr" using "0.prems"(2) by (simp_all add: one_ok_def)
  note h = shrink_wr_ptr [OF "0.prems"(1) ok(1) w] and i = ino_shrink_wr_ptr [OF w]
  show ?case
  proof (cases "?nr = 0")
    case True
    have "ino_shrink ino ino {p}" using True by (cases p) (auto simp: ino_shrink_def)
    then show ?thesis using True shrink_refl [OF "0.prems"(1)] by (simp add: frees_def)
  next
    case False
    have vt: "volume_ok t" using h by (simp add: shrink_def)
    have "data_block t ?nr" using ok(2) False shrink_data_block [OF h] by simp
    from shrink_trans [OF h shrink_free_block [OF vt this, of "{}"]] False w i show ?thesis
      by (simp add: frees_def)
  qed
next
  case (Suc d)
  let ?nr = "rd_ptr s ino p" and ?n = "INDIRCOUNT (fs_sb s)"
  note v = Suc.prems(1)
  obtain s1 ino1 where w: "wr_ptr p 0 s ino = (s1, ino1)" by fastforce
  have ok: "ptr_ok s p" "tree_ok (Suc d) s ?nr" "\<And>w k. p = InBlock w k \<Longrightarrow> w \<notin> reach (Suc d) s ?nr"
    using Suc.prems(2) by (simp_all add: one_ok_def)
  note h = shrink_wr_ptr [OF v ok(1) w] and i = ino_shrink_wr_ptr [OF w]
  show ?case
  proof (cases "?nr = 0")
    case True
    have "ino_shrink ino ino {p}" using True by (cases p) (auto simp: ino_shrink_def)
    then show ?thesis using True shrink_refl [OF v] by (simp add: frees_def)
  next
    case False
    have v1: "volume_ok s1" and sb1: "fs_sb s1 = fs_sb s" using h by (simp_all add: shrink_def)
    have keep: "reach (Suc d) s1 ?nr = reach (Suc d) s ?nr" "tree_ok (Suc d) s1 ?nr"
      using shrink_keeps_tree [OF v h ok(2)] ok(3) by simp_all
    have db: "data_block s1 ?nr" using keep(2) False by simp
    have rdb: "sb_bread (fs_bufs s1) ?nr = Some ?nr" using volume_okD(3) [OF v1 db] by simp
    have bits: "2 \<le> s_blocksize_bits (fs_sb s1)" using volume_okD(2) [OF v1] by simp
    have "s_blocksize (fs_sb s1) div 4 = ?n" using INDIRCOUNT_words [OF bits] sb1 by simp
    then have ws: "block_words (fs_sb s1) ?nr 0 = map (InBlock ?nr) [0..<?n]" by (simp add: block_words_def)
    have "batch_ok d s1 ino1 (map (InBlock ?nr) [0..<?n])"
      using keep(2) False db sb1
      by (auto simp: batch_ok_def one_ok_def ptr_ok_def block_word_def distinct_map inj_on_def)
    from frees_list [OF Suc.IH v1 this]
    obtain s2 ino2 where fb: "free_branches d (block_words (fs_sb s1) ?nr 0) s1 ino1 = (s2, ino2)"
      and h2: "shrink s1 s2 (\<Union>k<?n. reach d s1 (block_word s1 ?nr k)) (InBlock ?nr ` {..<?n})"
      and i2: "ino_shrink ino1 ino2 (InBlock ?nr ` {..<?n})"
      by (auto simp: frees_def ws block_word_def atLeast0LessThan split: prod.splits)
    let ?s3 = "s2\<lparr>fs_bufs := bforget (fs_bufs s2) ?nr\<rparr>"
    have v2: "volume_ok s2" using h2 by (simp add: shrink_def)
    have db2: "data_block s2 ?nr" using db shrink_data_block [OF h2] by simp
    note h3 = shrink_forget_free [OF v2 db2, of "{}"]
    let ?B = "\<Union>k<?n. reach d s1 (block_word s1 ?nr k)"
    have "shrink s (cominix_free_block ?s3 ?nr) ({} \<union> (?B \<union> {?nr})) ({p} \<union> (InBlock ?nr ` {..<?n} \<union> {}))"
      by (rule shrink_trans [OF h shrink_trans [OF h2 h3]])
    moreover have "{} \<union> (?B \<union> {?nr}) = reach (Suc d) s ?nr"
      unfolding keep(1) [symmetric] using False sb1 by auto
    ultimately have "shrink s (cominix_free_block ?s3 ?nr) (reach (Suc d) s ?nr) ({p} \<union> InBlock ?nr ` {..<?n})"
      by simp
    then have hs: "shrink s (cominix_free_block ?s3 ?nr) (reach (Suc d) s ?nr) {p}"
      by (rule shrink_drop) (use reach_self [OF False, of "Suc d" s] in blast)
    have "ino_shrink ino ino2 {p}"
      using ino_shrink_trans [OF i i2] by (auto simp: ino_shrink_def)
    then have "ino_shrink ino (mark_inode_dirty ino2) {p}" by (rule ino_shrink_dirty)
    then show ?thesis using False w rdb fb hs by (simp add: frees_def Let_def)
  qed
qed

lemma free_branches_spec: "volume_ok s \<Longrightarrow> batch_ok d s ino ps \<Longrightarrow> frees d s ino ps"
  by (rule frees_list [OF frees_one])

section \<open>The blocks of a well-formed tree\<close>

definition path_below :: "fs \<Rightarrow> nat \<Rightarrow> nat list \<Rightarrow> bool" where
  "path_below s d ks \<longleftrightarrow> length ks \<le> d \<and> (\<forall>k \<in> set ks. k < INDIRCOUNT (fs_sb s))"

lemma path_below_simps [simp]:
  "path_below s d []" "path_below s (Suc d) (k # ks) \<longleftrightarrow> k < INDIRCOUNT (fs_sb s) \<and> path_below s d ks"
  "path_below s 0 (k # ks) \<longleftrightarrow> False"
  by (auto simp: path_below_def)

lemma reach_slots: "c \<in> reach d s v \<longleftrightarrow> c \<noteq> 0 \<and> (\<exists>ks. path_below s d ks \<and> slot_from s v ks = c)"
proof (induction d arbitrary: v)
  case 0
  have "path_below s 0 ks \<longleftrightarrow> ks = []" for ks by (cases ks) auto
  then show ?case by auto
next
  case (Suc d)
  show ?case
  proof (cases "v = 0")
    case False
    have "(\<exists>ks. path_below s (Suc d) ks \<and> slot_from s v ks = c) \<longleftrightarrow>
        c = v \<or> (\<exists>k < INDIRCOUNT (fs_sb s). \<exists>ks. path_below s d ks \<and> slot_from s (block_word s v k) ks = c)"
    proof
      assume "\<exists>ks. path_below s (Suc d) ks \<and> slot_from s v ks = c"
      then obtain ks where ks: "path_below s (Suc d) ks" "slot_from s v ks = c" by blast
      then show "c = v \<or> (\<exists>k < INDIRCOUNT (fs_sb s). \<exists>ks. path_below s d ks \<and> slot_from s (block_word s v k) ks = c)"
        using False by (cases ks) auto
    next
      assume "c = v \<or> (\<exists>k < INDIRCOUNT (fs_sb s). \<exists>ks. path_below s d ks \<and> slot_from s (block_word s v k) ks = c)"
      then show "\<exists>ks. path_below s (Suc d) ks \<and> slot_from s v ks = c"
      proof
        assume "c = v"
        then show ?thesis by (intro exI [of _ "[]"]) simp
      next
        assume "\<exists>k < INDIRCOUNT (fs_sb s). \<exists>ks. path_below s d ks \<and> slot_from s (block_word s v k) ks = c"
        then obtain k ks where "k < INDIRCOUNT (fs_sb s)" "path_below s d ks" "slot_from s (block_word s v k) ks = c" by blast
        then show ?thesis using False by (intro exI [of _ "k # ks"]) simp
      qed
    qed
    then show ?thesis using False Suc.IH by auto
  qed auto
qed

lemma tree_ok_slots:
  assumes "\<And>ks. path_below s d ks \<Longrightarrow> slot_from s v ks \<noteq> 0 \<Longrightarrow> data_block s (slot_from s v ks)"
    and "\<And>ks ls. path_below s d ks \<Longrightarrow> path_below s d ls \<Longrightarrow> slot_from s v ks \<noteq> 0 \<Longrightarrow>
      slot_from s v ks = slot_from s v ls \<Longrightarrow> ks = ls"
  shows "tree_ok d s v"
  using assms
proof (induction d arbitrary: v)
  case 0
  from "0.prems"(1) [of "[]"] show ?case by auto
next
  case (Suc d)
  show ?case
  proof (cases "v = 0")
    case False
    have db: "data_block s v" using Suc.prems(1) [of "[]"] False by simp
    have below: "tree_ok d s (block_word s v k)" if k: "k < INDIRCOUNT (fs_sb s)" for k
    proof (rule Suc.IH)
      show "data_block s (slot_from s (block_word s v k) ks)"
        if "path_below s d ks" "slot_from s (block_word s v k) ks \<noteq> 0" for ks
        using Suc.prems(1) [of "k # ks"] False k that by simp
      show "ks = ls" if "path_below s d ks" "path_below s d ls" "slot_from s (block_word s v k) ks \<noteq> 0"
        "slot_from s (block_word s v k) ks = slot_from s (block_word s v k) ls" for ks ls
        using Suc.prems(2) [of "k # ks" "k # ls"] False k that by simp
    qed
    have self: "v \<notin> reach d s (block_word s v k)" if k: "k < INDIRCOUNT (fs_sb s)" for k
    proof
      assume "v \<in> reach d s (block_word s v k)"
      then obtain ks where "path_below s d ks" "slot_from s (block_word s v k) ks = v" by (auto simp: reach_slots)
      then show False using Suc.prems(2) [of "[]" "k # ks"] False k by simp
    qed
    have dis: "reach d s (block_word s v j) \<inter> reach d s (block_word s v k) = {}"
      if jk: "j < INDIRCOUNT (fs_sb s)" "k < INDIRCOUNT (fs_sb s)" "j \<noteq> k" for j k
    proof (rule ccontr)
      assume "reach d s (block_word s v j) \<inter> reach d s (block_word s v k) \<noteq> {}"
      then obtain ks ls where "path_below s d ks" "path_below s d ls" "slot_from s (block_word s v j) ks \<noteq> 0"
        "slot_from s (block_word s v j) ks = slot_from s (block_word s v k) ls"
        by (auto simp: reach_slots)
      then show False using Suc.prems(2) [of "j # ks" "k # ls"] False jk by simp
    qed
    show ?thesis using False db below self dis by simp
  qed simp
qed

lemma zone_path: "k < DIRECT + 3 \<Longrightarrow> path_below s (levels k) ks \<longleftrightarrow> valid_path (fs_sb s) (k # ks)"
  by (auto simp: valid_path_def path_below_def)

lemma tree_wf_zones:
  assumes wf: "tree_wf s ino" and k: "k < DIRECT + 3"
  shows "tree_ok (levels k) s (i_data ino k)"
proof (rule tree_ok_slots)
  have sl: "slot_from s (i_data ino k) ks = slot s ino (k # ks)" for ks by (simp add: slot_def)
  show "data_block s (slot_from s (i_data ino k) ks)"
    if "path_below s (levels k) ks" "slot_from s (i_data ino k) ks \<noteq> 0" for ks
    using tree_wfD(2) [OF wf, of "k # ks"] that by (simp add: zone_path [OF k] sl)
  show "ks = ls" if "path_below s (levels k) ks" "path_below s (levels k) ls" "slot_from s (i_data ino k) ks \<noteq> 0"
      "slot_from s (i_data ino k) ks = slot_from s (i_data ino k) ls" for ks ls
    using tree_wfD(3) [OF wf, of "k # ks" "k # ls"] that by (simp add: zone_path [OF k] sl)
qed

lemma tree_wf_disjoint:
  assumes wf: "tree_wf s ino" and k: "k < DIRECT + 3" "l < DIRECT + 3" "k \<noteq> l"
  shows "reach (levels k) s (i_data ino k) \<inter> reach (levels l) s (i_data ino l) = {}"
proof (rule ccontr)
  have sl: "slot_from s (i_data ino k) ks = slot s ino (k # ks)" for k ks by (simp add: slot_def)
  assume "reach (levels k) s (i_data ino k) \<inter> reach (levels l) s (i_data ino l) \<noteq> {}"
  then obtain ks ls where "path_below s (levels k) ks" "path_below s (levels l) ls"
      "slot s ino (k # ks) \<noteq> 0" "slot s ino (k # ks) = slot s ino (l # ls)"
    by (auto simp: reach_slots sl)
  then show False using tree_wfD(3) [OF wf, of "k # ks" "l # ls"] k by (simp add: zone_path)
qed

definition tree_blocks :: "fs \<Rightarrow> inode \<Rightarrow> nat set" where
  "tree_blocks s ino = (\<Union>k<DIRECT + 3. reach (levels k) s (i_data ino k))"

lemma tree_blocks_slots: "tree_blocks s ino = {slot s ino p | p. valid_path (fs_sb s) p \<and> slot s ino p \<noteq> 0}"
proof (rule set_eqI)
  fix c
  have sl: "slot_from s (i_data ino k) ks = slot s ino (k # ks)" for k ks by (simp add: slot_def)
  have "c \<in> tree_blocks s ino \<longleftrightarrow> (\<exists>k < DIRECT + 3. \<exists>ks. valid_path (fs_sb s) (k # ks) \<and> slot s ino (k # ks) = c) \<and> c \<noteq> 0"
    by (auto simp: tree_blocks_def reach_slots sl zone_path)
  also have "\<dots> \<longleftrightarrow> c \<in> {slot s ino p | p. valid_path (fs_sb s) p \<and> slot s ino p \<noteq> 0}"
  proof
    assume "c \<in> {slot s ino p | p. valid_path (fs_sb s) p \<and> slot s ino p \<noteq> 0}"
    then obtain p where p: "valid_path (fs_sb s) p" "slot s ino p \<noteq> 0" "c = slot s ino p" by blast
    then obtain k ks where "p = k # ks" "k < DIRECT + 3" by (cases p) (auto simp: valid_path_def)
    with p show "(\<exists>k < DIRECT + 3. \<exists>ks. valid_path (fs_sb s) (k # ks) \<and> slot s ino (k # ks) = c) \<and> c \<noteq> 0" by blast
  qed blast
  finally show "c \<in> tree_blocks s ino \<longleftrightarrow> c \<in> {slot s ino p | p. valid_path (fs_sb s) p \<and> slot s ino p \<noteq> 0}" .
qed

section \<open>Truncation to size 0\<close>

declare reach.simps [simp del] tree_ok.simps [simp del]

lemma kill_step:
  assumes v: "volume_ok s" and t: "tree_ok (w + 1) s (i_data ino (DIRECT + w))"
  shows "\<exists>s1 ino1. kill_indirects (w # ws) s ino = kill_indirects ws s1 ino1 \<and>
    shrink s s1 (reach (w + 1) s (i_data ino (DIRECT + w))) {} \<and> ino_shrink ino ino1 {InInode (DIRECT + w)}"
proof (cases "i_data ino (DIRECT + w) = 0")
  case True
  have "ino_shrink ino ino {InInode (DIRECT + w)}" using True by (simp add: ino_shrink_def)
  then show ?thesis using True shrink_refl [OF v] by (intro exI [of _ s] exI [of _ ino]) simp
next
  case False
  let ?nr = "i_data ino (DIRECT + w)" and ?i = "mark_inode_dirty (set_zone ino (DIRECT + w) 0)"
  have "batch_ok (w + 1) s ?i [Local ?nr]"
    using t by (simp add: batch_ok_def one_ok_def ptr_ok_def)
  from free_branches_spec [OF v this] obtain s1 ino1 where
    f: "free_branches (w + 1) [Local ?nr] s ?i = (s1, ino1)"
      "shrink s s1 (reach (w + 1) s ?nr) {Local ?nr}" "ino_shrink ?i ino1 {Local ?nr}"
    by (auto simp: frees_def split: prod.splits)
  have "ino_shrink ino ?i {InInode (DIRECT + w)}"
    by (rule ino_shrink_dirty, rule ino_shrink_wr_ptr [of _ s _ s]) simp
  from ino_shrink_trans [OF this f(3)] have "ino_shrink ino ino1 {InInode (DIRECT + w)}"
    by (simp add: ino_shrink_def)
  moreover have "shrink s s1 (reach (w + 1) s ?nr) {}"
    by (rule shrink_drop [of _ _ _ _ "{Local ?nr}"]) (use f(2) in auto)
  ultimately show ?thesis using False f(1) by (intro exI [of _ s1] exI [of _ ino1]) simp
qed

lemma kill_all:
  assumes "volume_ok s" and "distinct ws" and "\<forall>w \<in> set ws. tree_ok (w + 1) s (i_data ino (DIRECT + w))"
    and "\<forall>w \<in> set ws. \<forall>x \<in> set ws. w \<noteq> x \<longrightarrow>
      reach (w + 1) s (i_data ino (DIRECT + w)) \<inter> reach (x + 1) s (i_data ino (DIRECT + x)) = {}"
  shows "case kill_indirects ws s ino of (t, ino') \<Rightarrow>
    shrink s t (\<Union>w \<in> set ws. reach (w + 1) s (i_data ino (DIRECT + w))) {} \<and>
    ino_shrink ino ino' ((\<lambda>w. InInode (DIRECT + w)) ` set ws)"
  using assms
proof (induction ws arbitrary: s ino)
  case Nil
  then show ?case by (simp add: shrink_refl)
next
  case (Cons w ws)
  note v = Cons.prems(1)
  have tw: "tree_ok (w + 1) s (i_data ino (DIRECT + w))" using Cons.prems(3) by simp
  obtain s1 ino1 where k: "kill_indirects (w # ws) s ino = kill_indirects ws s1 ino1"
      and h: "shrink s s1 (reach (w + 1) s (i_data ino (DIRECT + w))) {}"
      and i: "ino_shrink ino ino1 {InInode (DIRECT + w)}"
    using kill_step [OF v tw] by blast
  have h': "shrink s s1 (reach (w + 1) s (i_data ino (DIRECT + w))) {Local 0}"
    using h by (simp add: shrink_def)
  have z: "i_data ino1 (DIRECT + x) = i_data ino (DIRECT + x)" if "x \<in> set ws" for x
    using i that Cons.prems(2) by (auto simp: ino_shrink_def)
  have keep: "reach (x + 1) s1 (i_data ino (DIRECT + x)) = reach (x + 1) s (i_data ino (DIRECT + x))"
      "tree_ok (x + 1) s1 (i_data ino (DIRECT + x))" if "x \<in> set ws" for x
  proof -
    have d: "reach (x + 1) s (i_data ino (DIRECT + x)) \<inter> reach (w + 1) s (i_data ino (DIRECT + w)) = {}"
    proof -
      have "w \<noteq> x" using Cons.prems(2) that by auto
      then show ?thesis using Cons.prems(4) that by simp
    qed
    have t: "tree_ok (x + 1) s (i_data ino (DIRECT + x))" using Cons.prems(3) that by simp
    show "reach (x + 1) s1 (i_data ino (DIRECT + x)) = reach (x + 1) s (i_data ino (DIRECT + x))"
      "tree_ok (x + 1) s1 (i_data ino (DIRECT + x))"
      using shrink_keeps_tree [OF v h' t d] by simp_all
  qed
  have v1: "volume_ok s1" using h by (simp add: shrink_def)
  have "case kill_indirects ws s1 ino1 of (t, ino') \<Rightarrow>
      shrink s1 t (\<Union>w \<in> set ws. reach (w + 1) s1 (i_data ino1 (DIRECT + w))) {} \<and>
      ino_shrink ino1 ino' ((\<lambda>w. InInode (DIRECT + w)) ` set ws)"
    by (rule Cons.IH [OF v1]) (use Cons.prems(2,4) keep z in simp_all)
  then obtain t ino' where t: "kill_indirects ws s1 ino1 = (t, ino')"
      "shrink s1 t (\<Union>w \<in> set ws. reach (w + 1) s1 (i_data ino1 (DIRECT + w))) {}"
      "ino_shrink ino1 ino' ((\<lambda>w. InInode (DIRECT + w)) ` set ws)"
    by (auto split: prod.splits)
  have "(\<Union>w \<in> set ws. reach (w + 1) s1 (i_data ino1 (DIRECT + w))) = (\<Union>w \<in> set ws. reach (w + 1) s (i_data ino (DIRECT + w)))"
    using keep(1) z by simp
  then show ?case using k t(1) shrink_trans [OF h t(2)] ino_shrink_trans [OF i t(3)] by simp
qed

lemma truncate_zero:
  assumes wf: "tree_wf s ino" and sz: "i_size ino = 0" and pg: "page s ino = s" and mx: "0 < s_maxbytes (fs_sb s)"
  shows "\<exists>t ino'. itree_truncate page now s ino = (t, ino') \<and> shrink s t (tree_blocks s ino) {} \<and>
    (\<forall>k < DIRECT + 3. i_data ino' k = 0) \<and> (\<forall>k. DIRECT + 3 \<le> k \<longrightarrow> i_data ino' k = i_data ino k) \<and>
    i_size ino' = i_size ino \<and> i_mode ino' = i_mode ino \<and> i_ino ino' = i_ino ino \<and>
    i_nlink ino' = i_nlink ino \<and> i_fop ino' = i_fop ino \<and> i_dirty ino'"
proof -
  have v: "volume_ok s" by (rule tree_wfD(1) [OF wf])
  have ib: "(i_size ino + s_blocksize (fs_sb s) - 1) div 2 ^ s_blocksize_bits (fs_sb s) = 0"
    unfolding sz s_blocksize_def by simp
  have path: "block_to_path (fs_sb s) 0 = [0]"
    using mx by (simp add: block_to_path_def u64_def Let_def DIRECT_def)
  let ?ps = "map InInode [0..<DIRECT]"
  have t0: "tree_ok 0 s (i_data ino k)" if "k < DIRECT" for k
    using tree_wf_zones [OF wf, of k] that by (simp add: levels_def)
  have d0: "reach 0 s (i_data ino k) \<inter> reach 0 s (i_data ino l) = {}" if "k < DIRECT" "l < DIRECT" "k \<noteq> l" for k l
    using tree_wf_disjoint [OF wf, of k l] that by (simp add: levels_def)
  have "batch_ok 0 s ino ?ps"
    unfolding batch_ok_def one_ok_def ptr_ok_def using t0 d0 by (simp add: distinct_map inj_on_def)
  from free_branches_spec [OF v this] obtain s1 ino1 where f: "free_data ?ps s ino = (s1, ino1)"
      "shrink s s1 (\<Union>k<DIRECT. reach 0 s (i_data ino k)) (InInode ` {..<DIRECT})" "ino_shrink ino ino1 (InInode ` {..<DIRECT})"
    by (auto simp: frees_def atLeast0LessThan split: prod.splits)
  let ?B = "\<Union>k<DIRECT. reach 0 s (i_data ino k)"
  have h0: "shrink s s1 ?B {}" by (rule shrink_drop [of _ _ _ _ "InInode ` {..<DIRECT}"]) (use f(2) in auto)
  then have h: "shrink s s1 ?B {Local 0}" by (simp add: shrink_def)
  have v1: "volume_ok s1" using h by (simp add: shrink_def)
  have z: "i_data ino1 (DIRECT + x) = i_data ino (DIRECT + x)" for x
    using f(3) by (auto simp: ino_shrink_def)
  have lv: "levels (DIRECT + w) = w + 1" for w by (simp add: levels_def)
  have tz: "tree_ok (w + 1) s (i_data ino (DIRECT + w))" if "w < 3" for w
    using tree_wf_zones [OF wf, of "DIRECT + w"] that by (simp add: lv)
  have dz: "reach (w + 1) s (i_data ino (DIRECT + w)) \<inter> reach (x + 1) s (i_data ino (DIRECT + x)) = {}"
    if "w < 3" "x < 3" "w \<noteq> x" for w x
    using tree_wf_disjoint [OF wf, of "DIRECT + w" "DIRECT + x"] that by (simp add: lv)
  have keep: "reach (w + 1) s1 (i_data ino (DIRECT + w)) = reach (w + 1) s (i_data ino (DIRECT + w))"
      "tree_ok (w + 1) s1 (i_data ino (DIRECT + w))" if w: "w < 3" for w
  proof -
    have "reach (w + 1) s (i_data ino (DIRECT + w)) \<inter> reach 0 s (i_data ino k) = {}" if "k < DIRECT" for k
      using tree_wf_disjoint [OF wf, of "DIRECT + w" k] that w by (simp add: lv levels_def)
    then have d: "reach (w + 1) s (i_data ino (DIRECT + w)) \<inter> ?B = {}" by auto
    show "reach (w + 1) s1 (i_data ino (DIRECT + w)) = reach (w + 1) s (i_data ino (DIRECT + w))"
      "tree_ok (w + 1) s1 (i_data ino (DIRECT + w))"
      using shrink_keeps_tree [OF v h tz [OF w] d] by simp_all
  qed
  have ws: "set [0..<DEPTH - 1] = {..<3}" by (auto simp: DEPTH_def)
  have "case kill_indirects [0..<DEPTH - 1] s1 ino1 of (t, ino') \<Rightarrow>
      shrink s1 t (\<Union>w \<in> set [0..<DEPTH - 1]. reach (w + 1) s1 (i_data ino1 (DIRECT + w))) {} \<and>
      ino_shrink ino1 ino' ((\<lambda>w. InInode (DIRECT + w)) ` set [0..<DEPTH - 1])"
    by (rule kill_all [OF v1]) (use keep dz z ws in simp_all)
  then obtain t ino2 where k: "kill_indirects [0..<DEPTH - 1] s1 ino1 = (t, ino2)"
      "shrink s1 t (\<Union>w<3. reach (w + 1) s1 (i_data ino1 (DIRECT + w))) {}"
      "ino_shrink ino1 ino2 ((\<lambda>w. InInode (DIRECT + w)) ` {..<3})"
    unfolding ws by (auto split: prod.splits)
  have B2: "(\<Union>w<3. reach (w + 1) s1 (i_data ino1 (DIRECT + w))) = (\<Union>w<3. reach (w + 1) s (i_data ino (DIRECT + w)))"
    using keep(1) z by simp
  have "{..<DIRECT + 3} = {..<DIRECT} \<union> (\<lambda>w. DIRECT + w) ` {..<3}"
  proof (intro set_eqI iffI)
    fix x assume "x \<in> {..<DIRECT + 3}"
    then show "x \<in> {..<DIRECT} \<union> (\<lambda>w. DIRECT + w) ` {..<3}"
      by (cases "x < DIRECT") (auto simp: image_iff intro: bexI [of _ "x - DIRECT"])
  qed auto
  then have tb: "tree_blocks s ino = ?B \<union> (\<Union>w<3. reach (w + 1) s (i_data ino (DIRECT + w)))"
    unfolding tree_blocks_def by (simp add: lv levels_def)
  have "shrink s t (?B \<union> (\<Union>w<3. reach (w + 1) s1 (i_data ino1 (DIRECT + w)))) ({} \<union> {})"
    by (rule shrink_trans [OF h0 k(2)])
  then have hs: "shrink s t (tree_blocks s ino) {}" unfolding B2 tb by simp
  have "ino_shrink ino ino2 (InInode ` {..<DIRECT} \<union> (\<lambda>w. InInode (DIRECT + w)) ` {..<3})"
    by (rule ino_shrink_trans [OF f(3) k(3)])
  moreover have "InInode ` {..<DIRECT} \<union> (\<lambda>w. InInode (DIRECT + w)) ` {..<3} = InInode ` {..<DIRECT + 3}"
    unfolding \<open>{..<DIRECT + 3} = _\<close> by (simp add: image_Un image_image)
  ultimately have i: "ino_shrink ino ino2 (InInode ` {..<DIRECT + 3})" by simp
  have tr: "itree_truncate page now s ino = (t, mark_inode_dirty (ino2\<lparr>i_mtime := now, i_ctime := now\<rparr>))"
    unfolding itree_truncate_def Let_def ib pg by (simp add: path f(1) k(1) [simplified] del: upt_Suc)
  show ?thesis
    using hs i tr
    by (intro exI [of _ t] exI [of _ "mark_inode_dirty (ino2\<lparr>i_mtime := now, i_ctime := now\<rparr>)"])
      (auto simp: ino_shrink_def mark_inode_dirty_def i_data_def)
qed

end
