(* ===== verification/Inode.thy ===== *)
theory Inode
  imports TruncateSpec
begin

text \<open>
  The inode part of inode.c: reading an inode from its 64-byte slot on disk, writing it back,
  choosing its operations from the mode, truncation, eviction, and the numbers reported by
  \<open>stat\<close> and \<open>statfs\<close>. What the kernel provides is a record of functions.
\<close>

section \<open>What the kernel provides\<close>

text \<open>\<open>old_decode_dev\<close>, \<open>old_encode_dev\<close>, \<open>fs_high2lowuid\<close>, \<open>fs_high2lowgid\<close>,
  \<open>init_special_inode\<close>, \<open>block_truncate_page\<close> and the clock.\<close>

record kernel =
  k_old_decode_dev :: "nat \<Rightarrow> nat"
  k_old_encode_dev :: "nat \<Rightarrow> nat"
  k_high2lowuid :: "nat \<Rightarrow> nat"
  k_high2lowgid :: "nat \<Rightarrow> nat"
  k_init_special :: "inode \<Rightarrow> nat \<Rightarrow> nat \<Rightarrow> inode"
  k_truncate_page :: "fs \<Rightarrow> inode \<Rightarrow> fs"
  k_now :: nat

definition S_IFMT :: "nat \<Rightarrow> nat" where "S_IFMT mode = mode AND 0xF000"
definition S_ISREG :: "nat \<Rightarrow> bool" where "S_ISREG mode \<longleftrightarrow> S_IFMT mode = 0x8000"
definition S_ISDIR :: "nat \<Rightarrow> bool" where "S_ISDIR mode \<longleftrightarrow> S_IFMT mode = 0x4000"
definition S_ISLNK :: "nat \<Rightarrow> bool" where "S_ISLNK mode \<longleftrightarrow> S_IFMT mode = 0xA000"
definition S_ISCHR :: "nat \<Rightarrow> bool" where "S_ISCHR mode \<longleftrightarrow> S_IFMT mode = 0x2000"
definition S_ISBLK :: "nat \<Rightarrow> bool" where "S_ISBLK mode \<longleftrightarrow> S_IFMT mode = 0x6000"

section \<open>Choosing the operations\<close>

definition cominix_set_inode :: "kernel \<Rightarrow> inode \<Rightarrow> nat \<Rightarrow> inode" where
  "cominix_set_inode k ino rdev =
     (if S_ISREG (i_mode ino) then
        let ino' = ino\<lparr>i_op := Cominix_file_iops, i_fop := Cominix_file_ops, i_aops := Cominix_aops\<rparr> in
        if inode_is_chunked ino' then ino'\<lparr>i_fop := Chunked_file_ops, i_aops := Empty_aops\<rparr> else ino'
      else if S_ISDIR (i_mode ino) then
        ino\<lparr>i_op := Cominix_dir_iops, i_fop := Cominix_dir_ops, i_aops := Cominix_aops\<rparr>
      else if S_ISLNK (i_mode ino) then ino\<lparr>i_op := Cominix_symlink_iops, i_aops := Cominix_aops\<rparr>
      else k_init_special k ino (i_mode ino) rdev)"

section \<open>Reading an inode\<close>

text \<open>\<open>struct cominix2_inode\<close>: mode 0, nlinks 2, uid 4, gid 6 (16 bits each), size 8, atime 12,
  mtime 16, ctime 20 and ten zones from 24 (32 bits each).\<close>

definition V2_cominix_iget :: "kernel \<Rightarrow> fs \<Rightarrow> inode \<Rightarrow> errno + inode" where
  "V2_cominix_iget k s ino =
     (case cominix_V2_raw_inode s (i_ino ino) of
        None \<Rightarrow> Inl EIO
      | Some (bh, off) \<Rightarrow>
          let rd = num_at (fs_bufs s) bh in
          if rd (off + 2) 2 = 0 then Inl ESTALE
          else Inr (cominix_set_inode k
            (ino\<lparr>i_mode := rd off 2, i_uid := rd (off + 4) 2, i_gid := rd (off + 6) 2,
               i_nlink := rd (off + 2) 2, i_size := rd (off + 8) 4, i_mtime := rd (off + 16) 4,
               i_atime := rd (off + 12) 4, i_ctime := rd (off + 20) 4,
               i2_data := (\<lambda>i. if i < 10 then rd (off + 24 + 4 * i) 4 else i2_data ino i)\<rparr>)
            (k_old_decode_dev k (u16 (rd (off + 24) 4)))))"

text \<open>What \<open>iget_locked\<close> returned: nothing, an inode already in memory, or a new one to fill.\<close>

datatype iget_locked = Iget_none | Iget_cached inode | Iget_new inode

definition cominix_iget :: "kernel \<Rightarrow> fs \<Rightarrow> iget_locked \<Rightarrow> errno + inode" where
  "cominix_iget k s locked =
     (case locked of Iget_none \<Rightarrow> Inl ENOMEM | Iget_cached ino \<Rightarrow> Inr ino
      | Iget_new ino \<Rightarrow> V2_cominix_iget k s ino)"

section \<open>Writing an inode\<close>

fun put_zones :: "nat \<Rightarrow> nat \<Rightarrow> (nat \<Rightarrow> nat) \<Rightarrow> nat list \<Rightarrow> bufcache \<Rightarrow> bufcache" where
  "put_zones bh off z [] bc = bc"
| "put_zones bh off z (i # is) bc = put_zones bh off z is (put_num bc bh (off + 4 * i) 4 (z i))"

definition V2_cominix_update_inode :: "kernel \<Rightarrow> fs \<Rightarrow> inode \<Rightarrow> (fs \<times> nat) option" where
  "V2_cominix_update_inode k s ino =
     (case cominix_V2_raw_inode s (i_ino ino) of
        None \<Rightarrow> None
      | Some (bh, off) \<Rightarrow>
          let bc0 = put_num (fs_bufs s) bh off 2 (i_mode ino);
              bc1 = put_num bc0 bh (off + 4) 2 (k_high2lowuid k (i_uid ino));
              bc2 = put_num bc1 bh (off + 6) 2 (k_high2lowgid k (i_gid ino));
              bc3 = put_num bc2 bh (off + 2) 2 (i_nlink ino);
              bc4 = put_num bc3 bh (off + 8) 4 (i_size ino);
              bc5 = put_num bc4 bh (off + 16) 4 (i_mtime ino);
              bc6 = put_num bc5 bh (off + 12) 4 (i_atime ino);
              bc7 = put_num bc6 bh (off + 20) 4 (i_ctime ino);
              bc8 = (if S_ISCHR (i_mode ino) \<or> S_ISBLK (i_mode ino)
                     then put_num bc7 bh (off + 24) 4 (k_old_encode_dev k (i_rdev ino))
                     else put_zones bh (off + 24) (i2_data ino) [0..<10] bc7)
          in Some (s\<lparr>fs_bufs := mark_buffer_dirty bc8 bh\<rparr>, bh))"

text \<open>\<open>sync_all\<close> is \<open>wbc->sync_mode == WB_SYNC_ALL\<close>; \<open>sync\<close> is \<open>sync_dirty_buffer\<close> with the test
  for a write error after it.\<close>

definition cominix_write_inode ::
    "kernel \<Rightarrow> bool \<Rightarrow> (bufcache \<Rightarrow> nat \<Rightarrow> bufcache \<times> bool) \<Rightarrow> fs \<Rightarrow> inode \<Rightarrow> fs \<times> errno option" where
  "cominix_write_inode k sync_all sync s ino =
     (case V2_cominix_update_inode k s ino of
        None \<Rightarrow> (s, Some EIO)
      | Some (s', bh) \<Rightarrow>
          if sync_all \<and> bh \<in> bdirty (fs_bufs s') then
            let (bc, failed) = sync (fs_bufs s') bh in
            (s'\<lparr>fs_bufs := bc\<rparr>, if failed then Some EIO else None)
          else (s', None))"

section \<open>Truncation and eviction\<close>

definition cominix_truncate :: "kernel \<Rightarrow> fs \<Rightarrow> inode \<Rightarrow> fs \<times> inode" where
  "cominix_truncate k s ino =
     (if inode_is_chunked ino then (s, ino)
      else if \<not> (S_ISREG (i_mode ino) \<or> S_ISDIR (i_mode ino) \<or> S_ISLNK (i_mode ino)) then (s, ino)
      else V2_cominix_truncate (k_truncate_page k) (k_now k) s ino)"

definition cominix_evict_inode :: "kernel \<Rightarrow> fs \<Rightarrow> inode \<Rightarrow> fs" where
  "cominix_evict_inode k s ino =
     (if i_nlink ino = 0 then
        let (s', ino') = cominix_truncate k s (ino\<lparr>i_size := 0\<rparr>) in cominix_free_inode s' ino'
      else s)"

text \<open>\<open>cominix_write_failed\<close>: \<open>to\<close> is the end of the write that failed.\<close>

definition cominix_write_failed :: "kernel \<Rightarrow> fs \<Rightarrow> inode \<Rightarrow> nat \<Rightarrow> fs \<times> inode" where
  "cominix_write_failed k s ino to = (if i_size ino < to then cominix_truncate k s ino else (s, ino))"

text \<open>\<open>block_begin\<close> is \<open>block_write_begin\<close> with \<open>cominix_get_block\<close>.\<close>

definition cominix_write_begin ::
    "kernel \<Rightarrow> (fs \<Rightarrow> inode \<Rightarrow> nat \<Rightarrow> nat \<Rightarrow> fs \<times> inode \<times> errno option) \<Rightarrow>
     fs \<Rightarrow> inode \<Rightarrow> nat \<Rightarrow> nat \<Rightarrow> fs \<times> inode \<times> errno option" where
  "cominix_write_begin k block_begin s ino pos len =
     (let (s1, ino1, ret) = block_begin s ino pos len in
      if ret \<noteq> None then
        let (s2, ino2) = cominix_write_failed k s1 ino1 (pos + len) in (s2, ino2, ret)
      else (s1, ino1, None))"

definition cominix_get_block ::
    "(nat \<Rightarrow> bool) \<Rightarrow> nat \<Rightarrow> fs \<Rightarrow> inode \<Rightarrow> nat \<Rightarrow> bool \<Rightarrow>
     (fs \<times> inode \<times> errno option \<times> block_map) res option" where
  "cominix_get_block = V2_cominix_get_block"

section \<open>Numbers for stat and statfs\<close>

record kstat =
  st_blocks :: nat
  st_blksize :: nat

definition cominix_getattr :: "super_block \<Rightarrow> inode \<Rightarrow> kstat" where
  "cominix_getattr sb ino = \<lparr>st_blocks = s_blocksize sb div 512 * V2_cominix_blocks (i_size ino) sb,
     st_blksize = s_blocksize sb\<rparr>"

record kstatfs =
  f_type :: nat
  f_bsize :: nat
  f_blocks :: nat
  f_bfree :: nat
  f_bavail :: nat
  f_files :: nat
  f_ffree :: nat
  f_namelen :: nat
  f_fsid :: nat

text \<open>The subtraction is in \<open>unsigned long\<close>. \<open>dev\<close> is the number of the device.\<close>

definition cominix_statfs :: "nat \<Rightarrow> fs \<Rightarrow> kstatfs res" where
  "cominix_statfs dev s =
     (let sbi = cominix_sb s in
      bindE (cominix_count_free_blocks s) (\<lambda>free.
      bindE (cominix_count_free_inodes s) (\<lambda>ffree.
      Inr \<lparr>f_type = s_magic (fs_sb s), f_bsize = s_blocksize (fs_sb s),
       f_blocks = shl64 (nat ((int (s_nzones sbi) - int (s_firstdatazone sbi)) mod 2 ^ 64)) (s_log_zone_size sbi),
       f_bfree = free, f_bavail = free, f_files = s_ninodes sbi,
       f_ffree = ffree, f_namelen = s_namelen sbi, f_fsid = dev\<rparr>)))"

section \<open>Facts\<close>

lemma put_zones_sel [simp]:
  "breadable (put_zones bh off z is bc) = breadable bc" "bdisk (put_zones bh off z is bc) = bdisk bc"
  "bdirty (put_zones bh off z is bc) = bdirty bc"
  "b \<noteq> bh \<Longrightarrow> bdata (put_zones bh off z is bc) b = bdata bc b"
  by (induction bh off z "is" bc rule: put_zones.induct) simp_all

lemma put_zones_other:
  "(\<And>i. i \<in> set is \<Longrightarrow> o' + n \<le> off + 4 * i \<or> off + 4 * i + 4 \<le> o') \<Longrightarrow>
   num_at (put_zones bh off z is bc) bh o' n = num_at bc bh o' n"
  by (induction bh off z "is" bc rule: put_zones.induct) (simp_all add: num_at_put_disjoint)

lemma put_zones_word:
  "distinct is \<Longrightarrow> i \<in> set is \<Longrightarrow> num_at (put_zones bh off z is bc) bh (off + 4 * i) 4 = u32 (z i)"
proof (induction bh off z "is" bc rule: put_zones.induct)
  case (2 bh off z j js bc)
  show ?case
  proof (cases "i = j")
    case True
    then have "off + 4 * i + 4 \<le> off + 4 * x \<or> off + 4 * x + 4 \<le> off + 4 * i" if "x \<in> set js" for x
    proof -
      have "x \<noteq> i" using that "2.prems"(1) True by auto
      then show ?thesis by linarith
    qed
    then have "num_at (put_zones bh off z js (put_num bc bh (off + 4 * j) 4 (z j))) bh (off + 4 * i) 4 =
        num_at (put_num bc bh (off + 4 * j) 4 (z j)) bh (off + 4 * i) 4"
      by (intro put_zones_other) simp
    then show ?thesis using True by (simp add: u32_def)
  next
    case False
    then show ?thesis using 2 by simp
  qed
qed simp

section \<open>The slot of an inode\<close>

definition inode_slot :: "fs \<Rightarrow> nat \<Rightarrow> nat \<times> nat" where
  "inode_slot s ino = (let n = s_blocksize (fs_sb s) div 64 in
     (2 + s_imap_blocks (fs_info s) + s_zmap_blocks (fs_info s) + (ino - 1) div n, ((ino - 1) mod n) * 64))"

lemma raw_inode_slot:
  "cominix_V2_raw_inode s ino =
     (if ino = 0 \<or> s_ninodes (fs_info s) < ino \<or> \<not> breadable (fs_bufs s) (fst (inode_slot s ino)) then None
      else Some (inode_slot s ino))"
  by (simp add: cominix_V2_raw_inode_def inode_slot_def cominix_sb_def Let_def sb_bread_def)

lemma inode_slot_inj:
  assumes "0 < i" "0 < j" "i \<noteq> j" "64 \<le> s_blocksize (fs_sb s)"
  shows "fst (inode_slot s i) \<noteq> fst (inode_slot s j) \<or>
    snd (inode_slot s i) + 64 \<le> snd (inode_slot s j) \<or> snd (inode_slot s j) + 64 \<le> snd (inode_slot s i)"
proof (cases "(i - 1) div (s_blocksize (fs_sb s) div 64) = (j - 1) div (s_blocksize (fs_sb s) div 64)")
  case True
  let ?n = "s_blocksize (fs_sb s) div 64"
  have "(i - 1) mod ?n \<noteq> (j - 1) mod ?n"
  proof
    assume "(i - 1) mod ?n = (j - 1) mod ?n"
    with True have "i - 1 = j - 1" by (metis div_mult_mod_eq)
    with assms show False by simp
  qed
  then have "(i - 1) mod ?n * 64 + 64 \<le> (j - 1) mod ?n * 64 \<or> (j - 1) mod ?n * 64 + 64 \<le> (i - 1) mod ?n * 64"
    by linarith
  then show ?thesis by (simp add: inode_slot_def Let_def)
qed (simp add: inode_slot_def Let_def)

lemma update_inode_total:
  assumes "0 < i_ino ino" "i_ino ino \<le> s_ninodes (fs_info s)" "breadable (fs_bufs s) (fst (inode_slot s (i_ino ino)))"
  shows "\<exists>t. V2_cominix_update_inode k s ino = Some (t, fst (inode_slot s (i_ino ino)))"
proof -
  obtain b off where "inode_slot s (i_ino ino) = (b, off)" by fastforce
  then show ?thesis
    using assms by (simp add: V2_cominix_update_inode_def raw_inode_slot Let_def del: put_zones.simps upt_Suc)
qed

lemma update_inode_frame:
  assumes "V2_cominix_update_inode k s ino = Some (s', bh)"
  shows "fs_sb s' = fs_sb s" "fs_info s' = fs_info s" "breadable (fs_bufs s') = breadable (fs_bufs s)"
    and "bdisk (fs_bufs s') = bdisk (fs_bufs s)" "bdirty (fs_bufs s') = insert bh (bdirty (fs_bufs s))"
    and "inode_slot s (i_ino ino) = (bh, snd (inode_slot s (i_ino ino)))"
    and "b \<noteq> bh \<Longrightarrow> bdata (fs_bufs s') b = bdata (fs_bufs s) b"
    and "o' + n \<le> snd (inode_slot s (i_ino ino)) \<or> snd (inode_slot s (i_ino ino)) + 64 \<le> o' \<Longrightarrow>
      num_at (fs_bufs s') bh o' n = num_at (fs_bufs s) bh o' n"
proof -
  obtain b off where sl: "inode_slot s (i_ino ino) = (b, off)" by fastforce
  have bh: "b = bh" and u: "V2_cominix_update_inode k s ino = Some (s', bh)"
    using assms sl by (auto simp: V2_cominix_update_inode_def raw_inode_slot Let_def split: if_splits)
  show "fs_sb s' = fs_sb s" "fs_info s' = fs_info s" "breadable (fs_bufs s') = breadable (fs_bufs s)"
    "bdisk (fs_bufs s') = bdisk (fs_bufs s)" "bdirty (fs_bufs s') = insert bh (bdirty (fs_bufs s))"
    "inode_slot s (i_ino ino) = (bh, snd (inode_slot s (i_ino ino)))"
    using u sl bh by (auto simp: V2_cominix_update_inode_def raw_inode_slot Let_def split: if_splits)
  show "bdata (fs_bufs s') b = bdata (fs_bufs s) b" if "b \<noteq> bh" for b
    using u sl bh that by (auto simp: V2_cominix_update_inode_def raw_inode_slot Let_def split: if_splits)
  show "num_at (fs_bufs s') bh o' n = num_at (fs_bufs s) bh o' n"
    if "o' + n \<le> snd (inode_slot s (i_ino ino)) \<or> snd (inode_slot s (i_ino ino)) + 64 \<le> o'"
  proof -
    have o: "o' + n \<le> off \<or> off + 64 \<le> o'" using that sl by simp
    have z: "num_at (put_zones bh (off + 24) (i2_data ino) [0..<10] bc) bh o' n = num_at bc bh o' n" for bc
      by (rule put_zones_other) (use o in auto)
    have w: "num_at (put_num bc bh a m v) bh o' n = num_at bc bh o' n" if "off \<le> a" "a + m \<le> off + 64" for bc a m v
      by (rule num_at_put_disjoint) (use o that in auto)
    show ?thesis
      using u sl bh by (auto simp: V2_cominix_update_inode_def raw_inode_slot Let_def w z split: if_splits)
  qed
qed

text \<open>The fields read back after a write.\<close>

lemma update_inode_fields:
  assumes u: "V2_cominix_update_inode k s ino = Some (s', bh)"
    and d: "\<not> S_ISCHR (i_mode ino)" "\<not> S_ISBLK (i_mode ino)"
  defines "off \<equiv> snd (inode_slot s (i_ino ino))"
  shows "num_at (fs_bufs s') bh off 2 = u16 (i_mode ino)"
    and "num_at (fs_bufs s') bh (off + 2) 2 = u16 (i_nlink ino)"
    and "num_at (fs_bufs s') bh (off + 4) 2 = u16 (k_high2lowuid k (i_uid ino))"
    and "num_at (fs_bufs s') bh (off + 6) 2 = u16 (k_high2lowgid k (i_gid ino))"
    and "num_at (fs_bufs s') bh (off + 8) 4 = u32 (i_size ino)"
    and "num_at (fs_bufs s') bh (off + 12) 4 = u32 (i_atime ino)"
    and "num_at (fs_bufs s') bh (off + 16) 4 = u32 (i_mtime ino)"
    and "num_at (fs_bufs s') bh (off + 20) 4 = u32 (i_ctime ino)"
    and "i < 10 \<Longrightarrow> num_at (fs_bufs s') bh (off + 24 + 4 * i) 4 = u32 (i_data ino i)"
proof -
  let ?bc7 = "put_num (put_num (put_num (put_num (put_num (put_num (put_num (put_num (fs_bufs s) bh off 2 (i_mode ino))
      bh (off + 4) 2 (k_high2lowuid k (i_uid ino))) bh (off + 6) 2 (k_high2lowgid k (i_gid ino)))
      bh (off + 2) 2 (i_nlink ino)) bh (off + 8) 4 (i_size ino)) bh (off + 16) 4 (i_mtime ino))
      bh (off + 12) 4 (i_atime ino)) bh (off + 20) 4 (i_ctime ino)"
  have s': "fs_bufs s' = mark_buffer_dirty (put_zones bh (off + 24) (i2_data ino) [0..<10] ?bc7) bh"
    using u d by (auto simp: V2_cominix_update_inode_def raw_inode_slot Let_def off_def
        simp del: put_zones.simps upt_Suc split: if_splits prod.splits)
  have z: "num_at (fs_bufs s') bh o' n = num_at ?bc7 bh o' n" if "o' + n \<le> off + 24" for o' n
    unfolding s' num_at_mark by (rule put_zones_other) (use that in auto)
  show "num_at (fs_bufs s') bh off 2 = u16 (i_mode ino)"
    "num_at (fs_bufs s') bh (off + 2) 2 = u16 (i_nlink ino)"
    "num_at (fs_bufs s') bh (off + 4) 2 = u16 (k_high2lowuid k (i_uid ino))"
    "num_at (fs_bufs s') bh (off + 6) 2 = u16 (k_high2lowgid k (i_gid ino))"
    "num_at (fs_bufs s') bh (off + 8) 4 = u32 (i_size ino)"
    "num_at (fs_bufs s') bh (off + 12) 4 = u32 (i_atime ino)"
    "num_at (fs_bufs s') bh (off + 16) 4 = u32 (i_mtime ino)"
    "num_at (fs_bufs s') bh (off + 20) 4 = u32 (i_ctime ino)"
    by (simp_all add: z num_at_put_disjoint u16_def u32_def)
  show "num_at (fs_bufs s') bh (off + 24 + 4 * i) 4 = u32 (i_data ino i)" if "i < 10"
    unfolding s' num_at_mark i_data_def by (rule put_zones_word) (use that in auto)
qed

text \<open>An inode whose fields fit their places on disk.\<close>

definition disk_fits :: "kernel \<Rightarrow> inode \<Rightarrow> bool" where
  "disk_fits k ino \<longleftrightarrow> i_mode ino < 2 ^ 16 \<and> 0 < i_nlink ino \<and> i_nlink ino < 2 ^ 16 \<and>
     k_high2lowuid k (i_uid ino) = i_uid ino \<and> i_uid ino < 2 ^ 16 \<and>
     k_high2lowgid k (i_gid ino) = i_gid ino \<and> i_gid ino < 2 ^ 16 \<and>
     i_size ino < 2 ^ 32 \<and> i_atime ino < 2 ^ 32 \<and> i_mtime ino < 2 ^ 32 \<and> i_ctime ino < 2 ^ 32 \<and>
     (\<forall>i < 10. i_data ino i < 2 ^ 32) \<and> \<not> S_ISCHR (i_mode ino) \<and> \<not> S_ISBLK (i_mode ino)"

lemma set_inode_fields:
  assumes "S_ISREG (i_mode ino) \<or> S_ISDIR (i_mode ino) \<or> S_ISLNK (i_mode ino)"
  shows "i_mode (cominix_set_inode k ino d) = i_mode ino" "i_uid (cominix_set_inode k ino d) = i_uid ino"
    "i_gid (cominix_set_inode k ino d) = i_gid ino" "i_nlink (cominix_set_inode k ino d) = i_nlink ino"
    "i_size (cominix_set_inode k ino d) = i_size ino" "i_mtime (cominix_set_inode k ino d) = i_mtime ino"
    "i_atime (cominix_set_inode k ino d) = i_atime ino" "i_ctime (cominix_set_inode k ino d) = i_ctime ino"
    "i_ino (cominix_set_inode k ino d) = i_ino ino" "i_data (cominix_set_inode k ino d) = i_data ino"
  using assms by (auto simp: cominix_set_inode_def Let_def i_data_def)

lemma set_inode_regular:
  "S_ISREG (i_mode ino) \<Longrightarrow> i_fop (cominix_set_inode k ino d) =
     (if inode_is_chunked ino then Chunked_file_ops else Cominix_file_ops)"
  by (simp add: cominix_set_inode_def Let_def inode_is_chunked_def i_data_def)

text \<open>A regular file read back from its slot.\<close>

lemma iget_regular:
  assumes u: "V2_cominix_update_inode k s ino = Some (s', bh)" and m: "S_ISREG (i_mode ino)" "i_mode ino < 2 ^ 16"
    and n: "u16 (i_nlink ino) \<noteq> 0" and z: "i_size ino < 2 ^ 32" "\<And>i. i < 10 \<Longrightarrow> i_data ino i < 2 ^ 32"
    and b: "i_ino base = i_ino ino"
  shows "\<exists>r. V2_cominix_iget k s' base = Inr r \<and> i_mode r = i_mode ino \<and> i_size r = i_size ino \<and>
    (\<forall>i < 10. i_data r i = i_data ino i)"
proof -
  note F = update_inode_frame [OF u]
  have d: "\<not> S_ISCHR (i_mode ino)" "\<not> S_ISBLK (i_mode ino)" using m(1) by (auto simp: S_ISREG_def S_ISCHR_def S_ISBLK_def)
  let ?off = "snd (inode_slot s (i_ino ino))"
  have raw0: "cominix_V2_raw_inode s (i_ino ino) = Some (bh, ?off)"
    using u F(6) by (auto simp: V2_cominix_update_inode_def raw_inode_slot Let_def split: if_splits)
  have sl: "inode_slot s' i = inode_slot s i" for i using F(1,2) by (simp add: inode_slot_def)
  have raw: "cominix_V2_raw_inode s' (i_ino base) = Some (bh, ?off)"
    using raw0 F(1,2,3) b by (auto simp: raw_inode_slot sl split: if_splits)
  note W = update_inode_fields [OF u d]
  let ?r = "base\<lparr>i_mode := u16 (i_mode ino), i_uid := u16 (k_high2lowuid k (i_uid ino)),
      i_gid := u16 (k_high2lowgid k (i_gid ino)), i_nlink := u16 (i_nlink ino), i_size := u32 (i_size ino),
      i_mtime := u32 (i_mtime ino), i_atime := u32 (i_atime ino), i_ctime := u32 (i_ctime ino),
      i2_data := (\<lambda>i. if i < 10 then num_at (fs_bufs s') bh (?off + 24 + 4 * i) 4 else i2_data base i)\<rparr>"
  obtain dev where g: "V2_cominix_iget k s' base = Inr (cominix_set_inode k ?r dev)"
    unfolding V2_cominix_iget_def raw option.case prod.case Let_def W(1-8) using n by simp
  have mr: "i_mode ?r = i_mode ino" using m(2) by (simp add: u16_id)
  then have sr: "S_ISREG (i_mode ?r) \<or> S_ISDIR (i_mode ?r) \<or> S_ISLNK (i_mode ?r)" using m(1) by simp
  have "i_data ?r i = i_data ino i" if "i < 10" for i
    using W(9) [OF that] z(2) [OF that] that by (simp add: i_data_def u32_id)
  with g mr z(1) set_inode_fields [OF sr, of k dev] show ?thesis by (simp add: u32_id)
qed

text \<open>An inode whose fields fit is read back as it was.\<close>

lemma iget_after_update:
  assumes u: "V2_cominix_update_inode k s ino = Some (s', bh)" and f: "disk_fits k ino"
    and b: "i_ino base = i_ino ino"
  shows "V2_cominix_iget k s' base = Inr (cominix_set_inode k
    (base\<lparr>i_mode := i_mode ino, i_uid := i_uid ino, i_gid := i_gid ino, i_nlink := i_nlink ino,
      i_size := i_size ino, i_mtime := i_mtime ino, i_atime := i_atime ino, i_ctime := i_ctime ino,
      i2_data := (\<lambda>i. if i < 10 then i_data ino i else i2_data base i)\<rparr>)
    (k_old_decode_dev k (u16 (i_data ino 0))))"
proof -
  note F = update_inode_frame [OF u]
  have d: "\<not> S_ISCHR (i_mode ino)" "\<not> S_ISBLK (i_mode ino)" using f by (simp_all add: disk_fits_def)
  let ?off = "snd (inode_slot s (i_ino ino))"
  have raw0: "cominix_V2_raw_inode s (i_ino ino) = Some (bh, ?off)"
    using u F(6) by (auto simp: V2_cominix_update_inode_def raw_inode_slot Let_def split: if_splits)
  have sl: "inode_slot s' i = inode_slot s i" for i using F(1,2) by (simp add: inode_slot_def)
  have raw: "cominix_V2_raw_inode s' (i_ino base) = Some (bh, ?off)"
    using raw0 F(1,2,3) b by (auto simp: raw_inode_slot sl split: if_splits)
  note W = update_inode_fields [OF u d]
  have z0: "num_at (fs_bufs s') bh (?off + 24) 4 = i_data ino 0" using W(9) [of 0] f by (simp add: u32_id disk_fits_def)
  have zi: "(\<lambda>i. if i < 10 then num_at (fs_bufs s') bh (?off + 24 + 4 * i) 4 else i2_data base i) =
      (\<lambda>i. if i < 10 then i_data ino i else i2_data base i)"
    using W(9) f by (auto simp: u32_id disk_fits_def)
  have r: "u16 (i_mode ino) = i_mode ino" "u16 (i_nlink ino) = i_nlink ino" "u16 (k_high2lowuid k (i_uid ino)) = i_uid ino"
      "u16 (k_high2lowgid k (i_gid ino)) = i_gid ino" "u32 (i_size ino) = i_size ino" "u32 (i_atime ino) = i_atime ino"
      "u32 (i_mtime ino) = i_mtime ino" "u32 (i_ctime ino) = i_ctime ino" "0 < i_nlink ino"
    using f by (simp_all add: disk_fits_def u16_id u32_id)
  show ?thesis
    unfolding V2_cominix_iget_def raw option.case prod.case Let_def W(1-8) r z0 zi using r(9) by simp
qed

lemma iget_cong:
  assumes "inode_slot t = inode_slot s" "s_ninodes (fs_info t) = s_ninodes (fs_info s)"
    "breadable (fs_bufs t) = breadable (fs_bufs s)"
    and b: "bdata (fs_bufs t) (fst (inode_slot s (i_ino base))) = bdata (fs_bufs s) (fst (inode_slot s (i_ino base)))"
  shows "V2_cominix_iget k t base = V2_cominix_iget k s base"
proof -
  have raw: "cominix_V2_raw_inode t (i_ino base) = cominix_V2_raw_inode s (i_ino base)"
    using assms(1-3) by (simp add: raw_inode_slot)
  show ?thesis
  proof (cases "cominix_V2_raw_inode s (i_ino base)")
    case None
    then show ?thesis using raw by (simp add: V2_cominix_iget_def)
  next
    case (Some p)
    then have p: "p = inode_slot s (i_ino base)" by (simp add: raw_inode_slot split: if_splits)
    obtain bh off where bo: "inode_slot s (i_ino base) = (bh, off)" by fastforce
    have n: "num_at (fs_bufs t) bh o' m = num_at (fs_bufs s) bh o' m" for o' m
      using num_at_other_block [of "fs_bufs t" bh "fs_bufs s"] b bo by simp
    show ?thesis unfolding V2_cominix_iget_def raw Some p bo option.case prod.case Let_def n by simp
  qed
qed

lemma iget_other_after_update:
  assumes u: "V2_cominix_update_inode k s ino = Some (s', bh)" and n: "i_ino other \<noteq> i_ino ino"
    and sz: "64 \<le> s_blocksize (fs_sb s)"
  shows "V2_cominix_iget k s' other = V2_cominix_iget k s other"
proof -
  note F = update_inode_frame [OF u]
  have sl: "inode_slot s' i = inode_slot s i" for i using F(1,2) by (simp add: inode_slot_def)
  have raw: "cominix_V2_raw_inode s' (i_ino other) = cominix_V2_raw_inode s (i_ino other)"
    using F(1-3) by (simp add: raw_inode_slot sl)
  show ?thesis
  proof (cases "cominix_V2_raw_inode s (i_ino other)")
    case None
    then show ?thesis using raw by (simp add: V2_cominix_iget_def)
  next
    case (Some p)
    obtain b off where p: "p = (b, off)" by fastforce
    have so: "inode_slot s (i_ino other) = (b, off)" "0 < i_ino other" "0 < i_ino ino"
      using Some p u by (auto simp: raw_inode_slot V2_cominix_update_inode_def split: if_splits)
    have dis: "b \<noteq> bh \<or> off + 64 \<le> snd (inode_slot s (i_ino ino)) \<or> snd (inode_slot s (i_ino ino)) + 64 \<le> off"
      using inode_slot_inj [OF so(2,3) n sz] so(1) F(6) by (metis fst_conv snd_conv)
    have e: "num_at (fs_bufs s') b (off + i) m = num_at (fs_bufs s) b (off + i) m" if "i + m \<le> 64" for i m
    proof (cases "b = bh")
      case True
      then show ?thesis using dis that by (auto intro!: F(8))
    next
      case False
      then show ?thesis by (intro num_at_other_block F(7))
    qed
    have e0: "num_at (fs_bufs s') b off 2 = num_at (fs_bufs s) b off 2" using e [of 0 2] by simp
    have e2: "num_at (fs_bufs s') b (off + 2) 2 = num_at (fs_bufs s) b (off + 2) 2" by (rule e) simp
    have ez: "(\<lambda>i. if i < 10 then num_at (fs_bufs s') b (off + 24 + 4 * i) 4 else i2_data other i) =
        (\<lambda>i. if i < 10 then num_at (fs_bufs s) b (off + 24 + 4 * i) 4 else i2_data other i)"
      using e [of "24 + 4 * _" 4] by (auto simp: add.assoc)
    show ?thesis
      unfolding V2_cominix_iget_def raw Some p option.case prod.case Let_def e0 e2 ez by (simp add: e)
  qed
qed

end
