(* ===== verification/Dir.thy ===== *)
theory Dir
  imports Inode
begin

text \<open>
  dir.c: directories as arrays of fixed-size entries in the pages of the directory's file. An
  in-memory inode is addressed by its number (the inode cache holds one per number), so two
  arguments that are the same directory are the same inode here as well. The page cache gives
  the bytes of every page. A pointer into a folio is a page number and an offset. What the
  kernel does (reading pages, \<open>__block_write_begin\<close>, writing back) is a record of functions.
  Loops over a page are partial functions: \<open>None\<close> is a loop that does not end.
\<close>

section \<open>State\<close>

text \<open>\<open>v_written\<close> records the ranges given to \<open>block_write_end\<close>: inode, position, length.
  \<open>v_dcache\<close> is what a dentry, given by its parent directory and its name, refers to.\<close>

record vfs =
  v_fs :: fs
  v_inode :: "nat \<Rightarrow> inode"
  v_page :: "nat \<Rightarrow> nat \<Rightarrow> nat \<Rightarrow> byte"
  v_written :: "(nat \<times> nat \<times> nat) list"
  v_dcache :: "nat \<Rightarrow> byte list \<Rightarrow> nat option"

text \<open>\<open>de_read_folio\<close> is the error of \<open>read_mapping_folio\<close> for an inode and a page, \<open>de_grab\<close>
  that of \<open>filemap_grab_folio\<close>, \<open>de_write_begin\<close> is \<open>__block_write_begin\<close> with the block mapping
  of this file system, \<open>de_write_wait\<close> and \<open>de_sync_meta\<close> are \<open>filemap_write_and_wait\<close> and
  \<open>sync_inode_metadata\<close>.\<close>

record dir_env =
  de_read_folio :: "nat \<Rightarrow> nat \<Rightarrow> errno option"
  de_grab :: "nat \<Rightarrow> nat \<Rightarrow> errno option"
  de_write_begin :: "vfs \<Rightarrow> nat \<Rightarrow> nat \<Rightarrow> nat \<Rightarrow> vfs \<times> errno option"
  de_write_wait :: "vfs \<Rightarrow> nat \<Rightarrow> vfs \<times> errno option"
  de_sync_meta :: "vfs \<Rightarrow> nat \<Rightarrow> vfs \<times> errno option"
  de_now :: nat

definition v_sbi :: "vfs \<Rightarrow> cominix_sb_info" where
  "v_sbi v = cominix_sb (v_fs v)"

definition upd_inode :: "vfs \<Rightarrow> nat \<Rightarrow> (inode \<Rightarrow> inode) \<Rightarrow> vfs" where
  "upd_inode v a f = v\<lparr>v_inode := (v_inode v)(a := f (v_inode v a))\<rparr>"

definition put_page :: "vfs \<Rightarrow> nat \<Rightarrow> nat \<Rightarrow> nat \<Rightarrow> byte list \<Rightarrow> vfs" where
  "put_page v a n p xs = v\<lparr>v_page := (v_page v)(a := (v_page v a)(n :=
     (\<lambda>o'. if p \<le> o' \<and> o' < p + length xs then xs ! (o' - p) else v_page v a n o')))\<rparr>"

section \<open>Pages and entries\<close>

definition PAGE_SHIFT :: nat where "PAGE_SHIFT = 12"
definition PAGE_SIZE :: nat where "PAGE_SIZE = 4096"

definition dir_pages :: "inode \<Rightarrow> nat" where
  "dir_pages ino = drop_bit PAGE_SHIFT (i_size ino + PAGE_SIZE - 1)"

definition cominix_last_byte :: "inode \<Rightarrow> nat \<Rightarrow> nat" where
  "cominix_last_byte ino page_nr =
     (if page_nr = drop_bit PAGE_SHIFT (i_size ino) then i_size ino AND (PAGE_SIZE - 1) else PAGE_SIZE)"

text \<open>An entry is the inode number, four bytes wide in version 3 and two before, and the name.\<close>

definition ino_width :: "cominix_sb_info \<Rightarrow> nat" where
  "ino_width sbi = (if s_version sbi = MINIX_V3 then 4 else 2)"

definition de_inode :: "cominix_sb_info \<Rightarrow> (nat \<Rightarrow> byte) \<Rightarrow> nat \<Rightarrow> nat" where
  "de_inode sbi page p = le_num (map page [p..<p + ino_width sbi])"

definition de_name :: "cominix_sb_info \<Rightarrow> (nat \<Rightarrow> byte) \<Rightarrow> nat \<Rightarrow> nat \<Rightarrow> byte" where
  "de_name sbi page p k = page (p + ino_width sbi + k)"

definition set_de_inode :: "vfs \<Rightarrow> nat \<Rightarrow> nat \<Rightarrow> nat \<Rightarrow> nat \<Rightarrow> vfs" where
  "set_de_inode v a n p ino = put_page v a n p (le_bytes (ino_width (v_sbi v)) ino)"

definition dir_get_folio :: "dir_env \<Rightarrow> vfs \<Rightarrow> nat \<Rightarrow> nat \<Rightarrow> errno + (nat \<Rightarrow> byte)" where
  "dir_get_folio de v a n = (case de_read_folio de a n of Some e \<Rightarrow> Inl e | None \<Rightarrow> Inr (v_page v a n))"

definition cominix_next_entry :: "nat \<Rightarrow> cominix_sb_info \<Rightarrow> nat" where
  "cominix_next_entry p sbi = p + s_dirsize sbi"

definition namecompare :: "nat \<Rightarrow> byte list \<Rightarrow> (nat \<Rightarrow> byte) \<Rightarrow> bool" where
  "namecompare maxlen name buffer =
     (if length name < maxlen \<and> buffer (length name) \<noteq> 0 then False
      else name = map buffer [0..<length name])"

definition strnlen :: "(nat \<Rightarrow> byte) \<Rightarrow> nat \<Rightarrow> nat" where
  "strnlen s maxlen = length (takeWhile (\<lambda>b. b \<noteq> 0) (map s [0..<maxlen]))"

section \<open>Reading a directory\<close>

text \<open>One page of \<open>cominix_readdir\<close>. \<open>emit\<close> is \<open>dir_emit\<close>: given what was emitted before, whether
  the next item still fits; the kernel's function also gets \<open>ctx->pos\<close>, which is left out. The result has the items, \<open>ctx->pos\<close> and whether it was stopped.\<close>

type_synonym dir_item = "byte list \<times> nat"

partial_function (option) readdir_page ::
    "cominix_sb_info \<Rightarrow> (dir_item list \<Rightarrow> dir_item \<Rightarrow> bool) \<Rightarrow> (nat \<Rightarrow> byte) \<Rightarrow> nat \<Rightarrow> nat \<Rightarrow>
     dir_item list \<Rightarrow> nat \<Rightarrow> (dir_item list \<times> nat \<times> bool) option" where
  "readdir_page sbi emit page last_byte p out pos =
     (if p + s_dirsize sbi \<le> last_byte then
        let inumber = de_inode sbi page p; name = de_name sbi page p;
            item = (map name [0..<strnlen name (s_namelen sbi)], inumber) in
        if inumber \<noteq> 0 then
          if \<not> emit out item then Some (out, pos, True)
          else readdir_page sbi emit page last_byte (cominix_next_entry p sbi) (out @ [item]) (pos + s_dirsize sbi)
        else readdir_page sbi emit page last_byte (cominix_next_entry p sbi) out (pos + s_dirsize sbi)
      else Some (out, pos, False))"

function readdir_pages ::
    "dir_env \<Rightarrow> vfs \<Rightarrow> nat \<Rightarrow> (dir_item list \<Rightarrow> dir_item \<Rightarrow> bool) \<Rightarrow> nat \<Rightarrow> nat \<Rightarrow> nat \<Rightarrow>
     dir_item list \<Rightarrow> nat \<Rightarrow> (dir_item list \<times> nat) option" where
  "readdir_pages de v a emit npages n offset out pos =
     (if n < npages then
        (case dir_get_folio de v a n of
           Inl e \<Rightarrow> readdir_pages de v a emit npages (Suc n) 0 out pos
         | Inr page \<Rightarrow>
             (case readdir_page (v_sbi v) emit page (cominix_last_byte (v_inode v a) n) offset out pos of
                None \<Rightarrow> None
              | Some (out', pos', stopped) \<Rightarrow>
                  if stopped then Some (out', pos')
                  else readdir_pages de v a emit npages (Suc n) 0 out' pos'))
      else Some (out, pos))"
  by pat_completeness auto
termination
  by (relation "measure (\<lambda>(de, v, a, emit, npages, n, offset, out, pos). npages - n)") auto

declare readdir_pages.simps [simp del]

text \<open>\<open>ALIGN\<close> rounds up to a multiple of a power of two with a mask, in \<open>unsigned long\<close>.\<close>

definition align64 :: "nat \<Rightarrow> nat \<Rightarrow> nat" where
  "align64 x a = (let m = u64 (u32 a + (2 ^ 64 - 1)) in u64 (x + m) AND (2 ^ 64 - 1 - m))"

definition cominix_readdir ::
    "dir_env \<Rightarrow> vfs \<Rightarrow> nat \<Rightarrow> (dir_item list \<Rightarrow> dir_item \<Rightarrow> bool) \<Rightarrow> nat \<Rightarrow> (dir_item list \<times> nat) res" where
  "cominix_readdir de v a emit ctx_pos =
     (let ino = v_inode v a; pos = align64 ctx_pos (s_dirsize (v_sbi v)) in
      if i_size ino \<le> pos then Inr ([], pos)
      else (case readdir_pages de v a emit (dir_pages ino) (drop_bit PAGE_SHIFT pos)
                (pos AND (PAGE_SIZE - 1)) [] pos of
          None \<Rightarrow> Inl Diverge | Some r \<Rightarrow> Inr r))"

section \<open>Finding an entry\<close>

partial_function (option) find_in_page ::
    "cominix_sb_info \<Rightarrow> byte list \<Rightarrow> (nat \<Rightarrow> byte) \<Rightarrow> nat \<Rightarrow> nat \<Rightarrow> nat option option" where
  "find_in_page sbi name page last_byte p =
     (if p + s_dirsize sbi \<le> last_byte then
        if de_inode sbi page p \<noteq> 0 \<and> namecompare (s_namelen sbi) name (de_name sbi page p) then Some (Some p)
        else find_in_page sbi name page last_byte (cominix_next_entry p sbi)
      else Some None)"

text \<open>A page that cannot be read is skipped.\<close>

function find_pages ::
    "dir_env \<Rightarrow> vfs \<Rightarrow> nat \<Rightarrow> byte list \<Rightarrow> nat \<Rightarrow> nat \<Rightarrow> (nat \<times> nat) option option" where
  "find_pages de v a name npages n =
     (if n < npages then
        (case dir_get_folio de v a n of
           Inl e \<Rightarrow> find_pages de v a name npages (Suc n)
         | Inr page \<Rightarrow>
             (case find_in_page (v_sbi v) name page (cominix_last_byte (v_inode v a) n) 0 of
                None \<Rightarrow> None
              | Some (Some p) \<Rightarrow> Some (Some (n, p))
              | Some None \<Rightarrow> find_pages de v a name npages (Suc n)))
      else Some None)"
  by pat_completeness auto
termination
  by (relation "measure (\<lambda>(de, v, a, name, npages, n). npages - n)") auto

declare find_pages.simps [simp del]

definition cominix_find_entry :: "dir_env \<Rightarrow> vfs \<Rightarrow> nat \<Rightarrow> byte list \<Rightarrow> (nat \<times> nat) option res" where
  "cominix_find_entry de v a name =
     (case find_pages de v a name (dir_pages (v_inode v a)) 0 of None \<Rightarrow> Inl Diverge | Some r \<Rightarrow> Inr r)"

definition cominix_inode_by_name :: "dir_env \<Rightarrow> vfs \<Rightarrow> nat \<Rightarrow> byte list \<Rightarrow> nat res" where
  "cominix_inode_by_name de v a name =
     bindE (cominix_find_entry de v a name) (\<lambda>r.
     Inr (case r of None \<Rightarrow> 0 | Some (n, p) \<Rightarrow> de_inode (v_sbi v) (v_page v a n) p))"

definition cominix_dotdot :: "dir_env \<Rightarrow> vfs \<Rightarrow> nat \<Rightarrow> (nat \<times> nat) option" where
  "cominix_dotdot de v a =
     (case dir_get_folio de v a 0 of Inl e \<Rightarrow> None | Inr page \<Rightarrow> Some (0, cominix_next_entry 0 (v_sbi v)))"

section \<open>Changing a directory\<close>

definition cominix_prepare_chunk :: "dir_env \<Rightarrow> vfs \<Rightarrow> nat \<Rightarrow> nat \<Rightarrow> nat \<Rightarrow> vfs \<times> errno option" where
  "cominix_prepare_chunk de v a pos len = de_write_begin de v a pos len"

definition dir_commit_chunk :: "vfs \<Rightarrow> nat \<Rightarrow> nat \<Rightarrow> nat \<Rightarrow> vfs" where
  "dir_commit_chunk v a pos len =
     (let v' = v\<lparr>v_written := v_written v @ [(a, pos, len)]\<rparr> in
      if i_size (v_inode v a) < pos + len
      then upd_inode v' a (\<lambda>ino. mark_inode_dirty (ino\<lparr>i_size := pos + len\<rparr>)) else v')"

definition cominix_handle_dirsync :: "dir_env \<Rightarrow> vfs \<Rightarrow> nat \<Rightarrow> vfs \<times> errno option" where
  "cominix_handle_dirsync de v a =
     (let (v1, err) = de_write_wait de v a in
      if err = None then de_sync_meta de v1 a else (v1, err))"

text \<open>\<open>inode_set_mtime_to_ts (dir, inode_set_ctime_current (dir))\<close> and \<open>mark_inode_dirty\<close>.\<close>

definition touch_dir :: "dir_env \<Rightarrow> vfs \<Rightarrow> nat \<Rightarrow> vfs" where
  "touch_dir de v a =
     upd_inode v a (\<lambda>ino. mark_inode_dirty (ino\<lparr>i_ctime := de_now de, i_mtime := de_now de\<rparr>))"

text \<open>Where \<open>cominix_add_link\<close> stops in a page: at \<open>i_size\<close>, at an unused entry, at an entry of
  that name, or at the end of the page.\<close>

datatype slot_found = Slot_end nat | Slot_free nat | Slot_exists | Slot_none

partial_function (option) add_in_page ::
    "cominix_sb_info \<Rightarrow> byte list \<Rightarrow> (nat \<Rightarrow> byte) \<Rightarrow> nat \<Rightarrow> nat \<Rightarrow> slot_found option" where
  "add_in_page sbi name page dir_end p =
     (if p + s_dirsize sbi \<le> PAGE_SIZE then
        if p = dir_end then Some (Slot_end p)
        else if de_inode sbi page p = 0 then Some (Slot_free p)
        else if namecompare (s_namelen sbi) name (de_name sbi page p) then Some Slot_exists
        else add_in_page sbi name page dir_end (cominix_next_entry p sbi)
      else Some Slot_none)"

text \<open>Past the last page the code is at \<open>BUG ()\<close>.\<close>

function add_pages ::
    "dir_env \<Rightarrow> vfs \<Rightarrow> nat \<Rightarrow> byte list \<Rightarrow> nat \<Rightarrow> nat \<Rightarrow> (errno + nat \<times> slot_found) res" where
  "add_pages de v a name npages n =
     (if n \<le> npages then
        (case dir_get_folio de v a n of
           Inl e \<Rightarrow> Inr (Inl e)
         | Inr page \<Rightarrow>
             (case add_in_page (v_sbi v) name page (cominix_last_byte (v_inode v a) n) 0 of
                None \<Rightarrow> Inl Diverge
              | Some Slot_none \<Rightarrow> add_pages de v a name npages (Suc n)
              | Some found \<Rightarrow> Inr (Inr (n, found))))
      else Inl Bug)"
  by pat_completeness auto
termination
  by (relation "measure (\<lambda>(de, v, a, name, npages, n). Suc npages - n)") auto

declare add_pages.simps [simp del]

text \<open>From the label \<open>got_it\<close> on: a name too long for the entry makes the length of the
  \<open>memset\<close> negative.\<close>

definition add_at ::
    "dir_env \<Rightarrow> vfs \<Rightarrow> nat \<Rightarrow> byte list \<Rightarrow> nat \<Rightarrow> nat \<Rightarrow> nat \<Rightarrow> (vfs \<times> errno option) res" where
  "add_at de v a name ino n p =
     (let sbi = v_sbi v; w = ino_width sbi; pos = n * PAGE_SIZE + p;
          (v1, err) = cominix_prepare_chunk de v a pos (s_dirsize sbi) in
      if err \<noteq> None then Inr (v1, err)
      else if s_dirsize sbi < length name + w then Inl OutOfBounds
      else
        let v2 = put_page v1 a n (p + w) (name @ replicate (s_dirsize sbi - length name - w) 0);
            v3 = set_de_inode v2 a n p ino;
            v4 = dir_commit_chunk v3 a pos (s_dirsize sbi)
        in Inr (cominix_handle_dirsync de (touch_dir de v4 a) a))"

text \<open>\<open>b\<close> is the inode to link. At \<open>i_size\<close> the inode number of the entry is cleared before the
  page is prepared.\<close>

definition cominix_add_link :: "dir_env \<Rightarrow> vfs \<Rightarrow> nat \<Rightarrow> byte list \<Rightarrow> nat \<Rightarrow> (vfs \<times> errno option) res" where
  "cominix_add_link de v a name b =
     bindE (add_pages de v a name (dir_pages (v_inode v a)) 0) (\<lambda>r.
     case r of
       Inl e \<Rightarrow> Inr (v, Some e)
     | Inr (n, Slot_end p) \<Rightarrow> add_at de (set_de_inode v a n p 0) a name (i_ino (v_inode v b)) n p
     | Inr (n, Slot_free p) \<Rightarrow> add_at de v a name (i_ino (v_inode v b)) n p
     | Inr (n, Slot_exists) \<Rightarrow> Inr (v, Some EEXIST)
     | Inr (n, Slot_none) \<Rightarrow> Inl Bug)"

text \<open>The common body of \<open>cominix_delete_entry\<close> and \<open>cominix_set_link\<close>: storing an inode number
  in the entry at a folio pointer.\<close>

definition store_entry :: "dir_env \<Rightarrow> vfs \<Rightarrow> nat \<Rightarrow> nat \<times> nat \<Rightarrow> nat \<Rightarrow> vfs \<times> errno option" where
  "store_entry de v a e ino =
     (let (n, p) = e; len = s_dirsize (v_sbi v); pos = n * PAGE_SIZE + p;
          (v1, err) = cominix_prepare_chunk de v a pos len in
      if err \<noteq> None then (v1, err)
      else cominix_handle_dirsync de (touch_dir de (dir_commit_chunk (set_de_inode v1 a n p ino) a pos len) a) a)"

definition cominix_delete_entry :: "dir_env \<Rightarrow> vfs \<Rightarrow> nat \<Rightarrow> nat \<times> nat \<Rightarrow> vfs \<times> errno option" where
  "cominix_delete_entry de v a e = store_entry de v a e 0"

definition cominix_set_link :: "dir_env \<Rightarrow> vfs \<Rightarrow> nat \<Rightarrow> nat \<times> nat \<Rightarrow> nat \<Rightarrow> vfs \<times> errno option" where
  "cominix_set_link de v a e b = store_entry de v a e (i_ino (v_inode v b))"

text \<open>The first page of a new directory: all zero, then the entries for itself and its parent.\<close>

definition cominix_make_empty :: "dir_env \<Rightarrow> vfs \<Rightarrow> nat \<Rightarrow> nat \<Rightarrow> vfs \<times> errno option" where
  "cominix_make_empty de v a parent =
     (case de_grab de a 0 of
        Some e \<Rightarrow> (v, Some e)
      | None \<Rightarrow>
          let sbi = v_sbi v; w = ino_width sbi; len = 2 * s_dirsize sbi;
              (v1, err) = cominix_prepare_chunk de v a 0 len in
          if err \<noteq> None then (v1, err)
          else
            let v2 = put_page v1 a 0 0 (replicate PAGE_SIZE 0);
                v3 = put_page (set_de_inode v2 a 0 0 (i_ino (v_inode v2 a))) a 0 w [46, 0];
                q = cominix_next_entry 0 sbi;
                v4 = put_page (set_de_inode v3 a 0 q (i_ino (v_inode v3 parent))) a 0 (q + w) [46, 46, 0]
            in cominix_handle_dirsync de (dir_commit_chunk v4 a 0 len) a)"

section \<open>Whether a directory is empty\<close>

text \<open>The test of one used entry: \<open>True\<close> is a jump to \<open>not_empty\<close>.\<close>

definition not_dot_entry :: "nat \<Rightarrow> nat \<Rightarrow> (nat \<Rightarrow> byte) \<Rightarrow> bool" where
  "not_dot_entry self inumber name =
     (if name 0 \<noteq> 46 then True
      else if name 1 = 0 then inumber \<noteq> self
      else if name 1 \<noteq> 46 then True
      else name 2 \<noteq> 0)"

partial_function (option) empty_page ::
    "cominix_sb_info \<Rightarrow> nat \<Rightarrow> (nat \<Rightarrow> byte) \<Rightarrow> nat \<Rightarrow> nat \<Rightarrow> bool option" where
  "empty_page sbi self page last_byte p =
     (if p + s_dirsize sbi \<le> last_byte then
        if de_inode sbi page p \<noteq> 0 \<and> not_dot_entry self (de_inode sbi page p) (de_name sbi page p)
        then Some False
        else empty_page sbi self page last_byte (cominix_next_entry p sbi)
      else Some True)"

function empty_pages :: "dir_env \<Rightarrow> vfs \<Rightarrow> nat \<Rightarrow> nat \<Rightarrow> nat \<Rightarrow> bool option" where
  "empty_pages de v a npages n =
     (if n < npages then
        (case dir_get_folio de v a n of
           Inl e \<Rightarrow> empty_pages de v a npages (Suc n)
         | Inr page \<Rightarrow>
             (case empty_page (v_sbi v) (i_ino (v_inode v a)) page (cominix_last_byte (v_inode v a) n) 0 of
                None \<Rightarrow> None
              | Some False \<Rightarrow> Some False
              | Some True \<Rightarrow> empty_pages de v a npages (Suc n)))
      else Some True)"
  by pat_completeness auto
termination
  by (relation "measure (\<lambda>(de, v, a, npages, n). npages - n)") auto

declare empty_pages.simps [simp del]

definition cominix_empty_dir :: "dir_env \<Rightarrow> vfs \<Rightarrow> nat \<Rightarrow> bool res" where
  "cominix_empty_dir de v a =
     (case empty_pages de v a (dir_pages (v_inode v a)) 0 of None \<Rightarrow> Inl Diverge | Some r \<Rightarrow> Inr r)"

end
