(* ===== verification/DirSpec.thy ===== *)
theory DirSpec
  imports Dir
begin

text \<open>
  The entries of a directory as a list of pairs (inode number, name): slot \<open>i\<close> is the 64 bytes at
  offset \<open>64 * i\<close> of the file, an entry with inode number 0 is unused. The loops of dir.c over
  pages and entries are searches in that list.
\<close>

named_theorems dir_simps \<open>geometry of a version 3 directory\<close>

section \<open>Slots of a page\<close>

type_synonym entry = "nat \<times> byte list"

definition cstr :: "byte list \<Rightarrow> byte list" where
  "cstr xs = takeWhile (\<lambda>b. b \<noteq> 0) xs"

definition pslot :: "(nat \<Rightarrow> byte) \<Rightarrow> nat \<Rightarrow> entry" where
  "pslot page k = (le_num (map page [64 * k..<64 * k + 4]), cstr (map page [64 * k + 4..<64 * k + 64]))"

definition v3_dirs :: "cominix_sb_info \<Rightarrow> bool" where
  "v3_dirs sbi \<longleftrightarrow> s_version sbi = MINIX_V3 \<and> s_dirsize sbi = 64 \<and> s_namelen sbi = 60"

text \<open>A name as the VFS passes it: at most 60 bytes, none of them zero.\<close>

definition name_ok :: "byte list \<Rightarrow> bool" where
  "name_ok name \<longleftrightarrow> length name \<le> 60 \<and> 0 \<notin> set name"

abbreviation used :: "entry \<Rightarrow> bool" where "used e \<equiv> fst e \<noteq> 0"

lemma v3_dirs_sel [dir_simps]:
  assumes "v3_dirs sbi"
  shows "s_dirsize sbi = 64" "s_namelen sbi = 60" "ino_width sbi = 4"
  using assms by (simp_all add: v3_dirs_def ino_width_def)

lemma map_shift: "map (\<lambda>k. f (p + k)) [0..<n] = map f [p..<p + n]"
proof -
  have "[p..<p + n] = map (\<lambda>k. p + k) [0..<n]" by (simp add: map_add_upt add.commute)
  then show ?thesis by (simp add: comp_def)
qed

lemma de_inode_slot [dir_simps]: "v3_dirs sbi \<Longrightarrow> de_inode sbi page (64 * k) = fst (pslot page k)"
  by (simp add: de_inode_def pslot_def dir_simps)

lemma de_name_slot:
  "v3_dirs sbi \<Longrightarrow> map (de_name sbi page (64 * k)) [0..<60] = map page [64 * k + 4..<64 * k + 64]"
proof -
  assume v: "v3_dirs sbi"
  have "de_name sbi page (64 * k) = (\<lambda>j. page (64 * k + 4 + j))"
    using v by (intro ext) (simp add: de_name_def dir_simps)
  then show ?thesis using map_shift [of page "64 * k + 4" 60] by (simp add: add.commute [of "64 * k" 64])
qed

lemma cstr_eqI:
  assumes "0 \<notin> set name" "length name \<le> length xs" "take (length name) xs = name"
    and "length name < length xs \<Longrightarrow> xs ! length name = 0"
  shows "cstr xs = name"
proof (cases "length name < length xs")
  case True
  have z: "\<And>x. x \<in> set name \<Longrightarrow> x \<noteq> 0" using assms(1) by auto
  have "xs = take (length name) xs @ xs ! length name # drop (Suc (length name)) xs"
    by (rule id_take_nth_drop [OF True])
  then obtain ys where ys: "xs = name @ 0 # ys"
    unfolding assms(3) assms(4) [OF True] by blast
  show ?thesis unfolding ys cstr_def using z by (simp add: takeWhile_append2)
next
  case False
  then have "xs = name" using assms(2,3) by simp
  then show ?thesis using assms(1) by (auto simp: cstr_def takeWhile_eq_all_conv)
qed

lemma cstr_prefix: "take (length (cstr xs)) xs = cstr xs"
  unfolding cstr_def by (rule takeWhile_eq_take [symmetric])

lemma cstr_stop: "length (cstr xs) < length xs \<Longrightarrow> xs ! length (cstr xs) = 0"
  unfolding cstr_def using nth_length_takeWhile by blast

lemma cstr_length: "length (cstr xs) \<le> length xs"
  unfolding cstr_def by (rule length_takeWhile_le)

lemma cstr_no_zero: "0 \<notin> set (cstr xs)"
  unfolding cstr_def using set_takeWhileD by fastforce

text \<open>\<open>namecompare\<close> decides the equality of the name with the string in the entry.\<close>

lemma namecompare_iff:
  assumes "name_ok name"
  shows "namecompare 60 name buf \<longleftrightarrow> cstr (map buf [0..<60]) = name"
proof
  assume c: "namecompare 60 name buf"
  show "cstr (map buf [0..<60]) = name"
  proof (rule cstr_eqI)
    show "0 \<notin> set name" "length name \<le> length (map buf [0..<60])" using assms by (simp_all add: name_ok_def)
    have "name = map buf [0..<length name]" using c by (simp add: namecompare_def split: if_splits)
    then show "take (length name) (map buf [0..<60]) = name"
      using assms by (simp add: take_map name_ok_def min_def)
    show "map buf [0..<60] ! length name = 0" if "length name < length (map buf [0..<60])"
      using c that by (simp add: namecompare_def split: if_splits)
  qed
next
  assume e: "cstr (map buf [0..<60]) = name"
  have "name = map buf [0..<length name]"
    using cstr_prefix [of "map buf [0..<60]"] e cstr_length [of "map buf [0..<60]"]
    by (simp add: take_map min_def)
  moreover have "buf (length name) = 0" if "length name < 60"
    using cstr_stop [of "map buf [0..<60]"] e that by simp
  ultimately show "namecompare 60 name buf" by (simp add: namecompare_def)
qed

lemma namecompare_slot [dir_simps]:
  "v3_dirs sbi \<Longrightarrow> name_ok name \<Longrightarrow>
   namecompare 60 name (de_name sbi page (64 * k)) \<longleftrightarrow> snd (pslot page k) = name"
  by (simp add: namecompare_iff de_name_slot pslot_def)

section \<open>The entries of a directory\<close>

definition nslots :: "vfs \<Rightarrow> nat \<Rightarrow> nat" where
  "nslots v a = i_size (v_inode v a) div 64"

definition dir_slot :: "vfs \<Rightarrow> nat \<Rightarrow> nat \<Rightarrow> entry" where
  "dir_slot v a i = pslot (v_page v a (i div 64)) (i mod 64)"

definition entries :: "vfs \<Rightarrow> nat \<Rightarrow> entry list" where
  "entries v a = map (dir_slot v a) [0..<nslots v a]"

definition dir_ok :: "vfs \<Rightarrow> nat \<Rightarrow> bool" where
  "dir_ok v a \<longleftrightarrow> v3_dirs (v_sbi v) \<and> 64 dvd i_size (v_inode v a)"

text \<open>Every page of the directory can be read, and the one behind it.\<close>

definition dir_readable :: "dir_env \<Rightarrow> vfs \<Rightarrow> nat \<Rightarrow> bool" where
  "dir_readable de v a \<longleftrightarrow> (\<forall>n\<le>dir_pages (v_inode v a). de_read_folio de a n = None)"

definition pages_readable :: "dir_env \<Rightarrow> vfs \<Rightarrow> nat \<Rightarrow> bool" where
  "pages_readable de v a \<longleftrightarrow> (\<forall>n<dir_pages (v_inode v a). de_read_folio de a n = None)"

lemma dir_readable_pages [intro, simp]: "dir_readable de v a \<Longrightarrow> pages_readable de v a"
  by (simp add: dir_readable_def pages_readable_def)

lemma pages_readableD: "pages_readable de v a \<Longrightarrow> n < dir_pages (v_inode v a) \<Longrightarrow> de_read_folio de a n = None"
  by (simp add: pages_readable_def)

lemma length_entries [simp]: "length (entries v a) = nslots v a"
  by (simp add: entries_def)

lemma nth_entries [simp]: "i < nslots v a \<Longrightarrow> entries v a ! i = dir_slot v a i"
  by (simp add: entries_def)

lemma dir_okD [dir_simps]: "dir_ok v a \<Longrightarrow> v3_dirs (v_sbi v)" "dir_ok v a \<Longrightarrow> i_size (v_inode v a) = 64 * nslots v a"
  by (simp_all add: dir_ok_def nslots_def)

lemma page_before: "dir_ok v a \<Longrightarrow> n < dir_pages (v_inode v a) \<longleftrightarrow> 64 * n < nslots v a"
proof -
  assume d: "dir_ok v a"
  have "n < (64 * nslots v a + 4095) div 4096 \<longleftrightarrow> Suc n * 4096 \<le> 64 * nslots v a + 4095"
    by (simp only: Suc_le_eq [symmetric] less_eq_div_iff_mult_less_eq)
  also have "\<dots> \<longleftrightarrow> 64 * n < nslots v a" by auto
  finally show ?thesis using d
    by (simp add: dir_okD dir_pages_def PAGE_SHIFT_def PAGE_SIZE_def drop_bit_eq_div add.commute [of 4095])
qed

lemma last_byte_value:
  assumes "i_size ino = 64 * N"
  shows "cominix_last_byte ino n = (if n = N div 64 then 64 * (N mod 64) else 4096)"
proof -
  have "64 * N AND (2 ^ 12 - 1) = 64 * N mod 4096"
    using take_bit_eq_mask [of 12 "64 * N"] by (simp add: take_bit_eq_mod mask_eq_exp_minus_1)
  also have "\<dots> = 64 * (N mod 64)" using mod_mult_mult1 [of 64 N 64] by simp
  finally have m: "64 * N AND 4095 = 64 * (N mod 64)" by simp
  have d: "64 * N div 4096 = N div 64" by simp
  show ?thesis unfolding cominix_last_byte_def assms PAGE_SHIFT_def PAGE_SIZE_def drop_bit_eq_div
    using m d by simp
qed

lemma last_byte_slots:
  assumes "dir_ok v a" "64 * n \<le> nslots v a"
  shows "cominix_last_byte (v_inode v a) n = 64 * min 64 (nslots v a - 64 * n)"
proof (cases "n = nslots v a div 64")
  case True
  then have "nslots v a - 64 * n = nslots v a mod 64" by (simp add: minus_mult_div_eq_mod)
  moreover have "nslots v a mod 64 \<le> 64" by simp
  ultimately have "min 64 (nslots v a - 64 * n) = nslots v a mod 64" by simp
  then show ?thesis unfolding last_byte_value [OF dir_okD(2) [OF assms(1)]] using True by argo
next
  case False
  have "n \<le> nslots v a div 64" using div_le_mono [OF assms(2), of 64] by simp
  with False have "Suc n * 64 \<le> nslots v a"
    by (simp only: less_eq_div_iff_mult_less_eq [symmetric] Suc_le_eq le_neq_implies_less)
  then have "min 64 (nslots v a - 64 * n) = 64" by (simp add: min_def)
  then show ?thesis unfolding last_byte_value [OF dir_okD(2) [OF assms(1)]] using False by simp
qed

lemma slot_of_page: "k < 64 \<Longrightarrow> pslot (v_page v a n) k = dir_slot v a (64 * n + k)"
  by (simp add: dir_slot_def)

text \<open>The slots from \<open>64 * n\<close> on, split at the end of page \<open>n\<close>.\<close>

lemma upt_pages:
  fixes N :: nat
  assumes "64 * n < N"
  shows "[64 * n..<N] = map (\<lambda>k. 64 * n + k) [0..<min 64 (N - 64 * n)] @ [64 * Suc n..<N]"
proof -
  have "map (\<lambda>k. 64 * n + k) [0..<min 64 (N - 64 * n)] = [64 * n..<64 * n + min 64 (N - 64 * n)]"
    using map_shift [of "\<lambda>x. x" "64 * n"] by simp
  moreover have "[64 * n..<N] = [64 * n..<64 * n + min 64 (N - 64 * n)] @ [64 * n + min 64 (N - 64 * n)..<N]"
    using upt_add_eq_append [of "64 * n" "64 * n + min 64 (N - 64 * n)" "N - (64 * n + min 64 (N - 64 * n))"] assms
    by simp
  moreover have "[64 * n + min 64 (N - 64 * n)..<N] = [64 * Suc n..<N]"
    by (cases "N - 64 * n < 64") (auto simp: min_def add.commute [of 64])
  ultimately show ?thesis by simp
qed

lemma find_append:
  "List.find P (xs @ ys) = (case List.find P xs of None \<Rightarrow> List.find P ys | Some x \<Rightarrow> Some x)"
  by (induction xs) simp_all

lemma find_map: "List.find P (map f xs) = map_option f (List.find (\<lambda>x. P (f x)) xs)"
  by (induction xs) simp_all

lemma find_cong_set: "(\<And>x. x \<in> set xs \<Longrightarrow> P x = Q x) \<Longrightarrow> List.find P xs = List.find Q xs"
  by (induction xs) simp_all

lemma find_Some_iff_upt:
  "List.find P [k..<m] = Some i \<longleftrightarrow> k \<le> i \<and> i < m \<and> P i \<and> (\<forall>j. k \<le> j \<and> j < i \<longrightarrow> \<not> P j)"
proof (induction "m - k" arbitrary: k)
  case 0
  then show ?case by auto
next
  case (Suc n)
  then have "[k..<m] = k # [Suc k..<m]" by (simp add: upt_conv_Cons)
  moreover have "n = m - Suc k" using Suc.hyps(2) by simp
  ultimately show ?case using Suc.hyps by (auto simp: le_Suc_eq Suc_le_eq less_Suc_eq dest: le_neq_implies_less)
qed

lemma find_None_iff_upt: "List.find P [k..<m] = None \<longleftrightarrow> (\<forall>j. k \<le> j \<and> j < m \<longrightarrow> \<not> P j)"
  by (auto simp: find_None_iff)

section \<open>Searching\<close>

abbreviation entry_is :: "byte list \<Rightarrow> entry \<Rightarrow> bool" where
  "entry_is name e \<equiv> used e \<and> snd e = name"

lemma find_in_page_slots:
  assumes "v3_dirs sbi" "name_ok name"
  shows "find_in_page sbi name page (64 * m) (64 * k) =
    Some (map_option (\<lambda>k. 64 * k) (List.find (\<lambda>k. entry_is name (pslot page k)) [k..<m]))"
proof (induction "m - k" arbitrary: k)
  case 0
  then show ?case by (subst find_in_page.simps) (simp add: dir_simps assms)
next
  case (Suc d)
  have "find_in_page sbi name page (64 * m) (64 * k + 64) =
      Some (map_option (\<lambda>k. 64 * k) (List.find (\<lambda>k. entry_is name (pslot page k)) [Suc k..<m]))"
    using Suc.hyps(1) [of "Suc k"] Suc.hyps(2) by (simp add: add.commute [of 64])
  moreover have "[k..<m] = k # [Suc k..<m]" using Suc(2) by (simp add: upt_conv_Cons)
  moreover have "64 * k + 64 \<le> 64 * m" using Suc(2) by simp
  ultimately show ?case
    by (subst find_in_page.simps) (simp add: assms dir_simps cominix_next_entry_def)
qed

text \<open>A search of one page inside a search of all slots.\<close>

lemma find_page_step:
  assumes "64 * n < N"
  shows "List.find (\<lambda>i. P (dir_slot v a i)) [64 * n..<N] =
    (case List.find (\<lambda>k. P (pslot (v_page v a n) k)) [0..<min 64 (N - 64 * n)] of
       None \<Rightarrow> List.find (\<lambda>i. P (dir_slot v a i)) [64 * Suc n..<N]
     | Some k \<Rightarrow> Some (64 * n + k))"
proof -
  have "List.find (\<lambda>k. P (dir_slot v a (64 * n + k))) [0..<min 64 (N - 64 * n)] =
      List.find (\<lambda>k. P (pslot (v_page v a n) k)) [0..<min 64 (N - 64 * n)]"
    by (rule find_cong_set) (simp add: slot_of_page)
  then show ?thesis unfolding upt_pages [OF assms] find_append find_map
    by (simp split: option.split)
qed

lemma dir_get_folio_ok: "de_read_folio de a n = None \<Longrightarrow> dir_get_folio de v a n = Inr (v_page v a n)"
  by (simp add: dir_get_folio_def)

abbreviation at_slot :: "nat \<Rightarrow> nat \<times> nat" where
  "at_slot i \<equiv> (i div 64, 64 * (i mod 64))"

lemma find_pages_slots:
  assumes d: "dir_ok v a" and nm: "name_ok name"
    and r: "pages_readable de v a"
  shows "find_pages de v a name (dir_pages (v_inode v a)) n =
    Some (map_option at_slot (List.find (\<lambda>i. entry_is name (dir_slot v a i)) [64 * n..<nslots v a]))"
proof (induction "dir_pages (v_inode v a) - n" arbitrary: n)
  case 0
  then have "\<not> 64 * n < nslots v a" using page_before [OF d, of n] by simp
  then show ?case using 0 by (subst find_pages.simps) simp
next
  case (Suc m)
  then have n: "n < dir_pages (v_inode v a)" by simp
  then have N: "64 * n < nslots v a" unfolding page_before [OF d] .
  have IH: "find_pages de v a name (dir_pages (v_inode v a)) (Suc n) =
    Some (map_option at_slot (List.find (\<lambda>i. entry_is name (dir_slot v a i)) [64 * Suc n..<nslots v a]))"
    by (rule Suc.hyps(1)) (use Suc.hyps(2) in simp)
  have p: "find_in_page (v_sbi v) name (v_page v a n) (cominix_last_byte (v_inode v a) n) 0 =
      Some (map_option (\<lambda>k. 64 * k) (List.find (\<lambda>k. entry_is name (pslot (v_page v a n) k))
        [0..<min 64 (nslots v a - 64 * n)]))"
    using find_in_page_slots [OF dir_okD(1) [OF d] nm, of "v_page v a n" _ 0] last_byte_slots [OF d, of n] N by simp
  show ?case
  proof (cases "List.find (\<lambda>k. entry_is name (pslot (v_page v a n) k)) [0..<min 64 (nslots v a - 64 * n)]")
    case None
    then show ?thesis unfolding find_page_step [where P = "entry_is name", OF N]
      by (subst find_pages.simps) (simp add: n dir_get_folio_ok pages_readableD [OF r] p IH)
  next
    case (Some k)
    then have "k < 64" by (simp add: find_Some_iff_upt)
    with Some show ?thesis unfolding find_page_step [where P = "entry_is name", OF N]
      by (subst find_pages.simps) (simp add: n dir_get_folio_ok pages_readableD [OF r] p)
  qed
qed

end
