(* ===== verification/DirRead.thy ===== *)
theory DirRead
  imports DirSpec
begin

text \<open>
  What the loops of dir.c compute on the list of entries: the place where \<open>cominix_add_link\<close>
  stops, the test of \<open>cominix_empty_dir\<close>, and the listing of \<open>cominix_readdir\<close>.
\<close>

section \<open>The place for a new entry\<close>

abbreviation stops_at :: "byte list \<Rightarrow> entry \<Rightarrow> bool" where
  "stops_at name e \<equiv> \<not> used e \<or> snd e = name"

lemma add_in_page_slots:
  assumes "v3_dirs sbi" "name_ok name" "m \<le> 64"
  shows "k \<le> m \<Longrightarrow> add_in_page sbi name page (64 * m) (64 * k) =
    Some (case List.find (\<lambda>k. stops_at name (pslot page k)) [k..<m] of
       None \<Rightarrow> if m < 64 then Slot_end (64 * m) else Slot_none
     | Some j \<Rightarrow> if used (pslot page j) then Slot_exists else Slot_free (64 * j))"
proof (induction "m - k" arbitrary: k)
  case 0
  then have "k = m" by simp
  then show ?case using assms(3)
    by (subst add_in_page.simps) (auto simp: assms dir_simps PAGE_SIZE_def)
next
  case (Suc d)
  have "add_in_page sbi name page (64 * m) (64 * k + 64) =
      Some (case List.find (\<lambda>k. stops_at name (pslot page k)) [Suc k..<m] of
         None \<Rightarrow> if m < 64 then Slot_end (64 * m) else Slot_none
       | Some j \<Rightarrow> if used (pslot page j) then Slot_exists else Slot_free (64 * j))"
    using Suc.hyps(1) [of "Suc k"] Suc.hyps(2) by (simp add: add.commute [of 64])
  moreover have "[k..<m] = k # [Suc k..<m]" using Suc(2) by (simp add: upt_conv_Cons)
  moreover have "64 * k + 64 \<le> PAGE_SIZE" "k \<noteq> m" using Suc(2) assms(3) by (simp_all add: PAGE_SIZE_def)
  ultimately show ?case
    by (subst add_in_page.simps) (simp add: assms dir_simps cominix_next_entry_def)
qed

definition add_place :: "vfs \<Rightarrow> nat \<Rightarrow> byte list \<Rightarrow> nat \<Rightarrow> nat \<times> slot_found" where
  "add_place v a name n =
     (case List.find (\<lambda>i. stops_at name (dir_slot v a i)) [64 * n..<nslots v a] of
        None \<Rightarrow> (nslots v a div 64, Slot_end (64 * (nslots v a mod 64)))
      | Some i \<Rightarrow> (i div 64, if used (dir_slot v a i) then Slot_exists else Slot_free (64 * (i mod 64))))"

lemma add_pages_slots:
  assumes d: "dir_ok v a" and nm: "name_ok name" and r: "dir_readable de v a"
  shows "64 * n \<le> nslots v a \<Longrightarrow>
    add_pages de v a name (dir_pages (v_inode v a)) n = Inr (Inr (add_place v a name n))"
proof (induction "dir_pages (v_inode v a) - n" arbitrary: n)
  case 0
  then have "\<not> n < dir_pages (v_inode v a)" by simp
  then have N: "nslots v a = 64 * n" using 0(2) unfolding page_before [OF d] by simp
  then have n: "n \<le> dir_pages (v_inode v a)" using page_before [OF d, of "n - 1"] by (cases n) auto
  have "add_in_page (v_sbi v) name (v_page v a n) (cominix_last_byte (v_inode v a) n) 0 = Some (Slot_end 0)"
    using add_in_page_slots [OF dir_okD(1) [OF d] nm, of 0 0 "v_page v a n"] last_byte_slots [OF d 0(2)] N by simp
  then show ?case using r n N
    by (subst add_pages.simps) (simp add: dir_get_folio_ok dir_readable_def add_place_def)
next
  case (Suc m)
  then have n: "n < dir_pages (v_inode v a)" by simp
  then have N: "64 * n < nslots v a" unfolding page_before [OF d] .
  define m' where m': "m' = min 64 (nslots v a - 64 * n)"
  let ?f = "List.find (\<lambda>k. stops_at name (pslot (v_page v a n) k)) [0..<m']"
  have p: "add_in_page (v_sbi v) name (v_page v a n) (cominix_last_byte (v_inode v a) n) 0 =
      Some (case ?f of
         None \<Rightarrow> if m' < 64 then Slot_end (64 * m') else Slot_none
       | Some j \<Rightarrow> if used (pslot (v_page v a n) j) then Slot_exists else Slot_free (64 * j))"
    unfolding last_byte_slots [OF d Suc.prems] m' [symmetric]
    using add_in_page_slots [OF dir_okD(1) [OF d] nm, of m' 0 "v_page v a n"] m' by simp
  have g: "dir_get_folio de v a n = Inr (v_page v a n)"
    using r n by (simp add: dir_get_folio_ok dir_readable_def)
  have unf: "add_pages de v a name (dir_pages (v_inode v a)) n =
      (case ?f of None \<Rightarrow> if m' < 64 then Inr (Inr (n, Slot_end (64 * m')))
           else add_pages de v a name (dir_pages (v_inode v a)) (Suc n)
       | Some j \<Rightarrow> Inr (Inr (n, if used (pslot (v_page v a n) j) then Slot_exists else Slot_free (64 * j))))"
    using n by (subst add_pages.simps) (simp add: g p split: option.split)
  show ?case
  proof (cases ?f)
    case None
    show ?thesis
    proof (cases "m' < 64")
      case True
      then have e: "nslots v a = 64 * n + m'" and "m' < 64" using N m' by (simp_all add: min_def split: if_splits)
      have "nslots v a div 64 = n" "nslots v a mod 64 = m'" by (subst e, use True in simp)+
      moreover have "[64 * Suc n..<nslots v a] = []" using True N m' by (simp add: min_def split: if_splits)
      ultimately show ?thesis unfolding unf add_place_def find_page_step [where P = "stops_at name", OF N] m' [symmetric]
        using None True by simp
    next
      case False
      then have "64 * Suc n \<le> nslots v a" using m' by (simp add: min_def split: if_splits)
      then have "add_pages de v a name (dir_pages (v_inode v a)) (Suc n) = Inr (Inr (add_place v a name (Suc n)))"
        by (intro Suc.hyps(1)) (use Suc.hyps(2) in simp_all)
      then show ?thesis unfolding unf add_place_def find_page_step [where P = "stops_at name", OF N] m' [symmetric]
        using None False by simp
    qed
  next
    case (Some k)
    then have "k < 64" using m' by (simp add: find_Some_iff_upt)
    with Some show ?thesis unfolding unf add_place_def find_page_step [where P = "stops_at name", OF N] m' [symmetric]
      by (simp add: slot_of_page)
  qed
qed

section \<open>Empty directories\<close>

text \<open>An entry that a removable directory may have: unused, itself, or its parent.\<close>

definition dot_entry :: "nat \<Rightarrow> entry \<Rightarrow> bool" where
  "dot_entry self e \<longleftrightarrow> \<not> used e \<or> e = (self, [46]) \<or> snd e = [46, 46]"

lemma cstr_head:
  assumes "2 < length xs"
  shows "cstr xs = [c] \<longleftrightarrow> c \<noteq> 0 \<and> xs ! 0 = c \<and> xs ! 1 = 0"
    and "cstr xs = [c, d] \<longleftrightarrow> c \<noteq> 0 \<and> d \<noteq> 0 \<and> xs ! 0 = c \<and> xs ! 1 = d \<and> xs ! 2 = 0"
proof -
  obtain x y z ys where "xs = x # y # z # ys"
    using assms by (metis (no_types, opaque_lifting) Suc_less_eq length_Cons list.exhaust
      list.size(3) not_less0 numeral_2_eq_2)
  then show "cstr xs = [c] \<longleftrightarrow> c \<noteq> 0 \<and> xs ! 0 = c \<and> xs ! 1 = 0"
    "cstr xs = [c, d] \<longleftrightarrow> c \<noteq> 0 \<and> d \<noteq> 0 \<and> xs ! 0 = c \<and> xs ! 1 = d \<and> xs ! 2 = 0"
    by (auto simp: cstr_def)
qed

lemma not_dot_entry_slot:
  assumes "v3_dirs sbi" "used (pslot page k)"
  shows "not_dot_entry self (fst (pslot page k)) (de_name sbi page (64 * k)) \<longleftrightarrow> \<not> dot_entry self (pslot page k)"
proof -
  let ?b = "de_name sbi page (64 * k)" and ?xs = "map (de_name sbi page (64 * k)) [0..<60]"
  have s: "snd (pslot page k) = cstr ?xs" using assms(1) by (simp add: de_name_slot pslot_def)
  have nth: "i < 60 \<Longrightarrow> ?xs ! i = ?b i" for i by simp
  have i: "(0 :: nat) < 60" "(1 :: nat) < 60" "(2 :: nat) < 60" by simp_all
  note n = nth [OF i(1)] nth [OF i(2)] nth [OF i(3)]
  have l: "2 < length ?xs" by simp
  have "snd (pslot page k) = [46] \<longleftrightarrow> ?b 0 = 46 \<and> ?b 1 = 0"
    unfolding s cstr_head(1) [OF l] n by simp
  moreover have "snd (pslot page k) = [46, 46] \<longleftrightarrow> ?b 0 = 46 \<and> ?b 1 = 46 \<and> ?b 2 = 0"
    unfolding s cstr_head(2) [OF l] n by simp
  ultimately show ?thesis using assms(2)
    by (cases "pslot page k") (auto simp: not_dot_entry_def dot_entry_def)
qed

lemma empty_page_slots:
  assumes "v3_dirs sbi"
  shows "empty_page sbi self page (64 * m) (64 * k) =
    Some (List.find (\<lambda>k. \<not> dot_entry self (pslot page k)) [k..<m] = None)"
proof (induction "m - k" arbitrary: k)
  case 0
  then show ?case by (subst empty_page.simps) (simp add: dir_simps assms)
next
  case (Suc d)
  have "empty_page sbi self page (64 * m) (64 * k + 64) =
      Some (List.find (\<lambda>k. \<not> dot_entry self (pslot page k)) [Suc k..<m] = None)"
    using Suc.hyps(1) [of "Suc k"] Suc.hyps(2) by (simp add: add.commute [of 64])
  moreover have "[k..<m] = k # [Suc k..<m]" using Suc(2) by (simp add: upt_conv_Cons)
  moreover have "64 * k + 64 \<le> 64 * m" using Suc(2) by simp
  moreover have "dot_entry self (pslot page k)" if "\<not> used (pslot page k)" using that by (simp add: dot_entry_def)
  ultimately show ?case
    by (subst empty_page.simps)
       (cases "used (pslot page k)", simp_all add: assms dir_simps cominix_next_entry_def not_dot_entry_slot)
qed

lemma empty_pages_slots:
  assumes d: "dir_ok v a" and r: "pages_readable de v a"
  shows "empty_pages de v a (dir_pages (v_inode v a)) n =
    Some (List.find (\<lambda>i. \<not> dot_entry (i_ino (v_inode v a)) (dir_slot v a i)) [64 * n..<nslots v a] = None)"
proof (induction "dir_pages (v_inode v a) - n" arbitrary: n)
  case 0
  then have "\<not> 64 * n < nslots v a" using page_before [OF d, of n] by simp
  then show ?case using 0 by (subst empty_pages.simps) simp
next
  case (Suc m)
  let ?P = "\<lambda>e. \<not> dot_entry (i_ino (v_inode v a)) e"
  have n: "n < dir_pages (v_inode v a)" using Suc.hyps(2) by simp
  then have N: "64 * n < nslots v a" unfolding page_before [OF d] .
  have IH: "empty_pages de v a (dir_pages (v_inode v a)) (Suc n) =
      Some (List.find (\<lambda>i. ?P (dir_slot v a i)) [64 * Suc n..<nslots v a] = None)"
    by (rule Suc.hyps(1)) (use Suc.hyps(2) in simp)
  have p: "empty_page (v_sbi v) (i_ino (v_inode v a)) (v_page v a n) (cominix_last_byte (v_inode v a) n) 0 =
      Some (List.find (\<lambda>k. ?P (pslot (v_page v a n) k)) [0..<min 64 (nslots v a - 64 * n)] = None)"
    using empty_page_slots [OF dir_okD(1) [OF d], of _ "v_page v a n" _ 0] last_byte_slots [OF d, of n] N by simp
  show ?case unfolding find_page_step [where P = ?P, OF N]
    by (subst empty_pages.simps) (simp add: n dir_get_folio_ok pages_readableD [OF r] p IH split: option.split bool.split)
qed

lemma empty_dir_slots:
  assumes d: "dir_ok v a" and r: "pages_readable de v a"
  shows "cominix_empty_dir de v a = Inr (\<forall>e\<in>set (entries v a). dot_entry (i_ino (v_inode v a)) e)"
  using empty_pages_slots [OF assms, of 0]
  by (auto simp: cominix_empty_dir_def find_None_iff_upt entries_def)

section \<open>Lookup\<close>

text \<open>The first used entry of a name.\<close>

definition find_slot :: "vfs \<Rightarrow> nat \<Rightarrow> byte list \<Rightarrow> nat option" where
  "find_slot v a name = List.find (\<lambda>i. entry_is name (dir_slot v a i)) [0..<nslots v a]"

lemma find_entry_slots:
  assumes "dir_ok v a" "name_ok name" "pages_readable de v a"
  shows "cominix_find_entry de v a name = Inr (map_option at_slot (find_slot v a name))"
  using find_pages_slots [OF assms, of 0] by (simp add: cominix_find_entry_def find_slot_def)

lemma slot_number:
  assumes "v3_dirs (v_sbi v)"
  shows "de_inode (v_sbi v) (v_page v a (i div 64)) (64 * (i mod 64)) = fst (dir_slot v a i)"
  by (simp add: de_inode_slot [OF assms] dir_slot_def)

lemma inode_by_name_slots:
  assumes "dir_ok v a" "name_ok name" "pages_readable de v a"
  shows "cominix_inode_by_name de v a name =
    Inr (case find_slot v a name of None \<Rightarrow> 0 | Some i \<Rightarrow> fst (dir_slot v a i))"
  unfolding cominix_inode_by_name_def find_entry_slots [OF assms]
  by (simp add: slot_number [OF dir_okD(1) [OF assms(1)]] split: option.split)

section \<open>Listing\<close>

text \<open>The reference: go through the entries from number \<open>i\<close> on until one does not fit.\<close>

fun list_entries ::
    "(dir_item list \<Rightarrow> dir_item \<Rightarrow> bool) \<Rightarrow> entry list \<Rightarrow> dir_item list \<Rightarrow> nat \<Rightarrow> dir_item list \<times> nat \<times> bool" where
  "list_entries emit [] out i = (out, i, False)"
| "list_entries emit (e # es) out i =
     (if \<not> used e then list_entries emit es out (Suc i)
      else if emit out (snd e, fst e) then list_entries emit es (out @ [(snd e, fst e)]) (Suc i)
      else (out, i, True))"

lemma list_entries_append:
  "list_entries emit (xs @ ys) out i =
     (case list_entries emit xs out i of (out', j, stopped) \<Rightarrow>
        if stopped then (out', j, stopped) else list_entries emit ys out' j)"
  by (induction xs arbitrary: out i) simp_all

lemma list_entries_pos:
  "list_entries emit es out i = (out', j, False) \<Longrightarrow> j = i + length es"
  by (induction es arbitrary: out i) (fastforce split: if_splits)+

text \<open>What was listed are the used entries up to the stop, and the stop is at an entry that does
  not fit.\<close>

abbreviation items :: "entry list \<Rightarrow> dir_item list" where
  "items es \<equiv> map (\<lambda>e. (snd e, fst e)) (filter used es)"

lemma list_entries_prefix:
  "list_entries emit es out i = (out', j, stopped) \<Longrightarrow>
   i \<le> j \<and> j \<le> i + length es \<and> out' = out @ items (take (j - i) es) \<and>
   (if stopped then j < i + length es \<and> used (es ! (j - i)) \<and> \<not> emit out' (snd (es ! (j - i)), fst (es ! (j - i)))
    else j = i + length es)"
proof (induction es arbitrary: out i)
  case (Cons e es)
  show ?case
  proof (cases "used e \<and> \<not> emit out (snd e, fst e)")
    case True
    then show ?thesis using Cons.prems by auto
  next
    case False
    define o2 where "o2 = (if used e then out @ [(snd e, fst e)] else out)"
    have r: "list_entries emit es o2 (Suc i) = (out', j, stopped)"
      using Cons.prems False by (simp add: o2_def split: if_splits)
    have "Suc i \<le> j" using Cons.IH [OF r] by simp
    then have "j - i = Suc (j - Suc i)" by simp
    then show ?thesis using Cons.IH [OF r] by (auto simp: o2_def split: if_splits)
  qed
qed simp

text \<open>Everything listed was accepted.\<close>

lemma list_entries_accepted:
  "list_entries emit es out i = (out', j, st) \<Longrightarrow> (\<forall>m<length out. emit (take m out) (out ! m)) \<Longrightarrow>
   \<forall>m<length out'. emit (take m out') (out' ! m)"
proof (induction es arbitrary: out i)
  case (Cons e es)
  show ?case
  proof (cases "used e \<and> emit out (snd e, fst e)")
    case True
    then have "\<forall>m<length (out @ [(snd e, fst e)]). emit (take m (out @ [(snd e, fst e)])) ((out @ [(snd e, fst e)]) ! m)"
      using Cons.prems(2) by (auto simp: less_Suc_eq nth_append)
    with True Cons show ?thesis by auto
  next
    case False
    then show ?thesis using Cons by (auto split: if_splits)
  qed
qed simp

lemma strnlen_item:
  assumes "v3_dirs sbi"
  shows "map (de_name sbi page (64 * k)) [0..<strnlen (de_name sbi page (64 * k)) (s_namelen sbi)] = snd (pslot page k)"
proof -
  let ?xs = "map (de_name sbi page (64 * k)) [0..<60]"
  have s: "snd (pslot page k) = cstr ?xs" using assms by (simp add: de_name_slot pslot_def)
  have l: "strnlen (de_name sbi page (64 * k)) (s_namelen sbi) = length (cstr ?xs)"
    using assms by (simp add: strnlen_def dir_simps cstr_def)
  have "length (cstr ?xs) \<le> 60" using cstr_length [of ?xs] by simp
  then show ?thesis unfolding l s using cstr_prefix [of ?xs] by (simp add: take_map min_def)
qed

lemma readdir_page_slots:
  assumes "v3_dirs sbi"
  shows "readdir_page sbi emit page (64 * m) (64 * k) out (64 * i) =
    (case list_entries emit (map (pslot page) [k..<m]) out i of (out', j, st) \<Rightarrow> Some (out', 64 * j, st))"
proof (induction "m - k" arbitrary: k out i)
  case 0
  then show ?case by (subst readdir_page.simps) (simp add: dir_simps assms)
next
  case (Suc d)
  have "readdir_page sbi emit page (64 * m) (64 * k + 64) out' (64 * i + 64) =
      (case list_entries emit (map (pslot page) [Suc k..<m]) out' (Suc i) of (out', j, st) \<Rightarrow> Some (out', 64 * j, st))" for out'
    using Suc.hyps(1) [of "Suc k" out' "Suc i"] Suc.hyps(2) by (simp add: add.commute [of 64])
  moreover have "[k..<m] = k # [Suc k..<m]" using Suc(2) by (simp add: upt_conv_Cons)
  moreover have "64 * k + 64 \<le> 64 * m" using Suc(2) by simp
  ultimately show ?case
    by (subst readdir_page.simps)
       (simp add: assms dir_simps cominix_next_entry_def Let_def strnlen_item [OF assms, unfolded v3_dirs_sel [OF assms]])
qed

lemma upt_pages_from:
  fixes N :: nat
  assumes "k < 64"
  shows "map f [64 * n + k..<N] = map (\<lambda>j. f (64 * n + j)) [k..<min 64 (N - 64 * n)] @ map f [64 * Suc n..<N]"
proof (cases "64 * n + k < N")
  case True
  let ?m = "min 64 (N - 64 * n)"
  have "map (\<lambda>j. f (64 * n + j)) [k..<?m] = map f [64 * n + k..<64 * n + ?m]"
  proof (rule nth_equalityI)
    fix i assume "i < length (map (\<lambda>j. f (64 * n + j)) [k..<?m])"
    then have i: "k + i < ?m" by (simp only: length_map length_upt less_diff_conv2 less_diff_conv add.commute)
    then have "64 * n + k + i < 64 * n + ?m" by linarith
    with i show "map (\<lambda>j. f (64 * n + j)) [k..<?m] ! i = map f [64 * n + k..<64 * n + ?m] ! i"
      by (simp add: add.assoc del: min_less_iff_conj)
  qed simp
  moreover have "[64 * n + k..<N] = [64 * n + k..<64 * n + ?m] @ [64 * n + ?m..<N]"
  proof -
    have "64 * n + k \<le> 64 * n + ?m" "64 * n + ?m \<le> N" using True assms by linarith+
    then show ?thesis using upt_add_eq_append [of "64 * n + k" "64 * n + ?m" "N - (64 * n + ?m)"] by (metis le_add_diff_inverse)
  qed
  moreover have "[64 * n + ?m..<N] = [64 * Suc n..<N]"
    by (cases "N - 64 * n < 64") (auto simp: min_def add.commute [of 64])
  ultimately show ?thesis by simp
qed (use assms in simp)

lemma readdir_pages_slots:
  assumes d: "dir_ok v a" and r: "pages_readable de v a"
  shows "k < 64 \<Longrightarrow>
    readdir_pages de v a emit (dir_pages (v_inode v a)) n (64 * k) out (64 * (64 * n + k)) =
    (case list_entries emit (map (dir_slot v a) [64 * n + k..<nslots v a]) out (64 * n + k) of
       (out', j, st) \<Rightarrow> Some (out', 64 * j))"
proof (induction "dir_pages (v_inode v a) - n" arbitrary: n k out)
  case 0
  then have n: "\<not> n < dir_pages (v_inode v a)" by simp
  then have "nslots v a \<le> 64 * n + k" using page_before [OF d, of n] by simp
  then show ?case using n by (subst readdir_pages.simps) simp
next
  case (Suc c)
  let ?N = "nslots v a"
  define m where m: "m = min 64 (?N - 64 * n)"
  have n: "n < dir_pages (v_inode v a)" using Suc.hyps(2) by simp
  then have N: "64 * n < ?N" unfolding page_before [OF d] .
  define i where "i = 64 * n + k"
  obtain out1 j1 st1 where l1: "list_entries emit (map (pslot (v_page v a n)) [k..<m]) out i = (out1, j1, st1)"
    by (metis prod_cases3)
  have p: "readdir_page (v_sbi v) emit (v_page v a n) (cominix_last_byte (v_inode v a) n) (64 * k) out (64 * i) =
      Some (out1, 64 * j1, st1)"
    using readdir_page_slots [OF dir_okD(1) [OF d], of emit "v_page v a n" m k out i] l1
    unfolding last_byte_slots [OF d less_imp_le [OF N]] m [symmetric] by simp
  have unf: "readdir_pages de v a emit (dir_pages (v_inode v a)) n (64 * k) out (64 * i) =
      (if st1 then Some (out1, 64 * j1)
       else readdir_pages de v a emit (dir_pages (v_inode v a)) (Suc n) 0 out1 (64 * j1))"
    using n by (subst readdir_pages.simps) (simp add: dir_get_folio_ok pages_readableD [OF r] p)
  have sl: "map (\<lambda>j. dir_slot v a (64 * n + j)) [k..<m] = map (pslot (v_page v a n)) [k..<m]"
    using m by (auto simp: slot_of_page)
  have l: "list_entries emit (map (dir_slot v a) [i..<?N]) out i =
      (if st1 then (out1, j1, st1) else list_entries emit (map (dir_slot v a) [64 * Suc n..<?N]) out1 j1)"
    unfolding i_def upt_pages_from [OF Suc.prems] m [symmetric] sl list_entries_append l1 [unfolded i_def] by simp
  show ?case
  proof (cases st1)
    case True
    then show ?thesis using l unf by (simp add: i_def)
  next
    case False
    then have j1: "j1 = i + (m - k)" using list_entries_pos l1 by fastforce
    show ?thesis
    proof (cases "64 * Suc n < ?N")
      case True
      then have "j1 = 64 * Suc n" using Suc.prems j1 m by (simp add: i_def min_def)
      then have "readdir_pages de v a emit (dir_pages (v_inode v a)) (Suc n) (64 * 0) out1 (64 * (64 * Suc n + 0)) =
        (case list_entries emit (map (dir_slot v a) [64 * Suc n + 0..<?N]) out1 (64 * Suc n + 0) of
           (out', j, st) \<Rightarrow> Some (out', 64 * j))"
        by (intro Suc.hyps(1)) (use Suc.hyps(2) in simp_all)
      with \<open>j1 = 64 * Suc n\<close> show ?thesis using l unf False by (simp add: i_def)
    next
      case no: False
      then have "\<not> Suc n < dir_pages (v_inode v a)" unfolding page_before [OF d] .
      then have "readdir_pages de v a emit (dir_pages (v_inode v a)) (Suc n) 0 out1 (64 * j1) = Some (out1, 64 * j1)"
        by (subst readdir_pages.simps) simp
      moreover have rest: "[64 * Suc n..<?N] = []" using no by simp
      have "list_entries emit (map (dir_slot v a) [i..<?N]) out i = (out1, j1, st1)"
        unfolding l rest using False by simp
      ultimately show ?thesis using unf False by (simp add: i_def)
    qed
  qed
qed

text \<open>The position is rounded up to an entry first.\<close>

lemma align64_entry:
  assumes "x + 63 < 2 ^ 64"
  shows "align64 x 64 = 64 * ((x + 63) div 64)"
proof -
  have m: "(2 :: nat) ^ 64 - 1 - 63 = push_bit 6 (mask 58)" by (simp add: push_bit_eq_mult mask_eq_exp_minus_1)
  have e: "y AND push_bit 6 (mask 58) = push_bit 6 (take_bit 58 (drop_bit 6 y))" for y :: nat
    by (rule bit_eqI) (auto simp: bit_and_iff bit_push_bit_iff bit_mask_iff bit_take_bit_iff bit_drop_bit_eq)
  have "(x + 63) div 64 < 2 ^ 58" using assms by (intro less_mult_imp_div_less) simp
  then have "(x + 63) AND push_bit 6 (mask 58) = 64 * ((x + 63) div 64)"
    unfolding e by (simp add: push_bit_eq_mult drop_bit_eq_div take_bit_nat_eq_self)
  moreover have "align64 x 64 = (x + 63) AND push_bit 6 (mask 58)"
    using assms unfolding m [symmetric] by (simp add: align64_def u64_def u32_def)
  ultimately show ?thesis by simp
qed

lemma page_of_pos: "drop_bit PAGE_SHIFT (64 * k) = k div 64" "64 * k AND (PAGE_SIZE - 1) = 64 * (k mod 64)"
proof -
  have "64 * k AND (2 ^ 12 - 1) = 64 * k mod 4096"
    using take_bit_eq_mask [of 12 "64 * k"] by (simp add: take_bit_eq_mod mask_eq_exp_minus_1)
  also have "\<dots> = 64 * (k mod 64)" using mod_mult_mult1 [of 64 k 64] by simp
  finally show "64 * k AND (PAGE_SIZE - 1) = 64 * (k mod 64)" by (simp add: PAGE_SIZE_def)
  show "drop_bit PAGE_SHIFT (64 * k) = k div 64" by (simp add: PAGE_SHIFT_def drop_bit_eq_div)
qed

lemma readdir_slots:
  assumes d: "dir_ok v a" and r: "pages_readable de v a" and x: "x + 63 < 2 ^ 64"
  defines "k \<equiv> (x + 63) div 64"
  shows "cominix_readdir de v a emit x =
    (case list_entries emit (drop k (entries v a)) [] k of (out, j, st) \<Rightarrow> Inr (out, 64 * j))"
proof -
  have al: "align64 x (s_dirsize (v_sbi v)) = 64 * k"
    using align64_entry [OF x] dir_okD(1) [OF d] by (simp add: dir_simps k_def)
  show ?thesis
  proof (cases "nslots v a \<le> k")
    case True
    then show ?thesis by (simp add: cominix_readdir_def al dir_okD(2) [OF d])
  next
    case False
    have k: "64 * (k div 64) + k mod 64 = k" by simp
    have "readdir_pages de v a emit (dir_pages (v_inode v a)) (k div 64) (64 * (k mod 64)) [] (64 * k) =
      (case list_entries emit (map (dir_slot v a) [k..<nslots v a]) [] k of (out', j, st) \<Rightarrow> Some (out', 64 * j))"
      using readdir_pages_slots [OF d r, of "k mod 64" emit "k div 64" "[]"] unfolding k by simp
    moreover have "drop k (entries v a) = map (dir_slot v a) [k..<nslots v a]" by (simp add: entries_def drop_map)
    ultimately show ?thesis using False
      unfolding cominix_readdir_def Let_def al page_of_pos by (simp add: dir_okD(2) [OF d] split: prod.split)
  qed
qed

section \<open>The loops end\<close>

lemma find_in_page_ends: "0 < s_dirsize sbi \<Longrightarrow> find_in_page sbi name page last_byte p \<noteq> None"
proof (induction "Suc last_byte - p" arbitrary: p rule: less_induct)
  case less
  show ?case
  proof (cases "p + s_dirsize sbi \<le> last_byte")
    case True
    then have "find_in_page sbi name page last_byte (p + s_dirsize sbi) \<noteq> None"
      using less by simp
    then show ?thesis by (subst find_in_page.simps) (auto simp: cominix_next_entry_def)
  qed (subst find_in_page.simps, simp)
qed

lemma empty_page_ends: "0 < s_dirsize sbi \<Longrightarrow> empty_page sbi self page last_byte p \<noteq> None"
proof (induction "Suc last_byte - p" arbitrary: p rule: less_induct)
  case less
  show ?case
  proof (cases "p + s_dirsize sbi \<le> last_byte")
    case True
    then have "empty_page sbi self page last_byte (p + s_dirsize sbi) \<noteq> None"
      using less by simp
    then show ?thesis by (subst empty_page.simps) (auto simp: cominix_next_entry_def)
  qed (subst empty_page.simps, simp)
qed

lemma readdir_page_ends: "0 < s_dirsize sbi \<Longrightarrow> readdir_page sbi emit page last_byte p out pos \<noteq> None"
proof (induction "Suc last_byte - p" arbitrary: p out pos rule: less_induct)
  case less
  show ?case
  proof (cases "p + s_dirsize sbi \<le> last_byte")
    case True
    then have "readdir_page sbi emit page last_byte (p + s_dirsize sbi) out' pos' \<noteq> None" for out' pos'
      using less by simp
    then show ?thesis by (subst readdir_page.simps) (simp add: cominix_next_entry_def Let_def del: not_None_eq)
  qed (subst readdir_page.simps, simp)
qed

lemma find_pages_ends: "0 < s_dirsize (v_sbi v) \<Longrightarrow> find_pages de v a name npages n \<noteq> None"
proof (induction de v a name npages n rule: find_pages.induct)
  case (1 de v a name npages n)
  show ?case
    using 1 find_in_page_ends [OF "1.prems", of name "v_page v a n" "cominix_last_byte (v_inode v a) n" 0]
    by (subst find_pages.simps) (auto simp: dir_get_folio_def split: option.splits)
qed

lemma empty_pages_ends: "0 < s_dirsize (v_sbi v) \<Longrightarrow> empty_pages de v a npages n \<noteq> None"
proof (induction de v a npages n rule: empty_pages.induct)
  case (1 de v a npages n)
  show ?case
    using 1 empty_page_ends [OF "1.prems", of "i_ino (v_inode v a)" "v_page v a n" "cominix_last_byte (v_inode v a) n" 0]
    by (subst empty_pages.simps) (auto simp: dir_get_folio_def split: option.splits bool.splits)
qed

lemma readdir_pages_ends:
  "0 < s_dirsize (v_sbi v) \<Longrightarrow> readdir_pages de v a emit npages n offset out pos \<noteq> None"
proof (induction de v a emit npages n offset out pos rule: readdir_pages.induct)
  case (1 de v a emit npages n offset out pos)
  show ?case
    using 1 readdir_page_ends [OF "1.prems", of emit "v_page v a n" "cominix_last_byte (v_inode v a) n" offset out pos]
    by (subst readdir_pages.simps) (auto simp: dir_get_folio_def split: option.splits)
qed

end
