(* ===== verification/InodeMap.thy ===== *)
theory InodeMap
  imports BitmapSpec
begin

text \<open>
  The inode map: which inode numbers are in use, and what \<open>cominix_new_inode\<close> and
  \<open>cominix_free_inode\<close> do to it.
\<close>

definition inode_busy :: "fs \<Rightarrow> nat \<Rightarrow> bool" where
  "inode_busy s n \<longleftrightarrow> n div bits_per_zone (fs_sb s) < s_imap_blocks (fs_info s) \<and>
     cominix_test_bit (fs_bufs s) (s_imap (fs_info s) ! (n div bits_per_zone (fs_sb s)))
       (n mod bits_per_zone (fs_sb s))"

definition imap_wf :: "fs \<Rightarrow> bool" where
  "imap_wf s \<longleftrightarrow> length (s_imap (fs_info s)) = s_imap_blocks (fs_info s) \<and> distinct (s_imap (fs_info s)) \<and>
     s_ninodes (fs_info s) < 2 ^ 32"

lemma imap_search_spec:
  assumes "imap_search sb sbi bc i j = (i', j')" "j' < bits_per_zone sb" "bits_per_zone sb \<le> j"
  shows "i \<le> i' \<and> i' < s_imap_blocks sbi \<and> \<not> cominix_test_bit bc (s_imap sbi ! i') j'"
  using assms
proof (induction sb sbi bc i j rule: imap_search.induct)
  case (1 sb sbi bc i j)
  let ?j = "cominix_find_first_zero_bit bc (s_imap sbi ! i) (bits_per_zone sb)"
  show ?case
  proof (cases "i < s_imap_blocks sbi")
    case True
    show ?thesis
    proof (cases "?j < bits_per_zone sb")
      case f: True
      then have "i' = i" "j' = ?j"
        using True 1(2) by (subst (asm) imap_search.simps, simp)+
      then show ?thesis using find_first_zero_spec(3) [OF f] True by simp
    next
      case f: False
      have "imap_search sb sbi bc (Suc i) ?j = (i', j')"
        using True f 1(2) by (subst (asm) imap_search.simps) simp
      then have "Suc i \<le> i' \<and> i' < s_imap_blocks sbi \<and> \<not> cominix_test_bit bc (s_imap sbi ! i') j'"
        using "1.IH" [OF True refl f] 1(3) f by simp
      then show ?thesis by simp
    qed
  next
    case False
    then have "j' = j" using 1(2) by (subst (asm) imap_search.simps) simp
    then show ?thesis using 1(3,4) by simp
  qed
qed

text \<open>Setting and clearing one bit of the map.\<close>

lemma inode_busy_bits:
  assumes "distinct (s_imap (fs_info s))" "length (s_imap (fs_info s)) = s_imap_blocks (fs_info s)"
    and "i < s_imap_blocks (fs_info s)" "j < bits_per_zone (fs_sb s)"
  defines "bh \<equiv> s_imap (fs_info s) ! i" and "n \<equiv> j + i * bits_per_zone (fs_sb s)"
  shows "inode_busy (s\<lparr>fs_bufs := mark_buffer_dirty (cominix_set_bit (fs_bufs s) bh j) bh\<rparr>) m \<longleftrightarrow> m = n \<or> inode_busy s m"
    and "inode_busy (s\<lparr>fs_bufs := mark_buffer_dirty (cominix_clear_bit (fs_bufs s) bh j) bh\<rparr>) m \<longleftrightarrow> m \<noteq> n \<and> inode_busy s m"
    and "inode_busy s n = cominix_test_bit (fs_bufs s) bh j"
proof -
  let ?B = "bits_per_zone (fs_sb s)"
  have n: "n div ?B = i" "n mod ?B = j" using assms(4) by (simp_all add: n_def)
  have e: "s_imap (fs_info s) ! (m div ?B) = bh \<and> m mod ?B = j \<longleftrightarrow> m = n" if "m div ?B < s_imap_blocks (fs_info s)"
  proof
    assume h: "s_imap (fs_info s) ! (m div ?B) = bh \<and> m mod ?B = j"
    then have "m div ?B = i" using nth_eq_iff_index_eq [OF assms(1)] that assms(2,3) by (simp add: bh_def)
    with h n show "m = n" by (metis div_mult_mod_eq)
  qed (use n bh_def in simp)
  show "inode_busy (s\<lparr>fs_bufs := mark_buffer_dirty (cominix_set_bit (fs_bufs s) bh j) bh\<rparr>) m \<longleftrightarrow> m = n \<or> inode_busy s m"
    using e n assms(3) by (auto simp: inode_busy_def)
  show "inode_busy (s\<lparr>fs_bufs := mark_buffer_dirty (cominix_clear_bit (fs_bufs s) bh j) bh\<rparr>) m \<longleftrightarrow> m \<noteq> n \<and> inode_busy s m"
    using e n assms(3) by (auto simp: inode_busy_def)
  show "inode_busy s n = cominix_test_bit (fs_bufs s) bh j" using n assms(3) by (simp add: inode_busy_def bh_def)
qed

text \<open>A new inode gets a number that was free, and only that one becomes used.\<close>

lemma new_inode_spec:
  assumes wf: "imap_wf s" and r: "cominix_new_inode s fresh init_owner now mode = (s', Inr ino)"
  shows "\<not> inode_busy s (i_ino ino)" "inode_busy s' m \<longleftrightarrow> m = i_ino ino \<or> inode_busy s m"
    "0 < i_ino ino" "i_ino ino \<le> s_ninodes (fs_info s)" "fs_sb s' = fs_sb s" "fs_info s' = fs_info s"
    "\<exists>f. fresh = Some f \<and> ino = mark_inode_dirty ((init_owner f mode)\<lparr>i_ino := i_ino ino,
      i_atime := now, i_mtime := now, i_ctime := now, i2_data := (\<lambda>_. 0)\<rparr>)"
proof -
  let ?sb = "fs_sb s" and ?sbi = "fs_info s"
  obtain i j where ij: "imap_search ?sb ?sbi (fs_bufs s) 0 (bits_per_zone ?sb) = (i, j)" by fastforce
  have "fresh \<noteq> None"
  proof
    assume "fresh = None"
    then show False using r by (simp add: cominix_new_inode_def Let_def)
  qed
  then obtain f where f: "fresh = Some f" by blast
  note def = r [unfolded f cominix_new_inode_def cominix_sb_def Let_def option.case ij prod.case
    cominix_test_and_set_bit_def]
  have j: "j < bits_per_zone ?sb" using def by (auto split: if_splits)
  then have i: "i < s_imap_blocks ?sbi" and t: "\<not> cominix_test_bit (fs_bufs s) (s_imap ?sbi ! i) j"
    using imap_search_spec [OF ij j] by simp_all
  let ?n = "j + i * bits_per_zone ?sb" and ?bh = "s_imap ?sbi ! i"
  have s': "s' = s\<lparr>fs_bufs := mark_buffer_dirty (cominix_set_bit (fs_bufs s) ?bh j) ?bh\<rparr>"
    and ino: "ino = mark_inode_dirty ((init_owner f mode)\<lparr>i_ino := ?n,
      i_atime := now, i_mtime := now, i_ctime := now, i2_data := (\<lambda>_. 0)\<rparr>)"
    and n: "0 < ?n" "?n \<le> s_ninodes ?sbi"
    using def t by (auto split: if_splits)
  have d: "distinct (s_imap ?sbi)" "length (s_imap ?sbi) = s_imap_blocks ?sbi" using wf by (simp_all add: imap_wf_def)
  note b = inode_busy_bits [OF d i j]
  have no: "i_ino ino = ?n" by (simp add: ino mark_inode_dirty_def)
  show "\<not> inode_busy s (i_ino ino)" "inode_busy s' m \<longleftrightarrow> m = i_ino ino \<or> inode_busy s m"
    "0 < i_ino ino" "i_ino ino \<le> s_ninodes ?sbi"
    unfolding no s' using b t n by simp_all
  show "fs_sb s' = fs_sb s" "fs_info s' = fs_info s" by (simp_all add: s')
  show "\<exists>f. fresh = Some f \<and> ino = mark_inode_dirty ((init_owner f mode)\<lparr>i_ino := i_ino ino,
      i_atime := now, i_mtime := now, i_ctime := now, i2_data := (\<lambda>_. 0)\<rparr>)"
    using f ino no by auto
qed

end
