(* ===== verification/DirUpdate.thy ===== *)
theory DirUpdate
  imports DirRead InodeMap
begin

text \<open>
  What the operations of dir.c that change a directory do to its list of entries: one entry is
  set, replaced or appended, and nothing else changes. The kernel functions are assumed to keep
  page contents, sizes and link counts (\<open>dir_env_ok\<close>); they may fail.
\<close>

section \<open>What may change\<close>

abbreviation same_geometry :: "vfs \<Rightarrow> vfs \<Rightarrow> bool" where
  "same_geometry v v' \<equiv> s_version (v_sbi v') = s_version (v_sbi v) \<and>
     s_dirsize (v_sbi v') = s_dirsize (v_sbi v) \<and> s_namelen (v_sbi v') = s_namelen (v_sbi v)"

text \<open>The inode map and where it lies are the same.\<close>

definition same_imap :: "fs \<Rightarrow> fs \<Rightarrow> bool" where
  "same_imap s s' \<longleftrightarrow> fs_sb s' = fs_sb s \<and> s_ninodes (fs_info s') = s_ninodes (fs_info s) \<and>
     s_imap (fs_info s') = s_imap (fs_info s) \<and> s_imap_blocks (fs_info s') = s_imap_blocks (fs_info s) \<and>
     (\<forall>n. inode_busy s' n = inode_busy s n)"

lemma same_imap_refl [simp, intro]: "same_imap s s"
  by (simp add: same_imap_def)

lemma same_imap_trans: "same_imap s s' \<Longrightarrow> same_imap s' s'' \<Longrightarrow> same_imap s s''"
  by (simp add: same_imap_def)

lemma same_imap_wf: "same_imap s s' \<Longrightarrow> imap_wf s' = imap_wf s"
  by (simp add: same_imap_def imap_wf_def)

text \<open>\<open>only_dir v v' a\<close>: from \<open>v\<close> to \<open>v'\<close> at most the pages and the size of the directory \<open>a\<close> changed,
  among what the directory code looks at.\<close>

definition only_dir :: "vfs \<Rightarrow> vfs \<Rightarrow> nat \<Rightarrow> bool" where
  "only_dir v v' a \<longleftrightarrow> same_geometry v v' \<and> same_imap (v_fs v) (v_fs v') \<and> v_dcache v' = v_dcache v \<and>
     (\<forall>b. i_ino (v_inode v' b) = i_ino (v_inode v b) \<and> i_mode (v_inode v' b) = i_mode (v_inode v b) \<and>
          i_nlink (v_inode v' b) = i_nlink (v_inode v b)) \<and>
     (\<forall>b. b \<noteq> a \<longrightarrow> v_page v' b = v_page v b \<and> i_size (v_inode v' b) = i_size (v_inode v b))"

definition same_dirs :: "vfs \<Rightarrow> vfs \<Rightarrow> bool" where
  "same_dirs v v' \<longleftrightarrow> v_page v' = v_page v \<and> v_written v' = v_written v \<and>
     (\<forall>b. i_size (v_inode v' b) = i_size (v_inode v b)) \<and> (\<forall>a. only_dir v v' a)"

text \<open>The kernel functions may fail and may change the file system below (blocks are allocated),
  but leave the pages, sizes and links alone. A page that was read is up to date, so preparing
  it for a write does not touch its bytes.\<close>

definition dir_env_ok :: "dir_env \<Rightarrow> bool" where
  "dir_env_ok de \<longleftrightarrow> (\<forall>v a. (\<forall>pos len. same_dirs v (fst (de_write_begin de v a pos len))) \<and>
     same_dirs v (fst (de_write_wait de v a)) \<and> same_dirs v (fst (de_sync_meta de v a)))"

lemma only_dir_refl [simp, intro]: "only_dir v v a"
  by (simp add: only_dir_def)

lemma only_dir_trans: "only_dir v v' a \<Longrightarrow> only_dir v' v'' a \<Longrightarrow> only_dir v v'' a"
  unfolding only_dir_def by (intro conjI allI impI; metis same_imap_trans)

lemma same_dirs_refl [simp, intro]: "same_dirs v v"
  by (simp add: same_dirs_def)

lemma same_dirs_trans: "same_dirs v v' \<Longrightarrow> same_dirs v' v'' \<Longrightarrow> same_dirs v v''"
  unfolding same_dirs_def by (intro conjI allI; metis only_dir_trans)

lemma same_dirs_only: "same_dirs v v' \<Longrightarrow> only_dir v v' a"
  by (simp add: same_dirs_def)

lemma only_dirD:
  assumes "only_dir v v' a"
  shows "v_dcache v' = v_dcache v" "i_ino (v_inode v' b) = i_ino (v_inode v b)"
    "i_mode (v_inode v' b) = i_mode (v_inode v b)" "i_nlink (v_inode v' b) = i_nlink (v_inode v b)"
    "b \<noteq> a \<Longrightarrow> v_page v' b = v_page v b" "b \<noteq> a \<Longrightarrow> i_size (v_inode v' b) = i_size (v_inode v b)"
    "v3_dirs (v_sbi v') = v3_dirs (v_sbi v)" "same_imap (v_fs v) (v_fs v')"
  using assms by (simp_all add: only_dir_def v3_dirs_def)

lemma entries_cong:
  "v_page v' b = v_page v b \<Longrightarrow> i_size (v_inode v' b) = i_size (v_inode v b) \<Longrightarrow> entries v' b = entries v b"
  by (simp add: entries_def nslots_def dir_slot_def)

lemma only_dir_entries: "only_dir v v' a \<Longrightarrow> b \<noteq> a \<Longrightarrow> entries v' b = entries v b"
  by (intro entries_cong only_dirD(5,6))

lemma only_dir_ok: "only_dir v v' a \<Longrightarrow> b \<noteq> a \<Longrightarrow> dir_ok v' b = dir_ok v b"
  unfolding dir_ok_def using only_dirD(6) [of v v' a b] only_dirD(7) [of v v' a] by auto

lemma same_dirs_entries: "same_dirs v v' \<Longrightarrow> entries v' b = entries v b"
  unfolding same_dirs_def by (intro entries_cong) auto

lemma same_dirs_ok: "same_dirs v v' \<Longrightarrow> dir_ok v' b = dir_ok v b"
  unfolding dir_ok_def same_dirs_def using only_dirD(7) [of v v' 0] by auto

lemma dir_env_okD:
  assumes "dir_env_ok de"
  shows "same_dirs v (fst (de_write_begin de v a pos len))" "same_dirs v (fst (de_write_wait de v a))"
    "same_dirs v (fst (de_sync_meta de v a))"
  using assms by (simp_all add: dir_env_ok_def)

section \<open>Bytes of an entry\<close>

lemma put_page_page [simp]:
  "v_page (put_page v a n p xs) b m o' =
     (if b = a \<and> m = n \<and> p \<le> o' \<and> o' < p + length xs then xs ! (o' - p) else v_page v b m o')"
  by (simp add: put_page_def)

lemma put_page_sel [simp]:
  "v_fs (put_page v a n p xs) = v_fs v" "v_inode (put_page v a n p xs) = v_inode v"
  "v_written (put_page v a n p xs) = v_written v" "v_dcache (put_page v a n p xs) = v_dcache v"
  "v_sbi (put_page v a n p xs) = v_sbi v"
  by (simp_all add: put_page_def v_sbi_def)

lemma upd_inode_sel [simp]:
  "v_fs (upd_inode v a f) = v_fs v" "v_page (upd_inode v a f) = v_page v"
  "v_written (upd_inode v a f) = v_written v" "v_dcache (upd_inode v a f) = v_dcache v"
  "v_sbi (upd_inode v a f) = v_sbi v" "v_inode (upd_inode v a f) b = (if b = a then f (v_inode v a) else v_inode v b)"
  by (simp_all add: upd_inode_def v_sbi_def)

lemma only_dir_put_page: "only_dir v (put_page v a n p xs) a"
  by (simp add: only_dir_def) (auto simp: put_page_def)

lemma only_dir_puts: "only_dir v v' a \<Longrightarrow> only_dir v (put_page v' a n p xs) a"
  by (rule only_dir_trans [OF _ only_dir_put_page])

lemma pslot_cong:
  "(\<And>j. 64 * k \<le> j \<Longrightarrow> j < 64 * k + 64 \<Longrightarrow> page' j = page j) \<Longrightarrow> pslot page' k = pslot page k"
  unfolding pslot_def by (intro prod_eqI) (auto simp: intro!: arg_cong [where f = cstr] arg_cong [where f = le_num])

text \<open>Writing inside slot \<open>i\<close> leaves the other slots alone.\<close>

lemma slot_put_other:
  assumes "off + length xs \<le> 64" "j \<noteq> i"
  shows "dir_slot (put_page v a (i div 64) (64 * (i mod 64) + off) xs) a j = dir_slot v a j"
  unfolding dir_slot_def
proof (rule pslot_cong)
  fix q assume q: "64 * (j mod 64) \<le> q" "q < 64 * (j mod 64) + 64"
  have "\<not> (j div 64 = i div 64 \<and> 64 * (i mod 64) + off \<le> q \<and> q < 64 * (i mod 64) + off + length xs)"
  proof
    assume h: "j div 64 = i div 64 \<and> 64 * (i mod 64) + off \<le> q \<and> q < 64 * (i mod 64) + off + length xs"
    then have "j mod 64 = i mod 64" using q assms(1) by linarith
    with h have "j = i" by (metis div_mult_mod_eq)
    with assms(2) show False by simp
  qed
  then show "v_page (put_page v a (i div 64) (64 * (i mod 64) + off) xs) a (j div 64) q = v_page v a (j div 64) q"
    by auto
qed

lemma slot_put_number:
  "dir_slot (put_page v a (i div 64) (64 * (i mod 64)) (le_bytes 4 ino)) a i = (u32 ino, snd (dir_slot v a i))"
proof -
  let ?v = "put_page v a (i div 64) (64 * (i mod 64)) (le_bytes 4 ino)" and ?o = "64 * (i mod 64)"
  have n: "map (v_page ?v a (i div 64)) [?o..<?o + 4] = le_bytes 4 ino"
    by (rule nth_equalityI) simp_all
  have m: "map (v_page ?v a (i div 64)) [?o + 4..<?o + 64] = map (v_page v a (i div 64)) [?o + 4..<?o + 64]"
    by auto
  show ?thesis unfolding dir_slot_def pslot_def n m by (simp add: u32_def)
qed

lemma slot_put_name:
  assumes "name_ok name"
  shows "snd (dir_slot (put_page v a (i div 64) (64 * (i mod 64) + 4) (name @ replicate (60 - length name) 0)) a i) = name"
proof -
  let ?xs = "name @ replicate (60 - length name) (0 :: byte)" and ?o = "64 * (i mod 64)"
  let ?v = "put_page v a (i div 64) (?o + 4) ?xs"
  have l: "length ?xs = 60" "length name \<le> 60" using assms by (simp_all add: name_ok_def)
  have "map (v_page ?v a (i div 64)) [?o + 4..<?o + 64] = ?xs"
  proof (rule nth_equalityI)
    fix q assume "q < length (map (v_page ?v a (i div 64)) [?o + 4..<?o + 64])"
    then have "q < 60" by simp
    then show "map (v_page ?v a (i div 64)) [?o + 4..<?o + 64] ! q = ?xs ! q" by (simp add: l)
  qed (simp add: l)
  moreover have "cstr ?xs = name"
    using assms by (intro cstr_eqI) (auto simp: name_ok_def nth_append)
  ultimately show ?thesis by (simp add: dir_slot_def pslot_def)
qed

section \<open>Storing an entry\<close>

lemma slot_pos: "i div 64 * PAGE_SIZE + 64 * (i mod 64) = 64 * i"
  unfolding PAGE_SIZE_def using div_mult_mod_eq [of i 64] by linarith

lemma entries_put:
  assumes "i < nslots v a" "nslots v' a = nslots v a" "dir_slot v' a i = e" "\<And>j. j \<noteq> i \<Longrightarrow> dir_slot v' a j = dir_slot v a j"
  shows "entries v' a = (entries v a)[i := e]"
  using assms by (intro nth_equalityI) (auto simp: nth_list_update)

lemma entries_extend:
  assumes "nslots v' a = Suc (nslots v a)" "dir_slot v' a (nslots v a) = e" "\<And>j. j \<noteq> nslots v a \<Longrightarrow> dir_slot v' a j = dir_slot v a j"
  shows "entries v' a = entries v a @ [e]"
  using assms by (intro nth_equalityI) (auto simp: nth_append less_Suc_eq)

lemma touch_dir_same: "same_dirs v (touch_dir de v a)"
  by (simp add: touch_dir_def same_dirs_def only_dir_def mark_inode_dirty_def)

lemma handle_dirsync_same: "dir_env_ok de \<Longrightarrow> same_dirs v (fst (cominix_handle_dirsync de v a))"
  using dir_env_okD(2) [of de v a] dir_env_okD(3) [of de "fst (de_write_wait de v a)" a]
  by (auto simp: cominix_handle_dirsync_def split: prod.split intro: same_dirs_trans)

lemma prepare_same: "dir_env_ok de \<Longrightarrow> same_dirs v (fst (cominix_prepare_chunk de v a pos len))"
  by (simp add: cominix_prepare_chunk_def dir_env_okD)

lemma commit_slot:
  assumes "dir_ok v a" "i \<le> nslots v a"
  defines "v' \<equiv> dir_commit_chunk v a (64 * i) 64"
  shows "only_dir v v' a" "v_page v' = v_page v" "nslots v' a = max (nslots v a) (Suc i)" "dir_ok v' a"
    "v_written v' = v_written v @ [(a, 64 * i, 64)]"
proof -
  have s: "v_sbi (dir_commit_chunk v a (64 * i) 64) = v_sbi v"
    by (simp add: dir_commit_chunk_def Let_def v_sbi_def upd_inode_def)
  show "only_dir v v' a" "v_page v' = v_page v" "v_written v' = v_written v @ [(a, 64 * i, 64)]"
    unfolding v'_def by (auto simp: only_dir_def s) (auto simp: dir_commit_chunk_def mark_inode_dirty_def Let_def)
  have "i_size (v_inode v' a) = 64 * max (nslots v a) (Suc i)"
    using assms(2) dir_okD(2) [OF assms(1)] unfolding v'_def
    by (auto simp: dir_commit_chunk_def mark_inode_dirty_def max_def Let_def)
  then show "nslots v' a = max (nslots v a) (Suc i)" "dir_ok v' a"
    using dir_okD(1) [OF assms(1)] s by (simp_all add: nslots_def dir_ok_def v'_def)
qed

lemma same_dirs_nslots: "same_dirs v v' \<Longrightarrow> nslots v' a = nslots v a"
  by (simp add: same_dirs_def nslots_def)

lemma same_dirs_slot: "same_dirs v v' \<Longrightarrow> dir_slot v' a i = dir_slot v a i"
  by (simp add: same_dirs_def dir_slot_def)

text \<open>Committing slot \<open>i\<close> after it was written, with the updates that follow.\<close>

lemma finish_update:
  assumes "dir_env_ok de" "dir_ok v a" "i \<le> nslots v a"
  defines "v' \<equiv> fst (cominix_handle_dirsync de (touch_dir de (dir_commit_chunk v a (64 * i) 64) a) a)"
  shows "only_dir v v' a" "nslots v' a = max (nslots v a) (Suc i)" "dir_ok v' a" "dir_slot v' b j = dir_slot v b j"
    "v_written v' = v_written v @ [(a, 64 * i, 64)]"
proof -
  let ?c = "dir_commit_chunk v a (64 * i) 64"
  note c = commit_slot [OF assms(2,3)]
  have s: "same_dirs ?c v'" unfolding v'_def
    by (rule same_dirs_trans [OF touch_dir_same handle_dirsync_same [OF assms(1)]])
  show "only_dir v v' a" by (rule only_dir_trans [OF c(1) same_dirs_only [OF s]])
  show "nslots v' a = max (nslots v a) (Suc i)" unfolding same_dirs_nslots [OF s] by (rule c(3))
  show "dir_ok v' a" unfolding same_dirs_ok [OF s] by (rule c(4))
  show "dir_slot v' b j = dir_slot v b j" unfolding same_dirs_slot [OF s] by (simp add: dir_slot_def c(2))
  have "v_written v' = v_written ?c" using s by (simp add: same_dirs_def)
  then show "v_written v' = v_written v @ [(a, 64 * i, 64)]" using c(5) by simp
qed

lemma store_entry_fails:
  assumes "dir_env_ok de" "snd (cominix_prepare_chunk de v a (64 * i) (s_dirsize (v_sbi v))) = Some e"
  shows "\<exists>v'. store_entry de v a (at_slot i) ino = (v', Some e) \<and> same_dirs v v'"
  using assms(2) prepare_same [OF assms(1), of v a "64 * i" "s_dirsize (v_sbi v)"]
  unfolding store_entry_def by (auto simp: slot_pos Let_def split: prod.split)

lemma store_entry_works:
  assumes de: "dir_env_ok de" and d: "dir_ok v a" and i: "i < nslots v a"
    and p: "snd (cominix_prepare_chunk de v a (64 * i) 64) = None"
  shows "\<exists>v' err. store_entry de v a (at_slot i) ino = (v', err) \<and> only_dir v v' a \<and> dir_ok v' a \<and>
    entries v' a = (entries v a)[i := (u32 ino, snd (dir_slot v a i))] \<and> v_written v' = v_written v @ [(a, 64 * i, 64)]"
proof -
  have ds: "s_dirsize (v_sbi v) = 64" using dir_okD(1) [OF d] by (simp add: dir_simps)
  define v1 where "v1 = fst (cominix_prepare_chunk de v a (64 * i) 64)"
  have s1: "same_dirs v v1" unfolding v1_def by (rule prepare_same [OF de])
  have d1: "dir_ok v1 a" using same_dirs_ok [OF s1] d by simp
  have w: "ino_width (v_sbi v1) = 4" using dir_okD(1) [OF d1] by (simp add: dir_simps)
  define v2 where "v2 = put_page v1 a (i div 64) (64 * (i mod 64)) (le_bytes 4 ino)"
  have o2: "only_dir v1 v2 a" unfolding v2_def by (rule only_dir_put_page)
  have n2: "nslots v2 a = nslots v a" using same_dirs_nslots [OF s1] by (simp add: v2_def nslots_def)
  have d2: "dir_ok v2 a" using d1 by (simp add: v2_def dir_ok_def)
  define v' where "v' = fst (cominix_handle_dirsync de (touch_dir de (dir_commit_chunk v2 a (64 * i) 64) a) a)"
  define err where "err = snd (cominix_handle_dirsync de (touch_dir de (dir_commit_chunk v2 a (64 * i) 64) a) a)"
  have st: "store_entry de v a (at_slot i) ino = (v', err)"
    unfolding store_entry_def v'_def err_def v2_def w [symmetric] v1_def
    using p by (auto simp: slot_pos ds set_de_inode_def Let_def split: prod.split)
  have i2: "i \<le> nslots v2 a" using i n2 by simp
  note f = finish_update [OF de d2 i2, folded v'_def]
  have "only_dir v v' a" by (rule only_dir_trans [OF only_dir_trans [OF same_dirs_only [OF s1] o2] f(1)])
  moreover have "entries v' a = (entries v a)[i := (u32 ino, snd (dir_slot v a i))]"
  proof (rule entries_put [OF i])
    show "nslots v' a = nslots v a" using f(2) n2 i by simp
    show "dir_slot v' a i = (u32 ino, snd (dir_slot v a i))"
      unfolding f(4) v2_def slot_put_number same_dirs_slot [OF s1] ..
    show "dir_slot v' a j = dir_slot v a j" if "j \<noteq> i" for j
      using slot_put_other [of 0 "le_bytes 4 ino" j i v1 a] that
      unfolding f(4) v2_def same_dirs_slot [OF s1] by simp
  qed
  moreover have "v_written v2 = v_written v" using s1 by (simp add: v2_def same_dirs_def)
  ultimately show ?thesis using st f(3,5) by auto
qed

section \<open>Adding an entry\<close>

text \<open>The place of a new entry is the first unused slot, or a new one at the end.\<close>

definition free_index :: "entry list \<Rightarrow> nat" where
  "free_index es = (case List.find (\<lambda>i. \<not> used (es ! i)) [0..<length es] of None \<Rightarrow> length es | Some i \<Rightarrow> i)"

definition place_entry :: "entry list \<Rightarrow> entry \<Rightarrow> entry list" where
  "place_entry es e = (let i = free_index es in if i < length es then es[i := e] else es @ [e])"

definition has_name :: "entry list \<Rightarrow> byte list \<Rightarrow> bool" where
  "has_name es name \<longleftrightarrow> (\<exists>e\<in>set es. entry_is name e)"

lemma free_index_le: "free_index es \<le> length es"
  by (auto simp: free_index_def find_Some_iff_upt split: option.split)

lemma free_index_unused: "free_index es < length es \<Longrightarrow> \<not> used (es ! free_index es)"
  by (cases "List.find (\<lambda>i. \<not> used (es ! i)) [0..<length es]") (auto simp: free_index_def dest: find_Some_iff_upt [THEN iffD1])

lemma add_place_free:
  assumes "\<not> has_name (entries v a) name"
  defines "i \<equiv> free_index (entries v a)"
  shows "add_place v a name 0 = (i div 64, if i < nslots v a then Slot_free (64 * (i mod 64)) else Slot_end (64 * (i mod 64)))"
proof -
  have "stops_at name (dir_slot v a j) = (\<not> used (entries v a ! j))" if "j \<in> set [0..<nslots v a]" for j
  proof -
    have "dir_slot v a j \<in> set (entries v a)" using that by (simp add: entries_def)
    then have "\<not> entry_is name (dir_slot v a j)" using assms(1) unfolding has_name_def by blast
    then show ?thesis using that by auto
  qed
  then have f: "List.find (\<lambda>j. stops_at name (dir_slot v a j)) [0..<nslots v a] =
      List.find (\<lambda>j. \<not> used (entries v a ! j)) [0..<nslots v a]"
    by (rule find_cong_set)
  show ?thesis
  proof (cases "List.find (\<lambda>j. \<not> used (entries v a ! j)) [0..<nslots v a]")
    case None
    then show ?thesis using f by (simp add: add_place_def i_def free_index_def)
  next
    case (Some k)
    then have "k < nslots v a" "\<not> used (dir_slot v a k)" by (auto simp: find_Some_iff_upt)
    then show ?thesis using f Some by (simp add: add_place_def i_def free_index_def)
  qed
qed

lemma add_at_fails:
  assumes "dir_env_ok de" "dir_ok v a" "snd (cominix_prepare_chunk de v a (64 * i) 64) = Some e"
  shows "\<exists>v'. add_at de v a name ino (i div 64) (64 * (i mod 64)) = Inr (v', Some e) \<and> same_dirs v v'"
  using assms(3) prepare_same [OF assms(1), of v a "64 * i" 64] dir_okD(1) [OF assms(2)]
  unfolding add_at_def by (auto simp: slot_pos Let_def dir_simps split: prod.split)

lemma add_at_works:
  assumes de: "dir_env_ok de" and d: "dir_ok v a" and i: "i \<le> nslots v a" and nm: "name_ok name"
    and p: "snd (cominix_prepare_chunk de v a (64 * i) 64) = None"
  shows "\<exists>v' err. add_at de v a name ino (i div 64) (64 * (i mod 64)) = Inr (v', err) \<and> only_dir v v' a \<and>
    dir_ok v' a \<and> nslots v' a = max (nslots v a) (Suc i) \<and> dir_slot v' a i = (u32 ino, name) \<and>
    (\<forall>j. j \<noteq> i \<longrightarrow> dir_slot v' a j = dir_slot v a j) \<and> v_written v' = v_written v @ [(a, 64 * i, 64)] \<and>
    (\<exists>w. err = snd (cominix_handle_dirsync de w a))"
proof -
  have ds: "s_dirsize (v_sbi v) = 64" "ino_width (v_sbi v) = 4" using dir_okD(1) [OF d] by (simp_all add: dir_simps)
  have l: "length name \<le> 60" using nm by (simp add: name_ok_def)
  define v1 where "v1 = fst (cominix_prepare_chunk de v a (64 * i) 64)"
  have pr: "cominix_prepare_chunk de v a (64 * i) 64 = (v1, None)"
    unfolding v1_def using p by (metis prod.collapse)
  have s1: "same_dirs v v1" unfolding v1_def by (rule prepare_same [OF de])
  have d1: "dir_ok v1 a" using same_dirs_ok [OF s1] d by simp
  have w: "ino_width (v_sbi v1) = 4" using dir_okD(1) [OF d1] by (simp add: dir_simps)
  define v2 where "v2 = put_page v1 a (i div 64) (64 * (i mod 64) + 4) (name @ replicate (60 - length name) 0)"
  define v3 where "v3 = put_page v2 a (i div 64) (64 * (i mod 64)) (le_bytes 4 ino)"
  have o3: "only_dir v1 v3 a" unfolding v2_def v3_def by (rule only_dir_trans [OF only_dir_put_page only_dir_put_page])
  have n3: "nslots v3 a = nslots v a" using same_dirs_nslots [OF s1] by (simp add: v2_def v3_def nslots_def)
  have d3: "dir_ok v3 a" using d1 by (simp add: v2_def v3_def dir_ok_def)
  define r where "r = cominix_handle_dirsync de (touch_dir de (dir_commit_chunk v3 a (64 * i) 64) a) a"
  have st: "add_at de v a name ino (i div 64) (64 * (i mod 64)) = Inr r"
    unfolding add_at_def r_def v3_def v2_def
    using l by (simp add: slot_pos ds set_de_inode_def Let_def pr w)
  note f = finish_update [OF de d3 i [folded n3], folded r_def]
  have o: "only_dir v (fst r) a" by (rule only_dir_trans [OF only_dir_trans [OF same_dirs_only [OF s1] o3] f(1)])
  have si: "dir_slot (fst r) a i = (u32 ino, name)"
    unfolding f(4) v3_def slot_put_number v2_def slot_put_name [OF nm] ..
  have sj: "dir_slot (fst r) a j = dir_slot v a j" if "j \<noteq> i" for j
  proof -
    have "dir_slot v3 a j = dir_slot v2 a j"
      using slot_put_other [of 0 "le_bytes 4 ino" j i v2 a] that by (simp add: v3_def)
    moreover have "dir_slot v2 a j = dir_slot v1 a j" unfolding v2_def
      by (rule slot_put_other) (use l that in simp_all)
    ultimately show ?thesis unfolding f(4) using same_dirs_slot [OF s1] by simp
  qed
  have "v_written v3 = v_written v" using s1 by (simp add: v2_def v3_def same_dirs_def)
  moreover have "\<exists>w. snd r = snd (cominix_handle_dirsync de w a)" by (auto simp: r_def)
  ultimately show ?thesis using st o si sj f(2,3,5) n3 by (cases r) auto
qed

text \<open>Adding a name that is not there. \<open>v0\<close> is the state in which the page is prepared: the
  number of an entry beyond the end has been cleared.\<close>

definition at_end_cleared :: "vfs \<Rightarrow> nat \<Rightarrow> vfs" where
  "at_end_cleared v a = (let i = free_index (entries v a) in
     if i < nslots v a then v else set_de_inode v a (i div 64) (64 * (i mod 64)) 0)"

lemma at_end_cleared_facts:
  assumes "dir_ok v a"
  shows "only_dir v (at_end_cleared v a) a" "dir_ok (at_end_cleared v a) a"
    "nslots (at_end_cleared v a) a = nslots v a" "v_written (at_end_cleared v a) = v_written v"
    "entries (at_end_cleared v a) a = entries v a"
proof -
  let ?i = "free_index (entries v a)"
  show "only_dir v (at_end_cleared v a) a" "dir_ok (at_end_cleared v a) a"
    "nslots (at_end_cleared v a) a = nslots v a" "v_written (at_end_cleared v a) = v_written v"
    using assms by (auto simp: at_end_cleared_def Let_def set_de_inode_def only_dir_put_page dir_ok_def nslots_def)
  have "dir_slot (at_end_cleared v a) a j = dir_slot v a j" if "j < nslots v a" for j
    using slot_put_other [of 0 "le_bytes 4 0" j ?i v a] that dir_okD(1) [OF assms]
    by (auto simp: at_end_cleared_def Let_def set_de_inode_def dir_simps)
  then show "entries (at_end_cleared v a) a = entries v a"
    using \<open>nslots (at_end_cleared v a) a = nslots v a\<close> by (auto simp: entries_def)
qed

lemma add_link_step:
  assumes "dir_ok v a" "name_ok name" "dir_readable de v a" "\<not> has_name (entries v a) name"
  defines "i \<equiv> free_index (entries v a)"
  shows "cominix_add_link de v a name b =
    add_at de (at_end_cleared v a) a name (i_ino (v_inode v b)) (i div 64) (64 * (i mod 64))"
  using add_pages_slots [OF assms(1,2,3), of 0] add_place_free [OF assms(4)]
  by (simp add: cominix_add_link_def at_end_cleared_def i_def Let_def)

lemma add_link_fails:
  assumes "dir_ok v a" "name_ok name" "dir_readable de v a" "\<not> has_name (entries v a) name" "dir_env_ok de"
    and "snd (cominix_prepare_chunk de (at_end_cleared v a) a (64 * free_index (entries v a)) 64) = Some e"
  shows "\<exists>v'. cominix_add_link de v a name b = Inr (v', Some e) \<and> only_dir v v' a \<and> dir_ok v' a \<and>
    entries v' a = entries v a \<and> v_written v' = v_written v"
proof -
  note c = at_end_cleared_facts [OF assms(1)]
  obtain v' where r: "cominix_add_link de v a name b = Inr (v', Some e)" and s: "same_dirs (at_end_cleared v a) v'"
    using add_at_fails [OF assms(5) c(2) assms(6)] add_link_step [OF assms(1-4)] by metis
  have "only_dir v v' a" by (rule only_dir_trans [OF c(1) same_dirs_only [OF s]])
  then show ?thesis using r c s by (auto simp: same_dirs_ok [OF s] same_dirs_entries [OF s] same_dirs_def)
qed

lemma add_link_works:
  assumes "dir_ok v a" "name_ok name" "dir_readable de v a" "\<not> has_name (entries v a) name" "dir_env_ok de"
    and "snd (cominix_prepare_chunk de (at_end_cleared v a) a (64 * free_index (entries v a)) 64) = None"
  shows "\<exists>v' err. cominix_add_link de v a name b = Inr (v', err) \<and> only_dir v v' a \<and> dir_ok v' a \<and>
    entries v' a = place_entry (entries v a) (u32 (i_ino (v_inode v b)), name) \<and>
    v_written v' = v_written v @ [(a, 64 * free_index (entries v a), 64)] \<and>
    (\<exists>w. err = snd (cominix_handle_dirsync de w a))"
proof -
  let ?i = "free_index (entries v a)" and ?e = "(u32 (i_ino (v_inode v b)), name)"
  note c = at_end_cleared_facts [OF assms(1)]
  have i: "?i \<le> nslots (at_end_cleared v a) a" using free_index_le [of "entries v a"] c(3) by simp
  obtain v' err where r: "cominix_add_link de v a name b = Inr (v', err)"
    and w: "only_dir (at_end_cleared v a) v' a" "dir_ok v' a" "nslots v' a = max (nslots v a) (Suc ?i)"
      "dir_slot v' a ?i = ?e" "\<And>j. j \<noteq> ?i \<Longrightarrow> dir_slot v' a j = dir_slot (at_end_cleared v a) a j"
      "v_written v' = v_written v @ [(a, 64 * ?i, 64)]" "\<exists>w. err = snd (cominix_handle_dirsync de w a)"
    using add_at_works [OF assms(5) c(2) i assms(2,6), of "i_ino (v_inode v b)"] add_link_step [OF assms(1-4), of b] c(3,4)
    by metis
  have "entries v' a = place_entry (entries (at_end_cleared v a) a) ?e"
  proof (cases "?i < nslots v a")
    case True
    then have "entries v' a = (entries (at_end_cleared v a) a)[?i := ?e]"
      using c(3) w by (intro entries_put) (simp_all add: max_def)
    then show ?thesis using True c(5) by (simp add: place_entry_def)
  next
    case False
    then have "?i = nslots (at_end_cleared v a) a" using i c(3) by simp
    then have "entries v' a = entries (at_end_cleared v a) a @ [?e]"
      using c(3) w by (intro entries_extend) (simp_all add: max_def)
    then show ?thesis using False c(5) by (simp add: place_entry_def)
  qed
  then show ?thesis using r w(2,6,7) c(5) only_dir_trans [OF c(1) w(1)] by auto
qed

section \<open>A new directory\<close>

lemma pslot_named:
  assumes "map page [64 * k..<64 * k + 4] = le_bytes 4 ino"
  shows "page (64 * k + 4) = 46 \<Longrightarrow> page (64 * k + 5) = 0 \<Longrightarrow> pslot page k = (u32 ino, [46])"
    and "page (64 * k + 4) = 46 \<Longrightarrow> page (64 * k + 5) = 46 \<Longrightarrow> page (64 * k + 6) = 0 \<Longrightarrow>
      pslot page k = (u32 ino, [46, 46])"
proof -
  let ?xs = "map page [64 * k + 4..<64 * k + 64]"
  have l: "2 < length ?xs" by simp
  have nj: "q < 60 \<Longrightarrow> 4 + q = r \<Longrightarrow> ?xs ! q = page (64 * k + r)" for q r by (auto simp: add.assoc)
  have n: "?xs ! 0 = page (64 * k + 4)" "?xs ! 1 = page (64 * k + 5)" "?xs ! 2 = page (64 * k + 6)"
    by (rule nj; simp)+
  show "page (64 * k + 4) = 46 \<Longrightarrow> page (64 * k + 5) = 0 \<Longrightarrow> pslot page k = (u32 ino, [46])"
    using cstr_head(1) [OF l, of 46] assms unfolding n by (simp add: pslot_def u32_def)
  show "page (64 * k + 4) = 46 \<Longrightarrow> page (64 * k + 5) = 46 \<Longrightarrow> page (64 * k + 6) = 0 \<Longrightarrow>
      pslot page k = (u32 ino, [46, 46])"
    using cstr_head(2) [OF l, of 46 46] assms unfolding n by (simp add: pslot_def u32_def)
qed

text \<open>The page of a new directory.\<close>

definition empty_dir_page :: "vfs \<Rightarrow> nat \<Rightarrow> nat \<Rightarrow> nat \<Rightarrow> vfs" where
  "empty_dir_page v a self up =
     put_page (put_page (put_page (put_page (put_page v a 0 0 (replicate PAGE_SIZE 0))
       a 0 0 (le_bytes 4 self)) a 0 4 [46, 0]) a 0 64 (le_bytes 4 up)) a 0 68 [46, 46, 0]"

lemma empty_dir_page_slots:
  "dir_slot (empty_dir_page v a self up) a 0 = (u32 self, [46])"
  "dir_slot (empty_dir_page v a self up) a 1 = (u32 up, [46, 46])"
proof -
  let ?p = "v_page (empty_dir_page v a self up) a 0"
  have "map ?p [64 * 0..<64 * 0 + 4] = le_bytes 4 self" "map ?p [64 * 1..<64 * 1 + 4] = le_bytes 4 up"
    by (rule nth_equalityI; simp add: empty_dir_page_def del: upt_rec_numeral)+
  note n = pslot_named(1) [OF this(1)] pslot_named(2) [OF this(2)]
  have "pslot ?p 0 = (u32 self, [46])" by (rule n(1)) (simp_all add: empty_dir_page_def)
  moreover have "pslot ?p 1 = (u32 up, [46, 46])" by (rule n(2)) (simp_all add: empty_dir_page_def)
  ultimately show "dir_slot (empty_dir_page v a self up) a 0 = (u32 self, [46])"
    "dir_slot (empty_dir_page v a self up) a 1 = (u32 up, [46, 46])" by (simp_all add: dir_slot_def)
qed

lemma make_empty_fails:
  assumes "dir_env_ok de"
    and "de_grab de a 0 = Some e \<or> de_grab de a 0 = None \<and> snd (cominix_prepare_chunk de v a 0 (2 * s_dirsize (v_sbi v))) = Some e"
  shows "\<exists>v'. cominix_make_empty de v a parent = (v', Some e) \<and> same_dirs v v'"
  using assms(2) prepare_same [OF assms(1), of v a 0 "2 * s_dirsize (v_sbi v)"]
  unfolding cominix_make_empty_def by (auto simp: Let_def split: prod.split)

lemma make_empty_works:
  assumes de: "dir_env_ok de" and d: "dir_ok v a" and z: "i_size (v_inode v a) = 0" and g: "de_grab de a 0 = None"
    and p: "snd (cominix_prepare_chunk de v a 0 128) = None"
  shows "\<exists>v' err. cominix_make_empty de v a parent = (v', err) \<and> only_dir v v' a \<and> dir_ok v' a \<and>
    entries v' a = [(u32 (i_ino (v_inode v a)), [46]), (u32 (i_ino (v_inode v parent)), [46, 46])] \<and>
    v_written v' = v_written v @ [(a, 0, 128)]"
proof -
  have ds: "s_dirsize (v_sbi v) = 64" "ino_width (v_sbi v) = 4" using dir_okD(1) [OF d] by (simp_all add: dir_simps)
  define v1 where "v1 = fst (cominix_prepare_chunk de v a 0 128)"
  have pr: "cominix_prepare_chunk de v a 0 128 = (v1, None)" unfolding v1_def using p by (metis prod.collapse)
  have s1: "same_dirs v v1" unfolding v1_def by (rule prepare_same [OF de])
  have d1: "dir_ok v1 a" using same_dirs_ok [OF s1] d by simp
  have w: "ino_width (v_sbi v1) = 4" using dir_okD(1) [OF d1] by (simp add: dir_simps)
  have ids: "i_ino (v_inode v1 b) = i_ino (v_inode v b)" for b by (rule only_dirD(2) [OF same_dirs_only [OF s1]])
  define v2 where "v2 = empty_dir_page v1 a (i_ino (v_inode v a)) (i_ino (v_inode v parent))"
  have o2: "only_dir v1 v2 a" unfolding v2_def empty_dir_page_def
    by (intro only_dir_puts only_dir_refl)
  define v3 where "v3 = dir_commit_chunk v2 a 0 128"
  define r where "r = cominix_handle_dirsync de v3 a"
  have st: "cominix_make_empty de v a parent = r"
    unfolding cominix_make_empty_def r_def v3_def v2_def empty_dir_page_def
    by (simp add: g ds pr Let_def set_de_inode_def w cominix_next_entry_def ids)
  have s3: "same_dirs v3 (fst r)" unfolding r_def by (rule handle_dirsync_same [OF de])
  have sz2: "i_size (v_inode v2 a) = 0" "v_sbi v2 = v_sbi v1" "v_written v2 = v_written v1"
    using s1 z by (simp_all add: v2_def empty_dir_page_def same_dirs_def)
  have v3: "only_dir v2 v3 a" "i_size (v_inode v3 a) = 128" "v_sbi v3 = v_sbi v2" "v_page v3 = v_page v2"
    "v_written v3 = v_written v2 @ [(a, 0, 128)]"
    unfolding v3_def dir_commit_chunk_def using sz2(1)
    by (auto simp: only_dir_def mark_inode_dirty_def Let_def v_sbi_def upd_inode_def)
  have n3: "nslots v3 a = 2" using v3(2) by (simp add: nslots_def)
  have "dir_ok v3 a" using v3(2,3) sz2(2) d1 by (simp add: dir_ok_def)
  moreover have "entries v3 a = [dir_slot v2 a 0, dir_slot v2 a 1]"
  proof -
    have "[0..<2] = [0, 1 :: nat]" by (simp add: upt_rec)
    then show ?thesis using n3 v3(4) by (simp add: entries_def dir_slot_def)
  qed
  moreover have "only_dir v (fst r) a"
    by (rule only_dir_trans [OF only_dir_trans [OF only_dir_trans [OF same_dirs_only [OF s1] o2] v3(1)] same_dirs_only [OF s3]])
  moreover have "v_written (fst r) = v_written v @ [(a, 0, 128)]"
    using s3 s1 v3(5) sz2(3) by (simp add: same_dirs_def)
  ultimately show ?thesis using st same_dirs_ok [OF s3] same_dirs_entries [OF s3]
    by (cases r) (auto simp: v2_def empty_dir_page_slots [simplified])
qed

end
