(* ===== verification/DirMap.thy ===== *)
theory DirMap
  imports DirUpdate
begin

text \<open>
  A directory as a map from names to inode numbers: each operation of dir.c either leaves the map
  alone and fails, or updates it at one name, and lookup answers what the map says.
\<close>

section \<open>The map of a list of entries\<close>

definition dir_map :: "entry list \<Rightarrow> byte list \<Rightarrow> nat option" where
  "dir_map es name = map_option fst (List.find (entry_is name) es)"

text \<open>No name is used twice.\<close>

definition distinct_names :: "entry list \<Rightarrow> bool" where
  "distinct_names es \<longleftrightarrow> (\<forall>i<length es. \<forall>j<length es.
     used (es ! i) \<and> used (es ! j) \<and> snd (es ! i) = snd (es ! j) \<longrightarrow> i = j)"

lemma distinct_namesD:
  "distinct_names es \<Longrightarrow> i < length es \<Longrightarrow> j < length es \<Longrightarrow> used (es ! i) \<Longrightarrow> used (es ! j) \<Longrightarrow>
   snd (es ! i) = snd (es ! j) \<Longrightarrow> i = j"
  unfolding distinct_names_def by blast

lemma dir_map_None: "dir_map es name = None \<longleftrightarrow> \<not> has_name es name"
  by (auto simp: dir_map_def has_name_def find_None_iff)

lemma dir_map_entry:
  assumes "distinct_names es" "k < length es" "used (es ! k)"
  shows "dir_map es (snd (es ! k)) = Some (fst (es ! k))"
proof (cases "List.find (entry_is (snd (es ! k))) es")
  case None
  then have "\<not> entry_is (snd (es ! k)) (es ! k)"
    unfolding find_None_iff using nth_mem [OF assms(2)] by blast
  then show ?thesis using assms(3) by simp
next
  case (Some e)
  then obtain j where "j < length es" "entry_is (snd (es ! k)) (es ! j)" "e = es ! j"
    unfolding find_Some_iff by blast
  then have "j = k" using distinct_namesD [OF assms(1)] assms(2,3) by blast
  then show ?thesis using Some \<open>e = es ! j\<close> by (simp add: dir_map_def)
qed

lemma dir_map_Some:
  assumes "distinct_names es"
  shows "dir_map es name = Some x \<longleftrightarrow> (\<exists>k<length es. used (es ! k) \<and> es ! k = (x, name))"
proof
  assume "dir_map es name = Some x"
  then obtain e where "List.find (entry_is name) es = Some e" "fst e = x" by (auto simp: dir_map_def)
  then obtain j where "j < length es" "entry_is name (es ! j)" "e = es ! j"
    unfolding find_Some_iff by blast
  then show "\<exists>k<length es. used (es ! k) \<and> es ! k = (x, name)"
    using \<open>fst e = x\<close> by (intro exI [of _ j]) (auto intro: prod_eqI)
qed (use dir_map_entry [OF assms] in fastforce)

lemma dir_map_eqI:
  assumes "distinct_names es" "\<And>name x. m name = Some x \<longleftrightarrow> (\<exists>k<length es. used (es ! k) \<and> es ! k = (x, name))"
  shows "dir_map es = m"
proof
  fix name
  have "dir_map es name = Some x \<longleftrightarrow> m name = Some x" for x
    unfolding dir_map_Some [OF assms(1)] assms(2) ..
  then show "dir_map es name = m name" by (metis option.exhaust)
qed

text \<open>Setting the number of a used entry, to 0 or to another number, and filling an unused one.\<close>

lemma map_set_number:
  fixes x :: nat
  assumes d: "distinct_names es" and k: "k < length es" "used (es ! k)"
  defines "es' \<equiv> es[k := (x, snd (es ! k))]"
  shows "distinct_names es'" "dir_map es' = (dir_map es)(snd (es ! k) := if x = 0 then None else Some x)"
proof -
  show d': "distinct_names es'" unfolding distinct_names_def
  proof (intro allI impI)
    fix i j
    assume "i < length es'" "j < length es'"
      and h: "used (es' ! i) \<and> used (es' ! j) \<and> snd (es' ! i) = snd (es' ! j)"
    then have "i < length es" "j < length es" "used (es ! i)" "used (es ! j)" "snd (es ! i) = snd (es ! j)"
      using k by (auto simp: es'_def nth_list_update split: if_splits)
    then show "i = j" by (rule distinct_namesD [OF d])
  qed
  have o: "snd (es ! j) \<noteq> snd (es ! k)" if "j < length es" "j \<noteq> k" "used (es ! j)" for j
    using distinct_namesD [OF d that(1) k(1) that(3) k(2)] that(2) by blast
  show "dir_map es' = (dir_map es)(snd (es ! k) := if x = 0 then None else Some x)"
  proof (rule dir_map_eqI [OF d'])
    fix name y
    show "((dir_map es)(snd (es ! k) := if x = 0 then None else Some x)) name = Some y \<longleftrightarrow>
        (\<exists>j<length es'. used (es' ! j) \<and> es' ! j = (y, name))"
    proof (cases "name = snd (es ! k)")
      case True
      then show ?thesis using k o unfolding es'_def
        by (auto simp: nth_list_update split: if_splits) (metis snd_conv fst_conv)+
    next
      case False
      have q: "used (es' ! j) \<and> es' ! j = (y, name) \<longleftrightarrow> used (es ! j) \<and> es ! j = (y, name)" for j
        using False k(1) by (cases "j = k") (auto simp: es'_def)
      have len: "length es' = length es" by (simp add: es'_def)
      have "(\<exists>j<length es'. used (es' ! j) \<and> es' ! j = (y, name)) \<longleftrightarrow>
          (\<exists>j<length es. used (es ! j) \<and> es ! j = (y, name))"
        unfolding q len ..
      then show ?thesis using False dir_map_Some [OF d, of name y] by simp
    qed
  qed
qed

lemma map_fill:
  assumes d: "distinct_names es" and n: "\<not> has_name es name" and x: "x \<noteq> 0"
  shows "distinct_names (place_entry es (x, name))" "dir_map (place_entry es (x, name)) = (dir_map es)(name \<mapsto> x)"
proof -
  let ?i = "free_index es" and ?es = "place_entry es (x, name)"
  have len: "length ?es = max (length es) (Suc ?i)"
    using free_index_le [of es] by (auto simp: place_entry_def Let_def max_def)
  have at: "?es ! ?i = (x, name)"
    using free_index_le [of es] by (auto simp: place_entry_def Let_def nth_append)
  have other: "?es ! j = es ! j" if "j < length es" "j \<noteq> ?i" for j
    using that by (auto simp: place_entry_def Let_def nth_append)
  have free: "\<not> used (es ! ?i)" if "?i < length es" by (rule free_index_unused [OF that])
  have nn: "snd (es ! j) \<noteq> name" if "j < length es" "used (es ! j)" for j
    using n that nth_mem unfolding has_name_def by blast
  have small: "j < length es" if "j < length ?es" "j \<noteq> ?i" for j
    using that free_index_le [of es] unfolding len by (simp add: max_def split: if_splits)
  have i: "?i < length ?es" unfolding len by simp
  show d': "distinct_names ?es" unfolding distinct_names_def
  proof (intro allI impI)
    fix j k
    assume jk: "j < length ?es" "k < length ?es"
      and h: "used (?es ! j) \<and> used (?es ! k) \<and> snd (?es ! j) = snd (?es ! k)"
    show "j = k"
    proof (cases "j = ?i \<or> k = ?i")
      case True
      then show ?thesis using h at nn small jk other by (metis snd_conv)
    next
      case False
      then show ?thesis using h jk small other distinct_namesD [OF d, of j k] by simp
    qed
  qed
  show "dir_map ?es = (dir_map es)(name \<mapsto> x)"
  proof (rule dir_map_eqI [OF d'])
    fix nm y
    have "(\<exists>j<length ?es. used (?es ! j) \<and> ?es ! j = (y, nm)) \<longleftrightarrow>
        (y, nm) = (x, name) \<or> (\<exists>j<length es. used (es ! j) \<and> es ! j = (y, nm))" (is "?L \<longleftrightarrow> ?R")
    proof
      assume ?L
      then obtain j where j: "j < length ?es" "used (?es ! j)" "?es ! j = (y, nm)" by blast
      show ?R
      proof (cases "j = ?i")
        case True
        then show ?thesis using j at by simp
      next
        case False
        then show ?thesis using j small other by metis
      qed
    next
      assume ?R
      then show ?L
      proof
        assume "(y, nm) = (x, name)"
        then show ?L using at i x by (intro exI [of _ ?i]) simp
      next
        assume "\<exists>j<length es. used (es ! j) \<and> es ! j = (y, nm)"
        then obtain j where j: "j < length es" "used (es ! j)" "es ! j = (y, nm)" by blast
        then have "j \<noteq> ?i" using free by blast
        then show ?L using j other len by (intro exI [of _ j]) simp
      qed
    qed
    moreover have "dir_map es name = None" using n by (simp add: dir_map_None)
    ultimately show "((dir_map es)(name \<mapsto> x)) nm = Some y \<longleftrightarrow>
        (\<exists>j<length ?es. used (?es ! j) \<and> ?es ! j = (y, nm))"
      using dir_map_Some [OF d, of nm y] by (auto simp: fun_upd_apply)
  qed
qed

lemma find_slot_map:
  shows "find_slot v a name = None \<Longrightarrow> dir_map (entries v a) name = None"
    and "find_slot v a name = Some i \<Longrightarrow> i < nslots v a \<and> entry_is name (dir_slot v a i) \<and>
      dir_map (entries v a) name = Some (fst (dir_slot v a i))"
proof -
  have f: "dir_map (entries v a) name = map_option (\<lambda>i. fst (dir_slot v a i)) (find_slot v a name)"
    unfolding dir_map_def find_slot_def entries_def find_map by (simp add: option.map_comp comp_def)
  show "find_slot v a name = None \<Longrightarrow> dir_map (entries v a) name = None" unfolding f by simp
  show "find_slot v a name = Some i \<Longrightarrow> i < nslots v a \<and> entry_is name (dir_slot v a i) \<and>
      dir_map (entries v a) name = Some (fst (dir_slot v a i))"
    unfolding f by (auto simp: find_slot_def find_Some_iff_upt)
qed

section \<open>The operations as updates of the map\<close>

definition names :: "vfs \<Rightarrow> nat \<Rightarrow> byte list \<Rightarrow> nat option" where
  "names v a = dir_map (entries v a)"

definition dir_inv :: "vfs \<Rightarrow> nat \<Rightarrow> bool" where
  "dir_inv v a \<longleftrightarrow> dir_ok v a \<and> distinct_names (entries v a)"

definition dir_reads :: "dir_env \<Rightarrow> nat \<Rightarrow> bool" where
  "dir_reads de a \<longleftrightarrow> (\<forall>n. de_read_folio de a n = None)"

text \<open>\<open>holds_entry v a nm i\<close>: slot \<open>i\<close> is the entry of the name.\<close>

definition holds_entry :: "vfs \<Rightarrow> nat \<Rightarrow> byte list \<Rightarrow> nat \<Rightarrow> bool" where
  "holds_entry v a nm i \<longleftrightarrow> i < nslots v a \<and> entry_is nm (dir_slot v a i)"

text \<open>A change of the directory \<open>a\<close> at the name \<open>nm\<close> only, to the value \<open>r\<close>, or no change
  and an error. The entries of other names stay in their slots.\<close>

definition name_update :: "vfs \<Rightarrow> vfs \<times> errno option \<Rightarrow> nat \<Rightarrow> byte list \<Rightarrow> nat option \<Rightarrow> bool" where
  "name_update v r a nm x \<longleftrightarrow> only_dir v (fst r) a \<and> dir_inv (fst r) a \<and>
     (\<forall>i nm'. nm' \<noteq> nm \<and> holds_entry v a nm' i \<longrightarrow> holds_entry (fst r) a nm' i \<and> dir_slot (fst r) a i = dir_slot v a i) \<and>
     (snd r \<noteq> None \<and> names (fst r) a = names v a \<or> names (fst r) a = (names v a)(nm := x))"

lemma dir_readsD: "dir_reads de a \<Longrightarrow> dir_readable de v a" "dir_reads de a \<Longrightarrow> pages_readable de v a"
  by (simp_all add: dir_reads_def dir_readable_def pages_readable_def)

lemma same_dirs_inv: "same_dirs v v' \<Longrightarrow> dir_inv v' a = dir_inv v a"
  by (simp add: dir_inv_def same_dirs_ok same_dirs_entries)

lemma same_dirs_names: "same_dirs v v' \<Longrightarrow> names v' a = names v a"
  by (simp add: names_def same_dirs_entries)

lemma only_dir_names: "only_dir v v' a \<Longrightarrow> b \<noteq> a \<Longrightarrow> names v' b = names v b"
  unfolding names_def by (simp add: only_dir_entries)

lemma only_dir_inv: "only_dir v v' a \<Longrightarrow> b \<noteq> a \<Longrightarrow> dir_inv v' b = dir_inv v b"
  unfolding dir_inv_def using only_dir_entries [of v v' a b] only_dir_ok [of v v' a b] by simp

lemma name_update_none:
  assumes "same_dirs v (fst r)" "dir_inv v a" "snd r \<noteq> None"
  shows "name_update v r a nm x"
  using assms same_dirs_only [OF assms(1)] same_dirs_inv [OF assms(1)] same_dirs_names [OF assms(1)]
    same_dirs_slot [OF assms(1)] same_dirs_nslots [OF assms(1)]
  unfolding name_update_def holds_entry_def by simp

lemma names_lookup:
  assumes "dir_inv v a" "name_ok nm" "dir_reads de a"
  shows "cominix_find_entry de v a nm =
    Inr (case names v a nm of None \<Rightarrow> None | Some x \<Rightarrow> map_option at_slot (find_slot v a nm))"
    and "names v a nm = Some x \<Longrightarrow> \<exists>i. find_slot v a nm = Some i \<and> holds_entry v a nm i \<and> fst (dir_slot v a i) = x"
    and "names v a nm = None \<Longrightarrow> find_slot v a nm = None"
proof -
  show 1: "names v a nm = Some x \<Longrightarrow> \<exists>i. find_slot v a nm = Some i \<and> holds_entry v a nm i \<and> fst (dir_slot v a i) = x"
    using find_slot_map [of v a nm] by (cases "find_slot v a nm") (auto simp: names_def holds_entry_def)
  show 2: "names v a nm = None \<Longrightarrow> find_slot v a nm = None"
    using find_slot_map(2) [of v a nm] by (cases "find_slot v a nm") (auto simp: names_def)
  have "dir_ok v a" using assms(1) by (simp add: dir_inv_def)
  note f = find_entry_slots [OF this assms(2) dir_readsD(2) [OF assms(3)]]
  show "cominix_find_entry de v a nm =
    Inr (case names v a nm of None \<Rightarrow> None | Some x \<Rightarrow> map_option at_slot (find_slot v a nm))"
    unfolding f using 2 by (cases "names v a nm") simp_all
qed

lemma names_holds:
  assumes "dir_inv v a" "holds_entry v a nm i"
  shows "names v a nm = Some (fst (dir_slot v a i))"
  using dir_map_entry [of "entries v a" i] assms by (simp add: names_def dir_inv_def holds_entry_def)

lemma store_updates:
  assumes de: "dir_env_ok de" and d: "dir_inv v a" and h: "holds_entry v a nm i" and x: "x < 2 ^ 32"
  shows "name_update v (store_entry de v a (at_slot i) x) a nm (if x = 0 then None else Some x)"
    "x \<noteq> 0 \<Longrightarrow> holds_entry (fst (store_entry de v a (at_slot i) x)) a nm i"
proof -
  have "name_update v (store_entry de v a (at_slot i) x) a nm (if x = 0 then None else Some x) \<and>
    (x \<noteq> 0 \<longrightarrow> holds_entry (fst (store_entry de v a (at_slot i) x)) a nm i)"
proof (cases "snd (cominix_prepare_chunk de v a (64 * i) 64)")
  case (Some e)
  have "s_dirsize (v_sbi v) = 64" using v3_dirs_sel(1) [OF dir_okD(1)] d unfolding dir_inv_def by blast
  then obtain v' where v': "store_entry de v a (at_slot i) x = (v', Some e)" "same_dirs v v'"
    using store_entry_fails [OF de, of v a i e x] Some by auto
  have "name_update v (v', Some e) a nm (if x = 0 then None else Some x)"
    using v'(2) d by (intro name_update_none) simp_all
  then show ?thesis unfolding v'(1) using h v'(2) by (simp add: holds_entry_def same_dirs_nslots same_dirs_slot)
next
  case None
  have dk: "dir_ok v a" "distinct_names (entries v a)" using d by (simp_all add: dir_inv_def)
  have i: "i < nslots v a" and u: "used (dir_slot v a i)" and nm: "snd (dir_slot v a i) = nm"
    using h by (auto simp: holds_entry_def)
  obtain v' err where st: "store_entry de v a (at_slot i) x = (v', err)" and o: "only_dir v v' a"
    and k: "dir_ok v' a" and e: "entries v' a = (entries v a)[i := (x, snd (entries v a ! i))]"
    using store_entry_works [OF de dk(1) i None, of x] i by (auto simp: u32_id [OF x])
  have u': "used (entries v a ! i)" "i < length (entries v a)" using u i by simp_all
  note m = map_set_number [OF dk(2) u'(2,1), of x, folded e]
  have nn: "nslots v' a = nslots v a" using arg_cong [OF e, of length] by simp
  have "dir_slot v' a j = dir_slot v a j" if "j < nslots v a" "j \<noteq> i" for j
    using arg_cong [OF e, of "\<lambda>es. es ! j"] that nn by simp
  then have "holds_entry v' a nm' j \<and> dir_slot v' a j = dir_slot v a j" if "nm' \<noteq> nm" "holds_entry v a nm' j" for nm' j
    using that nm nn by (cases "j = i") (auto simp: holds_entry_def)
  then have "name_update v (v', err) a nm (if x = 0 then None else Some x)"
    unfolding name_update_def using o k m i nm by (auto simp: dir_inv_def names_def)
  moreover have "dir_slot v' a i = (x, nm)" using arg_cong [OF e, of "\<lambda>es. es ! i"] i nn nm by simp
  ultimately show ?thesis unfolding st using i nn by (simp add: holds_entry_def)
qed
  then show "name_update v (store_entry de v a (at_slot i) x) a nm (if x = 0 then None else Some x)"
    "x \<noteq> 0 \<Longrightarrow> holds_entry (fst (store_entry de v a (at_slot i) x)) a nm i" by blast+
qed

lemma name_update_holds:
  assumes "name_update v r a nm x" "c \<noteq> a \<or> nm' \<noteq> nm" "holds_entry v c nm' i"
  shows "holds_entry (fst r) c nm' i"
proof (cases "c = a")
  case True
  then show ?thesis using assms by (simp add: name_update_def)
next
  case False
  have "only_dir v (fst r) a" using assms(1) by (simp add: name_update_def)
  from only_dirD(5,6) [OF this False] show ?thesis using assms(3)
    by (simp add: holds_entry_def dir_slot_def nslots_def)
qed

lemma add_updates:
  assumes de: "dir_env_ok de" and d: "dir_inv v a" and r: "dir_reads de a" and nm: "name_ok nm"
    and n: "names v a nm = None" and x: "i_ino (v_inode v b) = x" "0 < x" "x < 2 ^ 32"
  shows "\<exists>r. cominix_add_link de v a nm b = Inr r \<and> name_update v r a nm (Some x)"
proof -
  have dk: "dir_ok v a" "distinct_names (entries v a)" using d by (simp_all add: dir_inv_def)
  have nh: "\<not> has_name (entries v a) nm" using n by (simp add: names_def dir_map_None)
  note a = dk(1) nm dir_readsD(1) [OF r] nh de
  let ?i = "free_index (entries v a)"
  show ?thesis
  proof (cases "snd (cominix_prepare_chunk de (at_end_cleared v a) a (64 * ?i) 64)")
    case (Some e)
    then obtain v' where st: "cominix_add_link de v a nm b = Inr (v', Some e)" and o: "only_dir v v' a"
      and k: "dir_ok v' a" and es: "entries v' a = entries v a"
      using add_link_fails [OF a] by blast
    have nn: "nslots v' a = nslots v a" using arg_cong [OF es, of length] by simp
    have "dir_slot v' a j = dir_slot v a j" if "j < nslots v a" for j
      using arg_cong [OF es, of "\<lambda>es. es ! j"] that nn by simp
    then show ?thesis using st o k es dk nn
      by (intro exI [of _ "(v', Some e)"]) (auto simp: name_update_def dir_inv_def names_def holds_entry_def)
  next
    case None
    then obtain v' err where st: "cominix_add_link de v a nm b = Inr (v', err)" and o: "only_dir v v' a"
      and k: "dir_ok v' a" and es: "entries v' a = place_entry (entries v a) (x, nm)"
      using add_link_works [OF a, of b] unfolding x(1) u32_id [OF x(3)] by blast
    note m = map_fill [OF dk(2) nh, of x, folded es]
    have len: "nslots v a \<le> nslots v' a"
      using arg_cong [OF es, of length] by (simp add: place_entry_def Let_def split: if_splits)
    have "dir_slot v' a j = dir_slot v a j" if "j < nslots v a" "used (dir_slot v a j)" for j
    proof -
      have "j \<noteq> ?i" using that free_index_unused [of "entries v a"] by auto
      then have "place_entry (entries v a) (x, nm) ! j = dir_slot v a j"
        using that by (simp add: place_entry_def Let_def nth_append)
      then show ?thesis using arg_cong [OF es, of "\<lambda>es. es ! j"] that len by simp
    qed
    then have "holds_entry v' a nm' j \<and> dir_slot v' a j = dir_slot v a j" if "holds_entry v a nm' j" for nm' j
      using that len by (auto simp: holds_entry_def)
    then show ?thesis using st o k m x(2)
      by (intro exI [of _ "(v', err)"]) (auto simp: name_update_def dir_inv_def names_def)
  qed
qed

end
