(* ===== verification/Namei.thy ===== *)
theory Namei
  imports DirMap
begin

text \<open>
  namei.c: the operations on names. A dentry is a parent directory and a name; the inode it refers
  to is in the dentry cache \<open>v_dcache\<close>. Reference counts of in-memory inodes are left out:
  \<open>iput\<close> is a kernel function.
\<close>

section \<open>What the kernel provides\<close>

text \<open>\<open>ne_iget_locked\<close>, \<open>ne_new_inode\<close> and \<open>ne_init_owner\<close> (for a parent directory),
  \<open>ne_iput\<close>, \<open>page_symlink\<close>, \<open>d_tmpfile\<close>, \<open>old_valid_dev\<close>.\<close>

record namei_env =
  ne_dir :: dir_env
  ne_kernel :: kernel
  ne_iget_locked :: "vfs \<Rightarrow> nat \<Rightarrow> iget_locked"
  ne_new_inode :: "inode option"
  ne_init_owner :: "nat \<Rightarrow> inode \<Rightarrow> nat \<Rightarrow> inode"
  ne_iput :: "vfs \<Rightarrow> nat \<Rightarrow> vfs"
  ne_page_symlink :: "vfs \<Rightarrow> nat \<Rightarrow> byte list \<Rightarrow> vfs \<times> errno option"
  ne_tmpfile :: "vfs \<Rightarrow> nat \<Rightarrow> vfs"
  ne_old_valid_dev :: "nat \<Rightarrow> bool"

definition d_inode :: "vfs \<Rightarrow> nat \<Rightarrow> byte list \<Rightarrow> nat option" where
  "d_inode v dir name = v_dcache v dir name"

definition d_instantiate :: "vfs \<Rightarrow> nat \<Rightarrow> byte list \<Rightarrow> nat option \<Rightarrow> vfs" where
  "d_instantiate v dir name b = v\<lparr>v_dcache := (v_dcache v)(dir := (v_dcache v dir)(name := b))\<rparr>"

text \<open>\<open>i_nlink\<close> is an \<open>unsigned int\<close>.\<close>

definition drop_nlink :: "vfs \<Rightarrow> nat \<Rightarrow> vfs" where
  "drop_nlink v b = upd_inode v b (\<lambda>ino. ino\<lparr>i_nlink := u32 (i_nlink ino + (2 ^ 32 - 1))\<rparr>)"

definition inode_dec_link_count :: "vfs \<Rightarrow> nat \<Rightarrow> vfs" where
  "inode_dec_link_count v b = upd_inode (drop_nlink v b) b mark_inode_dirty"

definition inode_inc_link_count :: "vfs \<Rightarrow> nat \<Rightarrow> vfs" where
  "inode_inc_link_count v b = upd_inode v b (\<lambda>ino. mark_inode_dirty (ino\<lparr>i_nlink := u32 (i_nlink ino + 1)\<rparr>))"

text \<open>\<open>cominix_new_inode\<close> with the inode put into the inode cache.\<close>

definition new_inode_in :: "namei_env \<Rightarrow> vfs \<Rightarrow> nat \<Rightarrow> nat \<Rightarrow> vfs \<times> (errno + nat)" where
  "new_inode_in ne v dir mode =
     (case cominix_new_inode (v_fs v) (ne_new_inode ne) (ne_init_owner ne dir) (de_now (ne_dir ne)) mode of
        (s, Inl e) \<Rightarrow> (v\<lparr>v_fs := s\<rparr>, Inl e)
      | (s, Inr ino) \<Rightarrow> (v\<lparr>v_fs := s, v_inode := (v_inode v)(i_ino ino := ino)\<rparr>, Inr (i_ino ino)))"

definition set_inode_in :: "namei_env \<Rightarrow> vfs \<Rightarrow> nat \<Rightarrow> nat \<Rightarrow> vfs" where
  "set_inode_in ne v b rdev = upd_inode v b (\<lambda>ino. cominix_set_inode (ne_kernel ne) ino rdev)"

type_synonym namei_result = "(vfs \<times> errno option) res"

section \<open>Looking up and creating names\<close>

definition add_nondir :: "namei_env \<Rightarrow> vfs \<Rightarrow> nat \<Rightarrow> byte list \<Rightarrow> nat \<Rightarrow> namei_result" where
  "add_nondir ne v dir name b =
     bindE (cominix_add_link (ne_dir ne) v dir name b) (\<lambda>(v1, err).
     if err = None then Inr (d_instantiate v1 dir name (Some b), None)
     else Inr (ne_iput ne (inode_dec_link_count v1 b) b, err))"

definition cominix_lookup :: "namei_env \<Rightarrow> vfs \<Rightarrow> nat \<Rightarrow> byte list \<Rightarrow> namei_result" where
  "cominix_lookup ne v dir name =
     (if s_namelen (v_sbi v) < length name then Inr (v, Some ENAMETOOLONG)
      else
        bindE (cominix_inode_by_name (ne_dir ne) v dir name) (\<lambda>ino.
        if ino = 0 then Inr (d_instantiate v dir name None, None)
        else (case cominix_iget (ne_kernel ne) (v_fs v) (ne_iget_locked ne v ino) of
            Inl e \<Rightarrow> Inr (v, Some e)
          | Inr inode \<Rightarrow>
              Inr (d_instantiate (v\<lparr>v_inode := (v_inode v)(ino := inode)\<rparr>) dir name (Some ino), None))))"

definition cominix_mknod :: "namei_env \<Rightarrow> vfs \<Rightarrow> nat \<Rightarrow> byte list \<Rightarrow> nat \<Rightarrow> nat \<Rightarrow> namei_result" where
  "cominix_mknod ne v dir name mode rdev =
     (if \<not> ne_old_valid_dev ne rdev then Inr (v, Some EINVAL)
      else (case new_inode_in ne v dir mode of
          (v1, Inl e) \<Rightarrow> Inr (v1, Some e)
        | (v1, Inr b) \<Rightarrow> add_nondir ne (upd_inode (set_inode_in ne v1 b rdev) b mark_inode_dirty) dir name b))"

definition cominix_tmpfile :: "namei_env \<Rightarrow> vfs \<Rightarrow> nat \<Rightarrow> nat \<Rightarrow> vfs \<times> errno option" where
  "cominix_tmpfile ne v dir mode =
     (case new_inode_in ne v dir mode of
        (v1, Inl e) \<Rightarrow> (v1, Some e)
      | (v1, Inr b) \<Rightarrow> (ne_tmpfile ne (upd_inode (set_inode_in ne v1 b 0) b mark_inode_dirty) b, None))"

definition cominix_create :: "namei_env \<Rightarrow> vfs \<Rightarrow> nat \<Rightarrow> byte list \<Rightarrow> nat \<Rightarrow> namei_result" where
  "cominix_create ne v dir name mode = cominix_mknod ne v dir name mode 0"

text \<open>\<open>S_IFLNK | 0777\<close> and \<open>S_IFDIR\<close>. \<open>symname\<close> is the target without its final zero byte.\<close>

definition cominix_symlink :: "namei_env \<Rightarrow> vfs \<Rightarrow> nat \<Rightarrow> byte list \<Rightarrow> byte list \<Rightarrow> namei_result" where
  "cominix_symlink ne v dir name symname =
     (if s_blocksize (fs_sb (v_fs v)) < length symname + 1 then Inr (v, Some ENAMETOOLONG)
      else (case new_inode_in ne v dir (0xA000 OR 0x1FF) of
          (v1, Inl e) \<Rightarrow> Inr (v1, Some e)
        | (v1, Inr b) \<Rightarrow>
            let (v2, err) = ne_page_symlink ne (set_inode_in ne v1 b 0) b (symname @ [0]) in
            if err \<noteq> None then Inr (ne_iput ne (inode_dec_link_count v2 b) b, err)
            else add_nondir ne v2 dir name b))"

definition cominix_link :: "namei_env \<Rightarrow> vfs \<Rightarrow> nat \<Rightarrow> nat \<Rightarrow> byte list \<Rightarrow> namei_result" where
  "cominix_link ne v b dir name =
     (let v1 = upd_inode v b (\<lambda>ino. ino\<lparr>i_ctime := de_now (ne_dir ne)\<rparr>) in
      add_nondir ne (inode_inc_link_count v1 b) dir name b)"

definition mkdir_fail :: "namei_env \<Rightarrow> vfs \<Rightarrow> nat \<Rightarrow> nat \<Rightarrow> vfs" where
  "mkdir_fail ne v dir b =
     inode_dec_link_count (ne_iput ne (inode_dec_link_count (inode_dec_link_count v b) b) b) dir"

definition cominix_mkdir :: "namei_env \<Rightarrow> vfs \<Rightarrow> nat \<Rightarrow> byte list \<Rightarrow> nat \<Rightarrow> namei_result" where
  "cominix_mkdir ne v dir name mode =
     (case new_inode_in ne v dir (0x4000 OR mode) of
        (v1, Inl e) \<Rightarrow> Inr (v1, Some e)
      | (v1, Inr b) \<Rightarrow>
          let v2 = inode_inc_link_count (set_inode_in ne (inode_inc_link_count v1 dir) b 0) b;
              (v3, err) = cominix_make_empty (ne_dir ne) v2 b dir in
          if err \<noteq> None then Inr (mkdir_fail ne v3 dir b, err)
          else
            bindE (cominix_add_link (ne_dir ne) v3 dir name b) (\<lambda>(v4, err').
            if err' \<noteq> None then Inr (mkdir_fail ne v4 dir b, err')
            else Inr (d_instantiate v4 dir name (Some b), None)))"

section \<open>Removing names\<close>

definition cominix_unlink :: "namei_env \<Rightarrow> vfs \<Rightarrow> nat \<Rightarrow> byte list \<Rightarrow> namei_result" where
  "cominix_unlink ne v dir name =
     bindE (cominix_find_entry (ne_dir ne) v dir name) (\<lambda>de.
     case de of
       None \<Rightarrow> Inr (v, Some ENOENT)
     | Some e \<Rightarrow>
         let (v1, err) = cominix_delete_entry (ne_dir ne) v dir e in
         if err \<noteq> None then Inr (v1, err)
         else
           bindE (deref (d_inode v dir name)) (\<lambda>b.
           let v2 = upd_inode v1 b (\<lambda>ino. ino\<lparr>i_ctime := i_ctime (v_inode v1 dir)\<rparr>)
           in Inr (inode_dec_link_count v2 b, None)))"

definition cominix_rmdir :: "namei_env \<Rightarrow> vfs \<Rightarrow> nat \<Rightarrow> byte list \<Rightarrow> namei_result" where
  "cominix_rmdir ne v dir name =
     bindE (deref (d_inode v dir name)) (\<lambda>b.
     bindE (cominix_empty_dir (ne_dir ne) v b) (\<lambda>empty.
     if \<not> empty then Inr (v, Some ENOTEMPTY)
     else
       bindE (cominix_unlink ne v dir name) (\<lambda>(v1, err).
       if err \<noteq> None then Inr (v1, err)
       else Inr (inode_dec_link_count (inode_dec_link_count v1 dir) b, None))))"

section \<open>Renaming\<close>

definition RENAME_NOREPLACE :: nat where "RENAME_NOREPLACE = 1"

text \<open>The part of \<open>cominix_rename\<close> that makes the new name: either the existing entry is turned
  to the old inode, or an entry is added. \<open>is_dir\<close> is \<open>dir_de != NULL\<close>.\<close>

definition rename_target ::
    "namei_env \<Rightarrow> vfs \<Rightarrow> nat \<Rightarrow> nat \<Rightarrow> byte list \<Rightarrow> bool \<Rightarrow> namei_result" where
  "rename_target ne v b new_dir new_name is_dir =
     (case d_inode v new_dir new_name of
        Some c \<Rightarrow>
          bindE (if is_dir then cominix_empty_dir (ne_dir ne) v c else Inr True) (\<lambda>empty.
          if \<not> empty then Inr (v, Some ENOTEMPTY)
          else
            bindE (cominix_find_entry (ne_dir ne) v new_dir new_name) (\<lambda>new_de.
            case new_de of
              None \<Rightarrow> Inr (v, Some ENOENT)
            | Some e \<Rightarrow>
                let (v1, err) = cominix_set_link (ne_dir ne) v new_dir e b in
                if err \<noteq> None then Inr (v1, err)
                else
                  let v2 = upd_inode v1 c (\<lambda>ino. ino\<lparr>i_ctime := de_now (ne_dir ne)\<rparr>);
                      v3 = (if is_dir then drop_nlink v2 c else v2)
                  in Inr (inode_dec_link_count v3 c, None)))
      | None \<Rightarrow>
          bindE (cominix_add_link (ne_dir ne) v new_dir new_name b) (\<lambda>(v1, err).
          if err \<noteq> None then Inr (v1, err)
          else Inr (if is_dir then inode_inc_link_count v1 new_dir else v1, None)))"

definition cominix_rename ::
    "namei_env \<Rightarrow> vfs \<Rightarrow> nat \<Rightarrow> byte list \<Rightarrow> nat \<Rightarrow> byte list \<Rightarrow> nat \<Rightarrow> namei_result" where
  "cominix_rename ne v old_dir old_name new_dir new_name flags =
     (if flags AND (2 ^ 32 - 1 - RENAME_NOREPLACE) \<noteq> 0 then Inr (v, Some EINVAL)
      else
        bindE (cominix_find_entry (ne_dir ne) v old_dir old_name) (\<lambda>old_de.
        case old_de of
          None \<Rightarrow> Inr (v, Some ENOENT)
        | Some e \<Rightarrow>
            bindE (deref (d_inode v old_dir old_name)) (\<lambda>b.
            let is_dir = S_ISDIR (i_mode (v_inode v b));
                dir_de = (if is_dir then cominix_dotdot (ne_dir ne) v b else None) in
            if is_dir \<and> dir_de = None then Inr (v, Some EIO)
            else
              bindE (rename_target ne v b new_dir new_name (dir_de \<noteq> None)) (\<lambda>(v1, err1).
              if err1 \<noteq> None then Inr (v1, err1)
              else
                let (v2, err2) = cominix_delete_entry (ne_dir ne) v1 old_dir e in
                if err2 \<noteq> None then Inr (v2, err2)
                else
                  let v3 = upd_inode v2 b mark_inode_dirty in
                  case dir_de of
                    None \<Rightarrow> Inr (v3, None)
                  | Some dd \<Rightarrow>
                      let (v4, err4) = cominix_set_link (ne_dir ne) v3 b dd new_dir in
                      Inr (if err4 = None then inode_dec_link_count v4 old_dir else v4, err4)))))"

end
