(* ===== verification/DirClient.thy ===== *)
theory DirClient
  imports DirMap
begin

text \<open>
  The contract of a directory with its clients, as a locale: a state with a map of names, updates
  that either take effect or fail, and a lookup. The client lemma follows a list of updates up
  to the first error. The interpretation is dir.c.
\<close>

section \<open>A list of updates\<close>

text \<open>Run until one fails: the state, the error, how many succeeded.\<close>

fun run_ops :: "('s \<Rightarrow> 'o \<Rightarrow> ('s \<times> errno option) res) \<Rightarrow> 's \<Rightarrow> 'o list \<Rightarrow> ('s \<times> errno option \<times> nat) res" where
  "run_ops exec s [] = Inr (s, None, 0)"
| "run_ops exec s (op # ops) =
     bindE (exec s op) (\<lambda>(s1, err).
     if err \<noteq> None then Inr (s1, err, 0)
     else bindE (run_ops exec s1 ops) (\<lambda>(s2, err2, n). Inr (s2, err2, Suc n)))"

fun all_pre :: "('m \<Rightarrow> 'o \<Rightarrow> bool) \<Rightarrow> ('m \<Rightarrow> 'o \<Rightarrow> 'm) \<Rightarrow> 'm \<Rightarrow> 'o list \<Rightarrow> bool" where
  "all_pre pre upd m [] = True"
| "all_pre pre upd m (op # ops) = (pre m op \<and> all_pre pre upd (upd m op) ops)"

section \<open>The contract\<close>

locale map_directory =
  fixes inv :: "'s \<Rightarrow> bool"
    and mp :: "'s \<Rightarrow> 'n \<Rightarrow> nat option"
    and exec :: "'s \<Rightarrow> 'o \<Rightarrow> ('s \<times> errno option) res"
    and pre :: "('n \<Rightarrow> nat option) \<Rightarrow> 'o \<Rightarrow> bool"
    and upd :: "('n \<Rightarrow> nat option) \<Rightarrow> 'o \<Rightarrow> 'n \<Rightarrow> nat option"
    and look :: "'s \<Rightarrow> 'n \<Rightarrow> nat res"
    and valid :: "'n \<Rightarrow> bool"
  assumes exec_total: "inv s \<Longrightarrow> pre (mp s) op \<Longrightarrow> \<exists>t err. exec s op = Inr (t, err)"
    and exec_inv: "inv s \<Longrightarrow> pre (mp s) op \<Longrightarrow> exec s op = Inr (t, err) \<Longrightarrow> inv t"
    and exec_map: "inv s \<Longrightarrow> pre (mp s) op \<Longrightarrow> exec s op = Inr (t, err) \<Longrightarrow>
      mp t = upd (mp s) op \<or> err \<noteq> None \<and> mp t = mp s"
    and look_map: "inv s \<Longrightarrow> valid n \<Longrightarrow> look s n = Inr (case mp s n of None \<Rightarrow> 0 | Some x \<Rightarrow> x)"
begin

lemma run_refines:
  "inv s \<Longrightarrow> all_pre pre upd (mp s) ops \<Longrightarrow>
   \<exists>t err n. run_ops exec s ops = Inr (t, err, n) \<and> inv t \<and> n \<le> length ops \<and>
     (if err = None then n = length ops \<and> mp t = foldl upd (mp s) ops
      else n < length ops \<and> (mp t = foldl upd (mp s) (take n ops) \<or> mp t = foldl upd (mp s) (take (Suc n) ops)))"
proof (induction ops arbitrary: s)
  case (Cons op ops)
  then have p: "pre (mp s) op" and ps: "all_pre pre upd (upd (mp s) op) ops" by simp_all
  obtain s1 err where e: "exec s op = Inr (s1, err)" using exec_total [OF Cons.prems(1) p] by blast
  note i = exec_inv [OF Cons.prems(1) p e] and m = exec_map [OF Cons.prems(1) p e]
  show ?case
  proof (cases "err = None")
    case False
    then show ?thesis using e i m by auto
  next
    case True
    then have m1: "mp s1 = upd (mp s) op" using m by simp
    obtain t err2 n where r: "run_ops exec s1 ops = Inr (t, err2, n)" "inv t" "n \<le> length ops"
      and f: "if err2 = None then n = length ops \<and> mp t = foldl upd (mp s1) ops
         else n < length ops \<and> (mp t = foldl upd (mp s1) (take n ops) \<or> mp t = foldl upd (mp s1) (take (Suc n) ops))"
      using Cons.IH [OF i] ps unfolding m1 by blast
    then show ?thesis using e True r unfolding m1
      by (intro exI [of _ t] exI [of _ err2] exI [of _ "Suc n"]) (simp split: if_splits)
  qed
qed simp

text \<open>After the updates, lookups answer from the updated map.\<close>

lemma look_after_run:
  assumes "inv s" "all_pre pre upd (mp s) ops" "run_ops exec s ops = Inr (t, None, n)" "valid nm"
  shows "look t nm = Inr (case foldl upd (mp s) ops nm of None \<Rightarrow> 0 | Some x \<Rightarrow> x)"
  using run_refines [OF assms(1,2)] assms(3) look_map [OF _ assms(4), of t] by auto

end

section \<open>The code as a provider\<close>

text \<open>What namei.c does with an entry: add a link, remove one, turn one to another inode.\<close>

datatype dir_op = Op_add "byte list" nat | Op_remove "byte list" | Op_retarget "byte list" nat

definition dir_exec :: "dir_env \<times> nat \<times> vfs \<Rightarrow> dir_op \<Rightarrow> ((dir_env \<times> nat \<times> vfs) \<times> errno option) res" where
  "dir_exec s op = (case s of (de, a, v) \<Rightarrow>
     bindE (case op of
         Op_add nm b \<Rightarrow> cominix_add_link de v a nm b
       | Op_remove nm \<Rightarrow> bindE (cominix_find_entry de v a nm) (\<lambda>r.
           Inr (case r of None \<Rightarrow> (v, Some ENOENT) | Some e \<Rightarrow> cominix_delete_entry de v a e))
       | Op_retarget nm b \<Rightarrow> bindE (cominix_find_entry de v a nm) (\<lambda>r.
           Inr (case r of None \<Rightarrow> (v, Some ENOENT) | Some e \<Rightarrow> cominix_set_link de v a e b)))
       (\<lambda>(v', err). Inr ((de, a, v'), err)))"

definition dir_state_inv :: "dir_env \<times> nat \<times> vfs \<Rightarrow> bool" where
  "dir_state_inv s = (case s of (de, a, v) \<Rightarrow>
     dir_env_ok de \<and> dir_reads de a \<and> dir_inv v a \<and> (\<forall>b. i_ino (v_inode v b) = b))"

definition state_names :: "dir_env \<times> nat \<times> vfs \<Rightarrow> byte list \<Rightarrow> nat option" where
  "state_names s = (case s of (de, a, v) \<Rightarrow> names v a)"

definition state_look :: "dir_env \<times> nat \<times> vfs \<Rightarrow> byte list \<Rightarrow> nat res" where
  "state_look s nm = (case s of (de, a, v) \<Rightarrow> cominix_inode_by_name de v a nm)"

fun op_pre :: "(byte list \<Rightarrow> nat option) \<Rightarrow> dir_op \<Rightarrow> bool" where
  "op_pre m (Op_add nm b) = (name_ok nm \<and> m nm = None \<and> 0 < b \<and> b < 2 ^ 32)"
| "op_pre m (Op_remove nm) = (name_ok nm \<and> m nm \<noteq> None)"
| "op_pre m (Op_retarget nm b) = (name_ok nm \<and> m nm \<noteq> None \<and> 0 < b \<and> b < 2 ^ 32)"

fun op_map :: "(byte list \<Rightarrow> nat option) \<Rightarrow> dir_op \<Rightarrow> byte list \<Rightarrow> nat option" where
  "op_map m (Op_add nm b) = m(nm \<mapsto> b)"
| "op_map m (Op_remove nm) = m(nm := None)"
| "op_map m (Op_retarget nm b) = m(nm \<mapsto> b)"

lemma inode_by_name_names:
  assumes "dir_inv v a" "name_ok nm" "dir_reads de a"
  shows "cominix_inode_by_name de v a nm = Inr (case names v a nm of None \<Rightarrow> 0 | Some x \<Rightarrow> x)"
proof -
  have "dir_ok v a" using assms(1) by (simp add: dir_inv_def)
  note f = inode_by_name_slots [OF this assms(2) dir_readsD(2) [OF assms(3)]]
  show ?thesis
  proof (cases "names v a nm")
    case None
    then show ?thesis unfolding f using names_lookup(3) [OF assms] by simp
  next
    case (Some x)
    then show ?thesis unfolding f using names_lookup(2) [OF assms Some] by auto
  qed
qed

text \<open>One operation, in the terms of \<open>name_update\<close>.\<close>

lemma exec_step:
  assumes i: "dir_state_inv (de, a, v)" and p: "op_pre (names v a) op"
  shows "\<exists>r nm x. dir_exec (de, a, v) op = Inr ((de, a, fst r), snd r) \<and> name_update v r a nm x \<and>
    op_map (names v a) op = (names v a)(nm := x)"
proof -
  have de: "dir_env_ok de" and r: "dir_reads de a" and d: "dir_inv v a" and n: "\<And>b. i_ino (v_inode v b) = b"
    using i by (simp_all add: dir_state_inv_def)
  have found: "\<exists>i. cominix_find_entry de v a nm = Inr (Some (at_slot i)) \<and> holds_entry v a nm i"
    if nm: "name_ok nm" "names v a nm \<noteq> None" for nm
    using names_lookup(1,2) [OF d nm(1) r] nm(2) by fastforce
  show ?thesis
  proof (cases op)
    case (Op_add nm b)
    then obtain r' where "cominix_add_link de v a nm b = Inr r'" "name_update v r' a nm (Some b)"
      using p add_updates [OF de d r, of nm b b] n by auto
    then show ?thesis using Op_add
      by (intro exI [of _ r'] exI [of _ nm] exI [of _ "Some b"]) (simp add: dir_exec_def split: prod.split)
  next
    case (Op_remove nm)
    then obtain i where f: "cominix_find_entry de v a nm = Inr (Some (at_slot i))" and h: "holds_entry v a nm i"
      using p found [of nm] by auto
    show ?thesis using store_updates(1) [OF de d h, of 0] Op_remove f
      by (intro exI [of _ "store_entry de v a (at_slot i) 0"] exI [of _ nm] exI [of _ None])
         (simp add: dir_exec_def cominix_delete_entry_def split: prod.split)
  next
    case (Op_retarget nm b)
    then obtain i where f: "cominix_find_entry de v a nm = Inr (Some (at_slot i))" and h: "holds_entry v a nm i"
      using p found [of nm] by auto
    show ?thesis using store_updates(1) [OF de d h, of b] Op_retarget f p n
      by (intro exI [of _ "store_entry de v a (at_slot i) b"] exI [of _ nm] exI [of _ "Some b"])
         (simp add: dir_exec_def cominix_set_link_def split: prod.split)
  qed
qed

lemma name_update_state:
  assumes "dir_state_inv (de, a, v)" "name_update v r a nm x"
  shows "dir_state_inv (de, a, fst r)"
proof -
  have o: "only_dir v (fst r) a" "dir_inv (fst r) a" using assms(2) by (simp_all add: name_update_def)
  have "i_ino (v_inode (fst r) b) = b" for b
    using only_dirD(2) [OF o(1), of b] assms(1) by (simp add: dir_state_inv_def)
  then show ?thesis using assms(1) o(2) by (simp add: dir_state_inv_def)
qed

interpretation dirs: map_directory dir_state_inv state_names dir_exec op_pre op_map state_look name_ok
proof
  fix s :: "dir_env \<times> nat \<times> vfs" and op t err nm
  obtain de a v where s: "s = (de, a, v)" by (metis prod_cases3)
  assume i: "dir_state_inv s"
  show "state_look s nm = Inr (case state_names s nm of None \<Rightarrow> 0 | Some x \<Rightarrow> x)" if "name_ok nm"
    using i inode_by_name_names [OF _ that] unfolding s
    by (simp add: state_look_def state_names_def dir_state_inv_def)
  assume p: "op_pre (state_names s) op"
  then obtain r nm' x where e: "dir_exec s op = Inr ((de, a, fst r), snd r)"
    and u: "name_update v r a nm' x" "op_map (names v a) op = (names v a)(nm' := x)"
    using exec_step [of de a v op] i unfolding s by (auto simp: state_names_def)
  show "\<exists>t err. dir_exec s op = Inr (t, err)" using e by blast
  assume "dir_exec s op = Inr (t, err)"
  then have t: "t = (de, a, fst r)" "err = snd r" using e by simp_all
  show "dir_state_inv t" unfolding t using name_update_state [OF _ u(1)] i s by simp
  show "state_names t = op_map (state_names s) op \<or> err \<noteq> None \<and> state_names t = state_names s"
    using u unfolding s t by (auto simp: state_names_def name_update_def)
qed

end
