(* ===== verification/NameiSpec.thy ===== *)
theory NameiSpec
  imports Namei DirClient
begin

text \<open>
  What a successful operation of namei.c does to the names and to the link counts. \<open>names v a\<close> is
  the map of directory \<open>a\<close>, \<open>nlinks v x\<close> the link count of inode \<open>x\<close>. \<open>ns_dirs\<close> is the structure
  all operations keep for the set \<open>D\<close> of directories.
\<close>

section \<open>The structure of the name space\<close>

definition nlinks :: "vfs \<Rightarrow> nat \<Rightarrow> nat" where
  "nlinks v x = i_nlink (v_inode v x)"

definition real_name :: "byte list \<Rightarrow> bool" where
  "real_name nm \<longleftrightarrow> name_ok nm \<and> nm \<noteq> [46] \<and> nm \<noteq> [46, 46]"

definition has_dots :: "vfs \<Rightarrow> nat \<Rightarrow> bool" where
  "has_dots v a \<longleftrightarrow> holds_entry v a [46] 0 \<and> fst (dir_slot v a 0) = a \<and> holds_entry v a [46, 46] 1"

text \<open>What the kernel guarantees: the contract of the directory functions, readable pages, a new
  inode has one link and no bytes, and the functions that fill an inode keep both.\<close>

definition namei_env_ok :: "namei_env \<Rightarrow> bool" where
  "namei_env_ok ne \<longleftrightarrow> dir_env_ok (ne_dir ne) \<and> (\<forall>a. dir_reads (ne_dir ne) a) \<and>
     (\<forall>f. ne_new_inode ne = Some f \<longrightarrow> i_nlink f = 1 \<and> i_size f = 0) \<and>
     (\<forall>d ino m. i_nlink (ne_init_owner ne d ino m) = i_nlink ino \<and>
        i_size (ne_init_owner ne d ino m) = i_size ino \<and> i_mode (ne_init_owner ne d ino m) = m) \<and>
     (\<forall>ino m r. i_nlink (k_init_special (ne_kernel ne) ino m r) = i_nlink ino \<and>
        i_size (k_init_special (ne_kernel ne) ino m r) = i_size ino \<and>
        i_ino (k_init_special (ne_kernel ne) ino m r) = i_ino ino \<and>
        i_mode (k_init_special (ne_kernel ne) ino m r) = i_mode ino)"

definition ns_dirs :: "vfs \<Rightarrow> nat set \<Rightarrow> bool" where
  "ns_dirs v D \<longleftrightarrow> (\<forall>a\<in>D. dir_inv v a \<and> has_dots v a \<and> inode_busy (v_fs v) a) \<and> (\<forall>b. i_ino (v_inode v b) = b) \<and>
     imap_wf (v_fs v) \<and> v3_dirs (v_sbi v)"

text \<open>Changes of inodes that leave numbers, sizes and modes, and all pages.\<close>

definition same_names :: "vfs \<Rightarrow> vfs \<Rightarrow> bool" where
  "same_names v v' \<longleftrightarrow> v_page v' = v_page v \<and> same_geometry v v' \<and> same_imap (v_fs v) (v_fs v') \<and>
     (\<forall>b. i_ino (v_inode v' b) = i_ino (v_inode v b) \<and> i_size (v_inode v' b) = i_size (v_inode v b) \<and>
          i_mode (v_inode v' b) = i_mode (v_inode v b))"

lemma same_names_refl [simp, intro]: "same_names v v"
  by (simp add: same_names_def)

lemma same_names_trans: "same_names v v' \<Longrightarrow> same_names v' v'' \<Longrightarrow> same_names v v''"
  unfolding same_names_def by (intro conjI allI; metis same_imap_trans)

lemma same_namesD:
  assumes "same_names v v'"
  shows "names v' = names v" "dir_inv v' a = dir_inv v a" "holds_entry v' a nm i = holds_entry v a nm i"
    "dir_slot v' a i = dir_slot v a i" "has_dots v' a = has_dots v a" "entries v' a = entries v a"
proof -
  have n: "nslots v' b = nslots v b" and s: "dir_slot v' b i = dir_slot v b i" for b i
    using assms by (simp_all add: same_names_def nslots_def dir_slot_def)
  have e: "entries v' b = entries v b" for b by (simp add: entries_def n s)
  have g: "dir_ok v' b = dir_ok v b" for b using assms by (simp add: same_names_def dir_ok_def v3_dirs_def)
  show "names v' = names v" by (simp add: names_def e fun_eq_iff)
  show "dir_inv v' a = dir_inv v a" by (simp add: dir_inv_def e g)
  show "holds_entry v' a nm i = holds_entry v a nm i" "dir_slot v' a i = dir_slot v a i" "has_dots v' a = has_dots v a"
    by (simp_all add: holds_entry_def has_dots_def n s)
  show "entries v' a = entries v a" by (rule e)
qed

lemma same_names_dirs: "same_names v v' \<Longrightarrow> ns_dirs v D \<Longrightarrow> ns_dirs v' D"
  unfolding ns_dirs_def using same_namesD [of v v'] same_imap_wf [of "v_fs v" "v_fs v'"]
  by (auto simp: same_names_def v3_dirs_def same_imap_def)

lemma same_names_upd:
  assumes "i_ino (f (v_inode v b)) = i_ino (v_inode v b)" "i_size (f (v_inode v b)) = i_size (v_inode v b)"
    "i_mode (f (v_inode v b)) = i_mode (v_inode v b)"
  shows "same_names v (upd_inode v b f)"
  using assms by (simp add: same_names_def)

lemma same_names_instantiate: "same_names v (d_instantiate v d nm b)"
  by (simp add: same_names_def d_instantiate_def v_sbi_def)

lemma instantiate_nlinks [simp]: "nlinks (d_instantiate v d nm b) = nlinks v"
  by (simp add: nlinks_def d_instantiate_def fun_eq_iff)

lemma instantiate_fs [simp]: "v_fs (d_instantiate v d nm b) = v_fs v"
  by (simp add: d_instantiate_def)

lemma inc_link:
  "same_names v (inode_inc_link_count v b)" "nlinks (inode_inc_link_count v b) = (nlinks v)(b := u32 (nlinks v b + 1))"
  "v_dcache (inode_inc_link_count v b) = v_dcache v"
  by (auto simp: inode_inc_link_count_def nlinks_def mark_inode_dirty_def fun_eq_iff intro!: same_names_upd)

lemma drop_link:
  "same_names v (drop_nlink v b)" "nlinks (drop_nlink v b) = (nlinks v)(b := u32 (nlinks v b + (2 ^ 32 - 1)))"
  "v_dcache (drop_nlink v b) = v_dcache v"
  by (auto simp: drop_nlink_def nlinks_def fun_eq_iff intro!: same_names_upd)

lemma dec_link:
  "same_names v (inode_dec_link_count v b)"
  "nlinks (inode_dec_link_count v b) = (nlinks v)(b := u32 (nlinks v b + (2 ^ 32 - 1)))"
  "v_dcache (inode_dec_link_count v b) = v_dcache v"
proof -
  have m: "same_names w (upd_inode w b mark_inode_dirty)" "nlinks (upd_inode w b mark_inode_dirty) = nlinks w"
    "v_dcache (upd_inode w b mark_inode_dirty) = v_dcache w" for w
    by (auto simp: nlinks_def mark_inode_dirty_def fun_eq_iff intro!: same_names_upd)
  show "same_names v (inode_dec_link_count v b)" unfolding inode_dec_link_count_def
    by (rule same_names_trans [OF drop_link(1) m(1)])
  show "nlinks (inode_dec_link_count v b) = (nlinks v)(b := u32 (nlinks v b + (2 ^ 32 - 1)))"
    "v_dcache (inode_dec_link_count v b) = v_dcache v"
    by (simp_all add: inode_dec_link_count_def m drop_link)
qed

lemma u32_dec: "0 < n \<Longrightarrow> n < 2 ^ 32 \<Longrightarrow> u32 (n + (2 ^ 32 - 1)) = n - 1"
proof -
  assume n: "0 < n" "n < 2 ^ 32"
  then have "n + (2 ^ 32 - 1) = (n - 1) + 2 ^ 32" by simp
  then show ?thesis unfolding u32_def using n by (simp only: mod_add_self2 mod_less less_imp_diff_less)
qed

text \<open>A successful update of one name.\<close>

lemma name_update_dots:
  assumes "has_dots v a" "real_name nm" "name_update v r a nm x"
  shows "has_dots (fst r) a"
proof -
  have k: "nm' \<noteq> nm \<Longrightarrow> holds_entry v a nm' i \<Longrightarrow> holds_entry (fst r) a nm' i \<and> dir_slot (fst r) a i = dir_slot v a i" for i nm'
    using assms(3) by (auto simp: name_update_def)
  have "[46] \<noteq> nm" "[46, 46] \<noteq> nm" using assms(2) by (auto simp: real_name_def)
  then show ?thesis using k [of "[46]" 0] k [of "[46, 46]" 1] assms(1) by (simp add: has_dots_def)
qed

lemma name_update_ok:
  assumes d: "ns_dirs v D" "a \<in> D" and hd: "has_dots v' a" and u: "name_update v (v', None) a nm x"
  shows "ns_dirs v' D" "names v' = (names v)(a := (names v a)(nm := x))" "nlinks v' = nlinks v"
    "same_imap (v_fs v) (v_fs v')" "v_dcache v' = v_dcache v"
proof -
  have o: "only_dir v v' a" and i: "dir_inv v' a" and nm: "names v' a = (names v a)(nm := x)"
    using u by (auto simp: name_update_def)
  show "same_imap (v_fs v) (v_fs v')" "v_dcache v' = v_dcache v" using only_dirD [OF o] by simp_all
  show "nlinks v' = nlinks v" using only_dirD(4) [OF o] by (simp add: nlinks_def fun_eq_iff)
  show "names v' = (names v)(a := (names v a)(nm := x))"
  proof
    fix b show "names v' b = ((names v)(a := (names v a)(nm := x))) b"
      using nm only_dir_names [OF o, of b] by (cases "b = a") simp_all
  qed
  have "has_dots v' b" if b: "b \<in> D" for b
  proof (cases "b = a")
    case True
    then show ?thesis using hd by simp
  next
    case False
    have p: "v_page v' b = v_page v b" "i_size (v_inode v' b) = i_size (v_inode v b)"
      using only_dirD(5,6) [OF o False] by simp_all
    moreover have "has_dots v b" using d(1) b by (simp add: ns_dirs_def)
    ultimately show ?thesis by (simp add: has_dots_def holds_entry_def dir_slot_def nslots_def)
  qed
  moreover have "dir_inv v' b" if "b \<in> D" for b
    using i only_dir_inv [OF o, of b] d(1) that by (cases "b = a") (simp_all add: ns_dirs_def)
  moreover have "imap_wf (v_fs v')" using same_imap_wf [of "v_fs v" "v_fs v'"] only_dirD(8) [OF o] d(1) by (simp add: ns_dirs_def)
  ultimately show "ns_dirs v' D"
    using d(1) only_dirD(2,7,8) [OF o] by (simp add: ns_dirs_def same_imap_def)
qed

section \<open>Effects\<close>

text \<open>The names and link counts after an operation.\<close>

definition ns_effect :: "vfs \<Rightarrow> vfs \<Rightarrow> nat set \<Rightarrow> (nat \<Rightarrow> byte list \<Rightarrow> nat option) \<Rightarrow> (nat \<Rightarrow> nat) \<Rightarrow> bool" where
  "ns_effect v v' D N nl \<longleftrightarrow>
     ns_dirs v' D \<and> names v' = N \<and> nlinks v' = nl \<and> same_imap (v_fs v) (v_fs v')"

abbreviation set_name :: "(nat \<Rightarrow> byte list \<Rightarrow> nat option) \<Rightarrow> nat \<Rightarrow> byte list \<Rightarrow> nat option \<Rightarrow> nat \<Rightarrow> byte list \<Rightarrow> nat option" where
  "set_name N a nm x \<equiv> N(a := (N a)(nm := x))"

lemma ns_effect_trans:
  "ns_effect v v1 D N nl \<Longrightarrow> ns_effect v1 v2 D' N' nl' \<Longrightarrow> ns_effect v v2 D' N' nl'"
  unfolding ns_effect_def by (metis same_imap_trans)

lemma ns_effect_same: "ns_dirs v D \<Longrightarrow> same_names v v' \<Longrightarrow> ns_effect v v' D (names v) (nlinks v')"
  unfolding ns_effect_def using same_names_dirs same_namesD(1) by (simp add: same_names_def)

lemma ns_effectD:
  assumes "ns_effect v v' D N nl"
  shows "ns_dirs v' D" "names v' = N" "nlinks v' = nl" "same_imap (v_fs v) (v_fs v')"
  using assms by (simp_all add: ns_effect_def)

lemma namei_envD:
  assumes "namei_env_ok ne"
  shows "dir_env_ok (ne_dir ne)" "dir_reads (ne_dir ne) a"
  using assms by (simp_all add: namei_env_ok_def)

lemma ns_dirsD:
  assumes "ns_dirs v D"
  shows "a \<in> D \<Longrightarrow> dir_inv v a" "a \<in> D \<Longrightarrow> inode_busy (v_fs v) a" "a \<in> D \<Longrightarrow> has_dots v a" "i_ino (v_inode v b) = b" "imap_wf (v_fs v)" "v3_dirs (v_sbi v)"
  using assms by (simp_all add: ns_dirs_def)

lemma real_nameD: "real_name nm \<Longrightarrow> name_ok nm"
  by (simp add: real_name_def)

lemma name_update_effect:
  assumes "ns_dirs v D" "a \<in> D" "real_name nm" "name_update v (v', None) a nm x"
  shows "ns_effect v v' D (set_name (names v) a nm x) (nlinks v)" "v_dcache v' = v_dcache v"
    "\<And>c nm' i. c \<noteq> a \<or> nm' \<noteq> nm \<Longrightarrow> holds_entry v c nm' i \<Longrightarrow> holds_entry v' c nm' i"
proof -
  have "has_dots v a" using assms(1,2) by (simp add: ns_dirs_def)
  from name_update_dots [OF this assms(3,4)] have hd: "has_dots v' a" by simp
  note ok = name_update_ok [OF assms(1,2) hd assms(4)]
  show "ns_effect v v' D (set_name (names v) a nm x) (nlinks v)" "v_dcache v' = v_dcache v"
    unfolding ns_effect_def using ok by simp_all
  show "\<And>c nm' i. c \<noteq> a \<or> nm' \<noteq> nm \<Longrightarrow> holds_entry v c nm' i \<Longrightarrow> holds_entry v' c nm' i"
    using name_update_holds [OF assms(4)] by simp
qed

lemma add_link_effect:
  assumes ne: "namei_env_ok ne" and d: "ns_dirs v D" "a \<in> D" and nm: "real_name nm" "names v a nm = None"
    and b: "0 < b" "b < 2 ^ 32" and r: "cominix_add_link (ne_dir ne) v a nm b = Inr (v', None)"
  shows "ns_effect v v' D (set_name (names v) a nm (Some b)) (nlinks v)" "v_dcache v' = v_dcache v"
    "\<And>c nm' i. c \<noteq> a \<or> nm' \<noteq> nm \<Longrightarrow> holds_entry v c nm' i \<Longrightarrow> holds_entry v' c nm' i"
proof -
  obtain r' where "cominix_add_link (ne_dir ne) v a nm b = Inr r'" "name_update v r' a nm (Some b)"
    using add_updates [OF namei_envD(1) [OF ne] ns_dirsD(1) [OF d] namei_envD(2) [OF ne] real_nameD [OF nm(1)] nm(2)
      ns_dirsD(4) [OF d(1)] b] by blast
  then have u: "name_update v (v', None) a nm (Some b)" using r by simp
  show "ns_effect v v' D (set_name (names v) a nm (Some b)) (nlinks v)" "v_dcache v' = v_dcache v"
    "\<And>c nm' i. c \<noteq> a \<or> nm' \<noteq> nm \<Longrightarrow> holds_entry v c nm' i \<Longrightarrow> holds_entry v' c nm' i"
    using name_update_effect [OF d nm(1) u] by blast+
qed

lemma find_effect:
  assumes ne: "namei_env_ok ne" and d: "ns_dirs v D" "a \<in> D" and nm: "name_ok nm"
  shows "names v a nm = None \<Longrightarrow> cominix_find_entry (ne_dir ne) v a nm = Inr None"
    and "names v a nm = Some x \<Longrightarrow> \<exists>i. cominix_find_entry (ne_dir ne) v a nm = Inr (Some (at_slot i)) \<and> holds_entry v a nm i"
  using names_lookup [OF ns_dirsD(1) [OF d] nm namei_envD(2) [OF ne]] by fastforce+

lemma store_effect:
  assumes ne: "namei_env_ok ne" and d: "ns_dirs v D" "a \<in> D" and nm: "real_name nm" "holds_entry v a nm i"
    and x: "x < 2 ^ 32" and r: "store_entry (ne_dir ne) v a (at_slot i) x = (v', None)"
  shows "ns_effect v v' D (set_name (names v) a nm (if x = 0 then None else Some x)) (nlinks v)"
    "v_dcache v' = v_dcache v"
    "\<And>c nm' j. c \<noteq> a \<or> nm' \<noteq> nm \<Longrightarrow> holds_entry v c nm' j \<Longrightarrow> holds_entry v' c nm' j"
proof -
  have u: "name_update v (v', None) a nm (if x = 0 then None else Some x)"
    using store_updates(1) [OF namei_envD(1) [OF ne] ns_dirsD(1) [OF d] nm(2) x] r by simp
  show "ns_effect v v' D (set_name (names v) a nm (if x = 0 then None else Some x)) (nlinks v)"
    "v_dcache v' = v_dcache v"
    "\<And>c nm' j. c \<noteq> a \<or> nm' \<noteq> nm \<Longrightarrow> holds_entry v c nm' j \<Longrightarrow> holds_entry v' c nm' j"
    using name_update_effect [OF d nm(1) u] by blast+
qed

text \<open>Turning the parent entry of a directory.\<close>

lemma dotdot_effect:
  assumes ne: "namei_env_ok ne" and d: "ns_dirs v D" "a \<in> D" and x: "0 < x" "x < 2 ^ 32"
    and r: "store_entry (ne_dir ne) v a (at_slot 1) x = (v', None)"
  shows "ns_effect v v' D (set_name (names v) a [46, 46] (Some x)) (nlinks v)"
proof -
  have h: "holds_entry v a [46, 46] 1" and dots: "has_dots v a" using ns_dirsD(3) [OF d] by (simp_all add: has_dots_def)
  note st = store_updates [OF namei_envD(1) [OF ne] ns_dirsD(1) [OF d] h x(2), unfolded r]
  have u: "name_update v (v', None) a [46, 46] (Some x)" using st(1) x(1) by simp
  have "holds_entry v' a [46, 46] 1" using st(2) x(1) by simp
  moreover have "nm' \<noteq> [46, 46] \<Longrightarrow> holds_entry v a nm' i \<Longrightarrow> holds_entry v' a nm' i \<and> dir_slot v' a i = dir_slot v a i" for nm' i
    using u by (auto simp: name_update_def)
  from this [of "[46]" 0] have "holds_entry v' a [46] 0 \<and> dir_slot v' a 0 = dir_slot v a 0"
    using dots by (simp add: has_dots_def)
  ultimately have hd: "has_dots v' a" using dots by (simp add: has_dots_def)
  show ?thesis unfolding ns_effect_def using name_update_ok [OF d hd u] by simp
qed

lemma add_nondir_effect:
  assumes ne: "namei_env_ok ne" and d: "ns_dirs v D" "a \<in> D" and nm: "real_name nm" "names v a nm = None"
    and b: "0 < b" "b < 2 ^ 32" and r: "add_nondir ne v a nm b = Inr (v', None)"
  shows "ns_effect v v' D (set_name (names v) a nm (Some b)) (nlinks v)"
proof -
  obtain v1 where v1: "cominix_add_link (ne_dir ne) v a nm b = Inr (v1, None)" "v' = d_instantiate v1 a nm (Some b)"
    using r by (auto simp: add_nondir_def res_simps split: if_splits)
  note e = add_link_effect(1) [OF ne d nm b v1(1)]
  show ?thesis
    using ns_effect_trans [OF e ns_effect_same [OF ns_effectD(1) [OF e] same_names_instantiate]] e
    by (simp add: v1(2) ns_effect_def)
qed

section \<open>Hard links\<close>

lemma link_effect:
  assumes ne: "namei_env_ok ne" and d: "ns_dirs v D" "a \<in> D" and nm: "real_name nm" "names v a nm = None"
    and b: "0 < b" "b < 2 ^ 32" and r: "cominix_link ne v b a nm = Inr (v', None)"
  shows "ns_effect v v' D (set_name (names v) a nm (Some b)) ((nlinks v)(b := u32 (nlinks v b + 1)))"
proof -
  let ?c = "upd_inode v b (\<lambda>ino. ino\<lparr>i_ctime := de_now (ne_dir ne)\<rparr>)"
  have s: "same_names v ?c" "nlinks ?c = nlinks v" by (auto simp: nlinks_def fun_eq_iff intro!: same_names_upd)
  have s2: "same_names v (inode_inc_link_count ?c b)" by (rule same_names_trans [OF s(1) inc_link(1)])
  have e: "ns_effect v (inode_inc_link_count ?c b) D (names v) ((nlinks v)(b := u32 (nlinks v b + 1)))"
    using ns_effect_same [OF d(1) s2] by (simp add: inc_link s(2))
  have n: "names (inode_inc_link_count ?c b) a nm = None" using nm(2) same_namesD(1) [OF s2] by simp
  have "ns_effect (inode_inc_link_count ?c b) v' D (set_name (names (inode_inc_link_count ?c b)) a nm (Some b))
      (nlinks (inode_inc_link_count ?c b))"
    by (rule add_nondir_effect [OF ne ns_effectD(1) [OF e] d(2) nm(1) n b]) (use r in \<open>simp add: cominix_link_def Let_def\<close>)
  from ns_effect_trans [OF e this] show ?thesis by (simp add: ns_effectD(2,3) [OF e])
qed

lemma unlink_effect:
  assumes ne: "namei_env_ok ne" and d: "ns_dirs v D" "a \<in> D" and nm: "real_name nm" "names v a nm = Some b"
    and c: "d_inode v a nm = Some b" and r: "cominix_unlink ne v a nm = Inr (v', None)"
  shows "ns_effect v v' D (set_name (names v) a nm None) ((nlinks v)(b := u32 (nlinks v b + (2 ^ 32 - 1))))"
proof -
  obtain i where f: "cominix_find_entry (ne_dir ne) v a nm = Inr (Some (at_slot i))" and h: "holds_entry v a nm i"
    using find_effect(2) [OF ne d real_nameD [OF nm(1)] nm(2)] by blast
  obtain v1 where st: "store_entry (ne_dir ne) v a (at_slot i) 0 = (v1, None)"
    and v': "v' = inode_dec_link_count (upd_inode v1 b (\<lambda>ino. ino\<lparr>i_ctime := i_ctime (v_inode v1 a)\<rparr>)) b"
    using r c unfolding cominix_unlink_def f
    by (auto simp: cominix_delete_entry_def Let_def split: prod.splits if_splits)
  have e: "ns_effect v v1 D (set_name (names v) a nm None) (nlinks v)"
    using store_effect(1) [OF ne d nm(1) h _ st] by simp
  let ?u = "upd_inode v1 b (\<lambda>ino. ino\<lparr>i_ctime := i_ctime (v_inode v1 a)\<rparr>)"
  have s: "same_names v1 ?u" "nlinks ?u = nlinks v1" by (auto simp: nlinks_def fun_eq_iff intro!: same_names_upd)
  have s2: "same_names v1 v'" unfolding v' by (rule same_names_trans [OF s(1) dec_link(1)])
  show ?thesis using ns_effect_trans [OF e ns_effect_same [OF ns_effectD(1) [OF e] s2]]
    by (simp add: ns_effectD(2,3) [OF e] v' dec_link s(2))
qed

section \<open>New inodes\<close>

lemma no_entries: "i_size (v_inode v b) = 0 \<Longrightarrow> names v b = Map.empty"
  by (simp add: names_def entries_def nslots_def dir_map_def fun_eq_iff)

lemma new_inode_effect:
  assumes ne: "namei_env_ok ne" and d: "ns_dirs v D" and r: "new_inode_in ne v p mode = (v1, Inr b)"
  shows "ns_dirs v1 D" "b \<notin> D" "\<not> inode_busy (v_fs v) b" "inode_busy (v_fs v1) m \<longleftrightarrow> m = b \<or> inode_busy (v_fs v) m"
    "0 < b" "b < 2 ^ 32" "b \<le> s_ninodes (v_sbi v)" "names v1 = (names v)(b := Map.empty)"
    "nlinks v1 = (nlinks v)(b := 1)" "i_size (v_inode v1 b) = 0" "i_mode (v_inode v1 b) = mode"
    "v_dcache v1 = v_dcache v" "v_sbi v1 = v_sbi v" "\<And>x. x \<noteq> b \<Longrightarrow> i_mode (v_inode v1 x) = i_mode (v_inode v x)"
proof -
  obtain s w where cw: "cominix_new_inode (v_fs v) (ne_new_inode ne) (ne_init_owner ne p) (de_now (ne_dir ne)) mode = (s, w)"
    by (rule prod.exhaust)
  obtain ino where w: "w = Inr ino" using r by (cases w) (simp_all add: new_inode_in_def cw)
  note cn = cw [unfolded w]
  have v1: "v1 = v\<lparr>v_fs := s, v_inode := (v_inode v)(i_ino ino := ino)\<rparr>" and b: "b = i_ino ino"
    using r by (auto simp: new_inode_in_def cn)
  note n = new_inode_spec [OF ns_dirsD(5) [OF d] cn, folded b]
  obtain f where f: "ne_new_inode ne = Some f" "ino = mark_inode_dirty ((ne_init_owner ne p f mode)\<lparr>i_ino := b,
      i_atime := de_now (ne_dir ne), i_mtime := de_now (ne_dir ne), i_ctime := de_now (ne_dir ne), i2_data := (\<lambda>_. 0)\<rparr>)"
    using n(7) by (elim exE conjE) (rule that)
  have i: "i_nlink ino = 1" "i_size ino = 0" "i_mode ino = mode"
    using ne f by (simp_all add: namei_env_ok_def mark_inode_dirty_def)
  have sbi: "v_sbi v1 = v_sbi v" using n(6) by (simp add: v1 v_sbi_def cominix_sb_def)
  show bD: "b \<notin> D" using n(1) ns_dirsD(2) [OF d] by blast
  show "\<not> inode_busy (v_fs v) b" "inode_busy (v_fs v1) m \<longleftrightarrow> m = b \<or> inode_busy (v_fs v) m" "0 < b"
    "b \<le> s_ninodes (v_sbi v)"
    using n by (simp_all add: v1 v_sbi_def cominix_sb_def)
  then show "b < 2 ^ 32" using ns_dirsD(5) [OF d] by (simp add: imap_wf_def v_sbi_def cominix_sb_def)
  show "i_size (v_inode v1 b) = 0" "i_mode (v_inode v1 b) = mode" "v_dcache v1 = v_dcache v"
    "\<And>x. x \<noteq> b \<Longrightarrow> i_mode (v_inode v1 x) = i_mode (v_inode v x)"
    using i by (simp_all add: v1 b)
  show "nlinks v1 = (nlinks v)(b := 1)" using i by (auto simp: v1 b nlinks_def fun_eq_iff)
  have e: "entries v1 a = entries v a" "nslots v1 a = nslots v a" if "a \<noteq> b" for a
    using that by (simp_all add: v1 b entries_def nslots_def dir_slot_def)
  show "names v1 = (names v)(b := Map.empty)"
  proof
    fix a show "names v1 a = ((names v)(b := Map.empty)) a"
      using e(1) [of a] no_entries [of v1 b] i(2) by (cases "a = b") (simp_all add: names_def v1 b)
  qed
  have "dir_inv v1 a \<and> has_dots v1 a \<and> inode_busy (v_fs v1) a" if a: "a \<in> D" for a
  proof -
    have ab: "a \<noteq> b" using bD a by blast
    have o: "dir_inv v a" "has_dots v a" "inode_busy (v_fs v) a" using d a by (simp_all add: ns_dirs_def)
    have "dir_ok v1 a" using o(1) ab sbi by (simp add: dir_inv_def dir_ok_def v1 b)
    moreover have "has_dots v1 a" using o(2) ab by (simp add: has_dots_def holds_entry_def nslots_def dir_slot_def v1 b)
    moreover have "inode_busy (v_fs v1) a" using n(2) [of a] o(3) by (simp add: v1)
    ultimately show ?thesis using o(1) e(1) [OF ab] by (simp add: dir_inv_def)
  qed
  moreover have "imap_wf (v_fs v1)" using ns_dirsD(5) [OF d] n(6) by (simp add: imap_wf_def v1)
  moreover have "i_ino (v_inode v1 x) = x" for x using ns_dirsD(4) [OF d] by (simp add: v1 b)
  ultimately show "ns_dirs v1 D" using ns_dirsD(6) [OF d] sbi by (simp add: ns_dirs_def)
  show "v_sbi v1 = v_sbi v" by (rule sbi)
qed

lemma set_inode_same:
  assumes "namei_env_ok ne"
  shows "same_names v (set_inode_in ne v b rdev)" "nlinks (set_inode_in ne v b rdev) = nlinks v"
    "v_dcache (set_inode_in ne v b rdev) = v_dcache v"
proof -
  let ?f = "\<lambda>ino. cominix_set_inode (ne_kernel ne) ino rdev"
  have k: "i_ino (?f ino) = i_ino ino" "i_size (?f ino) = i_size ino" "i_mode (?f ino) = i_mode ino" "i_nlink (?f ino) = i_nlink ino" for ino
    using assms by (simp_all add: cominix_set_inode_def namei_env_ok_def Let_def)
  show "same_names v (set_inode_in ne v b rdev)" unfolding set_inode_in_def by (intro same_names_upd k)
  show "nlinks (set_inode_in ne v b rdev) = nlinks v" "v_dcache (set_inode_in ne v b rdev) = v_dcache v"
    by (auto simp: set_inode_in_def nlinks_def k fun_eq_iff)
qed

lemma mark_dirty_same:
  "same_names v (upd_inode v b mark_inode_dirty)" "nlinks (upd_inode v b mark_inode_dirty) = nlinks v"
  by (auto simp: nlinks_def mark_inode_dirty_def fun_eq_iff intro!: same_names_upd)

text \<open>The number of a new inode, and the state it leaves: the inode is in use, was not before, and
  everything else is as before.\<close>

definition born :: "vfs \<Rightarrow> vfs \<Rightarrow> nat set \<Rightarrow> nat \<Rightarrow> bool" where
  "born v v' D b \<longleftrightarrow> b \<notin> D \<and> \<not> inode_busy (v_fs v) b \<and> (\<forall>m. inode_busy (v_fs v') m \<longleftrightarrow> m = b \<or> inode_busy (v_fs v) m) \<and>
     0 < b \<and> b < 2 ^ 32 \<and> b \<le> s_ninodes (v_sbi v) \<and> s_ninodes (v_sbi v') = s_ninodes (v_sbi v)"

lemma born_same_imap: "born v v1 D b \<Longrightarrow> same_imap (v_fs v1) (v_fs v2) \<Longrightarrow> born v v2 D b"
  by (simp add: born_def same_imap_def v_sbi_def cominix_sb_def)

lemma mknod_effect:
  assumes ne: "namei_env_ok ne" and d: "ns_dirs v D" "a \<in> D" and nm: "real_name nm" "names v a nm = None"
    and r: "cominix_mknod ne v a nm mode rdev = Inr (v', None)"
  shows "\<exists>b. born v v' D b \<and> ns_dirs v' D \<and> names v' = set_name ((names v)(b := Map.empty)) a nm (Some b) \<and>
    nlinks v' = (nlinks v)(b := 1)"
proof -
  obtain v1 b where n: "new_inode_in ne v a mode = (v1, Inr b)"
    and r1: "add_nondir ne (upd_inode (set_inode_in ne v1 b rdev) b mark_inode_dirty) a nm b = Inr (v', None)"
    using r by (auto simp: cominix_mknod_def split: if_splits prod.splits sum.splits)
  note e = new_inode_effect [OF ne d(1) n]
  let ?v = "upd_inode (set_inode_in ne v1 b rdev) b mark_inode_dirty"
  have s: "same_names v1 ?v" "nlinks ?v = nlinks v1"
    using same_names_trans [OF set_inode_same(1) [OF ne] mark_dirty_same(1)] set_inode_same(2) [OF ne] mark_dirty_same(2)
    by simp_all
  have "a \<noteq> b" using d(2) e(2) by blast
  then have n0: "names ?v a nm = None" using nm(2) e(8) same_namesD(1) [OF s(1)] by simp
  have f: "ns_effect ?v v' D (set_name (names ?v) a nm (Some b)) (nlinks ?v)"
    by (rule add_nondir_effect [OF ne same_names_dirs [OF s(1) e(1)] d(2) nm(1) n0 e(5,6) r1])
  have "same_imap (v_fs v1) (v_fs v')"
    using s(1) ns_effectD(4) [OF f] same_imap_trans by (auto simp: same_names_def)
  moreover have "born v v1 D b" using e by (simp add: born_def)
  ultimately show ?thesis
    using ns_effectD [OF f] born_same_imap same_namesD(1) [OF s(1)] s(2) e(8,9) by (intro exI [of _ b]) simp
qed

section \<open>Directories\<close>

text \<open>The test for emptiness in terms of the names.\<close>

definition only_dots :: "vfs \<Rightarrow> nat \<Rightarrow> bool" where
  "only_dots v a \<longleftrightarrow> (\<forall>nm x. names v a nm = Some x \<longrightarrow> nm = [46, 46] \<or> nm = [46] \<and> x = i_ino (v_inode v a))"

lemma empty_dir_names:
  assumes d: "dir_inv v a" and r: "pages_readable de v a"
  shows "cominix_empty_dir de v a = Inr (only_dots v a)"
proof -
  have dk: "dir_ok v a" and dn: "distinct_names (entries v a)" using d by (simp_all add: dir_inv_def)
  have "(\<forall>e\<in>set (entries v a). dot_entry (i_ino (v_inode v a)) e) \<longleftrightarrow> only_dots v a"
  proof
    assume l: "\<forall>e\<in>set (entries v a). dot_entry (i_ino (v_inode v a)) e"
    show "only_dots v a" unfolding only_dots_def
    proof (intro allI impI)
      fix nm x assume "names v a nm = Some x"
      then obtain k where "k < nslots v a" "used (entries v a ! k)" "entries v a ! k = (x, nm)"
        using dir_map_Some [OF dn] by (auto simp: names_def)
      moreover have "entries v a ! k \<in> set (entries v a)" using calculation(1) by (intro nth_mem) simp
      ultimately show "nm = [46, 46] \<or> nm = [46] \<and> x = i_ino (v_inode v a)"
        using l by (auto simp: dot_entry_def)
    qed
  next
    assume o: "only_dots v a"
    show "\<forall>e\<in>set (entries v a). dot_entry (i_ino (v_inode v a)) e"
    proof
      fix e assume "e \<in> set (entries v a)"
      then obtain k where k: "k < length (entries v a)" "e = entries v a ! k" by (metis in_set_conv_nth)
      show "dot_entry (i_ino (v_inode v a)) e"
      proof (cases "used e")
        case True
        then have "names v a (snd e) = Some (fst e)"
          using dir_map_entry [OF dn k(1)] k(2) by (simp add: names_def del: nth_entries)
        then have "snd e = [46, 46] \<or> snd e = [46] \<and> fst e = i_ino (v_inode v a)" using o by (simp add: only_dots_def)
        then show ?thesis by (auto simp: dot_entry_def intro: prod_eqI)
      qed (simp add: dot_entry_def)
    qed
  qed
  then show ?thesis unfolding empty_dir_slots [OF dk r] by simp
qed

lemma has_dots_names:
  assumes "dir_inv v a" "has_dots v a"
  shows "names v a [46] = Some a" "\<exists>p. names v a [46, 46] = Some p"
  using names_holds [OF assms(1)] assms(2) by (auto simp: has_dots_def)

lemma only_dots_map:
  assumes "ns_dirs v D" "a \<in> D" "only_dots v a" "names v a [46, 46] = Some p"
  shows "names v a = [[46] \<mapsto> a, [46, 46] \<mapsto> p]"
proof
  fix nm
  have s: "names v a [46] = Some a" using has_dots_names ns_dirsD [OF assms(1)] assms(2) by blast
  show "names v a nm = [[46] \<mapsto> a, [46, 46] \<mapsto> p] nm"
  proof (cases "names v a nm")
    case None
    then show ?thesis using s assms(4) by auto
  next
    case (Some x)
    then have "nm = [46, 46] \<or> nm = [46] \<and> x = a" using assms(3) ns_dirsD(4) [OF assms(1)] by (simp add: only_dots_def)
    then show ?thesis using s assms(4) Some by auto
  qed
qed

lemma rmdir_effect:
  assumes ne: "namei_env_ok ne" and d: "ns_dirs v D" "a \<in> D" "b \<in> D" and nm: "real_name nm" "names v a nm = Some b"
    and c: "d_inode v a nm = Some b" and ab: "a \<noteq> b" and r: "cominix_rmdir ne v a nm = Inr (v', None)"
  defines "dec \<equiv> (\<lambda>n :: nat. u32 (n + (2 ^ 32 - 1)))"
  shows "only_dots v b" "ns_effect v v' D (set_name (names v) a nm None)
    ((nlinks v)(b := dec (dec (nlinks v b)), a := dec (nlinks v a)))"
proof -
  have e: "cominix_empty_dir (ne_dir ne) v b = Inr (only_dots v b)"
    by (rule empty_dir_names [OF ns_dirsD(1) [OF d(1,3)] dir_readsD(2) [OF namei_envD(2) [OF ne]]])
  obtain v1 where o: "only_dots v b" and u: "cominix_unlink ne v a nm = Inr (v1, None)"
    and v': "v' = inode_dec_link_count (inode_dec_link_count v1 a) b"
    using r c e by (auto simp: cominix_rmdir_def res_simps split: if_splits)
  show "only_dots v b" by (rule o)
  note f = unlink_effect [OF ne d(1,2) nm c u]
  have s: "same_names v1 v'" unfolding v' by (rule same_names_trans [OF dec_link(1) dec_link(1)])
  have "nlinks v' = (nlinks v)(b := dec (dec (nlinks v b)), a := dec (nlinks v a))"
    using ns_effectD(3) [OF f] ab by (auto simp: v' dec_link dec_def fun_eq_iff)
  then show "ns_effect v v' D (set_name (names v) a nm None)
    ((nlinks v)(b := dec (dec (nlinks v b)), a := dec (nlinks v a)))"
    using ns_effect_trans [OF f ns_effect_same [OF ns_effectD(1) [OF f] s]] ns_effectD(2) [OF f] by simp
qed

lemma slot_number_bound: "fst (dir_slot v a i) < 2 ^ 32"
  using le_num_bound [of "map (v_page v a (i div 64)) [64 * (i mod 64)..<64 * (i mod 64) + 4]"]
  by (simp add: dir_slot_def pslot_def)

lemma dir_number:
  assumes "has_dots v a"
  shows "0 < a" "a < 2 ^ 32"
  using assms slot_number_bound [of v a 0] by (auto simp: has_dots_def holds_entry_def)

text \<open>The names of a directory as \<open>cominix_make_empty\<close> leaves it.\<close>

lemma new_dir_names:
  assumes "dir_ok v b" "entries v b = [(b, [46]), (a, [46, 46])]" "0 < a" "0 < b"
  shows "dir_inv v b" "has_dots v b" "names v b = [[46] \<mapsto> b, [46, 46] \<mapsto> a]"
proof -
  have n: "nslots v b = 2" using arg_cong [OF assms(2), of length] by simp
  have s: "dir_slot v b 0 = (b, [46])" "dir_slot v b 1 = (a, [46, 46])"
    using arg_cong [OF assms(2), of "\<lambda>es. es ! 0"] arg_cong [OF assms(2), of "\<lambda>es. es ! 1"] n by simp_all
  show "has_dots v b" using s n assms(3,4) by (simp add: has_dots_def holds_entry_def)
  have "distinct_names (entries v b)" unfolding distinct_names_def assms(2)
    by (auto simp: less_Suc_eq nth_Cons split: nat.splits)
  then show "dir_inv v b" using assms(1) by (simp add: dir_inv_def)
  show "names v b = [[46] \<mapsto> b, [46, 46] \<mapsto> a]"
    using assms(3,4) by (auto simp: names_def assms(2) dir_map_def fun_eq_iff)
qed

lemma mkdir_effect:
  assumes ne: "namei_env_ok ne" and d: "ns_dirs v D" "a \<in> D" and nm: "real_name nm" "names v a nm = None"
    and r: "cominix_mkdir ne v a nm mode = Inr (v', None)"
  shows "\<exists>b. born v v' D b \<and> ns_dirs v' (insert b D) \<and>
    names v' = set_name ((names v)(b := [[46] \<mapsto> b, [46, 46] \<mapsto> a])) a nm (Some b) \<and>
    nlinks v' = (nlinks v)(b := 2, a := u32 (nlinks v a + 1)) \<and> d_inode v' a nm = Some b"
proof -
  obtain w1 r1 where nw: "new_inode_in ne v a (0x4000 OR mode) = (w1, r1)" by fastforce
  then obtain b where "r1 = Inr b" using r by (cases r1) (simp_all add: cominix_mkdir_def)
  with nw have n: "new_inode_in ne v a (0x4000 OR mode) = (w1, Inr b)" by simp
  note e = new_inode_effect [OF ne d(1) n]
  have ab: "a \<noteq> b" using d(2) e(2) by blast
  define v2 where "v2 = inode_inc_link_count (set_inode_in ne (inode_inc_link_count w1 a) b 0) b"
  have s2: "same_names w1 v2" unfolding v2_def
    by (rule same_names_trans [OF same_names_trans [OF inc_link(1) set_inode_same(1) [OF ne]] inc_link(1)])
  have nl2: "nlinks v2 = (nlinks v)(b := 2, a := u32 (nlinks v a + 1))"
    using ab by (auto simp: v2_def inc_link set_inode_same [OF ne] e(9) fun_eq_iff u32_def)
  obtain w3 err where me: "cominix_make_empty (ne_dir ne) v2 b a = (w3, err)" by fastforce
  have err: "err = None"
    using r ns_dirsD(1) [OF d] unfolding cominix_mkdir_def n by (auto simp: Let_def v2_def [symmetric] me split: if_splits)
  obtain w4 where al: "cominix_add_link (ne_dir ne) w3 a nm b = Inr (w4, None)" and v': "v' = d_instantiate w4 a nm (Some b)"
    using r err unfolding cominix_mkdir_def n by (auto simp: Let_def v2_def [symmetric] me res_simps split: if_splits)
  note de = namei_envD(1) [OF ne]
  have d2: "ns_dirs v2 D" by (rule same_names_dirs [OF s2 e(1)])
  have sz: "i_size (v_inode v2 b) = 0" using s2 e(10) by (simp add: same_names_def)
  have k2: "dir_ok v2 b" using ns_dirsD(6) [OF d2] sz by (simp add: dir_ok_def)
  have ds: "2 * s_dirsize (v_sbi v2) = 128" using ns_dirsD(6) [OF d2] by (simp add: dir_simps)
  have g: "de_grab (ne_dir ne) b 0 = None" and p: "snd (cominix_prepare_chunk (ne_dir ne) v2 b 0 128) = None"
    using make_empty_fails [OF de, of b _ v2 a, unfolded ds] me err
    by (metis option.exhaust prod.inject option.distinct(1))+
  have abn: "0 < a" "a < 2 ^ 32" using dir_number ns_dirsD(3) [OF d] by blast+
  have o3: "only_dir v2 w3 b" and k3: "dir_ok w3 b" and e3: "entries w3 b = [(b, [46]), (a, [46, 46])]"
    using make_empty_works [OF de k2 sz g p, of a] unfolding me ns_dirsD(4) [OF d2] u32_id [OF e(6)] u32_id [OF abn(2)]
    by simp_all
  note nd = new_dir_names [OF k3 e3 abn(1) e(5)]
  have i3: "same_imap (v_fs w1) (v_fs w3)"
    using s2 only_dirD(8) [OF o3] same_imap_trans by (auto simp: same_names_def)
  have d3: "ns_dirs w3 (insert b D)" unfolding ns_dirs_def
  proof (intro conjI ballI allI)
    show "i_ino (v_inode w3 x) = x" for x using only_dirD(2) [OF o3] ns_dirsD(4) [OF d2] by simp
    show "imap_wf (v_fs w3)" using same_imap_wf [OF i3] ns_dirsD(5) [OF e(1)] by simp
    show "v3_dirs (v_sbi w3)" using only_dirD(7) [OF o3] ns_dirsD(6) [OF d2] by simp
    fix x assume x: "x \<in> insert b D"
    show "inode_busy (v_fs w3) x"
      using x i3 e(4) [of x] ns_dirsD(2) [OF e(1)] by (auto simp: same_imap_def)
    show "dir_inv w3 x" using x nd(1) only_dir_inv [OF o3, of x] ns_dirsD(1) [OF d2] by (cases "x = b") auto
    show "has_dots w3 x"
    proof (cases "x = b")
      case False
      then have "has_dots v2 x" using x ns_dirsD(3) [OF d2] by simp
      then show ?thesis using only_dirD(5,6) [OF o3 False]
        by (simp add: has_dots_def holds_entry_def dir_slot_def nslots_def)
    qed (simp add: nd(2))
  qed
  have n3: "names w3 = (names v)(b := [[46] \<mapsto> b, [46, 46] \<mapsto> a])"
  proof
    fix x show "names w3 x = ((names v)(b := [[46] \<mapsto> b, [46, 46] \<mapsto> a])) x"
      using nd(3) only_dir_names [OF o3, of x] same_namesD(1) [OF s2] e(8) by (cases "x = b") simp_all
  qed
  have l3: "nlinks w3 = nlinks v2" using only_dirD(4) [OF o3] by (simp add: nlinks_def fun_eq_iff)
  have na: "names w3 a nm = None" using n3 nm(2) ab by simp
  have aD: "a \<in> insert b D" using d(2) by simp
  note f = add_link_effect(1) [OF ne d3 aD nm(1) na e(5,6) al]
  have v'n: "ns_dirs v' (insert b D)" "names v' = set_name (names w3) a nm (Some b)" "nlinks v' = nlinks w3"
    "same_imap (v_fs w1) (v_fs v')"
    using same_names_dirs [OF same_names_instantiate ns_effectD(1) [OF f]] same_namesD(1) [OF same_names_instantiate, of w4]
      ns_effectD [OF f] same_imap_trans [OF i3 ns_effectD(4) [OF f]]
    by (simp_all add: v')
  have "born v w1 D b" using e by (simp add: born_def)
  then have "born v v' D b" by (rule born_same_imap [OF _ v'n(4)])
  moreover have "d_inode v' a nm = Some b" by (simp add: v' d_inode_def d_instantiate_def)
  ultimately show ?thesis using v'n nl2 l3 n3 by (intro exI [of _ b]) simp
qed

section \<open>Renaming\<close>

abbreviation dec32 :: "nat \<Rightarrow> nat" where "dec32 n \<equiv> u32 (n + (2 ^ 32 - 1))"

lemma rename_target_new:
  assumes ne: "namei_env_ok ne" and d: "ns_dirs v D" "a \<in> D" and nm: "real_name nm" "names v a nm = None"
    and b: "0 < b" "b < 2 ^ 32" and c: "d_inode v a nm = None" and r: "rename_target ne v b a nm dir = Inr (v', None)"
  shows "ns_effect v v' D (set_name (names v) a nm (Some b)) (if dir then (nlinks v)(a := u32 (nlinks v a + 1)) else nlinks v)"
    "\<And>c' nm' i. c' \<noteq> a \<or> nm' \<noteq> nm \<Longrightarrow> holds_entry v c' nm' i \<Longrightarrow> holds_entry v' c' nm' i"
proof -
  obtain v1 err where al0: "cominix_add_link (ne_dir ne) v a nm b = Inr (v1, err)"
    using r c by (auto simp: rename_target_def res_simps)
  have err: "err = None" using r c by (cases err) (simp_all add: rename_target_def al0)
  then have v': "v' = (if dir then inode_inc_link_count v1 a else v1)"
    using r c by (simp add: rename_target_def al0)
  note al = al0 [unfolded err]
  note e = add_link_effect [OF ne d nm b al]
  have s: "same_names v1 v'" by (simp add: v' inc_link)
  show "ns_effect v v' D (set_name (names v) a nm (Some b)) (if dir then (nlinks v)(a := u32 (nlinks v a + 1)) else nlinks v)"
    using ns_effect_trans [OF e(1) ns_effect_same [OF ns_effectD(1) [OF e(1)] s]] ns_effectD(2,3) [OF e(1)]
    by (cases dir) (simp_all add: v' inc_link)
  show "holds_entry v' c' nm' i" if "c' \<noteq> a \<or> nm' \<noteq> nm" "holds_entry v c' nm' i" for c' nm' i
    using e(3) [OF that] same_namesD(3) [OF s] by simp
qed

lemma rename_target_old:
  assumes ne: "namei_env_ok ne" and d: "ns_dirs v D" "a \<in> D" and nm: "real_name nm" "names v a nm = Some c"
    and b: "0 < b" "b < 2 ^ 32" and c: "d_inode v a nm = Some c" "dir \<longrightarrow> c \<in> D"
    and r: "rename_target ne v b a nm dir = Inr (v', None)"
  shows "ns_effect v v' D (set_name (names v) a nm (Some b))
      ((nlinks v)(c := if dir then dec32 (dec32 (nlinks v c)) else dec32 (nlinks v c)))"
    "dir \<Longrightarrow> only_dots v c"
    "\<And>c' nm' i. c' \<noteq> a \<or> nm' \<noteq> nm \<Longrightarrow> holds_entry v c' nm' i \<Longrightarrow> holds_entry v' c' nm' i"
proof -
  have em: "cominix_empty_dir (ne_dir ne) v c = Inr (only_dots v c)" if dir
    by (rule empty_dir_names) (use that c(2) ns_dirsD(1) [OF d(1)] dir_readsD(2) [OF namei_envD(2) [OF ne]] in auto)
  obtain i where f: "cominix_find_entry (ne_dir ne) v a nm = Inr (Some (at_slot i))" and h: "holds_entry v a nm i"
    using find_effect(2) [OF ne d real_nameD [OF nm(1)] nm(2)] by blast
  let ?u = "\<lambda>v1. upd_inode v1 c (\<lambda>ino. ino\<lparr>i_ctime := de_now (ne_dir ne)\<rparr>)"
  have o: "only_dots v c" if dir using r c(1) em [OF that] that by (auto simp: rename_target_def split: if_splits)
  show "dir \<Longrightarrow> only_dots v c" by (rule o)
  have "bindE (if dir then cominix_empty_dir (ne_dir ne) v c else Inr True) F = F True" for F :: "bool \<Rightarrow> namei_result"
    using em o by auto
  note r' = r [unfolded rename_target_def c(1) option.case this]
  obtain v1 where st: "store_entry (ne_dir ne) v a (at_slot i) b = (v1, None)"
    and v': "v' = inode_dec_link_count (if dir then drop_nlink (?u v1) c else ?u v1) c"
    using r' ns_dirsD(4) [OF d(1)] unfolding f
    by (auto simp: cominix_set_link_def Let_def split: prod.splits if_splits)
  note e = store_effect [OF ne d nm(1) h b(2) st]
  have e1: "ns_effect v v1 D (set_name (names v) a nm (Some b)) (nlinks v)" using e(1) b(1) by simp
  have u: "same_names v1 (?u v1)" "nlinks (?u v1) = nlinks v1" by (auto simp: nlinks_def fun_eq_iff intro!: same_names_upd)
  have s: "same_names v1 v'" unfolding v'
    using same_names_trans [OF u(1) dec_link(1)] same_names_trans [OF same_names_trans [OF u(1) drop_link(1)] dec_link(1)]
    by simp
  have "nlinks v' = (nlinks v)(c := if dir then dec32 (dec32 (nlinks v c)) else dec32 (nlinks v c))"
    using ns_effectD(3) [OF e1] by (auto simp: v' dec_link drop_link u(2) fun_eq_iff)
  then show "ns_effect v v' D (set_name (names v) a nm (Some b))
      ((nlinks v)(c := if dir then dec32 (dec32 (nlinks v c)) else dec32 (nlinks v c)))"
    using ns_effect_trans [OF e1 ns_effect_same [OF ns_effectD(1) [OF e1] s]] ns_effectD(2) [OF e1] by simp
  show "holds_entry v' c' nm' j" if "c' \<noteq> a \<or> nm' \<noteq> nm" "holds_entry v c' nm' j" for c' nm' j
    using e(3) [OF that] same_namesD(3) [OF s] by simp
qed

text \<open>What the kernel has checked before it calls \<open>cominix_rename\<close>: the dentries are valid, the two
  names differ and are not \<open>.\<close> or \<open>..\<close>, both are directories or neither is, source and target are
  different inodes, and a directory is not moved into itself. The parent of a directory is the
  one its \<open>..\<close> entry says.\<close>

definition rename_checked :: "vfs \<Rightarrow> nat set \<Rightarrow> nat \<Rightarrow> byte list \<Rightarrow> nat \<Rightarrow> byte list \<Rightarrow> nat \<Rightarrow> bool" where
  "rename_checked v D od on nd nn b \<longleftrightarrow>
     od \<in> D \<and> nd \<in> D \<and> real_name on \<and> real_name nn \<and> (od, on) \<noteq> (nd, nn) \<and>
     d_inode v od on = Some b \<and> names v od on = Some b \<and> d_inode v nd nn = names v nd nn \<and>
     (S_ISDIR (i_mode (v_inode v b)) \<longleftrightarrow> b \<in> D) \<and> 0 < b \<and> b < 2 ^ 32 \<and> b \<noteq> od \<and> b \<noteq> nd \<and>
     (b \<in> D \<longrightarrow> names v b [46, 46] = Some od) \<and>
     (\<forall>c. names v nd nn = Some c \<longrightarrow> c \<noteq> b \<and> c \<noteq> nd \<and> c \<noteq> od \<and> (c \<in> D \<longleftrightarrow> b \<in> D) \<and>
        (c \<in> D \<longrightarrow> names v c [46, 46] = Some nd))"

definition renamed :: "(nat \<Rightarrow> byte list \<Rightarrow> nat option) \<Rightarrow> nat set \<Rightarrow> nat \<Rightarrow> byte list \<Rightarrow> nat \<Rightarrow> byte list \<Rightarrow> nat \<Rightarrow>
    nat \<Rightarrow> byte list \<Rightarrow> nat option" where
  "renamed N D od on nd nn b =
     (let N2 = set_name (set_name N nd nn (Some b)) od on None in
      if b \<in> D then set_name N2 b [46, 46] (Some nd) else N2)"

definition renamed_links :: "(nat \<Rightarrow> byte list \<Rightarrow> nat option) \<Rightarrow> nat set \<Rightarrow> nat \<Rightarrow> nat \<Rightarrow> byte list \<Rightarrow> nat \<Rightarrow> (nat \<Rightarrow> nat) \<Rightarrow>
    nat \<Rightarrow> nat" where
  "renamed_links N D od nd nn b nl =
     (let nl1 = (case N nd nn of
            None \<Rightarrow> if b \<in> D then nl(nd := u32 (nl nd + 1)) else nl
          | Some c \<Rightarrow> nl(c := if b \<in> D then dec32 (dec32 (nl c)) else dec32 (nl c)))
      in if b \<in> D then nl1(od := dec32 (nl1 od)) else nl1)"

lemma dotdot_at_slot:
  "ns_dirs v D \<Longrightarrow> namei_env_ok ne \<Longrightarrow> cominix_dotdot (ne_dir ne) v b = Some (at_slot 1)"
  using namei_envD(2) [of ne b] ns_dirsD(6) [of v D]
  by (simp add: cominix_dotdot_def dir_get_folio_def dir_reads_def cominix_next_entry_def dir_simps)

lemma rename_effect:
  assumes ne: "namei_env_ok ne" and d: "ns_dirs v D" and k: "rename_checked v D od on nd nn b"
    and r: "cominix_rename ne v od on nd nn flags = Inr (v', None)"
  shows "ns_effect v v' D (renamed (names v) D od on nd nn b) (renamed_links (names v) D od nd nn b (nlinks v))"
    "\<And>c. names v nd nn = Some c \<Longrightarrow> b \<in> D \<Longrightarrow> only_dots v c"
proof -
  have D: "od \<in> D" "nd \<in> D" and nm: "real_name on" "real_name nn" "(od, on) \<noteq> (nd, nn)" "names v od on = Some b"
    and c: "d_inode v od on = Some b" "d_inode v nd nn = names v nd nn"
    and b: "0 < b" "b < 2 ^ 32" "S_ISDIR (i_mode (v_inode v b)) \<longleftrightarrow> b \<in> D"
    and tc: "\<And>c. names v nd nn = Some c \<Longrightarrow> b \<in> D \<Longrightarrow> c \<in> D"
    using k by (auto simp: rename_checked_def)
  have fl: "flags AND (2 ^ 32 - 1 - RENAME_NOREPLACE) = 0"
    using r by (simp add: cominix_rename_def split: if_splits)
  obtain i where f: "cominix_find_entry (ne_dir ne) v od on = Inr (Some (at_slot i))" and h: "holds_entry v od on i"
    using find_effect(2) [OF ne d D(1) real_nameD [OF nm(1)] nm(4)] by blast
  define dd where "dd = (if b \<in> D then Some (at_slot 1) else None)"
  have dd: "(if S_ISDIR (i_mode (v_inode v b)) then cominix_dotdot (ne_dir ne) v b else None) = dd"
    "dd \<noteq> None \<longleftrightarrow> b \<in> D"
    using b(3) dotdot_at_slot [OF d ne] by (simp_all add: dd_def)
  have nf: "\<not> (S_ISDIR (i_mode (v_inode v b)) \<and> dd = None)" using b(3) by (simp add: dd_def)
  note r1 = r [unfolded cominix_rename_def fl f c(1) deref_simps bindE.simps option.case Let_def dd if_not_P [OF nf]]
  obtain v1 where t: "rename_target ne v b nd nn (b \<in> D) = Inr (v1, None)"
    and r2: "(case cominix_delete_entry (ne_dir ne) v1 od (at_slot i) of (v2, err2) \<Rightarrow>
        if err2 \<noteq> None then Inr (v2, err2)
        else case dd of None \<Rightarrow> Inr (upd_inode v2 b mark_inode_dirty, None)
          | Some dd \<Rightarrow> (case cominix_set_link (ne_dir ne) (upd_inode v2 b mark_inode_dirty) b dd nd of (v4, err4) \<Rightarrow>
              Inr (if err4 = None then inode_dec_link_count v4 od else v4, err4))) = (Inr (v', None) :: namei_result)"
    using r1 by (auto simp: res_simps split: if_splits)
  show dots: "\<And>c. names v nd nn = Some c \<Longrightarrow> b \<in> D \<Longrightarrow> only_dots v c"
    using rename_target_old(2) [OF ne d D(2) nm(2) _ b(1,2) _ _ t] c(2) tc by simp
  let ?nl1 = "case names v nd nn of
            None \<Rightarrow> if b \<in> D then (nlinks v)(nd := u32 (nlinks v nd + 1)) else nlinks v
          | Some c \<Rightarrow> (nlinks v)(c := if b \<in> D then dec32 (dec32 (nlinks v c)) else dec32 (nlinks v c))"
  have e1: "ns_effect v v1 D (set_name (names v) nd nn (Some b)) ?nl1" and h1: "holds_entry v1 od on i"
  proof -
    have ne': "od \<noteq> nd \<or> on \<noteq> nn" using nm(3) by auto
    have "ns_effect v v1 D (set_name (names v) nd nn (Some b)) ?nl1 \<and> holds_entry v1 od on i"
    proof (cases "names v nd nn")
      case None
      then have c': "d_inode v nd nn = None" using c(2) by simp
      show ?thesis
        using rename_target_new(1) [OF ne d D(2) nm(2) None b(1,2) c' t]
          rename_target_new(2) [OF ne d D(2) nm(2) None b(1,2) c' t ne' h] by (simp add: None)
    next
      case (Some c)
      then have c': "d_inode v nd nn = Some c" "b \<in> D \<longrightarrow> c \<in> D" using c(2) tc by simp_all
      show ?thesis
        using rename_target_old(1) [OF ne d D(2) nm(2) Some b(1,2) c' t]
          rename_target_old(3) [OF ne d D(2) nm(2) Some b(1,2) c' t ne' h] by (simp add: Some)
    qed
    then show "ns_effect v v1 D (set_name (names v) nd nn (Some b)) ?nl1" "holds_entry v1 od on i" by blast+
  qed
  obtain v2 where st: "store_entry (ne_dir ne) v1 od (at_slot i) 0 = (v2, None)"
    using r2 unfolding cominix_delete_entry_def by (auto split: prod.splits if_splits)
  have e2: "ns_effect v v2 D (set_name (set_name (names v) nd nn (Some b)) od on None) ?nl1"
    using ns_effect_trans [OF e1 store_effect(1) [OF ne ns_effectD(1) [OF e1] D(1) nm(1) h1 _ st]] ns_effectD(2,3) [OF e1]
    by simp
  define v3 where "v3 = upd_inode v2 b mark_inode_dirty"
  have e3: "ns_effect v v3 D (set_name (set_name (names v) nd nn (Some b)) od on None) ?nl1"
    using ns_effect_trans [OF e2 ns_effect_same [OF ns_effectD(1) [OF e2] mark_dirty_same(1) [of v2 b, folded v3_def]]]
      ns_effectD(2,3) [OF e2] mark_dirty_same(2) [of v2 b, folded v3_def] by simp
  show "ns_effect v v' D (renamed (names v) D od on nd nn b) (renamed_links (names v) D od nd nn b (nlinks v))"
  proof (cases "b \<in> D")
    case False
    then have "v' = v3" using r2 unfolding cominix_delete_entry_def st by (simp add: dd_def v3_def)
    then show ?thesis using e3 False by (simp add: renamed_def renamed_links_def)
  next
    case True
    note d3 = ns_effectD(1) [OF e3]
    obtain v4 where s4: "store_entry (ne_dir ne) v3 b (at_slot 1) nd = (v4, None)" and v': "v' = inode_dec_link_count v4 od"
      using r2 True ns_dirsD(4) [OF d3] unfolding cominix_delete_entry_def st cominix_set_link_def
      by (auto simp: dd_def v3_def [symmetric] split: prod.splits if_splits)
    have nd: "0 < nd" "nd < 2 ^ 32" using dir_number ns_dirsD(3) [OF d D(2)] by blast+
    have e4: "ns_effect v3 v4 D (set_name (names v3) b [46, 46] (Some nd)) (nlinks v3)"
      by (rule dotdot_effect [OF ne d3 True nd s4])
    have e5: "ns_effect v v4 D (renamed (names v) D od on nd nn b) ?nl1"
      using ns_effect_trans [OF e3 e4] ns_effectD(2,3) [OF e3] True by (simp add: renamed_def)
    have "ns_effect v4 v' D (names v4) (nlinks v')"
      unfolding v' by (rule ns_effect_same [OF ns_effectD(1) [OF e5] dec_link(1)])
    from ns_effect_trans [OF e5 this] show ?thesis
      using ns_effectD(2,3) [OF e5] True by (simp add: v' dec_link renamed_links_def Let_def)
  qed
qed

end
