(* ===== verification/LinkCount.thy ===== *)
theory LinkCount
  imports NameiSpec
begin

text \<open>
  The link count of every inode in use is the number of its directory entries. The name space
  moves by successful operations of namei.c, each called under the conditions the VFS has checked,
  and by steps of the kernel that change neither names nor counts. \<open>D\<close> is the set of
  directories that are part of the tree.
\<close>

section \<open>Counting entries\<close>

definition links :: "(nat \<Rightarrow> byte list \<Rightarrow> nat option) \<Rightarrow> nat set \<Rightarrow> nat \<Rightarrow> nat" where
  "links N D x = (\<Sum>a\<in>D. card {nm. N a nm = Some x})"

lemma card_set_name:
  assumes "finite (dom m)"
  shows "card {n. (m(nm := y)) n = Some x} + (if m nm = Some x then 1 else 0) =
    card {n. m n = Some x} + (if y = Some x then 1 else 0)"
proof -
  let ?S = "{n. n \<noteq> nm \<and> m n = Some x}"
  have f: "finite ?S" by (rule finite_subset [OF _ assms]) auto
  have e: "{n. m n = Some x} = (if m nm = Some x then insert nm ?S else ?S)"
    "{n. (m(nm := y)) n = Some x} = (if y = Some x then insert nm ?S else ?S)" by auto
  have i: "card (insert nm ?S) = card ?S + 1" using f by simp
  show ?thesis unfolding e using i by auto
qed

text \<open>Every directory has finitely many names.\<close>

definition fin :: "(nat \<Rightarrow> byte list \<Rightarrow> nat option) \<Rightarrow> bool" where
  "fin N \<longleftrightarrow> (\<forall>a. finite (dom (N a)))"

lemma fin_set_name: "fin N \<Longrightarrow> fin (set_name N a nm y)"
  by (auto simp: fin_def dom_fun_upd)

lemma links_set_name:
  assumes "finite D" "a \<in> D" "fin N"
  shows "links (set_name N a nm y) D x + (if N a nm = Some x then 1 else 0) =
    links N D x + (if y = Some x then 1 else 0)"
proof -
  have s: "links M D x = card {n. M a n = Some x} + links M (D - {a}) x" for M
    unfolding links_def by (rule sum.remove [OF assms(1,2)])
  have "links (set_name N a nm y) (D - {a}) x = links N (D - {a}) x"
    unfolding links_def by (rule sum.cong) auto
  then show ?thesis using card_set_name [of "N a" nm y x] assms(3) unfolding fin_def s [of N] s [of "set_name N a nm y"] by simp
qed

lemma links_insert:
  assumes "finite D" "b \<notin> D" "b \<noteq> a" "e \<noteq> e'"
  shows "links (N(b := [e \<mapsto> b, e' \<mapsto> a])) (insert b D) x = links N D x + (if x = b then 1 else 0) + (if x = a then 1 else 0)"
proof -
  have "{nm. [e \<mapsto> b, e' \<mapsto> a] nm = Some x} = (if x = b then {e} else if x = a then {e'} else {})"
    using assms(3,4) by auto
  then have "card {nm. [e \<mapsto> b, e' \<mapsto> a] nm = Some x} = (if x = b then 1 else 0) + (if x = a then 1 else 0)"
    using assms(3) by auto
  moreover have "(\<Sum>c\<in>D. card {nm. (N(b := [e \<mapsto> b, e' \<mapsto> a])) c nm = Some x}) = links N D x"
    unfolding links_def by (rule sum.cong) (use assms(2) in auto)
  ultimately show ?thesis unfolding links_def using assms(1,2) by simp
qed

lemma links_remove:
  assumes "finite D" "b \<in> D" "N b = [e \<mapsto> b, e' \<mapsto> a]" "b \<noteq> a" "e \<noteq> e'"
  shows "links N D x = links N (D - {b}) x + (if x = b then 1 else 0) + (if x = a then 1 else 0)"
proof -
  have "N = N(b := [e \<mapsto> b, e' \<mapsto> a])" using assms(3) by auto
  moreover have "D = insert b (D - {b})" using assms(2) by auto
  ultimately show ?thesis using links_insert [of "D - {b}" b a e e' N x] assms(1,4,5) by (metis Diff_iff finite_Diff singletonI)
qed

lemma fin_names: "fin (names v)" unfolding fin_def
proof
  fix a
  have "dom (names v a) \<subseteq> snd ` set (entries v a)"
    by (auto simp: names_def dir_map_def find_Some_iff) (metis in_set_conv_nth length_entries nth_entries rev_image_eqI)
  then show "finite (dom (names v a))" by (rule finite_subset) simp
qed

lemma links_cong: "(\<And>a. a \<in> D \<Longrightarrow> N a = N' a) \<Longrightarrow> links N D x = links N' D x"
  unfolding links_def by (rule sum.cong) auto

lemma links_pos: "finite D \<Longrightarrow> a \<in> D \<Longrightarrow> fin N \<Longrightarrow> N a nm = Some x \<Longrightarrow> 0 < links N D x"
  using links_set_name [of D a N nm None x] by simp

section \<open>The invariant\<close>

definition in_use :: "vfs \<Rightarrow> nat \<Rightarrow> bool" where
  "in_use v x \<longleftrightarrow> 0 < x \<and> x \<le> s_ninodes (v_sbi v) \<and> inode_busy (v_fs v) x"

definition ns_inv :: "vfs \<Rightarrow> nat set \<Rightarrow> bool" where
  "ns_inv v D \<longleftrightarrow> ns_dirs v D \<and> finite D \<and> (\<forall>x. links (names v) D x \<noteq> 0 \<longrightarrow> in_use v x) \<and>
     (\<forall>x. in_use v x \<longrightarrow> nlinks v x = links (names v) D x \<and> nlinks v x \<le> MINIX2_LINK_MAX)"

lemma ns_invD:
  assumes "ns_inv v D"
  shows "ns_dirs v D" "finite D" "links (names v) D x \<noteq> 0 \<Longrightarrow> in_use v x"
    "in_use v x \<Longrightarrow> nlinks v x = links (names v) D x" "in_use v x \<Longrightarrow> nlinks v x \<le> MINIX2_LINK_MAX"
  using assms unfolding ns_inv_def by blast+

lemma in_use_same: "same_imap (v_fs v) (v_fs v') \<Longrightarrow> in_use v' x = in_use v x"
  by (simp add: in_use_def same_imap_def v_sbi_def cominix_sb_def)

lemma in_use_born: "born v v' D b \<Longrightarrow> in_use v' x \<longleftrightarrow> x = b \<or> in_use v x"
  by (auto simp: in_use_def born_def)

lemma in_use_u32: "ns_inv v D \<Longrightarrow> in_use v x \<Longrightarrow> 0 < x \<and> x < 2 ^ 32"
  using ns_dirsD(5) [of v D] by (auto simp: ns_inv_def in_use_def imap_wf_def v_sbi_def cominix_sb_def)

lemma named_in_use: "ns_inv v D \<Longrightarrow> a \<in> D \<Longrightarrow> names v a nm = Some x \<Longrightarrow> in_use v x"
proof -
  assume i: "ns_inv v D" and a: "a \<in> D" and n: "names v a nm = Some x"
  have "0 < links (names v) D x" by (rule links_pos [OF ns_invD(2) [OF i] a fin_names n])
  then show "in_use v x" using ns_invD(3) [OF i] by simp
qed

lemma dir_in_use: "ns_inv v D \<Longrightarrow> a \<in> D \<Longrightarrow> in_use v a"
  using named_in_use has_dots_names(1) ns_dirsD(1,3) ns_invD(1) by blast

text \<open>To show the invariant after an operation: counts and entries move together.\<close>

lemma ns_invI:
  assumes "ns_inv v D" "ns_dirs v' D'" "finite D'" "\<And>x. in_use v' x \<longleftrightarrow> x \<in> B \<or> in_use v x"
    and "\<And>x. links (names v') D' x \<noteq> 0 \<Longrightarrow> x \<in> B \<or> in_use v x"
    and "\<And>x. x \<in> B \<or> in_use v x \<Longrightarrow> nlinks v' x = links (names v') D' x \<and> nlinks v' x \<le> MINIX2_LINK_MAX"
  shows "ns_inv v' D'"
  unfolding ns_inv_def assms(4) using assms(2,3,5,6) by blast

lemma dec32_pred: "0 < n \<Longrightarrow> n \<le> MINIX2_LINK_MAX \<Longrightarrow> dec32 n = n - 1"
  using u32_dec [of n] by (simp add: MINIX2_LINK_MAX_def)

lemma inc32_succ: "n < MINIX2_LINK_MAX \<Longrightarrow> u32 (n + 1) = n + 1"
  by (rule u32_id) (simp add: MINIX2_LINK_MAX_def)

lemma dec32_inc: "n \<le> MINIX2_LINK_MAX \<Longrightarrow> dec32 (u32 (n + 1)) = n"
  using u32_id [of "n + 1"] u32_dec [of "n + 1"] by (simp add: MINIX2_LINK_MAX_def)

section \<open>Steps\<close>

inductive ns_step :: "namei_env \<Rightarrow> vfs \<times> nat set \<Rightarrow> vfs \<times> nat set \<Rightarrow> bool" for ne where
  Link: "a \<in> D \<Longrightarrow> real_name nm \<Longrightarrow> names v a nm = None \<Longrightarrow> in_use v b \<Longrightarrow> nlinks v b < MINIX2_LINK_MAX \<Longrightarrow>
    cominix_link ne v b a nm = Inr (v', None) \<Longrightarrow> ns_step ne (v, D) (v', D)"
| Unlink: "a \<in> D \<Longrightarrow> real_name nm \<Longrightarrow> names v a nm = Some b \<Longrightarrow> d_inode v a nm = Some b \<Longrightarrow>
    cominix_unlink ne v a nm = Inr (v', None) \<Longrightarrow> ns_step ne (v, D) (v', D)"
| Mknod: "a \<in> D \<Longrightarrow> real_name nm \<Longrightarrow> names v a nm = None \<Longrightarrow>
    cominix_mknod ne v a nm mode rdev = Inr (v', None) \<Longrightarrow> ns_step ne (v, D) (v', D)"
| Mkdir: "a \<in> D \<Longrightarrow> real_name nm \<Longrightarrow> names v a nm = None \<Longrightarrow> nlinks v a < MINIX2_LINK_MAX \<Longrightarrow>
    cominix_mkdir ne v a nm mode = Inr (v', None) \<Longrightarrow> d_inode v' a nm = Some b \<Longrightarrow> ns_step ne (v, D) (v', insert b D)"
| Rmdir: "a \<in> D \<Longrightarrow> real_name nm \<Longrightarrow> names v a nm = Some b \<Longrightarrow> d_inode v a nm = Some b \<Longrightarrow> b \<in> D \<Longrightarrow> a \<noteq> b \<Longrightarrow>
    names v b [46, 46] = Some a \<Longrightarrow> cominix_rmdir ne v a nm = Inr (v', None) \<Longrightarrow> ns_step ne (v, D) (v', D - {b})"
| Rename: "rename_checked v D od on nd nn b \<Longrightarrow> (od \<noteq> nd \<longrightarrow> nlinks v nd < MINIX2_LINK_MAX) \<Longrightarrow>
    cominix_rename ne v od on nd nn flags = Inr (v', None) \<Longrightarrow>
    ns_step ne (v, D) (v', D - (case names v nd nn of None \<Rightarrow> {} | Some c \<Rightarrow> {c}))"
| Kernel: "same_names v v' \<Longrightarrow> nlinks v' = nlinks v \<Longrightarrow> ns_step ne (v, D) (v', D)"

inductive_cases ns_stepE: "ns_step ne (v, D) (v', D')"

lemma link_keeps:
  assumes ne: "namei_env_ok ne" and i: "ns_inv v D" and a: "a \<in> D" and nm: "real_name nm" "names v a nm = None"
    and b: "in_use v b" "nlinks v b < MINIX2_LINK_MAX" and r: "cominix_link ne v b a nm = Inr (v', None)"
  shows "ns_inv v' D"
proof -
  have bb: "0 < b" "b < 2 ^ 32" using in_use_u32 [OF i b(1)] by simp_all
  note e = link_effect [OF ne ns_invD(1) [OF i] a nm bb r]
  have l: "links (names v') D x = links (names v) D x + (if x = b then 1 else 0)" for x
    using links_set_name [OF ns_invD(2) [OF i] a fin_names, of v nm "Some b" x] nm(2)
    unfolding ns_effectD(2) [OF e] by auto
  show ?thesis
  proof (rule ns_invI [OF i ns_effectD(1) [OF e] ns_invD(2) [OF i], where B = "{}"])
    show "in_use v' x \<longleftrightarrow> x \<in> {} \<or> in_use v x" for x using in_use_same [OF ns_effectD(4) [OF e]] by simp
    show "x \<in> {} \<or> in_use v x" if "links (names v') D x \<noteq> 0" for x
      using that ns_invD(3) [OF i] b(1) unfolding l by (auto split: if_splits)
    show "nlinks v' x = links (names v') D x \<and> nlinks v' x \<le> MINIX2_LINK_MAX" if "x \<in> {} \<or> in_use v x" for x
      using that ns_invD(4,5) [OF i] b inc32_succ unfolding l ns_effectD(3) [OF e] by auto
  qed
qed

lemma unlink_keeps:
  assumes ne: "namei_env_ok ne" and i: "ns_inv v D" and a: "a \<in> D" and nm: "real_name nm" "names v a nm = Some b"
    and c: "d_inode v a nm = Some b" and r: "cominix_unlink ne v a nm = Inr (v', None)"
  shows "ns_inv v' D"
proof -
  have b: "in_use v b" by (rule named_in_use [OF i a nm(2)])
  note e = unlink_effect [OF ne ns_invD(1) [OF i] a nm c r]
  have l: "links (names v') D x + (if x = b then 1 else 0) = links (names v) D x" for x
    using links_set_name [OF ns_invD(2) [OF i] a fin_names, of v nm None x] nm(2)
    unfolding ns_effectD(2) [OF e] by auto
  have nb: "0 < nlinks v b" using ns_invD(4) [OF i b] l [of b] by simp
  show ?thesis
  proof (rule ns_invI [OF i ns_effectD(1) [OF e] ns_invD(2) [OF i], where B = "{}"])
    show "in_use v' x \<longleftrightarrow> x \<in> {} \<or> in_use v x" for x using in_use_same [OF ns_effectD(4) [OF e]] by simp
    show "x \<in> {} \<or> in_use v x" if "links (names v') D x \<noteq> 0" for x
      using that ns_invD(3) [OF i, of x] l [of x] by simp
    show "nlinks v' x = links (names v') D x \<and> nlinks v' x \<le> MINIX2_LINK_MAX" if "x \<in> {} \<or> in_use v x" for x
      using that ns_invD(4,5) [OF i, of x] l [of x] dec32_pred [OF nb ns_invD(5) [OF i b]]
      unfolding ns_effectD(3) [OF e] by (auto split: if_splits)
  qed
qed

lemma mknod_keeps:
  assumes ne: "namei_env_ok ne" and i: "ns_inv v D" and a: "a \<in> D" and nm: "real_name nm" "names v a nm = None"
    and r: "cominix_mknod ne v a nm mode rdev = Inr (v', None)"
  shows "ns_inv v' D"
proof -
  obtain b where bn: "born v v' D b" and d: "ns_dirs v' D"
    and n: "names v' = set_name ((names v)(b := Map.empty)) a nm (Some b)" and nl: "nlinks v' = (nlinks v)(b := 1)"
    using mknod_effect [OF ne ns_invD(1) [OF i] a nm r] by blast
  have nb: "\<not> in_use v b" "b \<notin> D" using bn by (simp_all add: born_def in_use_def)
  have l0: "links (names v) D b = 0" using nb(1) ns_invD(3) [OF i, of b] by blast
  have f: "fin ((names v)(b := Map.empty))" using fin_names [of v] by (simp add: fin_def)
  have "links ((names v)(b := Map.empty)) D x = links (names v) D x" for x
    by (rule links_cong) (use nb in auto)
  moreover have "a \<noteq> b" using a nb(2) by blast
  ultimately have l: "links (names v') D x = links (names v) D x + (if x = b then 1 else 0)" for x
    using links_set_name [OF ns_invD(2) [OF i] a f, of nm "Some b" x] nm(2) unfolding n by auto
  show ?thesis
  proof (rule ns_invI [OF i d ns_invD(2) [OF i], where B = "{b}"])
    show "in_use v' x \<longleftrightarrow> x \<in> {b} \<or> in_use v x" for x using in_use_born [OF bn] by simp
    show "x \<in> {b} \<or> in_use v x" if "links (names v') D x \<noteq> 0" for x
      using that ns_invD(3) [OF i, of x] l [of x] by (auto split: if_splits)
    show "nlinks v' x = links (names v') D x \<and> nlinks v' x \<le> MINIX2_LINK_MAX" if "x \<in> {b} \<or> in_use v x" for x
      using that ns_invD(4,5) [OF i, of x] l [of x] l0 nb(1) unfolding nl
      by (auto simp: MINIX2_LINK_MAX_def split: if_splits)
  qed
qed

lemma mkdir_keeps:
  assumes ne: "namei_env_ok ne" and i: "ns_inv v D" and a: "a \<in> D" and nm: "real_name nm" "names v a nm = None"
    and m: "nlinks v a < MINIX2_LINK_MAX" and r: "cominix_mkdir ne v a nm mode = Inr (v', None)" "d_inode v' a nm = Some b"
  shows "ns_inv v' (insert b D)"
proof -
  have bn: "born v v' D b" and d: "ns_dirs v' (insert b D)"
    and n: "names v' = set_name ((names v)(b := [[46] \<mapsto> b, [46, 46] \<mapsto> a])) a nm (Some b)"
    and nl: "nlinks v' = (nlinks v)(b := 2, a := u32 (nlinks v a + 1))"
    using mkdir_effect [OF ne ns_invD(1) [OF i] a nm r(1)] r(2) by auto
  have nb: "\<not> in_use v b" "b \<notin> D" using bn by (simp_all add: born_def in_use_def)
  have ab: "a \<noteq> b" using a nb(2) by blast
  have l0: "links (names v) D b = 0" using nb(1) ns_invD(3) [OF i, of b] by blast
  have f: "fin ((names v)(b := [[46] \<mapsto> b, [46, 46] \<mapsto> a]))" using fin_names [of v] by (simp add: fin_def)
  have l: "links (names v') (insert b D) x = links (names v) D x + (if x = b then 2 else 0) + (if x = a then 1 else 0)" for x
    using links_set_name [OF _ _ f, of "insert b D" a nm "Some b" x] nm(2) a ns_invD(2) [OF i] ab
      links_insert [OF ns_invD(2) [OF i] nb(2), of a "[46]" "[46, 46]" "names v" x]
    unfolding n by (auto split: if_splits)
  have ua: "in_use v a" by (rule dir_in_use [OF i a])
  show ?thesis
  proof (rule ns_invI [OF i d, where B = "{b}"])
    show "finite (insert b D)" using ns_invD(2) [OF i] by simp
    show "in_use v' x \<longleftrightarrow> x \<in> {b} \<or> in_use v x" for x using in_use_born [OF bn] by simp
    show "x \<in> {b} \<or> in_use v x" if "links (names v') (insert b D) x \<noteq> 0" for x
      using that ns_invD(3) [OF i, of x] l [of x] ua by (auto split: if_splits)
    show "nlinks v' x = links (names v') (insert b D) x \<and> nlinks v' x \<le> MINIX2_LINK_MAX"
      if "x \<in> {b} \<or> in_use v x" for x
      using that ns_invD(4,5) [OF i, of x] l [of x] l0 nb(1) ab inc32_succ [OF m] m unfolding nl
      by (auto simp: MINIX2_LINK_MAX_def split: if_splits)
  qed
qed

lemma ns_dirs_mono: "ns_dirs v D \<Longrightarrow> D' \<subseteq> D \<Longrightarrow> ns_dirs v D'"
  unfolding ns_dirs_def by blast

lemma rmdir_keeps:
  assumes ne: "namei_env_ok ne" and i: "ns_inv v D" and a: "a \<in> D" "b \<in> D" "a \<noteq> b" and nm: "real_name nm" "names v a nm = Some b"
    and c: "d_inode v a nm = Some b" and p: "names v b [46, 46] = Some a" and r: "cominix_rmdir ne v a nm = Inr (v', None)"
  shows "ns_inv v' (D - {b})"
proof -
  note f = rmdir_effect [OF ne ns_invD(1) [OF i] a(1,2) nm c a(3) r]
  note e = f(2)
  have ub: "in_use v b" "in_use v a" using dir_in_use [OF i] a by blast+
  have nb: "names v b = [[46] \<mapsto> b, [46, 46] \<mapsto> a]" by (rule only_dots_map [OF ns_invD(1) [OF i] a(2) f(1) p])
  then have nb': "names v' b = [[46] \<mapsto> b, [46, 46] \<mapsto> a]" using a(3) unfolding ns_effectD(2) [OF e] by simp
  have l: "links (names v) D x = links (names v') (D - {b}) x + (if x = b then 2 else 0) + (if x = a then 1 else 0)" for x
    using links_set_name [OF ns_invD(2) [OF i] a(1) fin_names, of v nm None x] nm(2)
      links_remove [where N = "names v'" and x = x, OF ns_invD(2) [OF i] a(2) nb'] a(3)
    unfolding ns_effectD(2) [OF e] by (auto split: if_splits)
  have n2: "2 \<le> nlinks v b" "1 \<le> nlinks v a"
    using ns_invD(4) [OF i] ub l [of b] l [of a] by auto
  have db: "dec32 (dec32 (nlinks v b)) = nlinks v b - 2"
    using dec32_pred [of "nlinks v b"] dec32_pred [of "nlinks v b - 1"] n2 ns_invD(5) [OF i ub(1)] by simp
  have da: "dec32 (nlinks v a) = nlinks v a - 1"
    using dec32_pred [of "nlinks v a"] n2 ns_invD(5) [OF i ub(2)] by simp
  show ?thesis
  proof (rule ns_invI [OF i, where B = "{}"])
    show "ns_dirs v' (D - {b})" by (rule ns_dirs_mono [OF ns_effectD(1) [OF e]]) blast
    show "finite (D - {b})" using ns_invD(2) [OF i] by simp
    show "in_use v' x \<longleftrightarrow> x \<in> {} \<or> in_use v x" for x using in_use_same [OF ns_effectD(4) [OF e]] by simp
    show "x \<in> {} \<or> in_use v x" if "links (names v') (D - {b}) x \<noteq> 0" for x
      using that ns_invD(3) [OF i, of x] l [of x] by simp
    show "nlinks v' x = links (names v') (D - {b}) x \<and> nlinks v' x \<le> MINIX2_LINK_MAX" if "x \<in> {} \<or> in_use v x" for x
      using that ns_invD(4,5) [OF i, of x] l [of x] da db a(3) unfolding ns_effectD(3) [OF e]
      by (auto split: if_splits)
  qed
qed

lemma rename_keeps:
  assumes ne: "namei_env_ok ne" and i: "ns_inv v D" and k: "rename_checked v D od on nd nn b"
    and m: "od \<noteq> nd \<longrightarrow> nlinks v nd < MINIX2_LINK_MAX" and r: "cominix_rename ne v od on nd nn flags = Inr (v', None)"
  shows "ns_inv v' (D - (case names v nd nn of None \<Rightarrow> {} | Some c \<Rightarrow> {c}))"
proof -
  note f = rename_effect [OF ne ns_invD(1) [OF i] k r]
  note e = f(1)
  let ?N = "names v" and ?t = "names v nd nn"
  let ?N1 = "set_name ?N nd nn (Some b)"
  let ?N2 = "set_name ?N1 od on None"
  have D: "od \<in> D" "nd \<in> D" "?N od on = Some b" "(od, on) \<noteq> (nd, nn)" "b \<noteq> od" "b \<noteq> nd" "real_name on" "real_name nn"
    and up: "b \<in> D \<Longrightarrow> ?N b [46, 46] = Some od"
    and tc: "\<And>c. ?t = Some c \<Longrightarrow> c \<noteq> b \<and> c \<noteq> nd \<and> c \<noteq> od \<and> (c \<in> D \<longleftrightarrow> b \<in> D) \<and> (c \<in> D \<longrightarrow> ?N c [46, 46] = Some nd)"
    using k by (auto simp: rename_checked_def)
  note fD = ns_invD(2) [OF i]
  have ub: "in_use v b" by (rule named_in_use [OF i D(1,3)])
  have ud: "in_use v od" "in_use v nd" using dir_in_use [OF i] D by blast+
  let ?T = "\<lambda>x. if ?t = Some x then 1 else 0 :: nat"
  let ?B = "\<lambda>x. if b \<in> D then 1 else 0 :: nat"
  have l1: "links ?N1 D x + ?T x = links ?N D x + (if x = b then 1 else 0)" for x
    using links_set_name [OF fD D(2) fin_names, of v nn "Some b" x] by auto
  have "?N1 od on = Some b" using D(3,4) by auto
  then have l2: "links ?N2 D x + (if x = b then 1 else 0) = links ?N1 D x" for x
    using links_set_name [OF fD D(1) fin_set_name [OF fin_names], of v nd nn "Some b" on None x] by auto
  have n3: "b \<in> D \<Longrightarrow> ?N2 b [46, 46] = Some od" using up D(5,6) by auto
  have nv: "names v' = (if b \<in> D then set_name ?N2 b [46, 46] (Some nd) else ?N2)"
    unfolding ns_effectD(2) [OF e] renamed_def Let_def ..
  have l3: "links (names v') D x + (if b \<in> D \<and> x = od then 1 else 0) = links ?N2 D x + (if b \<in> D \<and> x = nd then 1 else 0)" for x
  proof (cases "b \<in> D")
    case True
    then show ?thesis
      using links_set_name [OF fD True fin_set_name [OF fin_set_name [OF fin_names]], of v nd nn "Some b" od on None "[46, 46]" "Some nd" x]
        n3 [OF True] unfolding nv by auto
  qed (simp add: nv)
  have l: "links (names v') D x + ?T x + (if b \<in> D \<and> x = od then 1 else 0) =
      links ?N D x + (if b \<in> D \<and> x = nd then 1 else 0)" for x
    using l1 [of x] l2 [of x] l3 [of x] by simp
  let ?D = "D - (case ?t of None \<Rightarrow> {} | Some c \<Rightarrow> {c})"
  have l4: "links (names v') D x = links (names v') ?D x + (case ?t of None \<Rightarrow> 0 | Some c \<Rightarrow>
      if b \<in> D then (if x = c then 1 else 0) + (if x = nd then 1 else 0) else 0)" for x
  proof (cases ?t)
    case (Some c)
    show ?thesis
    proof (cases "b \<in> D")
      case True
      then have c: "c \<in> D" "c \<noteq> b" "c \<noteq> nd" "c \<noteq> od" "?N c [46, 46] = Some nd" using tc [OF Some] by simp_all
      have "?N c = [[46] \<mapsto> c, [46, 46] \<mapsto> nd]" by (rule only_dots_map [OF ns_invD(1) [OF i] c(1) f(2) [OF Some True] c(5)])
      then have "names v' c = [[46] \<mapsto> c, [46, 46] \<mapsto> nd]" using c(2-4) unfolding nv by simp
      from links_remove [where N = "names v'" and x = x, OF fD c(1) this c(3)] show ?thesis using Some True by simp
    next
      case False
      then have "c \<notin> D" using tc [OF Some] by simp
      then show ?thesis using Some False by simp
    qed
  qed simp
  have nl: "nlinks v' = renamed_links ?N D od nd nn b (nlinks v)" by (rule ns_effectD(3) [OF e])
  have "?N od [46] = Some od" using has_dots_names(1) ns_dirsD(1,3) [OF ns_invD(1) [OF i] D(1)] by blast
  then have od1: "0 < nlinks v od" using links_pos [OF fD D(1) fin_names, of v "[46]" od] ns_invD(4) [OF i ud(1)] by simp
  have bnd: "nlinks v x \<le> MINIX2_LINK_MAX" if "in_use v x" for x by (rule ns_invD(5) [OF i that])
  have cnt: "nlinks v' x = links (names v') ?D x \<and> nlinks v' x \<le> MINIX2_LINK_MAX" if x: "in_use v x" for x
  proof (cases ?t)
    case None
    have D': "?D = D" unfolding None by simp
    note k = l [of x] ns_invD(4) [OF i x] bnd [OF x]
    show ?thesis
    proof (cases "b \<in> D \<and> od \<noteq> nd")
      case True
      then have m': "nlinks v nd < MINIX2_LINK_MAX" using m by blast
      have nl': "nlinks v' = (nlinks v)(nd := nlinks v nd + 1, od := nlinks v od - 1)"
      proof -
        have eq: "nlinks v' = (nlinks v)(nd := u32 (nlinks v nd + 1), od := dec32 (((nlinks v)(nd := u32 (nlinks v nd + 1))) od))"
          unfolding nl renamed_links_def Let_def None option.case using True by argo
        show ?thesis unfolding eq inc32_succ [OF m'] fun_upd_other [OF conjunct2 [OF True]]
          dec32_pred [OF od1 bnd [OF ud(1)]] ..
      qed
      define L where "L = links (names v') ?D x"
      have "L + (if x = od then 1 else 0) = nlinks v x + (if x = nd then 1 else 0)"
        using k(1,2) True unfolding L_def D' None by simp
      then have "nlinks v' x = L" using True unfolding nl' by (cases "x = od"; cases "x = nd") simp_all
      moreover have "nlinks v' x \<le> MINIX2_LINK_MAX" unfolding nl' using k(3) m' by (auto simp: fun_upd_apply)
      ultimately show ?thesis unfolding L_def ..
    next
      case False
      have "nlinks v' = nlinks v"
        unfolding nl renamed_links_def Let_def None using False dec32_inc [OF bnd [OF ud(1)]] by auto
      moreover have "links (names v') ?D x = nlinks v x"
        using k(1,2) False unfolding D' None by (auto split: if_splits)
      ultimately show ?thesis using k(3) by simp
    qed
  next
    case (Some c)
    have uc: "in_use v c" by (rule named_in_use [OF i D(2) Some])
    have c: "c \<noteq> b" "c \<noteq> nd" "c \<noteq> od" using tc [OF Some] by simp_all
    have lc: "nlinks v c = links (names v') ?D c + (if b \<in> D then 2 else 1)"
      using l [of c] l4 [of c] ns_invD(4) [OF i uc] c Some by (auto split: if_splits)
    define n where "n = nlinks v c"
    have n: "0 < n" "b \<in> D \<Longrightarrow> 2 \<le> n" "n \<le> MINIX2_LINK_MAX" using lc bnd [OF uc] by (simp_all add: n_def)
    have dc1: "dec32 (nlinks v c) = nlinks v c - 1" unfolding n_def [symmetric] by (rule dec32_pred [OF n(1,3)])
    have dc2: "dec32 (dec32 (nlinks v c)) = nlinks v c - 2" if "b \<in> D"
    proof -
      have "dec32 (n - 1) = n - 1 - 1" by (rule dec32_pred) (use n that in simp_all)
      then show ?thesis unfolding dc1 unfolding n_def [symmetric] by simp
    qed
    note dc = dc1 dc2
    show ?thesis
    proof (cases "x = c")
      case True
      then show ?thesis using lc dc c bnd [OF uc] unfolding nl renamed_links_def Let_def Some
        by (auto split: if_splits)
    next
      case False
      then show ?thesis
        using l [of x] l4 [of x] ns_invD(4) [OF i x] bnd [OF x] dec32_pred [OF od1 bnd [OF ud(1)]] Some c
        unfolding nl renamed_links_def Let_def by (cases "b \<in> D") (auto split: if_splits)
    qed
  qed
  show ?thesis
  proof (rule ns_invI [OF i, where B = "{}"])
    show "ns_dirs v' ?D" by (rule ns_dirs_mono [OF ns_effectD(1) [OF e]]) blast
    show "finite ?D" using fD by simp
    show "in_use v' x \<longleftrightarrow> x \<in> {} \<or> in_use v x" for x using in_use_same [OF ns_effectD(4) [OF e]] by simp
    show "x \<in> {} \<or> in_use v x" if "links (names v') ?D x \<noteq> 0" for x
      using that ns_invD(3) [OF i, of x] l [of x] l4 [of x] ud by (auto split: if_splits)
    show "nlinks v' x = links (names v') ?D x \<and> nlinks v' x \<le> MINIX2_LINK_MAX" if "x \<in> {} \<or> in_use v x" for x
      using cnt that by blast
  qed
qed

text \<open>Every reachable state keeps the invariant.\<close>

lemma step_keeps:
  assumes "namei_env_ok ne" "ns_step ne (v, D) (v', D')" "ns_inv v D"
  shows "ns_inv v' D'"
  using assms(2)
proof (cases rule: ns_step.cases)
  case Kernel
  then have e: "D' = D" "names v' = names v" "nlinks v' = nlinks v" "same_imap (v_fs v) (v_fs v')" "ns_dirs v' D"
    using same_names_dirs [of v v' D] same_namesD(1) [of v v'] ns_invD(1) [OF assms(3)] by (simp_all add: same_names_def)
  show ?thesis using assms(3) e(5) unfolding ns_inv_def e in_use_same [OF e(4)] by blast
qed (use assms in \<open>blast intro: link_keeps unlink_keeps mknod_keeps mkdir_keeps rmdir_keeps rename_keeps\<close>)+

text \<open>What a replaced inode loses.\<close>

lemma replaced_links:
  assumes i: "ns_inv v D" and k: "rename_checked v D od on nd nn b" and c: "names v nd nn = Some c"
    and L: "nlinks v' = renamed_links (names v) D od nd nn b (nlinks v)"
    and o: "\<And>c. names v nd nn = Some c \<Longrightarrow> b \<in> D \<Longrightarrow> only_dots v c"
  shows "if b \<in> D then only_dots v c \<and> nlinks v' c + 2 = nlinks v c else nlinks v' c + 1 = nlinks v c"
proof -
  have D: "nd \<in> D" "od \<in> D" "real_name nn" and cc: "c \<noteq> b" "c \<noteq> nd" "c \<noteq> od" "c \<in> D \<longleftrightarrow> b \<in> D"
    using k c by (auto simp: rename_checked_def)
  have u: "in_use v c" by (rule named_in_use [OF i D(1) c])
  have n: "nlinks v c = links (names v) D c" "nlinks v c \<le> MINIX2_LINK_MAX" using ns_invD(4,5) [OF i u] by simp_all
  let ?N = "set_name (names v) nd nn None"
  have l1: "links (names v) D c = links ?N D c + 1"
    using links_set_name [OF ns_invD(2) [OF i] D(1) fin_names, of v nn None c] c by simp
  have d1: "dec32 (nlinks v c) = nlinks v c - 1" by (rule dec32_pred) (use n l1 in simp_all)
  have v': "nlinks v' c = (if b \<in> D then dec32 (dec32 (nlinks v c)) else dec32 (nlinks v c))"
    unfolding L renamed_links_def Let_def c option.case using cc by simp
  show ?thesis
  proof (cases "b \<in> D")
    case False
    then show ?thesis using v' d1 n l1 by simp
  next
    case True
    then have cD: "c \<in> D" using cc by simp
    have "names v c [46] = Some c" using has_dots_names(1) ns_dirsD(1,3) [OF ns_invD(1) [OF i] cD] by blast
    then have "?N c [46] = Some c" using cc(2) by simp
    then have "0 < links ?N D c" by (rule links_pos [OF ns_invD(2) [OF i] cD fin_set_name [OF fin_names]])
    then have n2: "2 \<le> nlinks v c" using n l1 by simp
    have "dec32 (nlinks v c - 1) = nlinks v c - 1 - 1" by (rule dec32_pred) (use n n2 in simp_all)
    then show ?thesis using True o [OF c True] v' d1 n2 by simp
  qed
qed

text \<open>What \<open>rename\<close> does to the counts of the two directories and of all other inodes.\<close>

lemma renamed_counts:
  assumes i: "ns_inv v D" and k: "rename_checked v D od on nd nn b" and x: "names v nd nn \<noteq> Some x"
    and L: "nlinks v' = renamed_links (names v) D od nd nn b (nlinks v)"
  shows "nlinks v' x + (if b \<in> D \<and> x = od then 1 else 0) =
    nlinks v x + (if b \<in> D \<and> x = nd \<and> names v nd nn = None then 1 else 0)"
proof -
  have D: "od \<in> D" "nd \<in> D" and cc: "\<And>c. names v nd nn = Some c \<Longrightarrow> c \<noteq> od" using k by (auto simp: rename_checked_def)
  have u: "in_use v od" "in_use v nd" using dir_in_use [OF i] D by blast+
  note m = ns_invD(5) [OF i u(1)] ns_invD(5) [OF i u(2)]
  have "names v od [46] = Some od" using has_dots_names(1) ns_dirsD(1,3) [OF ns_invD(1) [OF i] D(1)] by blast
  then have "0 < nlinks v od" using links_pos [OF ns_invD(2) [OF i] D(1) fin_names, of v "[46]" od] ns_invD(4) [OF i u(1)] by simp
  then have od: "dec32 (nlinks v od) = nlinks v od - 1" "0 < nlinks v od" using dec32_pred [OF _ m(1)] by simp_all
  have nd: "u32 (nlinks v nd + 1) = nlinks v nd + 1" using m(2) by (intro u32_id) (simp add: MINIX2_LINK_MAX_def)
  show ?thesis
  proof (cases "names v nd nn")
    case None
    show ?thesis
    proof (cases "od = nd")
      case True
      then show ?thesis unfolding L renamed_links_def Let_def None using dec32_inc [OF m(2)] by simp
    next
      case False
      then show ?thesis unfolding L renamed_links_def Let_def None using od nd by simp
    qed
  next
    case (Some c)
    then have "c \<noteq> x" "c \<noteq> od" using x cc by simp_all
    then show ?thesis unfolding L renamed_links_def Let_def Some using od by simp
  qed
qed

end
