(* ===== verification/SampleDir.thy ===== *)
theory SampleDir
  imports LinkCount SampleVolume
begin

text \<open>
  A small name space on the sample volume: the root directory, inode 1, with the entries \<open>.\<close>,
  \<open>..\<close> and \<open>f\<close>, and the file \<open>f\<close>, inode 2. The kernel's functions succeed and do nothing.
\<close>

declare One_nat_def [simp del]

definition sample_env :: dir_env where
  "sample_env = \<lparr>de_read_folio = (\<lambda>_ _. None), de_grab = (\<lambda>_ _. None),
     de_write_begin = (\<lambda>v _ _ _. (v, None)), de_write_wait = (\<lambda>v _. (v, None)),
     de_sync_meta = (\<lambda>v _. (v, None)), de_now = 7\<rparr>"

definition sample_new :: inode where
  "sample_new = \<lparr>i_ino = 0, i_mode = 0, i_nlink = 1, i_uid = 0, i_gid = 0, i_size = 0, i_atime = 0,
     i_mtime = 0, i_ctime = 0, i_rdev = 0, i_dirty = False, i_op = No_iops, i_fop = No_ops,
     i_aops = No_aops, i2_data = (\<lambda>_. 0)\<rparr>"

definition sample_namei :: namei_env where
  "sample_namei = \<lparr>ne_dir = sample_env,
     ne_kernel = \<lparr>k_old_decode_dev = id, k_old_encode_dev = id, k_high2lowuid = id, k_high2lowgid = id,
       k_init_special = (\<lambda>ino _ _. ino), k_truncate_page = (\<lambda>s _. s), k_now = 7\<rparr>,
     ne_iget_locked = (\<lambda>v n. Iget_cached (v_inode v n)), ne_new_inode = Some sample_new,
     ne_init_owner = (\<lambda>_ ino m. ino\<lparr>i_mode := m\<rparr>), ne_iput = (\<lambda>v _. v),
     ne_page_symlink = (\<lambda>v _ _. (v, None)), ne_tmpfile = (\<lambda>v _. v), ne_old_valid_dev = (\<lambda>_. True)\<rparr>"

text \<open>The inode map has the bits of inodes 1 and 2 set.\<close>

definition names_fs :: fs where
  "names_fs = sample_fs\<lparr>fs_bufs := cominix_set_bit sample_bufs 2 2\<rparr>"

definition sample_inode :: "nat \<Rightarrow> inode" where
  "sample_inode n = sample_new\<lparr>i_ino := n, i_mode := if n = 1 then 0x41ED else 0x81A4,
     i_nlink := if n = 1 then 2 else 1, i_size := if n = 1 then 192 else 0\<rparr>"

definition name_f :: "byte list" where "name_f = [102]"

definition sample_base :: vfs where
  "sample_base = \<lparr>v_fs = names_fs, v_inode = sample_inode, v_page = (\<lambda>_ _ _. 0), v_written = [],
     v_dcache = (\<lambda>a nm. if a = 1 \<and> nm = name_f then Some 2 else None)\<rparr>"

definition sample_vfs :: vfs where
  "sample_vfs = put_page (put_page (empty_dir_page sample_base 1 1 1)
     1 0 132 (name_f @ replicate 59 0)) 1 0 128 (le_bytes 4 2)"

lemma name_f_real [simp]: "real_name name_f" "name_ok name_f" "length name_f = 1"
  by (simp_all add: real_name_def name_ok_def name_f_def)

lemma sample_vfs_sel [simp]:
  "v_fs sample_vfs = names_fs" "v_inode sample_vfs = sample_inode" "v_written sample_vfs = []"
  "v_dcache sample_vfs = v_dcache sample_base" "v_sbi sample_vfs = sample_info"
  by (simp_all add: sample_vfs_def sample_base_def empty_dir_page_def v_sbi_def cominix_sb_def names_fs_def)

lemma sample_slots:
  "dir_slot sample_vfs 1 0 = (1, [46])" "dir_slot sample_vfs 1 1 = (1, [46, 46])" "dir_slot sample_vfs 1 2 = (2, name_f)"
proof -
  let ?v1 = "empty_dir_page sample_base 1 1 1"
  let ?v2 = "put_page ?v1 1 (2 div 64) (64 * (2 mod 64) + 4) (name_f @ replicate (60 - length name_f) 0)"
  have v: "sample_vfs = put_page ?v2 1 (2 div 64) (64 * (2 mod 64)) (le_bytes 4 2)" by (simp add: sample_vfs_def)
  have o1: "dir_slot sample_vfs 1 j = dir_slot ?v2 1 j" if "j \<noteq> 2" for j
    using slot_put_other [of 0 "le_bytes 4 2" j 2 ?v2 1] that unfolding v by simp
  have o2: "dir_slot ?v2 1 j = dir_slot ?v1 1 j" if "j \<noteq> 2" for j
    by (rule slot_put_other) (use that in \<open>simp_all add: name_f_def\<close>)
  have j: "(0 :: nat) \<noteq> 2" "(1 :: nat) \<noteq> 2" by simp_all
  show "dir_slot sample_vfs 1 0 = (1, [46])"
    unfolding o1 [OF j(1)] o2 [OF j(1)] empty_dir_page_slots by (simp add: u32_def)
  show "dir_slot sample_vfs 1 1 = (1, [46, 46])"
    unfolding o1 [OF j(2)] o2 [OF j(2)] empty_dir_page_slots by (simp add: u32_def)
  show "dir_slot sample_vfs 1 2 = (2, name_f)"
    unfolding v slot_put_number slot_put_name [OF name_f_real(2)] by (simp add: u32_def)
qed

lemma sample_nslots [simp]: "nslots sample_vfs a = (if a = 1 then 3 else 0)"
  by (simp add: nslots_def sample_inode_def)

lemma sample_entries: "entries sample_vfs 1 = [(1, [46]), (1, [46, 46]), (2, name_f)]"
proof -
  have "[0..<3] = [0, 1, 2 :: nat]" by (simp add: upt_rec)
  then show ?thesis by (simp add: entries_def sample_slots)
qed

lemma sample_names: "names sample_vfs 1 = [[46] \<mapsto> 1, [46, 46] \<mapsto> 1, name_f \<mapsto> 2]"
  by (auto simp: names_def sample_entries dir_map_def name_f_def fun_eq_iff)

lemma sample_no_names: "a \<noteq> 1 \<Longrightarrow> names sample_vfs a = Map.empty"
  by (simp add: no_entries sample_inode_def)

lemma sample_v3: "v3_dirs sample_info"
  by (simp add: v3_dirs_def sample_info_def MINIX_V3_def)

lemma sample_dir_inv: "dir_inv sample_vfs 1"
proof -
  have "distinct_names (entries sample_vfs 1)" unfolding sample_entries distinct_names_def name_f_def
    by (auto simp: less_Suc_eq nth_Cons split: nat.splits)
  then show ?thesis by (simp add: dir_inv_def dir_ok_def sample_v3) (simp add: sample_inode_def)
qed

lemma sample_dir_env_ok: "dir_env_ok sample_env" "dir_reads sample_env a"
  by (simp_all add: dir_env_ok_def sample_env_def dir_reads_def)

lemma sample_namei_ok: "namei_env_ok sample_namei"
  by (simp add: namei_env_ok_def sample_namei_def sample_dir_env_ok) (simp add: sample_new_def)

lemma sample_busy: "inode_busy names_fs n \<longleftrightarrow> n = 0 \<or> n = 1 \<or> n = 2"
proof -
  have b: "cominix_test_bit sample_bufs 2 n \<longleftrightarrow> n = 0 \<or> n = 1" if "n < 4096" for n
  proof (cases "n div 8 = 0")
    case True
    then have n: "n < 8" by simp
    have "(3 :: byte) = mask 2" by (simp add: mask_eq_exp_minus_1)
    then have "bit (3 :: byte) n \<longleftrightarrow> n < 2" using n by (simp only: bit_mask_iff) auto
    then show ?thesis using True n by (auto simp: cominix_test_bit_def sample_bytes_def)
  next
    case False
    then show ?thesis by (auto simp: cominix_test_bit_def sample_bytes_def)
  qed
  show ?thesis
  proof (cases "n < 4096")
    case True
    then show ?thesis using b [OF True] by (auto simp: inode_busy_def names_fs_def bits_per_zone_def)
  next
    case False
    then have "0 < n div 4096" by (simp add: div_greater_zero_iff)
    then show ?thesis using False by (auto simp: inode_busy_def names_fs_def bits_per_zone_def)
  qed
qed

lemma sample_dirs: "ns_dirs sample_vfs {1}"
proof -
  have "has_dots sample_vfs 1" by (simp add: has_dots_def holds_entry_def sample_slots)
  moreover have "imap_wf names_fs" by (simp add: imap_wf_def names_fs_def)
  ultimately show ?thesis
    by (simp add: ns_dirs_def sample_dir_inv sample_busy sample_v3) (simp add: sample_inode_def)
qed

lemma sample_links: "links (names sample_vfs) {1} x = (if x = 1 then 2 else if x = 2 then 1 else 0)"
proof -
  have "{nm. names sample_vfs 1 nm = Some x} = (if x = 1 then {[46], [46, 46]} else if x = 2 then {name_f} else {})"
    unfolding sample_names by (auto simp: name_f_def)
  then show ?thesis by (simp add: links_def)
qed

lemma sample_in_use: "in_use sample_vfs x \<longleftrightarrow> x = 1 \<or> x = 2"
  by (auto simp: in_use_def sample_busy)

lemma sample_ns_inv: "ns_inv sample_vfs {1}"
  by (auto simp: ns_inv_def sample_dirs sample_links sample_in_use nlinks_def sample_inode_def MINIX2_LINK_MAX_def)

end
