(* ===== verification/NameiProgress.thy ===== *)
theory NameiProgress
  imports LinkCount
begin

text \<open>
  What the operations of namei.c answer. \<open>namei_quiet\<close>: the kernel's functions below dir.c and
  \<open>page_symlink\<close>, which writes to the new inode only, report no error. Then an operation fails only for
  the reasons that the code itself tests, and when no inode can be made or read.
\<close>

definition namei_quiet :: "namei_env \<Rightarrow> bool" where
  "namei_quiet ne \<longleftrightarrow> namei_env_ok ne \<and>
     (\<forall>v a pos len. snd (cominix_prepare_chunk (ne_dir ne) v a pos len) = None) \<and>
     (\<forall>v a. snd (cominix_handle_dirsync (ne_dir ne) v a) = None) \<and> (\<forall>a n. de_grab (ne_dir ne) a n = None) \<and>
     (\<forall>v b t. snd (ne_page_symlink ne v b t) = None \<and> only_dir v (fst (ne_page_symlink ne v b t)) b)"

text \<open>The error of \<open>cominix_new_inode\<close>, if it fails.\<close>

definition new_inode_error :: "namei_env \<Rightarrow> vfs \<Rightarrow> nat \<Rightarrow> nat \<Rightarrow> errno option" where
  "new_inode_error ne v a mode = (case snd (new_inode_in ne v a mode) of Inl e \<Rightarrow> Some e | Inr b \<Rightarrow> None)"

lemma namei_quietD:
  assumes "namei_quiet ne"
  shows "namei_env_ok ne" "snd (cominix_prepare_chunk (ne_dir ne) v a pos len) = None"
    and "snd (cominix_handle_dirsync (ne_dir ne) v a) = None" "de_grab (ne_dir ne) a n = None"
    and "snd (ne_page_symlink ne v b t) = None" "only_dir v (fst (ne_page_symlink ne v b t)) b"
  using assms by (simp_all add: namei_quiet_def)

lemma quiet_store:
  assumes "namei_quiet ne"
  obtains v' where "store_entry (ne_dir ne) v a e x = (v', None)"
proof -
  have "snd (store_entry (ne_dir ne) v a e x) = None"
    using namei_quietD(2,3) [OF assms] unfolding store_entry_def
    by (auto simp: Let_def split: prod.split) (metis snd_conv option.distinct(1))
  then show ?thesis using that by (metis prod.collapse)
qed

lemma quiet_add:
  assumes q: "namei_quiet ne" and d: "dir_inv v a" and nm: "real_name nm" "names v a nm = None"
  obtains v' where "cominix_add_link (ne_dir ne) v a nm b = Inr (v', None)"
proof -
  have k: "dir_ok v a" "\<not> has_name (entries v a) nm" using d nm(2) by (simp_all add: dir_inv_def names_def dir_map_None)
  note e = namei_envD [OF namei_quietD(1) [OF q]]
  show ?thesis
    using add_link_works [OF k(1) real_nameD [OF nm(1)] dir_readsD(1) [OF e(2)] k(2) e(1) namei_quietD(2) [OF q], of b]
      namei_quietD(3) [OF q] that by auto
qed

lemma link_succeeds:
  assumes q: "namei_quiet ne" and d: "ns_dirs v D" "a \<in> D" and nm: "real_name nm" "names v a nm = None"
  obtains v' where "cominix_link ne v b a nm = Inr (v', None)"
proof -
  let ?c = "upd_inode v b (\<lambda>ino. ino\<lparr>i_ctime := de_now (ne_dir ne)\<rparr>)"
  have s: "same_names v (inode_inc_link_count ?c b)"
    by (rule same_names_trans [OF same_names_upd inc_link(1)]) simp_all
  obtain v' where "cominix_add_link (ne_dir ne) (inode_inc_link_count ?c b) a nm b = Inr (v', None)"
    using quiet_add [OF q _ nm(1), of "inode_inc_link_count ?c b" a b] same_namesD(1,2) [OF s] ns_dirsD(1) [OF d] nm(2) by auto
  then show ?thesis using that by (simp add: cominix_link_def add_nondir_def)
qed

lemma unlink_succeeds:
  assumes q: "namei_quiet ne" and d: "ns_dirs v D" "a \<in> D" and nm: "real_name nm" "names v a nm = Some b"
    and c: "d_inode v a nm = Some b"
  obtains v' where "cominix_unlink ne v a nm = Inr (v', None)"
proof -
  obtain i where f: "cominix_find_entry (ne_dir ne) v a nm = Inr (Some (at_slot i))"
    using find_effect(2) [OF namei_quietD(1) [OF q] d real_nameD [OF nm(1)] nm(2)] by blast
  obtain v1 where "store_entry (ne_dir ne) v a (at_slot i) 0 = (v1, None)" by (rule quiet_store [OF q])
  then show ?thesis using f c that by (simp add: cominix_unlink_def cominix_delete_entry_def Let_def)
qed

lemma rmdir_answers:
  assumes q: "namei_quiet ne" and d: "ns_dirs v D" "a \<in> D" "b \<in> D" and nm: "real_name nm" "names v a nm = Some b"
    and c: "d_inode v a nm = Some b"
  shows "if only_dots v b then \<exists>v'. cominix_rmdir ne v a nm = Inr (v', None)
    else cominix_rmdir ne v a nm = Inr (v, Some ENOTEMPTY)"
proof -
  have e: "cominix_empty_dir (ne_dir ne) v b = Inr (only_dots v b)"
    by (rule empty_dir_names [OF ns_dirsD(1) [OF d(1,3)] dir_readsD(2) [OF namei_envD(2) [OF namei_quietD(1) [OF q]]]])
  obtain v1 where "cominix_unlink ne v a nm = Inr (v1, None)" by (rule unlink_succeeds [OF q d(1,2) nm c])
  then show ?thesis using e c by (simp add: cominix_rmdir_def)
qed

lemma mkdir_answers:
  assumes q: "namei_quiet ne" and d: "ns_dirs v D" "a \<in> D" and nm: "real_name nm" "names v a nm = None"
  shows "\<exists>v'. cominix_mkdir ne v a nm mode = Inr (v', new_inode_error ne v a (0x4000 OR mode))"
proof (cases "new_inode_in ne v a (0x4000 OR mode)")
  case (Pair w1 r1)
  show ?thesis
  proof (cases r1)
    case (Inl e)
    then show ?thesis by (simp add: cominix_mkdir_def new_inode_error_def Pair)
  next
    case (Inr b)
    note ne = namei_quietD(1) [OF q] and n = Pair [unfolded Inr]
    note e = new_inode_effect [OF ne d(1) n] and de = namei_envD(1) [OF ne]
    have ab: "a \<noteq> b" using d(2) e(2) by blast
    define v2 where "v2 = inode_inc_link_count (set_inode_in ne (inode_inc_link_count w1 a) b 0) b"
    have s2: "same_names w1 v2" unfolding v2_def
      by (rule same_names_trans [OF same_names_trans [OF inc_link(1) set_inode_same(1) [OF ne]] inc_link(1)])
    have d2: "ns_dirs v2 D" by (rule same_names_dirs [OF s2 e(1)])
    have z: "i_size (v_inode v2 b) = 0" using s2 e(10) by (simp add: same_names_def)
    have k2: "dir_ok v2 b" using ns_dirsD(6) [OF d2] z by (simp add: dir_ok_def)
    define v3 where "v3 = fst (cominix_make_empty (ne_dir ne) v2 b a)"
    have err: "snd (cominix_make_empty (ne_dir ne) v2 b a) = None"
      using namei_quietD(2-4) [OF q] unfolding cominix_make_empty_def
      by (auto simp: Let_def split: prod.split) (metis snd_conv option.distinct(1))
    then have m: "cominix_make_empty (ne_dir ne) v2 b a = (v3, None)" unfolding v3_def by (metis prod.collapse)
    have o: "only_dir v2 v3 b" using make_empty_works [OF de k2 z namei_quietD(4) [OF q] namei_quietD(2) [OF q], of a] m by simp
    have i3: "dir_inv v3 a" using only_dir_inv [OF o ab] ns_dirsD(1) [OF d2 d(2)] by simp
    have n3: "names v3 a nm = None"
      using only_dir_names [OF o ab] same_namesD(1) [OF s2] e(8) ab nm(2) by simp
    obtain v4 where "cominix_add_link (ne_dir ne) v3 a nm b = Inr (v4, None)" by (rule quiet_add [OF q i3 nm(1) n3])
    then show ?thesis unfolding cominix_mkdir_def new_inode_error_def n by (simp add: v2_def [symmetric] m Let_def)
  qed
qed

text \<open>The other operations that make an inode, and \<open>lookup\<close>.\<close>

lemma add_new_inode:
  assumes q: "namei_quiet ne" and d: "ns_dirs v D" "a \<in> D" and nm: "real_name nm" "names v a nm = None"
    and n: "new_inode_in ne v a mode = (v1, Inr b)" and s: "same_names v1 v2" and o: "only_dir v2 v3 b"
  shows "\<exists>v'. add_nondir ne v3 a nm b = Inr (v', None)"
proof -
  note e = new_inode_effect [OF namei_quietD(1) [OF q] d(1) n]
  have ab: "a \<noteq> b" using d(2) e(2) by blast
  have "dir_inv v3 a" using only_dir_inv [OF o ab] ns_dirsD(1) [OF same_names_dirs [OF s e(1)] d(2)] by simp
  moreover have "names v3 a nm = None" using only_dir_names [OF o ab] same_namesD(1) [OF s] e(8) ab nm(2) by simp
  ultimately obtain v4 where "cominix_add_link (ne_dir ne) v3 a nm b = Inr (v4, None)" by (rule quiet_add [OF q _ nm(1)])
  then show ?thesis by (simp add: add_nondir_def)
qed

lemma mknod_answers:
  assumes q: "namei_quiet ne" and d: "ns_dirs v D" "a \<in> D" and nm: "real_name nm" "names v a nm = None"
  shows "if ne_old_valid_dev ne rdev then \<exists>v'. cominix_mknod ne v a nm mode rdev = Inr (v', new_inode_error ne v a mode)
    else cominix_mknod ne v a nm mode rdev = Inr (v, Some EINVAL)"
proof (cases "new_inode_in ne v a mode")
  case (Pair v1 r1)
  show ?thesis
  proof (cases r1)
    case (Inr b)
    let ?v = "upd_inode (set_inode_in ne v1 b rdev) b mark_inode_dirty"
    have "same_names v1 ?v"
      by (rule same_names_trans [OF set_inode_same(1) [OF namei_quietD(1) [OF q]] mark_dirty_same(1)])
    then have "\<exists>v'. add_nondir ne ?v a nm b = Inr (v', None)"
      using add_new_inode [OF q d nm Pair [unfolded Inr] _ only_dir_refl] by blast
    then show ?thesis by (simp add: cominix_mknod_def new_inode_error_def Pair Inr)
  qed (simp add: cominix_mknod_def new_inode_error_def Pair)
qed

lemma symlink_answers:
  assumes q: "namei_quiet ne" and d: "ns_dirs v D" "a \<in> D" and nm: "real_name nm" "names v a nm = None"
  shows "if s_blocksize (fs_sb (v_fs v)) < length target + 1 then cominix_symlink ne v a nm target = Inr (v, Some ENAMETOOLONG)
    else \<exists>v'. cominix_symlink ne v a nm target = Inr (v', new_inode_error ne v a (0xA000 OR 0x1FF))"
proof (cases "new_inode_in ne v a (0xA000 OR 0x1FF)")
  case (Pair v1 r1)
  show ?thesis
  proof (cases r1)
    case (Inr b)
    let ?v = "set_inode_in ne v1 b 0"
    obtain w err where w: "ne_page_symlink ne ?v b (target @ [0]) = (w, err)" by (rule prod.exhaust)
    then have "err = None" and o: "only_dir ?v w b"
      using namei_quietD(5,6) [OF q, where v = ?v and b = b and t = "target @ [0]"] by simp_all
    moreover have "\<exists>v'. add_nondir ne w a nm b = Inr (v', None)"
      by (rule add_new_inode [OF q d nm Pair [unfolded Inr] set_inode_same(1) [OF namei_quietD(1) [OF q]] o])
    ultimately show ?thesis using w unfolding cominix_symlink_def new_inode_error_def Pair Inr by simp
  qed (use Pair in \<open>simp add: cominix_symlink_def new_inode_error_def\<close>)
qed

lemma tmpfile_answers: "snd (cominix_tmpfile ne v a mode) = new_inode_error ne v a mode"
  by (simp add: cominix_tmpfile_def new_inode_error_def split: prod.split sum.split)

lemma lookup_answers:
  assumes q: "namei_quiet ne" and d: "ns_dirs v D" "a \<in> D" and nm: "name_ok nm"
  shows "cominix_lookup ne v a nm = (case names v a nm of
      None \<Rightarrow> Inr (d_instantiate v a nm None, None)
    | Some b \<Rightarrow> (case cominix_iget (ne_kernel ne) (v_fs v) (ne_iget_locked ne v b) of
        Inl e \<Rightarrow> Inr (v, Some e)
      | Inr ino \<Rightarrow> Inr (d_instantiate (v\<lparr>v_inode := (v_inode v)(b := ino)\<rparr>) a nm (Some b), None)))"
proof -
  have "\<not> s_namelen (v_sbi v) < length nm" using nm ns_dirsD(6) [OF d(1)] by (simp add: name_ok_def v3_dirs_def)
  moreover have "cominix_inode_by_name (ne_dir ne) v a nm = Inr (case names v a nm of None \<Rightarrow> 0 | Some x \<Rightarrow> x)"
    by (rule inode_by_name_names [OF ns_dirsD(1) [OF d] nm namei_envD(2) [OF namei_quietD(1) [OF q]]])
  moreover have "b \<noteq> 0" if "names v a nm = Some b" for b
    using names_lookup(2) [OF ns_dirsD(1) [OF d] nm namei_envD(2) [OF namei_quietD(1) [OF q]] that] by (auto simp: holds_entry_def)
  ultimately show ?thesis by (cases "names v a nm") (auto simp: cominix_lookup_def)
qed

text \<open>The part of \<open>rename\<close> that makes the new name, then all of it.\<close>

lemma rename_target_answers:
  assumes q: "namei_quiet ne" and d: "ns_dirs v D" "nd \<in> D" and nm: "real_name nn" "d_inode v nd nn = names v nd nn"
    and t: "\<And>c. names v nd nn = Some c \<Longrightarrow> is_dir \<Longrightarrow> c \<in> D"
  shows "if \<exists>c. names v nd nn = Some c \<and> is_dir \<and> \<not> only_dots v c
    then rename_target ne v b nd nn is_dir = Inr (v, Some ENOTEMPTY)
    else \<exists>v'. rename_target ne v b nd nn is_dir = Inr (v', None)"
proof (cases "names v nd nn")
  case None
  obtain v1 where "cominix_add_link (ne_dir ne) v nd nn b = Inr (v1, None)"
    by (rule quiet_add [OF q ns_dirsD(1) [OF d] nm(1) None])
  then show ?thesis using None nm(2) by (simp add: rename_target_def)
next
  case (Some c)
  note ne = namei_quietD(1) [OF q]
  have e: "is_dir \<Longrightarrow> cominix_empty_dir (ne_dir ne) v c = Inr (only_dots v c)"
    by (rule empty_dir_names [OF ns_dirsD(1) [OF d(1) t [OF Some]] dir_readsD(2) [OF namei_envD(2) [OF ne]]])
  obtain i where f: "cominix_find_entry (ne_dir ne) v nd nn = Inr (Some (at_slot i))"
    using find_effect(2) [OF ne d real_nameD [OF nm(1)] Some] by blast
  obtain v1 where st: "store_entry (ne_dir ne) v nd (at_slot i) (i_ino (v_inode v b)) = (v1, None)" by (rule quiet_store [OF q])
  show ?thesis using Some nm(2) f st e by (cases is_dir) (simp_all add: rename_target_def cominix_set_link_def Let_def)
qed

lemma rename_refuses:
  assumes q: "namei_quiet ne" and d: "ns_dirs v D" "od \<in> D" and nm: "name_ok on"
  shows "flags AND (2 ^ 32 - 1 - RENAME_NOREPLACE) \<noteq> 0 \<Longrightarrow> cominix_rename ne v od on nd nn flags = Inr (v, Some EINVAL)"
    and "flags AND (2 ^ 32 - 1 - RENAME_NOREPLACE) = 0 \<Longrightarrow> names v od on = None \<Longrightarrow>
      cominix_rename ne v od on nd nn flags = Inr (v, Some ENOENT)"
  using find_effect(1) [OF namei_quietD(1) [OF q] d nm] by (simp_all add: cominix_rename_def)

lemma rename_answers:
  assumes q: "namei_quiet ne" and d: "ns_dirs v D" and k: "rename_checked v D od on nd nn b"
    and fl: "flags AND (2 ^ 32 - 1 - RENAME_NOREPLACE) = 0"
  shows "if \<exists>c. names v nd nn = Some c \<and> b \<in> D \<and> \<not> only_dots v c
    then cominix_rename ne v od on nd nn flags = Inr (v, Some ENOTEMPTY)
    else \<exists>v'. cominix_rename ne v od on nd nn flags = Inr (v', None)"
proof -
  note ne = namei_quietD(1) [OF q]
  have D: "od \<in> D" "nd \<in> D" and nm: "real_name on" "real_name nn" "names v od on = Some b"
    and c: "d_inode v od on = Some b" "d_inode v nd nn = names v nd nn"
    and b: "S_ISDIR (i_mode (v_inode v b)) \<longleftrightarrow> b \<in> D"
    and tc: "\<And>c. names v nd nn = Some c \<Longrightarrow> b \<in> D \<Longrightarrow> c \<in> D"
    using k by (auto simp: rename_checked_def)
  obtain i where f: "cominix_find_entry (ne_dir ne) v od on = Inr (Some (at_slot i))"
    using find_effect(2) [OF ne d D(1) real_nameD [OF nm(1)] nm(3)] by blast
  define dd where "dd = (if b \<in> D then Some (at_slot 1) else None)"
  have dd: "(if S_ISDIR (i_mode (v_inode v b)) then cominix_dotdot (ne_dir ne) v b else None) = dd"
    "dd \<noteq> None \<longleftrightarrow> b \<in> D"
    using b dotdot_at_slot [OF d ne] by (simp_all add: dd_def)
  have nf: "\<not> (S_ISDIR (i_mode (v_inode v b)) \<and> dd = None)" using b by (simp add: dd_def)
  note r = cominix_rename_def [of ne v od on nd nn flags, unfolded fl f c(1) deref_simps bindE.simps option.case Let_def dd if_not_P [OF nf]]
  note t = rename_target_answers [where b = b and is_dir = "b \<in> D", OF q d D(2) nm(2) c(2) tc]
  show ?thesis
  proof (cases "\<exists>c. names v nd nn = Some c \<and> b \<in> D \<and> \<not> only_dots v c")
    case True
    then have "rename_target ne v b nd nn (b \<in> D) = Inr (v, Some ENOTEMPTY)" using t by (simp cong: conj_cong)
    then show ?thesis using True r by simp
  next
    case False
    then obtain v1 where v1: "rename_target ne v b nd nn (b \<in> D) = Inr (v1, None)" using t by (auto split: if_splits)
    obtain v2 where v2: "store_entry (ne_dir ne) v1 od (at_slot i) 0 = (v2, None)" by (rule quiet_store [OF q])
    have "\<exists>v'. cominix_rename ne v od on nd nn flags = Inr (v', None)"
    proof (cases dd)
      case None
      then show ?thesis using r v1 v2 by (simp add: cominix_delete_entry_def)
    next
      case (Some e)
      let ?v3 = "upd_inode v2 b mark_inode_dirty"
      obtain v4 where "store_entry (ne_dir ne) ?v3 b e (i_ino (v_inode ?v3 nd)) = (v4, None)" by (rule quiet_store [OF q])
      then show ?thesis using r v1 v2 Some by (simp add: cominix_delete_entry_def cominix_set_link_def)
    qed
    then show ?thesis unfolding if_not_P [OF False] .
  qed
qed

end
