(* ===== verification/DirProperties.thy ===== *)
theory DirProperties
  imports SampleDir NameiProgress
begin

text \<open>
  The properties of directories and of the operations on names, each with an instance on the
  sample name space.
\<close>

declare One_nat_def [simp del]

section \<open>Running the sample\<close>

lemma sample_no_errors [simp]:
  "ne_dir sample_namei = sample_env" "cominix_prepare_chunk sample_env v a pos len = (v, None)"
  "cominix_handle_dirsync sample_env v a = (v, None)" "de_grab sample_env a n = None"
  by (simp_all add: sample_namei_def cominix_prepare_chunk_def cominix_handle_dirsync_def sample_env_def)

lemma sample_find: "cominix_find_entry sample_env sample_vfs 1 name_f = Inr (Some (at_slot 2))"
proof -
  have "[0..<3] = [0, 1, 2 :: nat]" by (simp add: upt_rec)
  then have "find_slot sample_vfs 1 name_f = Some 2" by (simp add: find_slot_def sample_slots) (simp add: name_f_def)
  then show ?thesis
    using find_entry_slots [of sample_vfs 1 name_f sample_env] sample_dir_inv dir_readsD(2) [OF sample_dir_env_ok(2)]
    by (simp add: dir_inv_def)
qed

lemma sample_unlink: "\<exists>v'. cominix_unlink sample_namei sample_vfs 1 name_f = Inr (v', None)"
  by (simp add: cominix_unlink_def sample_find cominix_delete_entry_def store_entry_def d_inode_def
      Let_def sample_base_def split: prod.split)

lemma sample_add:
  assumes "dir_inv v a" "name_ok nm" "names v a nm = None"
  shows "\<exists>v'. cominix_add_link sample_env v a nm b = Inr (v', None)"
proof -
  have "dir_ok v a" "\<not> has_name (entries v a) nm" using assms by (simp_all add: dir_inv_def names_def dir_map_None)
  from add_link_works [OF this(1) assms(2) dir_readsD(1) [OF sample_dir_env_ok(2)] this(2) sample_dir_env_ok(1), of b]
  show ?thesis by auto
qed

section \<open>Directories\<close>

text \<open>C17: looking a name up ends and answers the number in the entry of that name, or 0 when the
  directory has no such entry.\<close>

theorem lookup_correct:
  assumes "dir_inv v a" and "name_ok nm" and "dir_reads de a"
  shows "\<exists>x. cominix_inode_by_name de v a nm = Inr x \<and>
    (\<forall>i. holds_entry v a nm i \<longrightarrow> fst (dir_slot v a i) = x) \<and> (x = 0 \<longleftrightarrow> (\<forall>i. \<not> holds_entry v a nm i))"
proof (cases "names v a nm")
  case None
  have "\<not> holds_entry v a nm i" for i using names_holds [OF assms(1), of nm i] None by auto
  then show ?thesis using inode_by_name_names [OF assms] None by auto
next
  case (Some x)
  obtain i where i: "holds_entry v a nm i" "fst (dir_slot v a i) = x" using names_lookup(2) [OF assms Some] by blast
  then have "x \<noteq> 0" by (auto simp: holds_entry_def)
  moreover have "fst (dir_slot v a j) = x" if "holds_entry v a nm j" for j
    using names_holds [OF assms(1) that] Some by simp
  ultimately show ?thesis using inode_by_name_names [OF assms] Some i(1) by auto
qed

theorem lookup_correct_witness: "cominix_inode_by_name sample_env sample_vfs 1 name_f = Inr 2"
proof -
  have "holds_entry sample_vfs 1 name_f 2" by (simp add: holds_entry_def sample_slots)
  then show ?thesis
    using lookup_correct [OF sample_dir_inv name_f_real(2) sample_dir_env_ok(2)] by (auto simp: sample_slots)
qed

text \<open>C7: a directory is a map from names to inode numbers: a list of additions, removals and
  redirections of entries ends, changes the map as the same updates of a map do, and stops at
  the first error with the failing update done or not; lookups then answer from that map.\<close>

theorem directory_refines_map:
  assumes "dir_state_inv s" and "all_pre op_pre op_map (state_names s) ops"
  shows "\<exists>t err n. run_ops dir_exec s ops = Inr (t, err, n) \<and> dir_state_inv t \<and>
    (if err = None then n = length ops \<and> state_names t = foldl op_map (state_names s) ops
     else n < length ops \<and> (state_names t = foldl op_map (state_names s) (take n ops) \<or>
       state_names t = foldl op_map (state_names s) (take (Suc n) ops))) \<and>
    (\<forall>nm. name_ok nm \<longrightarrow> state_look t nm = Inr (case state_names t nm of None \<Rightarrow> 0 | Some x \<Rightarrow> x))"
  using dirs.run_refines [OF assms] dirs.look_map by blast

theorem directory_refines_map_witness:
  "\<exists>t err n. run_ops dir_exec (sample_env, 1, sample_vfs) [Op_add [103] 5, Op_remove name_f, Op_retarget [103] 6] =
    Inr (t, err, n) \<and> (err = None \<longrightarrow> state_look t [103] = Inr 6 \<and> state_look t name_f = Inr 0)"
proof -
  have i: "dir_state_inv (sample_env, 1, sample_vfs)"
    by (simp add: dir_state_inv_def sample_dir_env_ok sample_dir_inv) (simp add: sample_inode_def)
  have n: "state_names (sample_env, 1, sample_vfs) = [[46] \<mapsto> 1, [46, 46] \<mapsto> 1, name_f \<mapsto> 2]"
    by (simp add: state_names_def sample_names)
  have g: "name_ok [103]" by (simp add: name_ok_def)
  have p: "all_pre op_pre op_map (state_names (sample_env, 1, sample_vfs)) [Op_add [103] 5, Op_remove name_f, Op_retarget [103] 6]"
    unfolding n using g by (simp add: name_f_def) (simp add: name_ok_def)
  show ?thesis
    using directory_refines_map [OF i p] g unfolding n
    by (elim exE conjE) (intro exI conjI, assumption, auto simp: name_f_def name_ok_def)
qed

text \<open>C19: listing a directory from an entry on ends and gives the used entries in order, each accepted
  by the caller, up to the position it returns, which is the end or an entry the caller has no
  room for: a listing continued there misses nothing and repeats nothing.\<close>

theorem readdir_correct:
  assumes "dir_ok v a" and "pages_readable de v a" and "k \<le> nslots v a" and "64 * k + 63 < 2 ^ 64"
  shows "\<exists>out j. cominix_readdir de v a emit (64 * k) = Inr (out, 64 * j) \<and> k \<le> j \<and> j \<le> nslots v a \<and>
    out = items (drop k (take j (entries v a))) \<and> (\<forall>m<length out. emit (take m out) (out ! m)) \<and>
    (j < nslots v a \<longrightarrow> used (dir_slot v a j) \<and> \<not> emit out (snd (dir_slot v a j), fst (dir_slot v a j)))"
proof -
  have k: "(64 * k + 63) div 64 = k" by simp
  obtain out j st where l: "list_entries emit (drop k (entries v a)) [] k = (out, j, st)" by (metis prod_cases3)
  note r = readdir_slots [OF assms(1,2,4), of emit, unfolded k l prod.case]
  note p = list_entries_prefix [OF l]
  have "take (j - k) (drop k (entries v a)) = drop k (take j (entries v a))"
    using p by (simp add: take_drop)
  then show ?thesis using p r assms(3) list_entries_accepted [OF l]
    by (intro exI [of _ out] exI [of _ j]) (auto split: if_splits)
qed

theorem readdir_correct_witness:
  "cominix_readdir sample_env sample_vfs 1 (\<lambda>out _. length out < 2) 0 = Inr ([([46], 1), ([46, 46], 1)], 128)"
proof -
  have d: "dir_ok sample_vfs 1" using sample_dir_inv by (simp add: dir_inv_def)
  let ?emit = "\<lambda>out _. length out < (2 :: nat)"
  have "\<exists>out j. cominix_readdir sample_env sample_vfs 1 ?emit 0 = Inr (out, 64 * j) \<and> j \<le> 3 \<and>
    out = items (take j (entries sample_vfs 1)) \<and> (\<forall>m<length out. ?emit (take m out) (out ! m)) \<and>
    (j < 3 \<longrightarrow> \<not> ?emit out ([], 0))"
    using readdir_correct [OF d dir_readsD(2) [OF sample_dir_env_ok(2)], of 0 ?emit] by auto
  then obtain out j where r: "cominix_readdir sample_env sample_vfs 1 ?emit 0 = Inr (out, 64 * j)" "j \<le> 3"
    and o: "out = items (take j (entries sample_vfs 1))" and m: "\<forall>m<length out. length (take m out) < 2"
    and st: "j < 3 \<longrightarrow> \<not> length out < 2" by blast
  have "j = 2"
  proof -
    have "j = 0 \<or> j = 1 \<or> j = 2 \<or> j = 3" using r(2) by linarith
    then show ?thesis
    proof (elim disjE)
      assume "j = 3"
      then have "length out = 3" using o by (simp add: sample_entries)
      then show ?thesis using m by (auto dest: spec [of _ 2])
    qed (use o st in \<open>simp_all add: sample_entries take_Cons'\<close>)
  qed
  then show ?thesis using r(1) o by (simp add: sample_entries take_Cons')
qed

text \<open>C27: every scan of a directory ends, whatever its bytes and its size, when the size of an
  entry is not 0: looking a name up, testing for emptiness and listing.\<close>

theorem scans_end:
  assumes "0 < s_dirsize (v_sbi v)"
  shows "(\<exists>r. cominix_find_entry de v a nm = Inr r) \<and> (\<exists>r. cominix_inode_by_name de v a nm = Inr r) \<and>
    (\<exists>r. cominix_empty_dir de v a = Inr r) \<and> (\<exists>r. cominix_readdir de v a emit pos = Inr r)"
proof (intro conjI)
  show "\<exists>r. cominix_find_entry de v a nm = Inr r"
    using find_pages_ends [OF assms, of de a nm] by (auto simp: cominix_find_entry_def split: option.split)
  then show "\<exists>r. cominix_inode_by_name de v a nm = Inr r" by (auto simp: cominix_inode_by_name_def)
  show "\<exists>r. cominix_empty_dir de v a = Inr r"
    using empty_pages_ends [OF assms, of de a] by (auto simp: cominix_empty_dir_def split: option.split)
  show "\<exists>r. cominix_readdir de v a emit pos = Inr r"
    using readdir_pages_ends [OF assms, of de a emit] by (simp add: cominix_readdir_def Let_def del: not_None_eq split: option.split)
qed

theorem scans_end_witness: "\<exists>r. cominix_find_entry sample_env sample_vfs 7 [120] = Inr r"
  using scans_end [of sample_vfs sample_env 7 "[120]"] by (simp add: sample_info_def)

section \<open>Operations on names\<close>

text \<open>C18: a successful \<open>mkdir\<close> takes an inode that was not in use and makes it a directory with
  exactly the entries \<open>.\<close> and \<open>..\<close> and two links, which counts as empty; the parent gains that name
  and a link, and no other directory changes.\<close>

theorem mkdir_correct:
  assumes "namei_env_ok ne" and "ns_inv v D" and "a \<in> D" and "real_name nm" and "names v a nm = None"
    and "nlinks v a < MINIX2_LINK_MAX" and "cominix_mkdir ne v a nm mode = Inr (v', None)"
  shows "\<exists>b. d_inode v' a nm = Some b \<and> \<not> in_use v b \<and> in_use v' b \<and>
    names v' b = [[46] \<mapsto> b, [46, 46] \<mapsto> a] \<and> names v' a = (names v a)(nm \<mapsto> b) \<and>
    (\<forall>c. c \<noteq> a \<longrightarrow> c \<noteq> b \<longrightarrow> names v' c = names v c) \<and>
    nlinks v' b = 2 \<and> nlinks v' a = nlinks v a + 1 \<and> cominix_empty_dir (ne_dir ne) v' b = Inr True"
proof -
  obtain b where bn: "born v v' D b" and d: "ns_dirs v' (insert b D)"
    and n: "names v' = set_name ((names v)(b := [[46] \<mapsto> b, [46, 46] \<mapsto> a])) a nm (Some b)"
    and nl: "nlinks v' = (nlinks v)(b := 2, a := u32 (nlinks v a + 1))" and i: "d_inode v' a nm = Some b"
    using mkdir_effect [OF assms(1) ns_invD(1) [OF assms(2)] assms(3-5,7)] by blast
  have ab: "a \<noteq> b" using bn assms(3) by (auto simp: born_def)
  have u: "\<not> in_use v b" "in_use v' b" using bn in_use_born [OF bn] by (simp_all add: born_def in_use_def)
  have nb: "names v' b = [[46] \<mapsto> b, [46, 46] \<mapsto> a]" using n ab by simp
  have "dir_inv v' b" "i_ino (v_inode v' b) = b" using ns_dirsD [OF d] by simp_all
  then have "cominix_empty_dir (ne_dir ne) v' b = Inr True"
    using empty_dir_names [OF _ dir_readsD(2) [OF namei_envD(2) [OF assms(1)]], of v' b] nb
    by (simp add: only_dots_def)
  then show ?thesis using i u nb n nl ab inc32_succ [OF assms(6)] by (intro exI [of _ b]) simp
qed

lemma sample_new_inode: "\<exists>w. new_inode_in sample_namei sample_vfs a mode = (w, Inr 3)"
proof -
  let ?z = "cominix_find_first_zero_bit (fs_bufs names_fs) 2 4096"
  have bit: "cominix_test_bit (fs_bufs names_fs) 2 n \<longleftrightarrow> n = 0 \<or> n = 1 \<or> n = 2" if "n < 4096" for n
    using sample_busy [of n] that by (simp add: inode_busy_def names_fs_def bits_per_zone_def)
  have "?z \<noteq> 4096"
  proof
    assume "?z = 4096"
    then show False using find_first_zero_spec(2) [of 3 "fs_bufs names_fs" 2 4096] bit [of 3] by simp
  qed
  then have z: "?z < 4096" using find_first_zero_spec(1) [of "fs_bufs names_fs" 2 4096] by simp
  have "?z = 3"
    using find_first_zero_spec(3) [OF z] find_first_zero_spec(2) [of 3 "fs_bufs names_fs" 2 4096] bit [OF z] bit [of 3]
    by (cases "3 < ?z") auto
  then have s: "imap_search (fs_sb names_fs) (fs_info names_fs) (fs_bufs names_fs) 0 4096 = (0, 3)"
    by (subst imap_search.simps) (simp add: names_fs_def bits_per_zone_def)
  have b: "bits_per_zone (fs_sb names_fs) = 4096" by (simp add: names_fs_def bits_per_zone_def)
  have i: "fs_info names_fs = sample_info" by (simp add: names_fs_def)
  have t: "\<not> cominix_test_bit (fs_bufs names_fs) 2 3" using bit [of 3] by simp
  show ?thesis unfolding new_inode_in_def cominix_new_inode_def cominix_sb_def
    by (simp add: sample_namei_def b i s [unfolded i] t cominix_test_and_set_bit_def mark_inode_dirty_def Let_def)
qed

theorem mkdir_correct_witness:
  "\<exists>v'. cominix_mkdir sample_namei sample_vfs 1 [103] 0x1ED = Inr (v', None) \<and> nlinks v' 1 = 3 \<and>
    names v' 3 = [[46] \<mapsto> 3, [46, 46] \<mapsto> 1]"
proof -
  have g: "real_name [103]" "names sample_vfs 1 [103] = None" "name_ok [103]"
    by (simp_all add: real_name_def name_ok_def sample_names name_f_def)
  have l: "nlinks sample_vfs 1 < MINIX2_LINK_MAX" by (simp add: nlinks_def sample_inode_def MINIX2_LINK_MAX_def)
  obtain w where w: "new_inode_in sample_namei sample_vfs 1 (0x4000 OR 0x1ED) = (w, Inr 3)"
    using sample_new_inode by blast
  note e = new_inode_effect [OF sample_namei_ok sample_dirs w]
  define v2 where "v2 = inode_inc_link_count (set_inode_in sample_namei (inode_inc_link_count w 1) 3 0) 3"
  have s2: "same_names w v2" unfolding v2_def
    by (rule same_names_trans [OF same_names_trans [OF inc_link(1) set_inode_same(1) [OF sample_namei_ok]] inc_link(1)])
  have d2: "ns_dirs v2 {1}" by (rule same_names_dirs [OF s2 e(1)])
  have z: "i_size (v_inode v2 3) = 0" using s2 e(10) by (simp add: same_names_def)
  have k2: "dir_ok v2 3" using ns_dirsD(6) [OF d2] z by (simp add: dir_ok_def)
  define v3 where "v3 = fst (cominix_make_empty sample_env v2 3 1)"
  have m: "cominix_make_empty sample_env v2 3 1 = (v3, None)"
    unfolding v3_def by (rule prod_eqI) (simp_all add: cominix_make_empty_def Let_def)
  have o: "only_dir v2 v3 3" using make_empty_works [OF sample_dir_env_ok(1) k2 z, of 1] m by simp
  have one: "(1 :: nat) \<noteq> 3" by simp
  have i3: "dir_inv v3 1" using only_dir_inv [OF o one] ns_dirsD(1) [OF d2] by simp
  have "names v3 1 [103] = None"
    using only_dir_names [OF o one] same_namesD(1) [OF s2] e(8) g(2) by simp
  moreover have "i_ino (v_inode v3 3) = 3" using only_dirD(2) [OF o] ns_dirsD(4) [OF d2] by simp
  ultimately obtain v4 where a: "cominix_add_link sample_env v3 1 [103] 3 = Inr (v4, None)"
    using sample_add [OF i3 g(3), of 3] by blast
  have r: "cominix_mkdir sample_namei sample_vfs 1 [103] 0x1ED = Inr (d_instantiate v4 1 [103] (Some 3), None)"
    unfolding cominix_mkdir_def w by (simp add: v2_def [symmetric] m a Let_def)
  let ?w = "d_instantiate v4 1 [103] (Some 3)"
  obtain b where "d_inode ?w 1 [103] = Some b" "names ?w b = [[46] \<mapsto> b, [46, 46] \<mapsto> 1]"
    "nlinks ?w 1 = nlinks sample_vfs 1 + 1"
    using mkdir_correct [OF sample_namei_ok sample_ns_inv _ g(1,2) l r] by blast
  moreover have "d_inode ?w 1 [103] = Some 3" by (simp add: d_inode_def d_instantiate_def)
  moreover have "nlinks sample_vfs 1 = 2" by (simp add: nlinks_def sample_inode_def)
  ultimately show ?thesis using r by (intro exI [of _ ?w]) simp
qed

text \<open>C8: in every state that successful operations reach from a sound one, the link count of each
  inode in use is the number of directory entries with its number, and every entry names an
  inode in use.\<close>

theorem link_counts:
  assumes "namei_env_ok ne" and "(ns_step ne)\<^sup>*\<^sup>* (v, D) (v', D')" and "ns_inv v D"
  shows "ns_inv v' D' \<and>
    (\<forall>x. in_use v' x \<longrightarrow> nlinks v' x = (\<Sum>a\<in>D'. card {nm. names v' a nm = Some x})) \<and>
    (\<forall>a\<in>D'. \<forall>nm x. names v' a nm = Some x \<longrightarrow> in_use v' x)"
proof -
  have "ns_inv v' D'"
    using assms(2) by (induction rule: rtranclp_induct2) (use step_keeps [OF assms(1)] assms(3) in blast)+
  then show ?thesis using ns_invD(4) named_in_use by (fastforce simp: links_def)
qed

theorem link_counts_witness:
  "\<exists>v'. ns_step sample_namei (sample_vfs, {1}) (v', {1}) \<and> nlinks v' 2 = 0 \<and> nlinks v' 1 = 2 \<and>
    names v' 1 = [[46] \<mapsto> 1, [46, 46] \<mapsto> 1]"
proof -
  obtain v' where u: "cominix_unlink sample_namei sample_vfs 1 name_f = Inr (v', None)" using sample_unlink by blast
  have n: "names sample_vfs 1 name_f = Some 2" and c: "d_inode sample_vfs 1 name_f = Some 2"
    by (simp_all add: sample_names d_inode_def sample_base_def)
  have st: "ns_step sample_namei (sample_vfs, {1}) (v', {1})"
    by (rule Unlink [OF _ name_f_real(1) n c u]) simp
  note e = unlink_effect [OF sample_namei_ok sample_dirs _ name_f_real(1) n c u]
  have N: "names v' 1 = [[46] \<mapsto> 1, [46, 46] \<mapsto> 1]"
    using ns_effectD(2) [OF e] by (auto simp: sample_names name_f_def fun_eq_iff)
  have U: "in_use v' x \<longleftrightarrow> x = 1 \<or> x = 2" for x
    using in_use_same [OF ns_effectD(4) [OF e]] sample_in_use by simp
  have k: "in_use v' x \<longrightarrow> nlinks v' x = card {nm. names v' 1 nm = Some x}" for x
    using link_counts [OF sample_namei_ok r_into_rtranclp [where r = "ns_step sample_namei", OF st] sample_ns_inv] by simp
  have "{nm. names v' 1 nm = Some 1} = {[46], [46, 46]}" "{nm. names v' 1 nm = Some 2} = {}"
    unfolding N by auto
  then have "nlinks v' 1 = 2" "nlinks v' 2 = 0" using k [of 1] k [of 2] U by simp_all
  then show ?thesis using st N by blast
qed

text \<open>C14: when the kernel's functions report no error, every operation of namei.c returns, and fails only
  for a reason of its own. Where a fitting name is absent: \<open>link\<close> succeeds, \<open>unlink\<close> says so; \<open>mknod\<close>,
  \<open>create\<close>, \<open>mkdir\<close> and \<open>symlink\<close> fail when there is no new inode, \<open>mknod\<close> also on a device number that
  does not fit, \<open>symlink\<close> on a target longer than a block. Where it is present: \<open>unlink\<close> succeeds, \<open>rmdir\<close>
  unless the directory is not empty. \<open>rename\<close> fails on other flags, on an absent old name, and when it would
  replace a directory that is not empty. \<open>lookup\<close> fails on a name that is too long or an inode that cannot
  be read, \<open>tmpfile\<close> when there is no new inode. A refusal by a test of the code changes nothing.\<close>

theorem operations_answer:
  assumes "namei_quiet ne" and "ns_inv v D"
  shows "(\<forall>a nm. a \<in> D \<longrightarrow> real_name nm \<longrightarrow> names v a nm = None \<longrightarrow>
      (\<forall>b. \<exists>v'. cominix_link ne v b a nm = Inr (v', None)) \<and> cominix_unlink ne v a nm = Inr (v, Some ENOENT) \<and>
      (\<forall>mode rdev. if ne_old_valid_dev ne rdev
         then \<exists>v'. cominix_mknod ne v a nm mode rdev = Inr (v', new_inode_error ne v a mode)
         else cominix_mknod ne v a nm mode rdev = Inr (v, Some EINVAL)) \<and>
      (\<forall>mode. if ne_old_valid_dev ne 0
         then \<exists>v'. cominix_create ne v a nm mode = Inr (v', new_inode_error ne v a mode)
         else cominix_create ne v a nm mode = Inr (v, Some EINVAL)) \<and>
      (\<forall>mode. \<exists>v'. cominix_mkdir ne v a nm mode = Inr (v', new_inode_error ne v a (0x4000 OR mode))) \<and>
      (\<forall>target. if s_blocksize (fs_sb (v_fs v)) < length target + 1
         then cominix_symlink ne v a nm target = Inr (v, Some ENAMETOOLONG)
         else \<exists>v'. cominix_symlink ne v a nm target = Inr (v', new_inode_error ne v a (0xA000 OR 0x1FF)))) \<and>
    (\<forall>a nm b. a \<in> D \<longrightarrow> real_name nm \<longrightarrow> names v a nm = Some b \<longrightarrow> d_inode v a nm = Some b \<longrightarrow>
      (\<exists>v'. cominix_unlink ne v a nm = Inr (v', None)) \<and>
      (b \<in> D \<longrightarrow> (if only_dots v b then \<exists>v'. cominix_rmdir ne v a nm = Inr (v', None)
        else cominix_rmdir ne v a nm = Inr (v, Some ENOTEMPTY)))) \<and>
    (\<forall>od on nd nn b flags. rename_checked v D od on nd nn b \<longrightarrow> flags AND (2 ^ 32 - 1 - RENAME_NOREPLACE) = 0 \<longrightarrow>
      (if \<exists>c. names v nd nn = Some c \<and> b \<in> D \<and> \<not> only_dots v c
       then cominix_rename ne v od on nd nn flags = Inr (v, Some ENOTEMPTY)
       else \<exists>v'. cominix_rename ne v od on nd nn flags = Inr (v', None))) \<and>
    (\<forall>od on nd nn flags. od \<in> D \<longrightarrow> name_ok on \<longrightarrow>
      (flags AND (2 ^ 32 - 1 - RENAME_NOREPLACE) \<noteq> 0 \<longrightarrow> cominix_rename ne v od on nd nn flags = Inr (v, Some EINVAL)) \<and>
      (flags AND (2 ^ 32 - 1 - RENAME_NOREPLACE) = 0 \<longrightarrow> names v od on = None \<longrightarrow>
        cominix_rename ne v od on nd nn flags = Inr (v, Some ENOENT))) \<and>
    (\<forall>a nm. a \<in> D \<longrightarrow> (s_namelen (v_sbi v) < length nm \<longrightarrow> cominix_lookup ne v a nm = Inr (v, Some ENAMETOOLONG)) \<and>
      (name_ok nm \<longrightarrow> cominix_lookup ne v a nm = (case names v a nm of
          None \<Rightarrow> Inr (d_instantiate v a nm None, None)
        | Some b \<Rightarrow> (case cominix_iget (ne_kernel ne) (v_fs v) (ne_iget_locked ne v b) of
            Inl e \<Rightarrow> Inr (v, Some e)
          | Inr ino \<Rightarrow> Inr (d_instantiate (v\<lparr>v_inode := (v_inode v)(b := ino)\<rparr>) a nm (Some b), None))))) \<and>
    (\<forall>a mode. snd (cominix_tmpfile ne v a mode) = new_inode_error ne v a mode)"
proof (intro conjI allI impI)
  note q = assms(1) and d = ns_invD(1) [OF assms(2)]
  { fix a nm assume a: "a \<in> D" and nm: "real_name nm"
    { assume n: "names v a nm = None"
      show "\<exists>v'. cominix_link ne v b a nm = Inr (v', None)" for b using link_succeeds [OF q d a nm n] by metis
      show "cominix_unlink ne v a nm = Inr (v, Some ENOENT)"
        using find_effect(1) [OF namei_quietD(1) [OF q] d a real_nameD [OF nm] n] by (simp add: cominix_unlink_def)
      show "\<exists>v'. cominix_mkdir ne v a nm mode = Inr (v', new_inode_error ne v a (0x4000 OR mode))" for mode
        by (rule mkdir_answers [OF q d a nm n])
      show "if ne_old_valid_dev ne rdev then \<exists>v'. cominix_mknod ne v a nm mode rdev = Inr (v', new_inode_error ne v a mode)
          else cominix_mknod ne v a nm mode rdev = Inr (v, Some EINVAL)" for mode rdev
        by (rule mknod_answers [OF q d a nm n])
      show "if ne_old_valid_dev ne 0 then \<exists>v'. cominix_create ne v a nm mode = Inr (v', new_inode_error ne v a mode)
          else cominix_create ne v a nm mode = Inr (v, Some EINVAL)" for mode
        unfolding cominix_create_def by (rule mknod_answers [OF q d a nm n])
      show "if s_blocksize (fs_sb (v_fs v)) < length target + 1
          then cominix_symlink ne v a nm target = Inr (v, Some ENAMETOOLONG)
          else \<exists>v'. cominix_symlink ne v a nm target = Inr (v', new_inode_error ne v a (0xA000 OR 0x1FF))" for target
        by (rule symlink_answers [OF q d a nm n]) }
    fix b assume n: "names v a nm = Some b" "d_inode v a nm = Some b"
    show "\<exists>v'. cominix_unlink ne v a nm = Inr (v', None)" using unlink_succeeds [OF q d a nm n] by metis
    show "if only_dots v b then \<exists>v'. cominix_rmdir ne v a nm = Inr (v', None)
        else cominix_rmdir ne v a nm = Inr (v, Some ENOTEMPTY)" if "b \<in> D"
      by (rule rmdir_answers [OF q d a that nm n]) }
  fix a nm assume a: "a \<in> D"
  show "s_namelen (v_sbi v) < length nm \<Longrightarrow> cominix_lookup ne v a nm = Inr (v, Some ENAMETOOLONG)"
    by (simp add: cominix_lookup_def)
  show "name_ok nm \<Longrightarrow> cominix_lookup ne v a nm = (case names v a nm of
      None \<Rightarrow> Inr (d_instantiate v a nm None, None)
    | Some b \<Rightarrow> (case cominix_iget (ne_kernel ne) (v_fs v) (ne_iget_locked ne v b) of
        Inl e \<Rightarrow> Inr (v, Some e)
      | Inr ino \<Rightarrow> Inr (d_instantiate (v\<lparr>v_inode := (v_inode v)(b := ino)\<rparr>) a nm (Some b), None)))"
    by (rule lookup_answers [OF q d a])
  show "flags AND (2 ^ 32 - 1 - RENAME_NOREPLACE) \<noteq> 0 \<Longrightarrow> cominix_rename ne v a nm nd nn flags = Inr (v, Some EINVAL)"
    and "flags AND (2 ^ 32 - 1 - RENAME_NOREPLACE) = 0 \<Longrightarrow> names v a nm = None \<Longrightarrow>
      cominix_rename ne v a nm nd nn flags = Inr (v, Some ENOENT)" if "name_ok nm" for nd nn flags
    using rename_refuses [OF q d a that] by blast+
next
  show "snd (cominix_tmpfile ne v a mode) = new_inode_error ne v a mode" for a mode by (rule tmpfile_answers)
qed (rule rename_answers [OF assms(1) ns_invD(1) [OF assms(2)]])

theorem operations_answer_witness:
  "(\<exists>v'. cominix_unlink sample_namei sample_vfs 1 name_f = Inr (v', None)) \<and>
   cominix_unlink sample_namei sample_vfs 1 [103] = Inr (sample_vfs, Some ENOENT) \<and>
   (\<exists>v'. cominix_mkdir sample_namei sample_vfs 1 [103] 0x1ED = Inr (v', None)) \<and>
   (\<exists>v'. cominix_symlink sample_namei sample_vfs 1 [103] [102] = Inr (v', None))"
proof -
  have q: "namei_quiet sample_namei" by (simp add: namei_quiet_def sample_namei_ok) (simp add: sample_namei_def)
  have g: "real_name [103]" "names sample_vfs 1 [103] = None"
    by (simp_all add: real_name_def name_ok_def sample_names name_f_def)
  have f: "names sample_vfs 1 name_f = Some 2" "d_inode sample_vfs 1 name_f = Some 2"
    by (simp_all add: sample_names d_inode_def sample_base_def)
  have w: "new_inode_error sample_namei sample_vfs 1 m = None" for m
    using sample_new_inode [of 1 m] by (auto simp: new_inode_error_def)
  have bs: "\<not> s_blocksize (fs_sb (v_fs sample_vfs)) < length [102 :: byte] + 1" by (simp add: sample_base_def names_fs_def)
  note A = operations_answer [OF q sample_ns_inv]
  note A1 = mp [OF mp [OF mp [OF A [THEN conjunct1, THEN spec [of _ 1], THEN spec [of _ "[103]"]] insertI1] g(1)] g(2)]
  note mk = A1 [THEN conjunct2, THEN conjunct2, THEN conjunct2, THEN conjunct2]
  note A2 = A [THEN conjunct2, THEN conjunct1, THEN spec [of _ 1], THEN spec [of _ name_f], THEN spec [of _ 2]]
  have "\<exists>v'. cominix_symlink sample_namei sample_vfs 1 [103] [102] = Inr (v', None)"
    using mk [THEN conjunct2, THEN spec [of _ "[102]"], unfolded if_not_P [OF bs] w] .
  moreover have "\<exists>v'. cominix_mkdir sample_namei sample_vfs 1 [103] 0x1ED = Inr (v', None)"
    using mk [THEN conjunct1, THEN spec [of _ "0x1ED"], unfolded w] .
  moreover have "cominix_unlink sample_namei sample_vfs 1 [103] = Inr (sample_vfs, Some ENOENT)"
    using A1 [THEN conjunct2, THEN conjunct1] .
  moreover have "\<exists>v'. cominix_unlink sample_namei sample_vfs 1 name_f = Inr (v', None)" using A2 f name_f_real(1) by simp
  ultimately show ?thesis by simp
qed

text \<open>C13: a successful \<open>rename\<close> leaves the inode under the new name only; of the other entries at
  most the parent entry of a moved directory changes. The link counts follow: the directory that a
  directory is moved out of loses one, the one it is moved into gains one unless a directory is replaced
  there; a replaced file loses a link; a replaced directory was empty and loses both; all other counts stay,
  that of the moved inode too.\<close>

theorem rename_correct:
  assumes "namei_env_ok ne" and "ns_inv v D" and "rename_checked v D od on nd nn b"
    and "cominix_rename ne v od on nd nn flags = Inr (v', None)"
  shows "names v' nd nn = Some b \<and> names v' od on = None \<and>
    (\<forall>a nm. (a, nm) \<noteq> (nd, nn) \<longrightarrow> (a, nm) \<noteq> (od, on) \<longrightarrow> (a, nm) \<noteq> (b, [46, 46]) \<longrightarrow> names v' a nm = names v a nm) \<and>
    names v' b [46, 46] = (if b \<in> D then Some nd else names v b [46, 46]) \<and> nlinks v' b = nlinks v b \<and>
    (\<forall>c. names v nd nn = Some c \<longrightarrow> (if b \<in> D then only_dots v c \<and> nlinks v' c + 2 = nlinks v c
       else nlinks v' c + 1 = nlinks v c)) \<and>
    (\<forall>x. names v nd nn \<noteq> Some x \<longrightarrow> nlinks v' x + (if b \<in> D \<and> x = od then 1 else 0) =
       nlinks v x + (if b \<in> D \<and> x = nd \<and> names v nd nn = None then 1 else 0))"
proof -
  note e = rename_effect [OF assms(1) ns_invD(1) [OF assms(2)] assms(3,4)]
  have k: "(od, on) \<noteq> (nd, nn)" "b \<noteq> od" "b \<noteq> nd" "names v od on = Some b" "od \<in> D" "nd \<in> D"
    "\<And>c. names v nd nn = Some c \<Longrightarrow> c \<noteq> b \<and> c \<noteq> nd \<and> c \<noteq> od"
    using assms(3) by (auto simp: rename_checked_def)
  have N: "names v' = renamed (names v) D od on nd nn b" by (rule ns_effectD(2) [OF e(1)])
  have L: "nlinks v' = renamed_links (names v) D od nd nn b (nlinks v)" by (rule ns_effectD(3) [OF e(1)])
  have "nlinks v' b = nlinks v b"
    unfolding L renamed_links_def Let_def using k by (auto split: option.split)
  moreover have "if b \<in> D then only_dots v c \<and> nlinks v' c + 2 = nlinks v c else nlinks v' c + 1 = nlinks v c"
    if c: "names v nd nn = Some c" for c
    by (rule replaced_links [OF assms(2,3) c L e(2)])
  moreover have "names v' nd nn = Some b \<and> names v' od on = None"
    unfolding N renamed_def Let_def using k by auto
  moreover have "names v' b [46, 46] = (if b \<in> D then Some nd else names v b [46, 46])"
    unfolding N renamed_def Let_def using k by auto
  moreover have "names v' a nm = names v a nm"
    if "(a, nm) \<noteq> (nd, nn)" "(a, nm) \<noteq> (od, on)" "(a, nm) \<noteq> (b, [46, 46])" for a nm
    unfolding N renamed_def Let_def using that by auto
  ultimately show ?thesis using renamed_counts [OF assms(2,3) _ L] by blast
qed

theorem rename_correct_witness:
  "\<exists>v'. cominix_rename sample_namei sample_vfs 1 name_f 1 [103] 0 = Inr (v', None) \<and>
    names v' 1 [103] = Some 2 \<and> names v' 1 name_f = None \<and> nlinks v' 2 = 1 \<and> nlinks v' 1 = nlinks sample_vfs 1"
proof -
  have g: "real_name [103]" "name_ok [103]" "name_f \<noteq> [103]" "names sample_vfs 1 [103] = None"
    by (simp_all add: real_name_def name_ok_def name_f_def sample_names)
  have c: "d_inode sample_vfs 1 name_f = Some 2" "d_inode sample_vfs 1 [103] = None"
    by (simp_all add: d_inode_def sample_base_def name_f_def)
  have m: "\<not> S_ISDIR (i_mode (sample_inode 2))"
    by (simp add: sample_inode_def S_ISDIR_def S_IFMT_def)
  obtain v1 where a: "cominix_add_link sample_env sample_vfs 1 [103] 2 = Inr (v1, None)"
    using sample_add [OF sample_dir_inv g(2,4), of 2] by blast
  have "\<exists>v'. cominix_rename sample_namei sample_vfs 1 name_f 1 [103] 0 = Inr (v', None)"
    by (simp add: cominix_rename_def sample_find c m rename_target_def a cominix_delete_entry_def store_entry_def Let_def
        split: prod.split)
  then obtain v' where r: "cominix_rename sample_namei sample_vfs 1 name_f 1 [103] 0 = Inr (v', None)" by blast
  have k: "rename_checked sample_vfs {1} 1 name_f 1 [103] 2"
    using g c m by (simp add: rename_checked_def sample_names)
  have "nlinks sample_vfs 2 = 1" by (simp add: nlinks_def sample_inode_def sample_new_def)
  then show ?thesis using rename_correct [OF sample_namei_ok sample_ns_inv k r] r g(4) by auto
qed

text \<open>C37: when the write of a directory fails at its synchronisation, the new entry is in the
  directory all the same, but the caller takes the link of the inode back: the entry is left
  with an inode whose count does not include it.\<close>

theorem failed_sync_dangles:
  assumes "namei_env_ok ne" and "ns_dirs v D" and "a \<in> D" and "real_name nm" and "names v a nm = None"
    and "0 < b" and "b < 2 ^ 32" and "0 < nlinks v b" and "nlinks v b \<le> MINIX2_LINK_MAX"
    and "snd (cominix_prepare_chunk (ne_dir ne) (at_end_cleared v a) a (64 * free_index (entries v a)) 64) = None"
    and "\<forall>w. snd (de_write_wait (ne_dir ne) w a) = Some e"
  shows "\<exists>w. add_nondir ne v a nm b = Inr (ne_iput ne w b, Some e) \<and> names w a nm = Some b \<and>
    nlinks w b = nlinks v b - 1"
proof -
  have d: "dir_ok v a" "\<not> has_name (entries v a) nm"
    using ns_dirsD(1) [OF assms(2,3)] assms(5) by (simp_all add: dir_inv_def names_def dir_map_None)
  have b: "u32 (i_ino (v_inode v b)) = b" using ns_dirsD(4) [OF assms(2)] u32_id [OF assms(7)] by simp
  obtain v1 err where r: "cominix_add_link (ne_dir ne) v a nm b = Inr (v1, err)" and o: "only_dir v v1 a"
    and en: "entries v1 a = place_entry (entries v a) (b, nm)"
    and er: "\<exists>w. err = snd (cominix_handle_dirsync (ne_dir ne) w a)"
    using add_link_works [OF d(1) real_nameD [OF assms(4)] dir_readsD(1) [OF namei_envD(2) [OF assms(1)]] d(2)
      namei_envD(1) [OF assms(1)] assms(10), of b] unfolding b by blast
  have err: "err = Some e"
  proof -
    obtain w where w: "err = snd (cominix_handle_dirsync (ne_dir ne) w a)" using er by blast
    obtain w1 e1 where ww: "de_write_wait (ne_dir ne) w a = (w1, e1)" by (rule prod.exhaust)
    then have "e1 = Some e" using assms(11) by (metis snd_conv)
    then show ?thesis using w ww by (simp add: cominix_handle_dirsync_def)
  qed
  have "distinct_names (entries v a)" using ns_dirsD(1) [OF assms(2,3)] by (simp add: dir_inv_def)
  then have n: "names v1 a nm = Some b"
    using map_fill(2) [OF _ d(2), of b] assms(6) by (simp add: names_def en)
  have l: "nlinks v1 b = nlinks v b" using only_dirD(4) [OF o] by (simp add: nlinks_def)
  have "add_nondir ne v a nm b = Inr (ne_iput ne (inode_dec_link_count v1 b) b, Some e)"
    by (simp add: add_nondir_def r err)
  moreover have "names (inode_dec_link_count v1 b) a nm = Some b" using n same_namesD(1) [OF dec_link(1)] by simp
  moreover have "nlinks (inode_dec_link_count v1 b) b = nlinks v b - 1"
    using dec32_pred [OF assms(8,9)] by (simp add: dec_link l)
  ultimately show ?thesis by blast
qed

definition broken_namei :: namei_env where
  "broken_namei = sample_namei\<lparr>ne_dir := sample_env\<lparr>de_write_wait := (\<lambda>v _. (v, Some EIO))\<rparr>\<rparr>"

theorem failed_sync_dangles_witness:
  "\<exists>w. add_nondir broken_namei sample_vfs 1 [103] 2 = Inr (w, Some EIO) \<and> names w 1 [103] = Some 2 \<and> nlinks w 2 = 0"
proof -
  have ne: "namei_env_ok broken_namei"
    using sample_namei_ok by (simp add: namei_env_ok_def broken_namei_def dir_env_ok_def dir_reads_def sample_env_def)
  have g: "real_name [103]" "names sample_vfs 1 [103] = None"
    by (simp_all add: real_name_def name_ok_def sample_names name_f_def)
  have l: "nlinks sample_vfs 2 = 1" by (simp add: nlinks_def sample_inode_def sample_new_def)
  have "snd (cominix_prepare_chunk (ne_dir broken_namei) v a pos len) = None" for v a pos len
    by (simp add: broken_namei_def cominix_prepare_chunk_def sample_env_def)
  moreover have "\<forall>w. snd (de_write_wait (ne_dir broken_namei) w 1) = Some EIO" by (simp add: broken_namei_def)
  ultimately show ?thesis
    using failed_sync_dangles [OF ne sample_dirs _ g, of 2 EIO] l
    by (simp add: MINIX2_LINK_MAX_def broken_namei_def sample_namei_def)
qed

end
