(* ===== verification/Mount.thy ===== *)
theory Mount
  imports Inode InodeMap ChunkHandler
begin

text \<open>
  The mount part of inode.c: reading the super block, the extra super block that locates the hash
  table and the chunk heap, checking the maps, remounting, unmounting, and loading and removing the
  module. The buffer of the super block is read before the block size is set and held from then on:
  it is a buffer of its own (\<open>vs_sbh\<close>) beside the buffer cache of the mounted block size.
\<close>

section \<open>Structures on disk\<close>

text \<open>\<open>struct cominix_super_block\<close> and \<open>struct cominix3_super_block\<close>, two views of the same bytes.\<close>

record cominix_super_block =
  ms_ninodes :: nat
  ms_nzones :: nat
  ms_imap_blocks :: nat
  ms_zmap_blocks :: nat
  ms_firstdatazone :: nat
  ms_log_zone_size :: nat
  ms_max_size :: nat
  ms_magic :: nat
  ms_state :: nat
  ms_zones :: nat

record cominix3_super_block =
  m3s_ninodes :: nat
  m3s_pad0 :: nat
  m3s_imap_blocks :: nat
  m3s_zmap_blocks :: nat
  m3s_firstdatazone :: nat
  m3s_log_zone_size :: nat
  m3s_pad1 :: nat
  m3s_max_size :: nat
  m3s_zones :: nat
  m3s_magic :: nat
  m3s_pad2 :: nat
  m3s_blocksize :: nat
  m3s_disk_version :: nat

type_synonym raw_super = "nat \<Rightarrow> byte"

definition raw_num :: "raw_super \<Rightarrow> nat \<Rightarrow> nat \<Rightarrow> nat" where
  "raw_num d off n = le_num (map d [off..<off + n])"

definition raw_put :: "raw_super \<Rightarrow> nat \<Rightarrow> nat \<Rightarrow> nat \<Rightarrow> raw_super" where
  "raw_put d off n v = (\<lambda>i. if off \<le> i \<and> i < off + n then le_bytes n v ! (i - off) else d i)"

definition ms_of :: "raw_super \<Rightarrow> cominix_super_block" where
  "ms_of d = \<lparr>ms_ninodes = raw_num d 0 2, ms_nzones = raw_num d 2 2, ms_imap_blocks = raw_num d 4 2,
     ms_zmap_blocks = raw_num d 6 2, ms_firstdatazone = raw_num d 8 2, ms_log_zone_size = raw_num d 10 2,
     ms_max_size = raw_num d 12 4, ms_magic = raw_num d 16 2, ms_state = raw_num d 18 2, ms_zones = raw_num d 20 4\<rparr>"

definition m3s_of :: "raw_super \<Rightarrow> cominix3_super_block" where
  "m3s_of d = \<lparr>m3s_ninodes = raw_num d 0 4, m3s_pad0 = raw_num d 4 2, m3s_imap_blocks = raw_num d 6 2,
     m3s_zmap_blocks = raw_num d 8 2, m3s_firstdatazone = raw_num d 10 2, m3s_log_zone_size = raw_num d 12 2,
     m3s_pad1 = raw_num d 14 2, m3s_max_size = raw_num d 16 4, m3s_zones = raw_num d 20 4, m3s_magic = raw_num d 24 2,
     m3s_pad2 = raw_num d 26 2, m3s_blocksize = raw_num d 28 2, m3s_disk_version = raw_num d 30 1\<rparr>"

section \<open>State and environment\<close>

text \<open>\<open>struct super_block\<close> with \<open>s_fs_info\<close> (\<open>None\<close> is NULL), the buffers of the device, \<open>s_root\<close>
  and the buffer \<open>s_sbh\<close>, into which \<open>s_ms\<close> points.\<close>

record vsuper =
  vs_sb :: super_block
  vs_info :: "cominix_sb_info option"
  vs_bufs :: bufcache
  vs_root :: "inode option"
  vs_sbh :: raw_super
  vs_sbh_dirty :: bool

text \<open>What the kernel answers: whether \<open>kzalloc\<close> of the information and of the map arrays
  succeeds; \<open>sb_set_blocksize\<close>, the logarithm of an accepted size; the bytes of block 1 in
  1024-byte blocks; the buffers for a block size; \<open>iget_locked\<close> for the root inode;
  \<open>d_make_root\<close>; and the functions of \<open>kernel\<close>.\<close>

record mount_env =
  me_alloc_info :: bool
  me_alloc_map :: bool
  me_set_blocksize :: "nat \<Rightarrow> nat option"
  me_read_super :: "raw_super option"
  me_bufs :: "nat \<Rightarrow> bufcache"
  me_iget_locked :: "nat \<Rightarrow> iget_locked"
  me_make_root :: "inode \<Rightarrow> bool"
  me_kernel :: kernel

definition BLOCK_SIZE :: nat where "BLOCK_SIZE = 1024"
definition MINIX3_SUPER_MAGIC :: nat where "MINIX3_SUPER_MAGIC = 0x4D5A"

text \<open>The file system operations work on the super block, its information and the buffers.\<close>

definition vs_fs :: "vsuper \<Rightarrow> fs res" where
  "vs_fs v = bindE (deref (vs_info v)) (\<lambda>sbi. Inr \<lparr>fs_sb = vs_sb v, fs_info = sbi, fs_bufs = vs_bufs v\<rparr>)"

definition put_fs :: "vsuper \<Rightarrow> fs \<Rightarrow> vsuper" where
  "put_fs v s = v\<lparr>vs_sb := fs_sb s, vs_info := Some (fs_info s), vs_bufs := fs_bufs s\<rparr>"

section \<open>The extra super block\<close>

text \<open>A new extra super block; \<open>False\<close> stands for the result -1.\<close>

definition cminix_alloc_extra_super :: "vsuper \<Rightarrow> (vsuper \<times> bool) res" where
  "cminix_alloc_extra_super v =
     bindE (vs_fs v) (\<lambda>s.
     bindE (bug_on (extra_sb_location (fs_info s) \<noteq> 0)) (\<lambda>_.
     let (s1, loc) = cominix_new_block_sb s in
     if loc = 0 then Inr (put_fs v s1, False)
     else
       let sbi = (fs_info s1)\<lparr>extra_sb_location := u32 loc\<rparr>; sb = fs_sb s1 in
       bindE (load_block sb (fs_bufs s1) (u32 loc)) (\<lambda>p.
       case p of
         None \<Rightarrow> Inl Bug
       | Some bh \<Rightarrow>
           bindE (memset_buf sb (fs_bufs s1) bh 0 (s_blocksize sb) 0) (\<lambda>b1.
           bindE (set_num sb b1 bh 0 8 (hashtable sbi)) (\<lambda>b2.
           bindE (set_num sb b2 bh 8 4 (hashtable_size sbi)) (\<lambda>b3.
           bindE (set_num sb b3 bh 16 8 (heap_brk sbi)) (\<lambda>b4.
           let sbh = raw_put (raw_put (vs_sbh v) 4 2 (u32 loc AND (2 ^ 16 - 1))) 14 2 (drop_bit 16 (u32 loc)) in
           bindE (chunk_reset_hashtable (s1\<lparr>fs_info := sbi, fs_bufs := b4\<rparr>)) (\<lambda>s2.
           Inr ((put_fs v (s2\<lparr>fs_bufs := mark_buffer_dirty (fs_bufs s2) bh\<rparr>))
             \<lparr>vs_sbh := sbh, vs_sbh_dirty := True\<rparr>, True)))))))))"

text \<open>The location of the hash table and of the heap: defaults for a volume without an extra super
  block, 40 MiB and 32 KiB, else what the block says. The result is always 0 and left out.\<close>

definition cminix_fill_extra_super :: "fs \<Rightarrow> fs res" where
  "cminix_fill_extra_super s =
     (let sbi = fs_info s; loc = extra_sb_location sbi in
      if loc = 0 then
        let h = 40 * 2 ^ 20; n = 32 * 2 ^ 10 in
        Inr (s\<lparr>fs_info := sbi\<lparr>hashtable := h, hashtable_size := n, heap_brk := h + n\<rparr>\<rparr>)
      else
        bindE (load_block (fs_sb s) (fs_bufs s) loc) (\<lambda>p.
        case p of
          None \<Rightarrow> Inl Bug
        | Some bh \<Rightarrow>
            let esb = esb_at (fs_bufs s) bh in
            Inr (s\<lparr>fs_info := sbi\<lparr>hashtable := esb_hashtable_location esb,
              hashtable_size := esb_hashtable_size esb, heap_brk := esb_heap_brk esb\<rparr>\<rparr>)))"

section \<open>Mounting\<close>

definition cominix_check_superblock :: "super_block \<Rightarrow> cominix_sb_info \<Rightarrow> bool" where
  "cominix_check_superblock sb sbi =
     (if s_imap_blocks sbi = 0 \<or> s_zmap_blocks sbi = 0 then False
      else if s_version sbi = MINIX_V1 \<and> (7 + 512 + 512 * 512) * BLOCK_SIZE < s_maxbytes sb then False
      else True)"

text \<open>What \<open>kzalloc\<close> returns, then the two groups of assignments from the two views.\<close>

definition zero_info :: cominix_sb_info where
  "zero_info = \<lparr>s_ninodes = 0, s_nzones = 0, s_imap_blocks = 0, s_zmap_blocks = 0, s_firstdatazone = 0,
     s_log_zone_size = 0, s_dirsize = 0, s_namelen = 0, s_imap = [], s_zmap = [], s_mount_state = 0, s_version = 0,
     extra_sb_location = 0, hashtable = 0, hashtable_size = 0, heap_brk = 0, max_brk = 0\<rparr>"

definition info_from_ms :: "cominix_super_block \<Rightarrow> cominix_sb_info \<Rightarrow> cominix_sb_info" where
  "info_from_ms ms sbi = sbi\<lparr>s_mount_state := ms_state ms, s_ninodes := ms_ninodes ms, s_nzones := ms_nzones ms,
     s_imap_blocks := ms_imap_blocks ms, s_zmap_blocks := ms_zmap_blocks ms,
     s_firstdatazone := ms_firstdatazone ms, s_log_zone_size := ms_log_zone_size ms\<rparr>"

definition info_from_m3s :: "cominix3_super_block \<Rightarrow> cominix_sb_info \<Rightarrow> cominix_sb_info" where
  "info_from_m3s m3s sbi = sbi\<lparr>s_imap_blocks := m3s_imap_blocks m3s, s_zmap_blocks := m3s_zmap_blocks m3s,
     s_firstdatazone := m3s_firstdatazone m3s, s_log_zone_size := m3s_log_zone_size m3s,
     s_ninodes := m3s_ninodes m3s, s_nzones := m3s_zones m3s, s_dirsize := 64, s_namelen := 60,
     s_version := MINIX_V3, s_mount_state := MINIX_VALID_FS\<rparr>"

text \<open>Reading the maps: the block numbers from \<open>block\<close> on, or nothing if one cannot be read.\<close>

fun read_maps :: "bufcache \<Rightarrow> nat \<Rightarrow> nat \<Rightarrow> nat list option" where
  "read_maps bc block 0 = Some []"
| "read_maps bc block (Suc n) =
     (case sb_bread bc block of
        None \<Rightarrow> None | Some bh \<Rightarrow> map_option (Cons bh) (read_maps bc (Suc block) n))"

text \<open>The maps cover the inodes and the zones.\<close>

definition maps_large_enough :: "super_block \<Rightarrow> cominix_sb_info \<Rightarrow> bool" where
  "maps_large_enough sb sbi =
     (if s_imap_blocks sbi < cominix_blocks_needed (s_ninodes sbi) (s_blocksize sb) then False
      else if s_zmap_blocks sbi < cominix_blocks_needed
          (nat ((int (s_nzones sbi) - int (s_firstdatazone sbi) + 1) mod 2 ^ 64)) (s_blocksize sb) then False
      else True)"

text \<open>The labels \<open>out_no_bitmap\<close> to \<open>out\<close>: \<open>s_fs_info\<close> is reset and \<open>ret\<close> is returned.\<close>

definition mount_out :: "vsuper \<Rightarrow> errno option \<Rightarrow> (vsuper \<times> errno option) res" where
  "mount_out v ret = Inr (v\<lparr>vs_info := None\<rparr>, ret)"

text \<open>From the reading of the root inode on.\<close>

definition mount_root :: "mount_env \<Rightarrow> vsuper \<Rightarrow> (vsuper \<times> errno option) res" where
  "mount_root me v =
     bindE (vs_fs v) (\<lambda>s.
     case cominix_iget (me_kernel me) s (me_iget_locked me MINIX_ROOT_INO) of
       Inl e \<Rightarrow> mount_out v (Some e)
     | Inr root_inode \<Rightarrow>
         if \<not> me_make_root me root_inode then mount_out v (Some ENOMEM)
         else
           let v1 = v\<lparr>vs_root := Some root_inode\<rparr>; alloc_new_esb = (extra_sb_location (fs_info s) = 0);
               v2 = (if s_rdonly (vs_sb v) then v1
                     else (if s_version (fs_info s) \<noteq> MINIX_V3
                           then v1\<lparr>vs_sbh := raw_put (vs_sbh v1) 18 2 (ms_state (ms_of (vs_sbh v1)) AND (2 ^ 16 - 1 - MINIX_VALID_FS))\<rparr>
                           else v1)\<lparr>vs_sbh_dirty := True\<rparr>) in
           if alloc_new_esb then
             bindE (cminix_alloc_extra_super v2) (\<lambda>(v3, ok). Inr (v3, None))
           else Inr (v2, None))"

text \<open>The allocation of the map arrays and the maps. The variable \<open>ret\<close> is 0 here: it holds the
  result of \<open>cminix_fill_extra_super\<close>.\<close>

definition mount_maps :: "mount_env \<Rightarrow> vsuper \<Rightarrow> (vsuper \<times> errno option) res" where
  "mount_maps me v =
     bindE (vs_fs v) (\<lambda>s.
     let sbi = fs_info s; bc = fs_bufs s in
     if \<not> me_alloc_map me then mount_out v (Some ENOMEM)
     else (case read_maps bc 2 (s_imap_blocks sbi) of
         None \<Rightarrow> mount_out v None
       | Some imap \<Rightarrow> (case read_maps bc (2 + s_imap_blocks sbi) (s_zmap_blocks sbi) of
           None \<Rightarrow> mount_out v None
         | Some zmap \<Rightarrow>
             let sbi1 = sbi\<lparr>s_imap := imap, s_zmap := zmap\<rparr>;
                 bc1 = cominix_set_bit (cominix_set_bit bc (imap ! 0) 0) (zmap ! 0) 0;
                 v1 = v\<lparr>vs_info := Some sbi1, vs_bufs := bc1\<rparr> in
             if \<not> maps_large_enough (fs_sb s) sbi1 then mount_out v1 None
             else mount_root me v1)))"

text \<open>The extra super block. \<open>max_brk\<close> is the end of the device; the zones end where the hash
  table begins.\<close>

definition mount_extra :: "mount_env \<Rightarrow> vsuper \<Rightarrow> (vsuper \<times> errno option) res" where
  "mount_extra me v =
     bindE (vs_fs v) (\<lambda>s0.
     bindE (cminix_fill_extra_super s0) (\<lambda>s.
     let sbi = fs_info s; sb = fs_sb s;
         new_nzones = drop_bit (s_blocksize_bits sb) (hashtable sbi);
         sbi1 = sbi\<lparr>max_brk := u64 (s_nzones sbi * s_blocksize sb)\<rparr> in
     bindE (bug_on (s_nzones sbi1 < new_nzones)) (\<lambda>_.
     mount_maps me (v\<lparr>vs_info := Some (sbi1\<lparr>s_nzones := new_nzones\<rparr>)\<rparr>))))"

text \<open>The super block, read into the buffer \<open>vs_sbh\<close> with blocks of \<open>2 ^ bits0\<close> bytes. The result of the
  second \<open>sb_set_blocksize\<close> is not looked at.\<close>

definition mount_super :: "mount_env \<Rightarrow> vsuper \<Rightarrow> nat \<Rightarrow> (vsuper \<times> errno option) res" where
  "mount_super me v bits0 =
     (let d = vs_sbh v; ms = ms_of d; m3s = m3s_of d; sbi = info_from_ms ms zero_info;
          sb1 = (vs_sb v)\<lparr>s_maxbytes := ms_max_size ms, s_magic := ms_magic ms\<rparr> in
      if raw_num d 24 2 \<noteq> MINIX3_SUPER_MAGIC then mount_out (v\<lparr>vs_sb := sb1\<rparr>) (Some EINVAL)
      else if m3s_log_zone_size m3s \<noteq> 0
      then mount_out (v\<lparr>vs_sb := sb1\<lparr>s_magic := m3s_magic m3s\<rparr>\<rparr>) (Some EINVAL)
      else
        let sbi1 = info_from_m3s m3s sbi;
            bits = (case me_set_blocksize me (m3s_blocksize m3s) of None \<Rightarrow> bits0 | Some b \<Rightarrow> b);
            sb2 = sb1\<lparr>s_blocksize_bits := bits, s_maxbytes := m3s_max_size m3s, s_magic := m3s_magic m3s,
              s_max_links := MINIX2_LINK_MAX\<rparr>;
            v1 = v\<lparr>vs_sb := sb2, vs_bufs := me_bufs me bits\<rparr> in
        if \<not> cominix_check_superblock sb2 sbi1 then mount_out v1 (Some EINVAL)
        else mount_extra me (v1\<lparr>vs_info := Some
          (sbi1\<lparr>extra_sb_location := u32 (m3s_pad1 m3s * 2 ^ 16 + m3s_pad0 m3s)\<rparr>)\<rparr>))"

definition cominix_fill_super :: "mount_env \<Rightarrow> vsuper \<Rightarrow> (vsuper \<times> errno option) res" where
  "cominix_fill_super me v =
     (if \<not> me_alloc_info me then Inr (v, Some ENOMEM)
      else (case me_set_blocksize me BLOCK_SIZE of
          None \<Rightarrow> mount_out v (Some EINVAL)
        | Some bits0 \<Rightarrow>
            let v1 = v\<lparr>vs_sb := (vs_sb v)\<lparr>s_blocksize_bits := bits0\<rparr>, vs_bufs := me_bufs me bits0\<rparr> in
            (case me_read_super me of
               None \<Rightarrow> mount_out v1 (Some EINVAL)
             | Some d \<Rightarrow> mount_super me (v1\<lparr>vs_sbh := d, vs_sbh_dirty := False\<rparr>) bits0)))"

section \<open>Remounting and unmounting\<close>

text \<open>\<open>sync\<close> is \<open>sync_filesystem\<close>, \<open>rdonly\<close> the flag \<open>SB_RDONLY\<close> of the new flags. \<open>s_ms\<close> is the
  version 1 view of the super block, also on a version 3 volume.\<close>

definition cominix_remount :: "(vsuper \<Rightarrow> vsuper) \<Rightarrow> vsuper \<Rightarrow> bool \<Rightarrow> vsuper res" where
  "cominix_remount sync v0 rdonly =
     (let v = sync v0 in
      bindE (vs_fs v) (\<lambda>s.
      let sbi = fs_info s; state = ms_state (ms_of (vs_sbh v)) in
      if rdonly = s_rdonly (vs_sb v) then Inr v
      else if rdonly then
        if state AND MINIX_VALID_FS \<noteq> 0 \<or> s_mount_state sbi AND MINIX_VALID_FS = 0 then Inr v
        else
          let v1 = (if s_version sbi \<noteq> MINIX_V3 then v\<lparr>vs_sbh := raw_put (vs_sbh v) 18 2 (s_mount_state sbi)\<rparr> else v)
          in Inr (v1\<lparr>vs_sbh_dirty := True\<rparr>)
      else
        let v1 = (if s_version sbi \<noteq> MINIX_V3
                  then v\<lparr>vs_info := Some (sbi\<lparr>s_mount_state := state\<rparr>),
                    vs_sbh := raw_put (vs_sbh v) 18 2 (state AND (2 ^ 16 - 1 - MINIX_VALID_FS))\<rparr>
                  else v\<lparr>vs_info := Some (sbi\<lparr>s_mount_state := MINIX_VALID_FS\<rparr>)\<rparr>)
        in Inr (v1\<lparr>vs_sbh_dirty := True\<rparr>)))"

definition cominix_put_super :: "vsuper \<Rightarrow> vsuper res" where
  "cominix_put_super v =
     bindE (vs_fs v) (\<lambda>s.
     let sbi = fs_info s;
         v1 = (if s_rdonly (vs_sb v) then v
               else (if s_version sbi \<noteq> MINIX_V3 then v\<lparr>vs_sbh := raw_put (vs_sbh v) 18 2 (s_mount_state sbi)\<rparr>
                     else v)\<lparr>vs_sbh_dirty := True\<rparr>)
     in Inr (v1\<lparr>vs_info := None\<rparr>))"

section \<open>The module\<close>

text \<open>What the module has registered with the kernel: the entry in \<open>proc\<close>, the inode cache, the
  file system type.\<close>

record module_state =
  mod_proc :: bool
  mod_cache :: bool
  mod_registered :: bool

text \<open>The results of \<open>proc_mkdir\<close> and \<open>proc_create\<close>, \<open>kmem_cache_create\<close>, \<open>register_filesystem\<close>.\<close>

record module_env =
  mo_proc_ok :: bool
  mo_cache_ok :: bool
  mo_register :: "errno option"

definition cminix_proc_init :: "module_env \<Rightarrow> module_state \<Rightarrow> module_state" where
  "cminix_proc_init mo m = (if mo_proc_ok mo then m\<lparr>mod_proc := True\<rparr> else m)"

definition cminix_proc_clean :: "module_state \<Rightarrow> module_state" where
  "cminix_proc_clean m = m\<lparr>mod_proc := False\<rparr>"

definition init_inodecache :: "module_env \<Rightarrow> module_state \<Rightarrow> module_state \<times> errno option" where
  "init_inodecache mo m = (if mo_cache_ok mo then (m\<lparr>mod_cache := True\<rparr>, None) else (m, Some ENOMEM))"

definition destroy_inodecache :: "module_state \<Rightarrow> module_state" where
  "destroy_inodecache m = m\<lparr>mod_cache := False\<rparr>"

definition init_cominix_fs :: "module_env \<Rightarrow> module_state \<Rightarrow> module_state \<times> errno option" where
  "init_cominix_fs mo m =
     (let (m1, err) = init_inodecache mo (cminix_proc_init mo m) in
      if err \<noteq> None then (m1, err)
      else if mo_register mo \<noteq> None then (destroy_inodecache m1, mo_register mo)
      else (m1\<lparr>mod_registered := True\<rparr>, None))"

definition exit_cominix_fs :: "module_state \<Rightarrow> module_state" where
  "exit_cominix_fs m = destroy_inodecache ((cminix_proc_clean m)\<lparr>mod_registered := False\<rparr>)"

end
