(* ===== verification/MountSpec.thy ===== *)
theory MountSpec
  imports Mount ChunkStore
begin

text \<open>
  What a mount computes on a well-formed version 3 image: the information it keeps in memory, and
  the file system that the other components start from.
\<close>

declare add_2_eq_Suc [simp del] add_2_eq_Suc' [simp del] upt_Suc [simp del]

section \<open>Bytes of the super block\<close>

lemma raw_num_put [simp]: "raw_num (raw_put d off n v) off n = v mod 256 ^ n"
proof -
  have "map (raw_put d off n v) [off..<off + n] = le_bytes n v"
    by (rule nth_equalityI) (simp_all add: raw_put_def)
  then show ?thesis by (simp add: raw_num_def)
qed

lemma raw_num_put_other:
  assumes "off' + n' \<le> off \<or> off + n \<le> off'"
  shows "raw_num (raw_put d off n v) off' n' = raw_num d off' n'"
proof -
  have "map (raw_put d off n v) [off'..<off' + n'] = map d [off'..<off' + n']"
    using assms by (auto simp: raw_put_def)
  then show ?thesis by (simp only: raw_num_def)
qed

lemma raw_num_bound: "raw_num d off n < 256 ^ n"
  unfolding raw_num_def using le_num_bound [of "map d [off..<off + n]"] by simp

section \<open>Images\<close>

text \<open>The location of the extra super block is split over two pads of the super block.\<close>

definition image_loc :: "raw_super \<Rightarrow> nat" where
  "image_loc d = m3s_pad1 (m3s_of d) * 2 ^ 16 + m3s_pad0 (m3s_of d)"

definition default_esb :: cminix_extra_super_block where
  "default_esb = \<lparr>esb_hashtable_location = 40 * 2 ^ 20, esb_hashtable_size = 32 * 2 ^ 10,
     esb_heap_brk = 40 * 2 ^ 20 + 32 * 2 ^ 10\<rparr>"

definition image_esb :: "raw_super \<Rightarrow> bufcache \<Rightarrow> cminix_extra_super_block" where
  "image_esb d bc = (if image_loc d = 0 then default_esb else esb_at bc (image_loc d))"

definition image_sb :: "super_block \<Rightarrow> raw_super \<Rightarrow> nat \<Rightarrow> super_block" where
  "image_sb sb d k = sb\<lparr>s_blocksize_bits := k, s_maxbytes := m3s_max_size (m3s_of d),
     s_magic := m3s_magic (m3s_of d), s_max_links := MINIX2_LINK_MAX\<rparr>"

definition image_info :: "raw_super \<Rightarrow> bufcache \<Rightarrow> nat \<Rightarrow> cominix_sb_info" where
  "image_info d bc k = (let m = m3s_of d; esb = image_esb d bc; im = m3s_imap_blocks m; zm = m3s_zmap_blocks m in
     \<lparr>s_ninodes = m3s_ninodes m, s_nzones = drop_bit k (esb_hashtable_location esb),
      s_imap_blocks = im, s_zmap_blocks = zm, s_firstdatazone = m3s_firstdatazone m, s_log_zone_size = 0,
      s_dirsize = 64, s_namelen = 60, s_imap = [2..<2 + im], s_zmap = [2 + im..<2 + im + zm],
      s_mount_state = MINIX_VALID_FS, s_version = MINIX_V3, extra_sb_location = image_loc d,
      hashtable = esb_hashtable_location esb, hashtable_size = esb_hashtable_size esb,
      heap_brk = esb_heap_brk esb, max_brk = m3s_zones m * 2 ^ k\<rparr>)"

definition image_fs :: "super_block \<Rightarrow> raw_super \<Rightarrow> bufcache \<Rightarrow> nat \<Rightarrow> fs" where
  "image_fs sb d bc k = \<lparr>fs_sb = image_sb sb d k, fs_info = image_info d bc k,
     fs_bufs = cominix_set_bit (cominix_set_bit bc 2 0) (2 + m3s_imap_blocks (m3s_of d)) 0\<rparr>"

text \<open>What the super block says of a good volume: blocks of at least 512 bytes, the maps directly
  behind it, large enough for the inodes and for the zones before the hash table.\<close>

definition image_ok :: "raw_super \<Rightarrow> bufcache \<Rightarrow> nat \<Rightarrow> bool" where
  "image_ok d bc k \<longleftrightarrow> (let m = m3s_of d; im = m3s_imap_blocks m; zm = m3s_zmap_blocks m;
       fdz = m3s_firstdatazone m; nz = drop_bit k (esb_hashtable_location (image_esb d bc)) in
     m3s_magic m = MINIX3_SUPER_MAGIC \<and> m3s_log_zone_size m = 0 \<and> 9 \<le> k \<and> k \<le> 12 \<and>
     0 < im \<and> 0 < zm \<and> 2 + im + zm < fdz \<and> fdz \<le> nz \<and> nz \<le> m3s_zones m \<and>
     1 \<le> m3s_ninodes m \<and> m3s_ninodes m \<le> im * (2 ^ k * 8) \<and> nz - fdz + 1 \<le> zm * (2 ^ k * 8) \<and>
     image_loc d < m3s_zones m \<and> (\<forall>b < m3s_zones m. breadable bc b))"

text \<open>The part of it that concerns the super block itself, and whether the maps can be used.\<close>

definition super_ok :: "raw_super \<Rightarrow> bufcache \<Rightarrow> nat \<Rightarrow> bool" where
  "super_ok d bc k \<longleftrightarrow> (let m = m3s_of d in
     m3s_magic m = MINIX3_SUPER_MAGIC \<and> m3s_log_zone_size m = 0 \<and> 9 \<le> k \<and> k \<le> 12 \<and>
     0 < m3s_imap_blocks m \<and> 0 < m3s_zmap_blocks m \<and> (image_loc d \<noteq> 0 \<longrightarrow> breadable bc (image_loc d)))"

text \<open>The kernel presents that image and has the memory for it; the root inode is in use.\<close>

definition env_presents :: "mount_env \<Rightarrow> raw_super \<Rightarrow> bufcache \<Rightarrow> nat \<Rightarrow> bool" where
  "env_presents me d bc k \<longleftrightarrow> me_alloc_info me \<and> me_alloc_map me \<and> me_set_blocksize me BLOCK_SIZE \<noteq> None \<and>
     me_read_super me = Some d \<and> me_set_blocksize me (m3s_blocksize (m3s_of d)) = Some k \<and> me_bufs me k = bc"

definition root_ok :: "mount_env \<Rightarrow> raw_super \<Rightarrow> bufcache \<Rightarrow> bool" where
  "root_ok me d bc \<longleftrightarrow> (\<exists>r. me_iget_locked me MINIX_ROOT_INO = Iget_new r \<and> i_ino r = MINIX_ROOT_INO) \<and>
     num_at bc (2 + m3s_imap_blocks (m3s_of d) + m3s_zmap_blocks (m3s_of d)) 2 2 \<noteq> 0 \<and> (\<forall>ino. me_make_root me ino)"

section \<open>Up to the maps\<close>

lemma read_maps_upt: "(\<And>b. start \<le> b \<Longrightarrow> b < start + n \<Longrightarrow> breadable bc b) \<Longrightarrow> read_maps bc start n = Some [start..<start + n]"
proof (induction bc start n rule: read_maps.induct)
  case (2 bc start n)
  have "[start..<start + Suc n] = start # [Suc start..<Suc start + n]" by (simp add: upt_conv_Cons)
  then show ?case using 2 by simp
qed simp

lemma read_maps_Some: "read_maps bc start n = Some xs \<Longrightarrow> xs = [start..<start + n] \<and> (\<forall>b \<in> set xs. breadable bc b)"
proof (induction bc start n arbitrary: xs rule: read_maps.induct)
  case (2 bc start n)
  have "[start..<start + Suc n] = start # [Suc start..<Suc start + n]" by (simp add: upt_conv_Cons)
  then show ?case using 2 by (auto split: option.splits)
qed simp

lemma blocks_needed_le:
  assumes "0 < bs" "bs * 8 < 2 ^ 32" "bits \<le> n * (bs * 8)"
  shows "cominix_blocks_needed bits bs \<le> n"
proof -
  let ?d = "bs * 8"
  let ?y = "u32 bits + (?d - 1)"
  have d: "u32 ?d = ?d" "0 < ?d" using assms(1,2) by (simp_all add: u32_def)
  have "u32 bits + u32 ?d + (2 ^ 32 - 1) = ?y + 2 ^ 32" using d by simp
  then have "u32 (u32 bits + u32 ?d + (2 ^ 32 - 1)) \<le> ?y"
    by (metis mod_add_self2 mod_less_eq_dividend u32_def)
  also have "\<dots> \<le> bits + (?d - 1)" by (simp add: u32_def)
  also have "\<dots> < Suc n * ?d" using assms(3) d(2) by simp
  finally show ?thesis unfolding cominix_blocks_needed_def div_round_up32_def d(1)
    using d(2) by (simp add: less_mult_imp_div_less less_Suc_eq_le [symmetric] del: less_Suc_eq_le)
qed

lemma image_okD:
  assumes "image_ok d bc k"
  defines "m \<equiv> m3s_of d"
  shows "m3s_magic m = MINIX3_SUPER_MAGIC" "m3s_log_zone_size m = 0" "9 \<le> k" "k \<le> 12"
    and "0 < m3s_imap_blocks m" "0 < m3s_zmap_blocks m"
    and "2 + m3s_imap_blocks m + m3s_zmap_blocks m < m3s_firstdatazone m"
    and "m3s_firstdatazone m \<le> drop_bit k (esb_hashtable_location (image_esb d bc))"
    and "drop_bit k (esb_hashtable_location (image_esb d bc)) \<le> m3s_zones m"
    and "1 \<le> m3s_ninodes m" "m3s_ninodes m \<le> m3s_imap_blocks m * (2 ^ k * 8)"
    and "drop_bit k (esb_hashtable_location (image_esb d bc)) - m3s_firstdatazone m + 1 \<le> m3s_zmap_blocks m * (2 ^ k * 8)"
    and "image_loc d < m3s_zones m" and "b < m3s_zones m \<Longrightarrow> breadable bc b"
  using assms by (simp_all add: image_ok_def Let_def)

lemma image_super_ok: "image_ok d bc k \<Longrightarrow> super_ok d bc k"
  by (simp add: image_ok_def super_ok_def Let_def)

lemma super_okD:
  assumes "super_ok d bc k"
  shows "m3s_magic (m3s_of d) = MINIX3_SUPER_MAGIC" "m3s_log_zone_size (m3s_of d) = 0" "9 \<le> k" "k \<le> 12"
    and "0 < m3s_imap_blocks (m3s_of d)" "0 < m3s_zmap_blocks (m3s_of d)"
    and "image_loc d \<noteq> 0 \<Longrightarrow> breadable bc (image_loc d)"
  using assms by (simp_all add: super_ok_def Let_def)

lemma image_blocksize [simp]: "s_blocksize (image_sb sb d k) = 2 ^ k"
  by (simp add: s_blocksize_def image_sb_def)

lemma image_maps:
  assumes "image_ok d bc k"
  shows "read_maps bc 2 (m3s_imap_blocks (m3s_of d)) = Some [2..<2 + m3s_imap_blocks (m3s_of d)]"
    and "read_maps bc (2 + m3s_imap_blocks (m3s_of d)) (m3s_zmap_blocks (m3s_of d)) =
      Some [2 + m3s_imap_blocks (m3s_of d)..<2 + m3s_imap_blocks (m3s_of d) + m3s_zmap_blocks (m3s_of d)]"
proof -
  note i = image_okD [OF assms]
  have "breadable bc b" if "b < 2 + m3s_imap_blocks (m3s_of d) + m3s_zmap_blocks (m3s_of d)" for b
    by (rule i(14)) (use that i(7-9) in linarith)
  then show "read_maps bc 2 (m3s_imap_blocks (m3s_of d)) = Some [2..<2 + m3s_imap_blocks (m3s_of d)]"
    and "read_maps bc (2 + m3s_imap_blocks (m3s_of d)) (m3s_zmap_blocks (m3s_of d)) =
      Some [2 + m3s_imap_blocks (m3s_of d)..<2 + m3s_imap_blocks (m3s_of d) + m3s_zmap_blocks (m3s_of d)]"
    by (rule read_maps_upt, simp)+
qed

lemma power_k_bound: "k \<le> 12 \<Longrightarrow> (2 :: nat) ^ k * 8 < 2 ^ 32"
proof -
  assume "k \<le> 12"
  then have "(2 :: nat) ^ k \<le> 2 ^ 12" by (intro power_increasing) simp_all
  then show ?thesis by simp
qed

lemma image_maps_large:
  assumes "image_ok d bc k"
  shows "maps_large_enough (image_sb sb d k) (image_info d bc k)"
proof -
  let ?m = "m3s_of d" and ?nz = "drop_bit k (esb_hashtable_location (image_esb d bc))"
  note i = image_okD [OF assms]
  have b: "(2 :: nat) ^ k * 8 < 2 ^ 32" by (rule power_k_bound [OF i(4)])
  have z: "m3s_zones ?m < 2 ^ 32" using raw_num_bound [of d 20 4] by (simp add: m3s_of_def)
  have "(int ?nz - int (m3s_firstdatazone ?m) + 1) mod 2 ^ 64 = int (?nz - m3s_firstdatazone ?m + 1)"
    using i(8,9) z by (simp add: of_nat_diff)
  then have "nat ((int ?nz - int (m3s_firstdatazone ?m) + 1) mod 2 ^ 64) = ?nz - m3s_firstdatazone ?m + 1" by linarith
  then show ?thesis
    using blocks_needed_le [OF _ b i(11)] blocks_needed_le [OF _ b i(12)]
    by (simp add: maps_large_enough_def image_info_def Let_def not_less)
qed

section \<open>Until the root inode\<close>

lemma image_bounds:
  shows "m3s_pad1 (m3s_of d) < 2 ^ 16" "m3s_pad0 (m3s_of d) < 2 ^ 16" "m3s_zones (m3s_of d) < 2 ^ 32"
    and "m3s_ninodes (m3s_of d) < 2 ^ 32"
  using raw_num_bound [of d 14 2] raw_num_bound [of d 4 2] raw_num_bound [of d 20 4] raw_num_bound [of d 0 4]
  by (simp_all add: m3s_of_def)

lemma image_loc_u32: "u32 (m3s_pad1 (m3s_of d) * 2 ^ 16 + m3s_pad0 (m3s_of d)) = image_loc d"
  using image_bounds(1,2) [of d] unfolding image_loc_def by (intro u32_id) simp

lemma image_max_brk:
  assumes "k \<le> 12"
  shows "u64 (m3s_zones (m3s_of d) * 2 ^ k) = m3s_zones (m3s_of d) * 2 ^ k"
proof (rule u64_id)
  have "m3s_zones (m3s_of d) * 2 ^ k < 2 ^ 32 * 2 ^ 12"
    using image_bounds(3) [of d] power_increasing [OF assms, of "2 :: nat"] by (intro mult_less_le_imp_less) simp_all
  then show "m3s_zones (m3s_of d) * 2 ^ k < 2 ^ 64" by simp
qed

definition image_vs :: "vsuper \<Rightarrow> raw_super \<Rightarrow> bufcache \<Rightarrow> nat \<Rightarrow> vsuper" where
  "image_vs v d bc k = (put_fs v (image_fs (vs_sb v) d bc k))\<lparr>vs_sbh := d, vs_sbh_dirty := False\<rparr>"

lemma image_vs_fs [simp]: "vs_fs (image_vs v d bc k) = Inr (image_fs (vs_sb v) d bc k)"
  by (simp add: vs_fs_def image_vs_def put_fs_def)

text \<open>The two cases of \<open>cminix_fill_extra_super\<close>: the values come from the image either way.\<close>

lemma fill_extra_image:
  assumes "9 \<le> s_blocksize_bits (fs_sb s)" and "extra_sb_location (fs_info s) = image_loc d"
    and "image_loc d \<noteq> 0 \<Longrightarrow> breadable (fs_bufs s) (image_loc d)"
  shows "cminix_fill_extra_super s = (let esb = image_esb d (fs_bufs s) in
    Inr (s\<lparr>fs_info := (fs_info s)\<lparr>hashtable := esb_hashtable_location esb, hashtable_size := esb_hashtable_size esb,
      heap_brk := esb_heap_brk esb\<rparr>\<rparr>))"
  using assms by (simp add: cminix_fill_extra_super_def image_esb_def default_esb_def load_block_def Let_def)

text \<open>Stage by stage.\<close>

definition super_info :: "raw_super \<Rightarrow> cominix_sb_info" where
  "super_info d = (info_from_m3s (m3s_of d) (info_from_ms (ms_of d) zero_info))\<lparr>extra_sb_location := image_loc d\<rparr>"

definition early_vs :: "vsuper \<Rightarrow> raw_super \<Rightarrow> bufcache \<Rightarrow> nat \<Rightarrow> cominix_sb_info \<Rightarrow> vsuper" where
  "early_vs v d bc k sbi = v\<lparr>vs_sb := image_sb (vs_sb v) d k, vs_info := Some sbi, vs_bufs := bc,
     vs_sbh := d, vs_sbh_dirty := False\<rparr>"

lemma early_vs_fs [simp]:
  "vs_fs (early_vs v d bc k sbi) = Inr \<lparr>fs_sb = image_sb (vs_sb v) d k, fs_info = sbi, fs_bufs = bc\<rparr>"
  by (simp add: early_vs_def vs_fs_def)

lemma mount_super_image:
  assumes i: "super_ok d bc k" and e: "env_presents me d bc k" and v: "vs_sbh v = d" "\<not> vs_sbh_dirty v"
  shows "mount_super me v k0 = mount_extra me (early_vs v d bc k (super_info d))"
proof -
  note i' = super_okD [OF i]
  have e': "me_set_blocksize me (m3s_blocksize (m3s_of d)) = Some k" "me_bufs me k = bc"
    using e by (simp_all add: env_presents_def)
  have mg: "raw_num d 24 2 = MINIX3_SUPER_MAGIC" using i'(1) by (simp add: m3s_of_def)
  have c: "cominix_check_superblock sb (info_from_m3s (m3s_of d) sbi)" for sb sbi
    using i'(5,6) by (simp add: cominix_check_superblock_def info_from_m3s_def MINIX_V1_def MINIX_V3_def)
  have "v\<lparr>vs_sb := image_sb (vs_sb v) d k, vs_bufs := bc, vs_info := Some (super_info d)\<rparr> =
      early_vs v d bc k (super_info d)"
    using v by (cases v) (simp add: early_vs_def)
  then show ?thesis
    unfolding mount_super_def Let_def v(1) using i'(2)
    by (simp add: e' mg c image_loc_u32 [simplified] super_info_def image_sb_def)
qed

lemma mount_extra_image:
  assumes i: "super_ok d bc k"
  shows "mount_extra me (early_vs v d bc k (super_info d)) =
    (if m3s_zones (m3s_of d) < drop_bit k (esb_hashtable_location (image_esb d bc)) then Inl Bug
     else mount_maps me (early_vs v d bc k ((image_info d bc k)\<lparr>s_imap := [], s_zmap := []\<rparr>)))"
proof -
  note i' = super_okD [OF i]
  have b: "s_blocksize_bits (image_sb sb d k) = k" for sb by (simp add: image_sb_def)
  let ?s = "\<lparr>fs_sb = image_sb (vs_sb v) d k, fs_info = super_info d, fs_bufs = bc\<rparr>"
  have fe: "cminix_fill_extra_super ?s = (let esb = image_esb d bc in
    Inr (?s\<lparr>fs_info := (super_info d)\<lparr>hashtable := esb_hashtable_location esb,
      hashtable_size := esb_hashtable_size esb, heap_brk := esb_heap_brk esb\<rparr>\<rparr>))"
    using fill_extra_image [of ?s d] i'(3,7) b by (simp add: super_info_def)
  have z: "s_nzones (super_info d) = m3s_zones (m3s_of d)" by (simp add: super_info_def info_from_m3s_def)
  let ?esb = "image_esb d bc"
  have u: "early_vs v d bc k x\<lparr>vs_info := Some y\<rparr> = early_vs v d bc k y" for x y
    by (cases v) (simp add: early_vs_def)
  have "(super_info d)\<lparr>hashtable := esb_hashtable_location ?esb, hashtable_size := esb_hashtable_size ?esb,
      heap_brk := esb_heap_brk ?esb, max_brk := m3s_zones (m3s_of d) * 2 ^ k,
      s_nzones := drop_bit k (esb_hashtable_location ?esb)\<rparr> = (image_info d bc k)\<lparr>s_imap := [], s_zmap := []\<rparr>"
    using i'(2) by (simp add: image_info_def super_info_def info_from_m3s_def info_from_ms_def zero_info_def Let_def)
  then show ?thesis
    using image_max_brk [OF i'(4), of d]
    by (simp add: mount_extra_def fe Let_def b z u)
qed

lemma fill_super_maps:
  assumes i: "super_ok d bc k" and e: "env_presents me d bc k"
  obtains v' where "vs_sb v' = (vs_sb v)\<lparr>s_blocksize_bits := s_blocksize_bits (vs_sb v')\<rparr>" "vs_root v' = vs_root v"
    and "cominix_fill_super me v =
      (if m3s_zones (m3s_of d) < drop_bit k (esb_hashtable_location (image_esb d bc)) then Inl Bug
       else mount_maps me (early_vs v' d bc k ((image_info d bc k)\<lparr>s_imap := [], s_zmap := []\<rparr>)))"
proof -
  obtain k0 where k0: "me_set_blocksize me BLOCK_SIZE = Some k0" using e by (auto simp: env_presents_def)
  have e': "me_alloc_info me" "me_read_super me = Some d" using e by (simp_all add: env_presents_def)
  let ?v = "v\<lparr>vs_sb := (vs_sb v)\<lparr>s_blocksize_bits := k0\<rparr>, vs_bufs := me_bufs me k0, vs_sbh := d, vs_sbh_dirty := False\<rparr>"
  have "cominix_fill_super me v = mount_super me ?v k0"
    by (simp add: cominix_fill_super_def e' k0 Let_def)
  then show thesis
    using mount_super_image [OF i e, of ?v k0] mount_extra_image [OF i, of me ?v] by (intro that [of ?v]) simp_all
qed

lemma mount_maps_image:
  assumes i: "image_ok d bc k" and e: "env_presents me d bc k"
  shows "mount_maps me (early_vs v d bc k ((image_info d bc k)\<lparr>s_imap := [], s_zmap := []\<rparr>)) =
    mount_root me (image_vs v d bc k)"
proof -
  have a: "me_alloc_map me" using e by (simp add: env_presents_def)
  have sel: "s_imap_blocks (image_info d bc k) = m3s_imap_blocks (m3s_of d)"
    "s_zmap_blocks (image_info d bc k) = m3s_zmap_blocks (m3s_of d)"
    "(image_info d bc k)\<lparr>s_imap := [2..<2 + m3s_imap_blocks (m3s_of d)],
       s_zmap := [2 + m3s_imap_blocks (m3s_of d)..<2 + m3s_imap_blocks (m3s_of d) + m3s_zmap_blocks (m3s_of d)]\<rparr> = image_info d bc k"
    by (simp_all add: image_info_def Let_def)
  have h: "[2..<2 + m3s_imap_blocks (m3s_of d)] ! 0 = 2"
    "[2 + m3s_imap_blocks (m3s_of d)..<2 + m3s_imap_blocks (m3s_of d) + m3s_zmap_blocks (m3s_of d)] ! 0 = 2 + m3s_imap_blocks (m3s_of d)"
    using image_okD(5,6) [OF i] by (simp_all only: nth_upt)
  show ?thesis
    unfolding mount_maps_def early_vs_fs bindE.simps Let_def
    using image_maps_large [OF i, of "vs_sb v"]
    by (simp add: a sel(1,2) image_maps [OF i] sel(3) h)
      (cases v, simp add: early_vs_def image_vs_def put_fs_def image_fs_def)
qed

lemma fill_super_image:
  assumes i: "image_ok d bc k" and e: "env_presents me d bc k"
  shows "cominix_fill_super me v = mount_root me (image_vs v d bc k)"
proof -
  obtain v' where v': "vs_sb v' = (vs_sb v)\<lparr>s_blocksize_bits := s_blocksize_bits (vs_sb v')\<rparr>" "vs_root v' = vs_root v"
    and F: "cominix_fill_super me v = mount_maps me (early_vs v' d bc k ((image_info d bc k)\<lparr>s_imap := [], s_zmap := []\<rparr>))"
    using fill_super_maps [OF image_super_ok [OF i] e, of v] image_okD(9) [OF i] not_less by metis
  have "image_sb (vs_sb v') d k = image_sb (vs_sb v) d k" by (subst v'(1)) (simp add: image_sb_def)
  then have "image_vs v' d bc k = image_vs v d bc k"
    using v'(2) by (cases v; cases v') (simp add: image_vs_def put_fs_def image_fs_def)
  then show ?thesis by (simp add: F mount_maps_image [OF i e])
qed

text \<open>Maps that cannot be read or are too small.\<close>

definition maps_unusable :: "raw_super \<Rightarrow> bufcache \<Rightarrow> nat \<Rightarrow> bool" where
  "maps_unusable d bc k \<longleftrightarrow>
     (\<exists>b. 2 \<le> b \<and> b < 2 + m3s_imap_blocks (m3s_of d) + m3s_zmap_blocks (m3s_of d) \<and> \<not> breadable bc b) \<or>
     m3s_imap_blocks (m3s_of d) < cominix_blocks_needed (m3s_ninodes (m3s_of d)) (2 ^ k)"

lemma mount_maps_unusable:
  assumes "maps_unusable d bc k" and e: "me_alloc_map me"
  shows "\<exists>w. mount_maps me (early_vs v d bc k ((image_info d bc k)\<lparr>s_imap := [], s_zmap := []\<rparr>)) = Inr (w, None) \<and>
    vs_info w = None \<and> vs_root w = vs_root v"
proof -
  let ?im = "m3s_imap_blocks (m3s_of d)" and ?zm = "m3s_zmap_blocks (m3s_of d)"
  have sel: "s_imap_blocks (image_info d bc k) = ?im" "s_zmap_blocks (image_info d bc k) = ?zm"
    "s_ninodes (image_info d bc k) = m3s_ninodes (m3s_of d)"
    by (simp_all add: image_info_def Let_def)
  have out: "mount_out (early_vs v d bc k i) None = Inr ((early_vs v d bc k i)\<lparr>vs_info := None\<rparr>, None)"
    "vs_root (early_vs v d bc k i) = vs_root v" for i
    by (simp_all add: mount_out_def early_vs_def)
  show ?thesis
  proof (cases "read_maps bc 2 ?im = None \<or> read_maps bc (2 + ?im) ?zm = None")
    case True
    then show ?thesis
      unfolding mount_maps_def early_vs_fs bindE.simps Let_def
      by (auto simp: sel e out split: option.split)
  next
    case False
    then obtain xs ys where m: "read_maps bc 2 ?im = Some xs" "read_maps bc (2 + ?im) ?zm = Some ys" by auto
    have "breadable bc b" if "2 \<le> b" "b < 2 + ?im + ?zm" for b
      using read_maps_Some [OF m(1)] read_maps_Some [OF m(2)] that by (cases "b < 2 + ?im") auto
    then have "?im < cominix_blocks_needed (m3s_ninodes (m3s_of d)) (2 ^ k)"
      using assms(1) by (auto simp: maps_unusable_def)
    then have "\<not> maps_large_enough (image_sb sb d k) ((image_info d bc k)\<lparr>s_imap := x, s_zmap := y\<rparr>)" for sb x y
      by (simp add: maps_large_enough_def sel)
    then show ?thesis
      unfolding mount_maps_def early_vs_fs bindE.simps Let_def
      by (simp add: sel e m mount_out_def) (simp add: early_vs_def)
  qed
qed

end
