(* ===== verification/Md5.thy ===== *)
theory Md5
  imports Prelude
begin

text \<open>
  md5\_wrapper.h: the digest of a buffer through the kernel's crypto interface, which is a
  parameter: allocating a transform by name, the size of its state, and the digest itself, each
  of which may fail. \<open>kmalloc\<close> tells which sizes can be allocated.
\<close>

record crypto =
  cr_alloc_shash :: "string \<Rightarrow> errno + nat"
  cr_sizeof_desc :: nat
  cr_descsize :: "nat \<Rightarrow> nat"
  cr_digest :: "nat \<Rightarrow> byte list \<Rightarrow> errno + byte list"

text \<open>A descriptor is known by the transform it was made for.\<close>

definition init_sdesc :: "(nat \<Rightarrow> bool) \<Rightarrow> crypto \<Rightarrow> nat \<Rightarrow> errno + nat" where
  "init_sdesc kmalloc cr alg =
     (let sz = cr_sizeof_desc cr + cr_descsize cr alg in if kmalloc sz then Inr alg else Inl ENOMEM)"

definition calc_hash :: "(nat \<Rightarrow> bool) \<Rightarrow> crypto \<Rightarrow> nat \<Rightarrow> byte list \<Rightarrow> nat \<Rightarrow> errno + byte list" where
  "calc_hash kmalloc cr alg data datalen =
     (case init_sdesc kmalloc cr alg of
        Inl e \<Rightarrow> Inl e
      | Inr sdesc \<Rightarrow> cr_digest cr sdesc (take (u32 datalen) data))"

definition md5_hash :: "(nat \<Rightarrow> bool) \<Rightarrow> crypto \<Rightarrow> byte list \<Rightarrow> nat \<Rightarrow> errno + byte list" where
  "md5_hash kmalloc cr data datalen =
     (case cr_alloc_shash cr ''md5'' of
        Inl e \<Rightarrow> Inl e
      | Inr alg \<Rightarrow> calc_hash kmalloc cr alg data datalen)"

text \<open>The hash under which file.c stores a chunk: the first eight bytes of the digest.\<close>

definition digest_key :: "byte list \<Rightarrow> nat" where
  "digest_key digest = le_num (take 8 digest)"

lemma digest_key_bound: "digest_key digest < 2 ^ 64"
proof -
  have "le_num (take 8 digest) < 256 ^ length (take 8 digest)" by (rule le_num_bound)
  also have "\<dots> \<le> 256 ^ 8" by (rule power_increasing) simp_all
  finally show ?thesis by (simp add: digest_key_def)
qed

end
