(* ===== verification/File.thy ===== *)
theory File
  imports Inode ChunkStore Cdc LinkedList Md5
begin

text \<open>
  file.c: turning a plain file into a chunked one, reading a chunked file, and the proc entry
  that starts the chunking. \<open>kernel_read\<close>, \<open>kmalloc\<close>, the crypto interface, \<open>filp_open\<close> and
  \<open>copy_from_user\<close> are parameters. Messages are left out.
\<close>

section \<open>What the kernel provides\<close>

text \<open>\<open>fe_kernel_read pos count\<close>: the bytes that a read of the open file delivers, or an error.\<close>

record file_env =
  fe_kernel_read :: "nat \<Rightarrow> nat \<Rightarrow> errno + byte list"
  fe_kmalloc :: "nat \<Rightarrow> bool"
  fe_crypto :: crypto
  fe_kernel :: kernel

text \<open>The one-byte reads of \<open>cdc_get_chunk_size\<close>.\<close>

definition one_byte :: "(nat \<Rightarrow> nat \<Rightarrow> errno + byte list) \<Rightarrow> nat \<Rightarrow> byte option" where
  "one_byte kr pos = (case kr pos 1 of Inr (b # _) \<Rightarrow> Some b | _ \<Rightarrow> None)"

definition to_int :: "int \<Rightarrow> int" where
  "to_int x = (x + 2 ^ 31) mod 2 ^ 32 - 2 ^ 31"

section \<open>Reading a chunked file\<close>

definition get_list_head :: "inode \<Rightarrow> nat" where
  "get_list_head ino = i_data ino 1"

text \<open>The bytes delivered, the value returned, the new position. \<open>ulen\<close> is how many bytes of the
  user buffer can be written.\<close>

definition chunked_file_read ::
    "fs \<Rightarrow> inode \<Rightarrow> nat \<Rightarrow> nat \<Rightarrow> int \<Rightarrow> (byte list \<times> int \<times> int) res" where
  "chunked_file_read s ino ulen count pos =
     (if int (i_size ino) \<le> pos then Inr ([], 0, pos)
      else
        bindE (bug_on (\<not> inode_is_chunked ino)) (\<lambda>_.
        bindE (case ll_search_left (fs_sb s) (fs_bufs s) (get_list_head ino) pos 0 of
                 None \<Rightarrow> Inl Diverge | Some r \<Rightarrow> r) (\<lambda>(chunk, found_pos).
        bindE (bug_on (ce_location chunk = 0)) (\<lambda>_.
        bindE (bug_on (ce_size chunk = 0)) (\<lambda>_.
        bindE (chunk_copy_into_buffer (fs_sb s) (fs_bufs s) chunk ulen count (nat (pos - found_pos))) (\<lambda>xs.
        let ret = to_int (int (length xs)) in
        Inr (xs, ret, if 0 < ret then pos + ret else pos)))))))"

section \<open>Chunking a file\<close>

text \<open>
  The inner loop: \<open>buf\<close> holds the \<open>pos\<close> bytes read so far. Every read asks for \<open>chunk_size\<close>
  bytes, not for the rest, at \<open>&buf[pos]\<close>. \<open>None\<close> is a loop that does not end.
\<close>

partial_function (option) read_chunk ::
    "(nat \<Rightarrow> nat \<Rightarrow> errno + byte list) \<Rightarrow> nat \<Rightarrow> byte list \<Rightarrow> nat \<Rightarrow> (errno + byte list \<times> nat) res option" where
  "read_chunk kr chunk_size buf f_pos =
     (if chunk_size \<le> length buf then Some (Inr (Inr (buf, f_pos)))
      else (case kr f_pos chunk_size of
          Inl e \<Rightarrow> Some (Inr (Inl e))
        | Inr xs \<Rightarrow>
            if chunk_size < length buf + length xs then Some (Inl OutOfBounds)
            else read_chunk kr chunk_size (buf @ xs) (f_pos + length xs)))"

text \<open>Hashing a chunk and finding or making its place in the heap.\<close>

definition store_chunk :: "file_env \<Rightarrow> fs \<Rightarrow> byte list \<Rightarrow> nat \<Rightarrow> (fs \<times> nat) res" where
  "store_chunk fe s buf chunk_size =
     bindE (bug_on (length buf \<noteq> chunk_size)) (\<lambda>_.
     case md5_hash (fe_kmalloc fe) (fe_crypto fe) buf chunk_size of
       Inl _ \<Rightarrow> Inl Bug
     | Inr digest \<Rightarrow>
         let metadata = \<lparr>ck_hash = digest_key digest, ck_length = u32 chunk_size, ck_refcount = 0,
               ck_flags = 0, ck_next = 0\<rparr> in
         bindE (chunk_search_hashtable s (ck_hash metadata)) (\<lambda>location.
         bindE (if location \<noteq> 0 then Inr (s, location) else chunk_fill_hashtable s metadata buf) (\<lambda>(s', location').
         bindE (bug_on (location' = 0)) (\<lambda>_. Inr (s', location')))))"

text \<open>The outer loop. \<open>Inl s\<close> inside the result is \<open>return -1\<close>.\<close>

partial_function (option) chunk_loop ::
    "file_env \<Rightarrow> nat \<Rightarrow> fs \<Rightarrow> nat \<Rightarrow> nat \<Rightarrow> nat \<Rightarrow> (fs + fs \<times> nat \<times> nat \<times> nat) res option" where
  "chunk_loop fe i_sz s f_pos ll_end ll_size =
     (if f_pos < i_sz then
        let chunk_size = to_ssize (int (cdc_get_chunk_size (one_byte (fe_kernel_read fe)) i_sz f_pos)) in
        if chunk_size < 0 then Some (Inr (Inl s))
        else if chunk_size = 0 \<or> \<not> fe_kmalloc fe (nat chunk_size) then Some (Inl Bug)
        else (case read_chunk (fe_kernel_read fe) (nat chunk_size) [] f_pos of
            None \<Rightarrow> None
          | Some (Inl e) \<Rightarrow> Some (Inl e)
          | Some (Inr (Inl _)) \<Rightarrow> Some (Inr (Inl s))
          | Some (Inr (Inr (buf, f_pos'))) \<Rightarrow>
              (case store_chunk fe s buf (nat chunk_size) of
                 Inl e \<Rightarrow> Some (Inl e)
               | Inr (s1, location) \<Rightarrow>
                   (case ll_append s1 ll_end ll_size \<lparr>ce_location = location, ce_size = nat chunk_size\<rparr> of
                      Inl e \<Rightarrow> Some (Inl e)
                    | Inr (s2, ll_end', ll_size') \<Rightarrow> chunk_loop fe i_sz s2 f_pos' ll_end' ll_size')))
      else Some (Inr (Inr (s, ll_end, ll_size, f_pos))))"

definition chunk_and_replace :: "file_env \<Rightarrow> fs \<Rightarrow> inode \<Rightarrow> (fs \<times> inode \<times> int) res" where
  "chunk_and_replace fe s ino =
     bindE (ll_alloc_new_block s) (\<lambda>(s1, head).
     bindE (zero_out_block s1 head) (\<lambda>s2.
     case chunk_loop fe (i_size ino) s2 0 head 0 of
       None \<Rightarrow> Inl Diverge
     | Some (Inl e) \<Rightarrow> Inl e
     | Some (Inr (Inl s3)) \<Rightarrow> Inr (s3, ino, -1)
     | Some (Inr (Inr (s3, ll_end, ll_size, f_pos))) \<Rightarrow>
         bindE (bug_on (f_pos \<noteq> i_size ino)) (\<lambda>_.
         let fsize = i_size ino;
             (s4, ino1) = cominix_truncate (fe_kernel fe) s3 (ino\<lparr>i_size := 0\<rparr>);
             ino2 = switch_inode_to_chunked (ino1\<lparr>i_size := fsize\<rparr>) in
         bindE (bug_on (2 ^ 32 \<le> head)) (\<lambda>_.
         bindE (bug_on (2 ^ 32 \<le> ll_size)) (\<lambda>_.
         bindE (bug_on (2 ^ 32 \<le> ll_end)) (\<lambda>_.
         let ino3 = set_zone (set_zone (set_zone ino2 1 head) 2 ll_size) 3 ll_end;
             (s5, err) = cominix_write_inode (fe_kernel fe) False (\<lambda>bc _. (bc, False)) s4 ino3 in
         bindE (bug_on (err \<noteq> None)) (\<lambda>_.
         Inr (s5, cominix_set_inode (fe_kernel fe) ino3 0, 0))))))))"

section \<open>Writing to a chunked file\<close>

text \<open>\<open>uncopied\<close> is what \<open>copy_from_user\<close> returns. Every path returns \<open>-EIO\<close>.\<close>

definition fail_write :: "(nat \<Rightarrow> bool) \<Rightarrow> nat \<Rightarrow> nat \<Rightarrow> errno" where
  "fail_write kmalloc uncopied count =
     (let err = EIO in
      if \<not> kmalloc (u64 (count + 1)) then err else if uncopied \<noteq> 0 then err else err)"

section \<open>The proc entry\<close>

text \<open>What \<open>filp_open\<close> answers: whether the file lives on this file system, its inode, its reads.\<close>

record opened =
  op_cominix :: bool
  op_inode :: inode
  op_read :: "nat \<Rightarrow> nat \<Rightarrow> errno + byte list"

text \<open>The name in the buffer: a final newline is dropped, a zero byte ends it.\<close>

definition proc_path :: "byte list \<Rightarrow> byte list" where
  "proc_path buf = takeWhile (\<lambda>b. b \<noteq> 0) (if last buf = 10 then butlast buf else buf)"

text \<open>\<open>buf\<close> is the user's buffer of \<open>count\<close> bytes, \<open>None\<close> when it cannot be copied.
  The result has the inode after the chunking, when a file was chunked.\<close>

definition cminix_proc_write ::
    "file_env \<Rightarrow> (byte list \<Rightarrow> opened option) \<Rightarrow> fs \<Rightarrow> byte list option \<Rightarrow> nat \<Rightarrow>
     (fs \<times> inode option \<times> int) res" where
  "cminix_proc_write fe filp_open s ubuf count =
     (if \<not> fe_kmalloc fe (u64 (count + 1)) then Inr (s, None, -1)
      else (case ubuf of
          None \<Rightarrow> Inr (s, None, -1)
        | Some buf \<Rightarrow>
            if count = 0 then Inl OutOfBounds
            else (case filp_open (proc_path buf) of
                None \<Rightarrow> Inr (s, None, -1)
              | Some filp \<Rightarrow>
                  if \<not> op_cominix filp then Inr (s, None, -1)
                  else if \<not> S_ISREG (i_mode (op_inode filp)) then Inr (s, None, -1)
                  else if i_fop (op_inode filp) \<noteq> Cominix_file_ops then Inr (s, None, -1)
                  else
                    bindE (chunk_and_replace (fe\<lparr>fe_kernel_read := op_read filp\<rparr>) s (op_inode filp)) (\<lambda>(s', ino', r).
                    Inr (s', Some ino', int count)))))"

end
