(* ===== verification/FileSpec.thy ===== *)
theory FileSpec
  imports File
begin

text \<open>
  What chunking does to the whole volume. The heap, the zone maps, the chunk list and the tree of
  the plain file live side by side: \<open>heap_same\<close> and \<open>heap_grow\<close> say which part an operation on
  another part leaves alone. Then \<open>chunked_file\<close>, the abstraction from an inode and a volume to
  the contents of a chunked file, which \<open>chunk_and_replace\<close> establishes and \<open>chunked_file_read\<close>
  implements.
\<close>

section \<open>States with the same heap\<close>

definition heap_same :: "fs \<Rightarrow> fs \<Rightarrow> bool" where
  "heap_same s t \<longleftrightarrow> fs_sb t = fs_sb s \<and> fs_info t = fs_info s \<and>
     breadable (fs_bufs t) = breadable (fs_bufs s) \<and>
     (\<forall>b. s_nzones (fs_info s) \<le> b \<longrightarrow> bdata (fs_bufs t) b = bdata (fs_bufs s) b)"

lemma heap_same_sym: "heap_same s t \<Longrightarrow> heap_same t s"
  by (simp add: heap_same_def)

lemma heap_same_defs:
  assumes "heap_same s t"
  shows "buckets t = buckets s" "heap_base t = heap_base s" "entry_addr t i = entry_addr s i"
    "geometry_ok t = geometry_ok s" "chunk_fits t n = chunk_fits s n"
  using assms by (simp_all add: heap_same_def buckets_def heap_base_def entry_addr_def geometry_ok_def chunk_fits_def)

lemma heap_same_byte:
  assumes s: "heap_same s t" and g: "geometry_ok s" and a: "hashtable (fs_info s) \<le> a"
  shows "byte_at (fs_sb s) (fs_bufs t) a = byte_at (fs_sb s) (fs_bufs s) a"
proof -
  have "s_nzones (fs_info s) * s_blocksize (fs_sb s) \<le> a" using geometry_okD(5) [OF g] a by simp
  then have "s_nzones (fs_info s) \<le> a div s_blocksize (fs_sb s)"
    by (simp only: less_eq_div_iff_mult_less_eq [OF s_blocksize_pos])
  then show ?thesis using s by (simp add: heap_same_def byte_at_def)
qed

lemma heap_same_num:
  assumes "heap_same s t" "geometry_ok s" "hashtable (fs_info s) \<le> a"
  shows "fnum (fs_sb s) (fs_bufs t) a n = fnum (fs_sb s) (fs_bufs s) a n"
    and "load_bytes (fs_sb s) (fs_bufs t) a n = load_bytes (fs_sb s) (fs_bufs s) a n"
  using assms by (intro fnum_cong load_bytes_cong heap_same_byte; simp)+

lemma heap_same_chunk:
  assumes s: "heap_same s t" and g: "geometry_ok s" and c: "chunk_wf s c"
  shows "chunk_hash_at (fs_sb s) (fs_bufs t) c = chunk_hash_at (fs_sb s) (fs_bufs s) c"
    and "chunk_len_at (fs_sb s) (fs_bufs t) c = chunk_len_at (fs_sb s) (fs_bufs s) c"
    and "chunk_next_at (fs_sb s) (fs_bufs t) c = chunk_next_at (fs_sb s) (fs_bufs s) c"
    and "load_bytes (fs_sb s) (fs_bufs t) (c + sizeof_chunk_head) n = load_bytes (fs_sb s) (fs_bufs s) (c + sizeof_chunk_head) n"
    and "chunk_wf t c"
proof -
  have h: "hashtable (fs_info s) \<le> c" using c by (simp add: chunk_wf_def heap_base_def)
  show l: "chunk_len_at (fs_sb s) (fs_bufs t) c = chunk_len_at (fs_sb s) (fs_bufs s) c"
    "chunk_hash_at (fs_sb s) (fs_bufs t) c = chunk_hash_at (fs_sb s) (fs_bufs s) c"
    "chunk_next_at (fs_sb s) (fs_bufs t) c = chunk_next_at (fs_sb s) (fs_bufs s) c"
    "load_bytes (fs_sb s) (fs_bufs t) (c + sizeof_chunk_head) n = load_bytes (fs_sb s) (fs_bufs s) (c + sizeof_chunk_head) n"
    using heap_same_num [OF s g] h by (simp_all add: chunk_hash_at_def chunk_len_at_def chunk_next_at_def)
  show "chunk_wf t c" using c l s heap_same_defs(2) [OF s] by (simp add: chunk_wf_def heap_same_def)
qed

lemma heap_same_bucket:
  assumes s: "heap_same s t" and g: "geometry_ok s" and b: "bucket s i cs" and w: "\<And>c. c \<in> set cs \<Longrightarrow> chunk_wf s c"
  shows "bucket t i cs"
proof -
  have "fnum (fs_sb s) (fs_bufs t) (entry_addr s i) 8 = fnum (fs_sb s) (fs_bufs s) (entry_addr s i) 8"
    by (intro heap_same_num [OF s g]) (simp add: entry_addr_def)
  moreover have "chain (fs_sb s) (fs_bufs t) v cs = chain (fs_sb s) (fs_bufs s) v cs" for v
    by (intro chain_cong heap_same_chunk(3) [OF s g w])
  ultimately show ?thesis
    using b s heap_same_defs(3) [OF s] by (simp add: bucket_def heap_same_def)
qed

lemma heap_same_wf: "heap_same s t \<Longrightarrow> heap_wf s \<Longrightarrow> heap_wf t"
proof -
  assume s: "heap_same s t" and h: "heap_wf s"
  then have g: "geometry_ok s" by (simp add: heap_wf_def)
  have "\<exists>cs. bucket t i cs \<and> (\<forall>c \<in> set cs. chunk_wf t c \<and> chunk_hash_at (fs_sb t) (fs_bufs t) c mod buckets t = i)"
    if i: "i < buckets t" for i
  proof -
    from h i heap_same_defs(1) [OF s] obtain cs where cs: "bucket s i cs" "\<And>c. c \<in> set cs \<Longrightarrow> chunk_wf s c"
        "\<And>c. c \<in> set cs \<Longrightarrow> chunk_hash_at (fs_sb s) (fs_bufs s) c mod buckets s = i"
      unfolding heap_wf_def by force
    have "fs_sb t = fs_sb s" using s by (simp add: heap_same_def)
    with cs heap_same_bucket [OF s g cs(1,2)] heap_same_chunk [OF s g cs(2)] heap_same_defs(1) [OF s]
    show ?thesis by (intro exI [of _ cs]) auto
  qed
  with h s heap_same_defs [OF s] show ?thesis by (simp add: heap_wf_def heap_same_def)
qed

lemma heap_same_holds:
  assumes s: "heap_same s t" and h: "heap_wf s" and l: "chunk_holds s l k d"
  shows "chunk_holds t l k d"
proof -
  from h have g: "geometry_ok s" by (simp add: heap_wf_def)
  from l stored_bucket [OF h] obtain cs where b: "bucket s (k mod buckets s) cs" "l \<in> set cs" "chunk_wf s l"
    by (auto simp: chunk_holds_def)
  obtain cs' where cs': "bucket s (k mod buckets s) cs'" "\<And>c. c \<in> set cs' \<Longrightarrow> chunk_wf s c"
    using heap_bucket [OF h] by metis
  have "cs' = cs" using cs'(1) b(1) unfolding bucket_def by (rule chain_unique)
  moreover have "bucket t (k mod buckets s) cs'" by (rule heap_same_bucket [OF s g cs'])
  moreover have "k mod buckets s < buckets t" using geometry_okD(4) [OF g] heap_same_defs(1) [OF s] by simp
  ultimately have "stored t l" using b(2) unfolding stored_def by blast
  then show ?thesis
    using l heap_same_chunk [OF s g b(3)] s by (simp add: chunk_holds_def heap_same_def)
qed

lemma heap_same_holds_iff: "heap_same s t \<Longrightarrow> heap_wf s \<Longrightarrow> chunk_holds t l k d \<longleftrightarrow> chunk_holds s l k d"
  using heap_same_holds heap_same_sym heap_same_wf by blast

lemma ll_frame_heap_same:
  assumes v: "volume_ok s" and f: "ll_frame bs s t" and b: "\<forall>b \<in> set bs. data_block s b"
  shows "heap_same s t"
proof -
  have "c \<notin> set (s_zmap (fs_info s)) \<and> c \<notin> set bs \<and> \<not> (data_block s c \<and> \<not> block_busy s c)"
    if "s_nzones (fs_info s) \<le> c" for c
    using that b zmap_wfD(5,6) [OF volume_okD(1) [OF v]] by (fastforce simp: data_block_def)
  then show ?thesis using f by (simp add: heap_same_def ll_frame_def)
qed

lemma shrink_heap_same:
  assumes v: "volume_ok s" and f: "shrink s t B {}" and b: "\<forall>b \<in> B. data_block s b"
  shows "heap_same s t"
proof -
  have "c \<notin> set (s_zmap (fs_info s)) \<and> c \<notin> B" if "s_nzones (fs_info s) \<le> c" for c
    using that b zmap_wfD(5,6) [OF volume_okD(1) [OF v]] by (fastforce simp: data_block_def)
  then show ?thesis using f by (simp add: heap_same_def shrink_def)
qed

section \<open>States that differ in the heap\<close>

text \<open>The store invariant: a volume with a well-formed heap, the extra super block a busy data block.\<close>

definition store_ok :: "fs \<Rightarrow> bool" where
  "store_ok s \<longleftrightarrow> volume_ok s \<and> heap_wf s \<and> data_block s (extra_sb_location (fs_info s)) \<and>
     block_busy s (extra_sb_location (fs_info s))"

definition heap_grow :: "fs \<Rightarrow> fs \<Rightarrow> bool" where
  "heap_grow s t \<longleftrightarrow> fs_sb t = fs_sb s \<and> (\<exists>brk. fs_info t = (fs_info s)\<lparr>heap_brk := brk\<rparr>) \<and>
     breadable (fs_bufs t) = breadable (fs_bufs s) \<and>
     (\<forall>c. c < s_nzones (fs_info s) \<longrightarrow> c \<noteq> extra_sb_location (fs_info s) \<longrightarrow>
        bdata (fs_bufs t) c = bdata (fs_bufs s) c) \<and>
     tracks {} (fs_bufs s) (fs_bufs t)"

lemma heap_grow_refl [simp]: "heap_grow s s"
  by (simp add: heap_grow_def) (metis cominix_sb_info.surjective cominix_sb_info.update_convs(16))

lemma heap_grow_sel:
  assumes "heap_grow s t"
  shows "fs_sb t = fs_sb s" "s_nzones (fs_info t) = s_nzones (fs_info s)"
    "s_firstdatazone (fs_info t) = s_firstdatazone (fs_info s)" "s_zmap (fs_info t) = s_zmap (fs_info s)"
    "s_zmap_blocks (fs_info t) = s_zmap_blocks (fs_info s)" "max_brk (fs_info t) = max_brk (fs_info s)"
    "extra_sb_location (fs_info t) = extra_sb_location (fs_info s)"
    "s_imap_blocks (fs_info t) = s_imap_blocks (fs_info s)" "s_ninodes (fs_info t) = s_ninodes (fs_info s)"
    "breadable (fs_bufs t) = breadable (fs_bufs s)" "data_block t = data_block s"
  using assms by (auto simp: heap_grow_def data_block_def fun_eq_iff)

lemma heap_grow_trans:
  assumes st: "heap_grow s t" and tu: "heap_grow t u"
  shows "heap_grow s u"
proof -
  note S = heap_grow_sel [OF st] and U = heap_grow_sel [OF tu]
  obtain a where a: "fs_info t = (fs_info s)\<lparr>heap_brk := a\<rparr>" using st unfolding heap_grow_def by blast
  obtain b where b: "fs_info u = (fs_info t)\<lparr>heap_brk := b\<rparr>" using tu unfolding heap_grow_def by blast
  have "fs_info u = (fs_info s)\<lparr>heap_brk := b\<rparr>" unfolding b a by simp
  moreover have "bdata (fs_bufs u) c = bdata (fs_bufs s) c"
    if "c < s_nzones (fs_info s)" "c \<noteq> extra_sb_location (fs_info s)" for c
    using st tu that S(2,7) unfolding heap_grow_def by metis
  moreover have "tracks {} (fs_bufs s) (fs_bufs u)"
    using st tu tracks_same unfolding heap_grow_def by blast
  ultimately show ?thesis unfolding heap_grow_def using S(1,10) U(1,10) by metis
qed

lemma heap_grow_volume:
  assumes g: "heap_grow s t" and v: "volume_ok s" and e: "data_block s (extra_sb_location (fs_info s))"
  shows "volume_ok t" and "data_block s c \<Longrightarrow> block_busy t c = block_busy s c"
proof -
  note S = heap_grow_sel [OF g]
  have wf: "zmap_wf s" by (rule volume_okD(1) [OF v])
  have z: "bdata (fs_bufs t) b = bdata (fs_bufs s) b" if "b \<in> set (s_zmap (fs_info s))" for b
  proof -
    have "b < s_nzones (fs_info s)" using zmap_wfD(5,6) [OF wf] that by fastforce
    moreover have "b \<noteq> extra_sb_location (fs_info s)" using zmap_block_not_data [OF wf e] that by blast
    ultimately show ?thesis using g by (simp add: heap_grow_def)
  qed
  have zi: "s_zmap (fs_info s) ! i \<in> set (s_zmap (fs_info s))" if "i < s_zmap_blocks (fs_info s)" for i
    using that zmap_wfD(2) [OF wf] by simp
  have "zmap_wf t"
    using wf z [OF zi [OF zmap_wfD(3) [OF wf]]] by (simp add: zmap_wf_def Let_def S cominix_test_bit_def)
  then show "volume_ok t" using v by (simp add: volume_ok_def S)
  show "block_busy t c = block_busy s c" if "data_block s c"
    using z [OF zi [OF zone_in_map [OF block_zone_bounds(2) [OF wf that]]]]
    by (simp add: block_busy_def zone_busy_def block_zone_def S cominix_test_bit_def)
qed

lemma heap_grow_free: "heap_grow s t \<Longrightarrow> volume_ok s \<Longrightarrow> data_block s (extra_sb_location (fs_info s)) \<Longrightarrow>
    zones.free_set t = zones.free_set s"
  using heap_grow_volume heap_grow_sel(11) by (auto simp: zones.free_set_def)

lemma heap_grow_list:
  assumes g: "heap_grow s t" and e: "data_block s (extra_sb_location (fs_info s))"
    and l: "ll_inv s bs es" and n: "extra_sb_location (fs_info s) \<notin> set bs"
  shows "ll_inv t bs es"
proof -
  from l have v: "volume_ok s" and b: "\<And>b. b \<in> set bs \<Longrightarrow> data_block s b" by (simp_all add: ll_inv_def)
  have "bdata (fs_bufs t) c = bdata (fs_bufs s) c" if "c \<in> set bs" for c
    using g b [OF that] that n by (auto simp: heap_grow_def data_block_def)
  then have "ll_list (fs_sb s) (fs_bufs t) bs es = ll_list (fs_sb s) (fs_bufs s) bs es"
    using heap_grow_sel(10) [OF g] by (intro ll_list_cong) auto
  then show ?thesis
    using l heap_grow_volume [OF g v e] heap_grow_sel [OF g] by (simp add: ll_inv_def)
qed

lemma store_bytes_above:
  assumes "Suc c * s_blocksize sb \<le> st"
  shows "bdata (store_bytes sb bc st xs) c = bdata bc c"
proof
  fix i
  have "c * s_blocksize sb + i < st" if "i < s_blocksize sb" using assms that by simp
  then show "bdata (store_bytes sb bc st xs) c i = bdata bc c i" by (auto simp: store_bytes_def Let_def)
qed

lemma after_alloc_block:
  assumes g: "geometry_ok s" and c: "c \<noteq> extra_sb_location (fs_info s)"
  shows "bdata (fs_bufs (after_alloc s brk)) c = bdata (fs_bufs s) c"
proof -
  let ?e = "extra_sb_location (fs_info s)" and ?k = "s_blocksize (fs_sb s)"
  have k: "16 < ?k" "24 \<le> ?k" using geometry_blocksize(1) [OF g] by simp_all
  show ?thesis
    using store_bytes_block [of "esb_addr s" "fs_sb s" "le_bytes 8 brk" "fs_bufs s"] k c
    by (simp add: esb_addr_def after_alloc_def)
qed

lemma after_fill_tracks: "tracks {} (fs_bufs s) (fs_bufs (after_fill s m d))"
  unfolding after_fill_def after_alloc_def Let_def by (simp, intro tracks_same [OF _ store_bytes_tracks] tracks_refl)

lemma after_fill_grow:
  assumes o: "store_ok s" and f: "chunk_fits s (length d)"
  shows "heap_grow s (after_fill s m d)"
proof -
  from o have h: "heap_wf s" by (simp add: store_ok_def)
  then have g: "geometry_ok s" by (simp add: heap_wf_def)
  let ?bs = "s_blocksize (fs_sb s)" and ?new = "next_head (fs_sb s) (heap_brk (fs_info s))"
  have i: "ck_hash m mod buckets s < buckets s" using geometry_okD(4) [OF g] by simp
  note B = chunk_fits_bounds [OF h f] and E = entry_bounds [OF h i]
  have "bdata (fs_bufs (after_fill s m d)) c = bdata (fs_bufs s) c"
    if c: "c < s_nzones (fs_info s)" "c \<noteq> extra_sb_location (fs_info s)" for c
  proof -
    have "Suc c * ?bs \<le> s_nzones (fs_info s) * ?bs" using c(1) by (intro mult_le_mono1) simp
    then have lo: "Suc c * ?bs \<le> hashtable (fs_info s)" using geometry_okD(5) [OF g] by linarith
    have "Suc c * ?bs \<le> entry_addr s (ck_hash m mod buckets s)" "Suc c * ?bs \<le> ?new"
      "Suc c * ?bs \<le> ?new + sizeof_chunk_head"
      using lo B(3) E(6) by linarith+
    moreover have "bdata (fs_bufs (after_alloc s brk)) c = bdata (fs_bufs s) c" for brk
      by (rule after_alloc_block [OF g c(2)])
    ultimately show ?thesis by (simp add: after_fill_def Let_def store_bytes_above del: mult_Suc)
  qed
  then show ?thesis by (auto simp: heap_grow_def after_fill_sel after_fill_tracks)
qed

section \<open>The heap described on disk\<close>

definition esb_agrees :: "fs \<Rightarrow> bool" where
  "esb_agrees s \<longleftrightarrow> esb_at (fs_bufs s) (extra_sb_location (fs_info s)) =
     \<lparr>esb_hashtable_location = hashtable (fs_info s), esb_hashtable_size = hashtable_size (fs_info s),
      esb_heap_brk = heap_brk (fs_info s)\<rparr>"

lemma after_alloc_esb:
  assumes g: "geometry_ok s" and b: "brk < 2 ^ 64"
  shows "esb_at (fs_bufs (after_alloc s brk)) (extra_sb_location (fs_info s)) =
    (esb_at (fs_bufs s) (extra_sb_location (fs_info s)))\<lparr>esb_heap_brk := brk\<rparr>"
proof -
  let ?e = "extra_sb_location (fs_info s)" and ?k = "s_blocksize (fs_sb s)"
  have k: "16 < ?k" "24 \<le> ?k" using geometry_blocksize(1) [OF g] by simp_all
  have "fs_bufs (after_alloc s brk) = mark_buffer_dirty (put_num (fs_bufs s) ?e 16 8 brk) ?e"
    using store_bytes_block [of "esb_addr s" "fs_sb s" "le_bytes 8 brk" "fs_bufs s"] k
    by (simp add: esb_addr_def put_num_def after_alloc_def)
  then show ?thesis using b by (simp add: esb_at_def num_at_put_disjoint)
qed

lemma after_fill_esb_block:
  assumes h: "heap_wf s" and f: "chunk_fits s (length d)"
  shows "bdata (fs_bufs (after_fill s m d)) (extra_sb_location (fs_info s)) =
    bdata (fs_bufs (after_alloc s (next_head (fs_sb s) (heap_brk (fs_info s)) + sizeof_chunk_head + length d)))
      (extra_sb_location (fs_info s))"
proof -
  from h have g: "geometry_ok s" by (simp add: heap_wf_def)
  let ?c = "extra_sb_location (fs_info s)" and ?bs = "s_blocksize (fs_sb s)"
    and ?new = "next_head (fs_sb s) (heap_brk (fs_info s))"
  have i: "ck_hash m mod buckets s < buckets s" using geometry_okD(4) [OF g] by simp
  note B = chunk_fits_bounds [OF h f] and E = entry_bounds [OF h i] and lo = geometry_okD(7) [OF g]
  have "Suc ?c * ?bs \<le> entry_addr s (ck_hash m mod buckets s)" "Suc ?c * ?bs \<le> ?new"
    "Suc ?c * ?bs \<le> ?new + sizeof_chunk_head"
    using lo B(3) E(6) by linarith+
  then show ?thesis by (simp add: after_fill_def Let_def store_bytes_above del: mult_Suc)
qed

lemma fill_esb_agrees:
  assumes h: "heap_wf s" and f: "chunk_fits s (length d)" and a: "esb_agrees s"
  shows "esb_agrees (after_fill s m d)"
proof -
  from h have g: "geometry_ok s" by (simp add: heap_wf_def)
  let ?brk = "next_head (fs_sb s) (heap_brk (fs_info s)) + sizeof_chunk_head + length d"
    and ?x = "extra_sb_location (fs_info s)"
  have "?brk < 2 ^ 64" using chunk_fits_bounds(5) [OF h f] by simp
  then have "esb_at (fs_bufs (after_fill s m d)) ?x = (esb_at (fs_bufs s) ?x)\<lparr>esb_heap_brk := ?brk\<rparr>"
    using after_alloc_esb [OF g] num_at_other_block [OF after_fill_esb_block [OF h f]] by (simp add: esb_at_def)
  then show ?thesis using a by (simp add: esb_agrees_def after_fill_sel)
qed

section \<open>Changes that the next mount finds\<close>

text \<open>\<open>disk_step L X s t\<close>: in memory only the top of the heap has moved, the extra super block says
  so, the blocks before the data zones are the same but for the maps and \<open>L\<close>, and every changed
  block but those of \<open>X\<close> will be written.\<close>

definition disk_step :: "nat set \<Rightarrow> nat set \<Rightarrow> fs \<Rightarrow> fs \<Rightarrow> bool" where
  "disk_step L X s t \<longleftrightarrow> fs_sb t = fs_sb s \<and> (\<exists>brk. fs_info t = (fs_info s)\<lparr>heap_brk := brk\<rparr>) \<and>
     breadable (fs_bufs t) = breadable (fs_bufs s) \<and> (esb_agrees s \<longrightarrow> esb_agrees t) \<and>
     (\<forall>c. c < s_firstdatazone (fs_info s) \<longrightarrow> c \<notin> set (s_zmap (fs_info s)) \<longrightarrow> c \<notin> L \<longrightarrow>
        bdata (fs_bufs t) c = bdata (fs_bufs s) c) \<and>
     tracks X (fs_bufs s) (fs_bufs t)"

lemma disk_step_same_info:
  assumes "fs_sb t = fs_sb s" "fs_info t = fs_info s" "breadable (fs_bufs t) = breadable (fs_bufs s)"
    and "bdata (fs_bufs t) (extra_sb_location (fs_info s)) = bdata (fs_bufs s) (extra_sb_location (fs_info s))"
    and "\<And>c. c < s_firstdatazone (fs_info s) \<Longrightarrow> c \<notin> set (s_zmap (fs_info s)) \<Longrightarrow> c \<notin> L \<Longrightarrow>
      bdata (fs_bufs t) c = bdata (fs_bufs s) c"
    and "tracks X (fs_bufs s) (fs_bufs t)"
  shows "disk_step L X s t"
proof -
  have "fs_info t = (fs_info s)\<lparr>heap_brk := heap_brk (fs_info s)\<rparr>" using assms(2) by simp
  moreover have "esb_agrees t = esb_agrees s"
    using num_at_other_block [OF assms(4)] assms(2) by (simp add: esb_agrees_def esb_at_def)
  ultimately show ?thesis using assms unfolding disk_step_def by blast
qed

lemma disk_step_refl: "disk_step {} {} s s"
  by (rule disk_step_same_info) simp_all

lemma disk_stepD:
  assumes "disk_step L X s t"
  shows "fs_sb t = fs_sb s" "\<exists>brk. fs_info t = (fs_info s)\<lparr>heap_brk := brk\<rparr>"
    and "breadable (fs_bufs t) = breadable (fs_bufs s)" "esb_agrees s \<Longrightarrow> esb_agrees t"
    and "c < s_firstdatazone (fs_info s) \<Longrightarrow> c \<notin> set (s_zmap (fs_info s)) \<Longrightarrow> c \<notin> L \<Longrightarrow>
        bdata (fs_bufs t) c = bdata (fs_bufs s) c"
    and "tracks X (fs_bufs s) (fs_bufs t)"
    and "s_firstdatazone (fs_info t) = s_firstdatazone (fs_info s)" "s_zmap (fs_info t) = s_zmap (fs_info s)"
  using assms unfolding disk_step_def by auto

lemma disk_step_trans:
  assumes st: "disk_step L X s t" and tu: "disk_step M Y t u"
  shows "disk_step (L \<union> M) (X \<union> Y) s u"
proof -
  note S = disk_stepD [OF st] and U = disk_stepD [OF tu]
  obtain a b where "fs_info t = (fs_info s)\<lparr>heap_brk := a\<rparr>" "fs_info u = (fs_info t)\<lparr>heap_brk := b\<rparr>"
    using S(2) U(2) by blast
  then have "fs_info u = (fs_info s)\<lparr>heap_brk := b\<rparr>" by simp
  moreover have "bdata (fs_bufs u) c = bdata (fs_bufs s) c"
    if "c < s_firstdatazone (fs_info s)" "c \<notin> set (s_zmap (fs_info s))" "c \<notin> L \<union> M" for c
    using S(5) [of c] U(5) [of c] S(7,8) that by simp
  moreover have "tracks (X \<union> Y) (fs_bufs s) (fs_bufs u)" by (rule tracks_trans [OF S(6) U(6)])
  ultimately show ?thesis unfolding disk_step_def using S(1,3,4) U(1,3,4) by metis
qed

lemma disk_step_dirty:
  "disk_step L X s t \<Longrightarrow> (\<And>b. b \<in> X \<Longrightarrow> b \<notin> Y \<Longrightarrow> b \<in> bdirty (fs_bufs t)) \<Longrightarrow> disk_step L Y s t"
  using tracks_dirty unfolding disk_step_def by blast

text \<open>The operations on the parts of the volume are such steps.\<close>

lemma store_ok_low:
  assumes "store_ok s" "c < s_firstdatazone (fs_info s)"
  shows "\<not> data_block s c" "c \<noteq> extra_sb_location (fs_info s)" "c < s_nzones (fs_info s)"
  using assms by (auto simp: store_ok_def data_block_def)

lemma store_ok_extra:
  assumes "store_ok s"
  shows "extra_sb_location (fs_info s) \<notin> set (s_zmap (fs_info s))"
    "data_block s (extra_sb_location (fs_info s))" "block_busy s (extra_sb_location (fs_info s))"
  using assms zmap_block_not_data [OF volume_okD(1)] by (auto simp: store_ok_def)

lemma disk_step_grow:
  assumes o: "store_ok s" and g: "grow s t bs"
  shows "disk_step {} (set bs) s t"
  using g store_ok_extra [OF o] store_ok_low(1) [OF o]
  by (intro disk_step_same_info) (auto simp: grow_def)

lemma disk_step_heap:
  assumes o: "store_ok s" and g: "heap_grow s t" and e: "esb_agrees s \<longrightarrow> esb_agrees t"
  shows "disk_step {} {} s t"
  using g e store_ok_low(2,3) [OF o] unfolding heap_grow_def disk_step_def by blast

lemma disk_step_list:
  assumes o: "store_ok s" and f: "ll_frame bs s t" and b: "\<forall>b \<in> set bs. data_block s b"
    and x: "extra_sb_location (fs_info s) \<notin> set bs"
  shows "disk_step {} {} s t"
  using f b x store_ok_extra [OF o] store_ok_low(1) [OF o]
  by (intro disk_step_same_info) (auto simp: ll_frame_def)

lemma disk_step_shrink:
  assumes o: "store_ok s" and f: "shrink s t B {}" and b: "\<forall>b \<in> B. data_block s b"
    and x: "extra_sb_location (fs_info s) \<notin> B"
  shows "disk_step {} B s t"
  using f b x store_ok_extra [OF o] store_ok_low(1) [OF o]
  by (intro disk_step_same_info) (auto simp: shrink_def)

lemma update_inode_tracks: "V2_cominix_update_inode k s ino = Some (t, bh) \<Longrightarrow> tracks {} (fs_bufs s) (fs_bufs t)"
  using update_inode_frame(4,5,7) [of k s ino t bh] by (auto simp: tracks_def)

lemma disk_step_update:
  assumes o: "store_ok s" and u: "V2_cominix_update_inode k s ino = Some (t, bh)"
    and b: "bh < s_firstdatazone (fs_info s)"
  shows "disk_step {bh} {} s t"
  using update_inode_frame [OF u] update_inode_tracks [OF u] store_ok_low(2) [OF o b]
  by (intro disk_step_same_info) auto

section \<open>Placing one chunk\<close>

text \<open>The key under which a chunk is stored; the contents stored in the heap.\<close>

definition chunk_key :: "file_env \<Rightarrow> byte list \<Rightarrow> nat" where
  "chunk_key fe c = (case md5_hash (fe_kmalloc fe) (fe_crypto fe) c (length c) of
     Inl _ \<Rightarrow> 0 | Inr digest \<Rightarrow> digest_key digest)"

definition heap_contents :: "fs \<Rightarrow> byte list set" where
  "heap_contents s = {d. \<exists>l h. chunk_holds s l h d}"

lemma chunk_key_bound: "chunk_key fe c < 2 ^ 64"
  using digest_key_bound by (simp add: chunk_key_def split: sum.split)

lemma holds_bound:
  assumes h: "heap_wf s" and l: "chunk_holds s l k d"
  shows "l \<noteq> 0" and "l < 2 ^ 32"
proof -
  from h have g: "geometry_ok s" and m: "heap_brk (fs_info s) \<le> max_brk (fs_info s)" by (simp_all add: heap_wf_def)
  from stored_bucket [OF h] l have w: "chunk_wf s l" by (auto simp: chunk_holds_def)
  show "l \<noteq> 0" using chunk_wf_pos [OF g w] by simp
  show "l < 2 ^ 32" using w m geometry_okD(8) [OF g] by (simp add: chunk_wf_def sizeof_chunk_head_def)
qed

lemma store_ok_grow:
  assumes "store_ok s" "heap_grow s t" "heap_wf t"
  shows "store_ok t"
  using assms heap_grow_volume [OF assms(2)] heap_grow_sel [OF assms(2)] by (simp add: store_ok_def)

lemma store_chunk_spec:
  assumes o: "store_ok s" and ky: "heap.keyed (chunk_key fe) s"
    and inj: "inj_on (chunk_key fe) (insert c (heap_contents s))"
    and c: "c \<noteq> []" "length c < 2 ^ 32" and f: "c \<notin> heap_contents s \<Longrightarrow> chunk_fits s (length c)"
    and md: "md5_hash (fe_kmalloc fe) (fe_crypto fe) c (length c) = Inr g"
  shows "\<exists>t l. store_chunk fe s c (length c) = Inr (t, l) \<and> store_ok t \<and> heap.keyed (chunk_key fe) t \<and>
    chunk_holds t l (chunk_key fe c) c \<and> heap_grow s t \<and> (esb_agrees s \<longrightarrow> esb_agrees t) \<and>
    (\<forall>l' h d. chunk_holds s l' h d \<longrightarrow> chunk_holds t l' h d) \<and> heap_contents t = insert c (heap_contents s) \<and>
    heap_brk (fs_info s) \<le> heap_brk (fs_info t) \<and>
    heap_brk (fs_info t) \<le> heap_brk (fs_info s) + (if c \<in> heap_contents s then 0 else length c + 47)"
proof -
  let ?m = "\<lparr>ck_hash = chunk_key fe c, ck_length = length c, ck_refcount = 0, ck_flags = 0, ck_next = 0\<rparr>"
  from o have h: "heap_wf s" and v: "volume_ok s" by (simp_all add: store_ok_def)
  then have g: "geometry_ok s" by (simp add: heap_wf_def)
  have k: "digest_key g = chunk_key fe c" by (simp add: chunk_key_def md)
  obtain l where l: "chunk_search_hashtable s (chunk_key fe c) = Inr l" using heap.search_total [OF h] by blast
  have st: "store_chunk fe s c (length c) = bindE (if l \<noteq> 0 then Inr (s, l) else chunk_fill_hashtable s ?m c)
      (\<lambda>(s', location'). bindE (bug_on (location' = 0)) (\<lambda>_. Inr (s', location')))"
    by (simp add: store_chunk_def md k l u32_id [OF c(2)])
  show ?thesis
  proof (cases "l = 0")
    case False
    have "d' = c" if d': "chunk_holds s l' (chunk_key fe c) d'" for l' d'
    proof -
      have "chunk_key fe d' = chunk_key fe c" using ky d' by (auto simp: heap.keyed_def)
      moreover have "d' \<in> insert c (heap_contents s)" using d' by (auto simp: heap_contents_def)
      ultimately show ?thesis using inj by (meson inj_onD insertI1)
    qed
    then have "chunk_holds s l (chunk_key fe c) c" using heap.place_hit [OF h ky l False] by blast
    moreover from this have "c \<in> heap_contents s" by (auto simp: heap_contents_def)
    ultimately show ?thesis using st False o ky by (intro exI [of _ s] exI [of _ l]) auto
  next
    case True
    have new: "c \<notin> heap_contents s"
    proof
      assume "c \<in> heap_contents s"
      then obtain l0 h where h0: "chunk_holds s l0 h c" by (auto simp: heap_contents_def)
      then have "h = chunk_key fe c" using ky by (auto simp: heap.keyed_def)
      then show False using heap.holds_found [OF h] h0 l True by blast
    qed
    note f = f [OF new]
    let ?new = "next_head (fs_sb s) (heap_brk (fs_info s))"
    have fill: "chunk_fill_hashtable s ?m c = Inr (after_fill s ?m c, ?new)" by (rule chunk_fill_spec [OF h c(1) _ f]) simp
    from heap.place_miss [OF h ky, of ?m c] c(1) f chunk_key_bound [of fe c] fill
    have P: "heap_wf (after_fill s ?m c)" "heap.keyed (chunk_key fe) (after_fill s ?m c)" "?new \<noteq> 0"
        "chunk_holds (after_fill s ?m c) ?new (chunk_key fe c) c"
        "\<forall>l' h d. chunk_holds s l' h d \<longrightarrow> chunk_holds (after_fill s ?m c) l' h d" by auto
    have gr: "heap_grow s (after_fill s ?m c)" by (rule after_fill_grow [OF o f])
    have "d = c \<or> d \<in> heap_contents s" if "chunk_holds (after_fill s ?m c) l' k' d" for l' k' d
    proof (cases "l' = ?new")
      case True
      then show ?thesis using that P(4) heap.holds_unique by blast
    next
      case False
      then show ?thesis using after_fill_holds_only [OF h f that] by (auto simp: heap_contents_def)
    qed
    then have "heap_contents (after_fill s ?m c) \<subseteq> insert c (heap_contents s)"
      unfolding heap_contents_def [of "after_fill s ?m c"] by blast
    moreover have "insert c (heap_contents s) \<subseteq> heap_contents (after_fill s ?m c)"
      using P(4,5) unfolding heap_contents_def by blast
    moreover have "heap_brk (fs_info s) \<le> heap_brk (fs_info (after_fill s ?m c))"
      using chunk_fits_bounds(1) [OF h f] by (simp add: after_fill_sel)
    moreover have "heap_brk (fs_info (after_fill s ?m c)) \<le> heap_brk (fs_info s) + (length c + 47)"
      using next_head_bounds(2) [OF geometry_blocksize(3) [OF g], of "heap_brk (fs_info s)"]
      by (simp add: after_fill_sel sizeof_chunk_head_def)
    ultimately show ?thesis
      using st True fill new P gr store_ok_grow [OF o gr P(1)] fill_esb_agrees [OF h f]
      by (intro exI [of _ "after_fill s ?m c"] exI [of _ ?new]) simp
  qed
qed

end
