(* ===== verification/MountVolume.thy ===== *)
theory MountVolume
  imports MountSpec FileSpec
begin

text \<open>
  From a mounted image to the invariants of the other components: the maps are well formed, a new
  extra super block leaves a volume whose chunk store is empty and well formed, and an extra super
  block on disk describes the heap in memory.
\<close>

declare add_2_eq_Suc [simp del] add_2_eq_Suc' [simp del] upt_Suc [simp del] One_nat_def [simp del]

section \<open>The maps\<close>

lemma image_fs_sel [simp]:
  "fs_sb (image_fs sb d bc k) = image_sb sb d k" "fs_info (image_fs sb d bc k) = image_info d bc k"
  "breadable (fs_bufs (image_fs sb d bc k)) = breadable bc" "s_blocksize_bits (image_sb sb d k) = k"
  by (simp_all add: image_fs_def image_sb_def cominix_set_bit_def put_byte_def)

lemma image_info_sel [simp]:
  "s_nzones (image_info d bc k) = drop_bit k (esb_hashtable_location (image_esb d bc))"
  "s_firstdatazone (image_info d bc k) = m3s_firstdatazone (m3s_of d)"
  "s_ninodes (image_info d bc k) = m3s_ninodes (m3s_of d)"
  "s_imap_blocks (image_info d bc k) = m3s_imap_blocks (m3s_of d)"
  "s_zmap_blocks (image_info d bc k) = m3s_zmap_blocks (m3s_of d)"
  "s_imap (image_info d bc k) = [2..<2 + m3s_imap_blocks (m3s_of d)]"
  "s_zmap (image_info d bc k) = [2 + m3s_imap_blocks (m3s_of d)..<2 + m3s_imap_blocks (m3s_of d) + m3s_zmap_blocks (m3s_of d)]"
  "extra_sb_location (image_info d bc k) = image_loc d"
  "hashtable (image_info d bc k) = esb_hashtable_location (image_esb d bc)"
  "hashtable_size (image_info d bc k) = esb_hashtable_size (image_esb d bc)"
  "heap_brk (image_info d bc k) = esb_heap_brk (image_esb d bc)"
  "max_brk (image_info d bc k) = m3s_zones (m3s_of d) * 2 ^ k"
  "s_version (image_info d bc k) = MINIX_V3"
  by (simp_all add: image_info_def Let_def)

lemma image_volume_ok:
  assumes "image_ok d bc k"
  shows "volume_ok (image_fs sb d bc k)"
proof -
  note i = image_okD [OF assms]
  have h: "[2 + m3s_imap_blocks (m3s_of d)..<2 + m3s_imap_blocks (m3s_of d) + m3s_zmap_blocks (m3s_of d)] ! 0 = 2 + m3s_imap_blocks (m3s_of d)"
    using i(6) by (simp only: nth_upt)
  have z: "zmap_wf (image_fs sb d bc k)"
    using i(6-8,12) h by (auto simp: zmap_wf_def Let_def bits_per_zone_def image_fs_def)
  have "breadable bc b" if "b < drop_bit k (esb_hashtable_location (image_esb d bc))" for b
    using i(14) [of b] i(9) that by simp
  then show ?thesis
    using z i(3,9) image_bounds(3) [of d] by (auto simp: volume_ok_def data_block_def)
qed

lemma image_imap_wf: "image_ok d bc k \<Longrightarrow> imap_wf (image_fs sb d bc k)"
  using image_bounds(4) [of d] by (simp add: imap_wf_def)

section \<open>The root inode\<close>

lemma image_bufs_other:
  "b \<noteq> 2 \<Longrightarrow> b \<noteq> 2 + m3s_imap_blocks (m3s_of d) \<Longrightarrow> bdata (fs_bufs (image_fs sb d bc k)) b = bdata bc b"
  by (simp add: image_fs_def cominix_set_bit_def put_byte_def)

lemma image_root:
  assumes i: "image_ok d bc k" and r: "root_ok me d bc"
  obtains root where "cominix_iget (me_kernel me) (image_fs sb d bc k) (me_iget_locked me MINIX_ROOT_INO) = Inr root"
    "me_make_root me root"
proof -
  note i' = image_okD [OF i]
  obtain r where l: "me_iget_locked me MINIX_ROOT_INO = Iget_new r" "i_ino r = 1"
    and n: "num_at bc (2 + m3s_imap_blocks (m3s_of d) + m3s_zmap_blocks (m3s_of d)) 2 2 \<noteq> 0"
    and m: "\<And>ino. me_make_root me ino" using r by (auto simp: root_ok_def MINIX_ROOT_INO_def)
  let ?b = "2 + m3s_imap_blocks (m3s_of d) + m3s_zmap_blocks (m3s_of d)"
  have sl: "inode_slot (image_fs sb d bc k) 1 = (?b, 0)" by (simp add: inode_slot_def Let_def)
  have "breadable bc ?b" using i'(14) [of ?b] i'(7-9) by simp
  then have "cominix_V2_raw_inode (image_fs sb d bc k) 1 = Some (?b, 0)"
    using i'(10) by (simp add: raw_inode_slot sl)
  moreover have "num_at (fs_bufs (image_fs sb d bc k)) ?b 2 2 = num_at bc ?b 2 2"
    using i'(5,6) by (intro num_at_other_block image_bufs_other) simp_all
  ultimately have "\<exists>root. cominix_iget (me_kernel me) (image_fs sb d bc k) (me_iget_locked me MINIX_ROOT_INO) = Inr root"
    using l n by (simp add: cominix_iget_def V2_cominix_iget_def Let_def)
  with m that show thesis by blast
qed

text \<open>The mounted volume before a new extra super block is made.\<close>

definition rooted_vs :: "vsuper \<Rightarrow> raw_super \<Rightarrow> bufcache \<Rightarrow> nat \<Rightarrow> inode \<Rightarrow> vsuper" where
  "rooted_vs v d bc k root = (image_vs v d bc k)\<lparr>vs_root := Some root, vs_sbh_dirty := \<not> s_rdonly (vs_sb v)\<rparr>"

lemma rooted_vs_sel [simp]:
  "vs_fs (rooted_vs v d bc k root) = Inr (image_fs (vs_sb v) d bc k)"
  "vs_sbh (rooted_vs v d bc k root) = d" "vs_root (rooted_vs v d bc k root) = Some root"
  "vs_info (rooted_vs v d bc k root) = Some (image_info d bc k)"
  by (simp_all add: rooted_vs_def vs_fs_def image_vs_def put_fs_def image_fs_def)

lemma fill_super_rooted:
  assumes i: "image_ok d bc k" and e: "env_presents me d bc k" and r: "root_ok me d bc"
  obtains root where "cominix_fill_super me v =
    (if image_loc d = 0 then bindE (cminix_alloc_extra_super (rooted_vs v d bc k root)) (\<lambda>(w, ok). Inr (w, None))
     else Inr (rooted_vs v d bc k root, None))"
proof -
  obtain root where root: "cominix_iget (me_kernel me) (image_fs (vs_sb v) d bc k) (me_iget_locked me MINIX_ROOT_INO) = Inr root"
    "me_make_root me root" by (rule image_root [OF i r])
  have "s_rdonly (vs_sb (image_vs v d bc k)) = s_rdonly (vs_sb v)"
    by (simp add: image_vs_def put_fs_def image_sb_def)
  then have w: "s_rdonly (vs_sb (image_vs v d bc k)) \<Longrightarrow> (image_vs v d bc k)\<lparr>vs_root := Some root\<rparr> = rooted_vs v d bc k root"
    "\<not> s_rdonly (vs_sb (image_vs v d bc k)) \<Longrightarrow>
      (image_vs v d bc k)\<lparr>vs_root := Some root, vs_sbh_dirty := True\<rparr> = rooted_vs v d bc k root"
    by (cases v; simp add: rooted_vs_def image_vs_def put_fs_def)+
  have "cominix_fill_super me v =
    (if image_loc d = 0 then bindE (cminix_alloc_extra_super (rooted_vs v d bc k root)) (\<lambda>(w, ok). Inr (w, None))
     else Inr (rooted_vs v d bc k root, None))"
    unfolding fill_super_image [OF i e] mount_root_def image_vs_fs bindE.simps root Let_def
    by (simp add: root w)
  with that show thesis .
qed

section \<open>A new extra super block\<close>

text \<open>What a new extra super block at \<open>x\<close> makes of the volume \<open>s\<close>.\<close>

definition fresh_esb :: "fs \<Rightarrow> fs \<Rightarrow> nat \<Rightarrow> bool" where
  "fresh_esb s t x \<longleftrightarrow> store_ok t \<and> fs_sb t = fs_sb s \<and> fs_info t = (fs_info s)\<lparr>extra_sb_location := x\<rparr> \<and>
     breadable (fs_bufs t) = breadable (fs_bufs s) \<and> data_block s x \<and> \<not> block_busy s x \<and>
     (\<forall>c. data_block s c \<longrightarrow> (block_busy t c \<longleftrightarrow> c = x \<or> block_busy s c)) \<and>
     (\<forall>c < s_nzones (fs_info s). c \<notin> set (s_zmap (fs_info s)) \<longrightarrow> c \<noteq> x \<longrightarrow> bdata (fs_bufs t) c = bdata (fs_bufs s) c) \<and>
     (\<forall>h. chunk_search_hashtable t h = Inr 0) \<and> tracks {} (fs_bufs s) (fs_bufs t) \<and>
     esb_at (fs_bufs t) x = \<lparr>esb_hashtable_location = hashtable (fs_info s),
       esb_hashtable_size = hashtable_size (fs_info s), esb_heap_brk = heap_brk (fs_info s)\<rparr>"

text \<open>The bytes of the block.\<close>

definition esb_bytes :: "fs \<Rightarrow> bufcache \<Rightarrow> nat \<Rightarrow> bufcache" where
  "esb_bytes s bc x = put_num (put_num (put_num (fill_bytes bc x 0 (s_blocksize (fs_sb s)) 0)
     x 0 8 (hashtable (fs_info s))) x 8 4 (hashtable_size (fs_info s))) x 16 8 (heap_brk (fs_info s))"

lemma esb_bytes_sel [simp]:
  "breadable (esb_bytes s bc x) = breadable bc" "c \<noteq> x \<Longrightarrow> bdata (esb_bytes s bc x) c = bdata bc c"
  "bdirty (esb_bytes s bc x) = bdirty bc" "bdisk (esb_bytes s bc x) = bdisk bc"
  by (simp_all add: esb_bytes_def)

lemma esb_bytes_read:
  assumes "hashtable (fs_info s) < 2 ^ 64" "hashtable_size (fs_info s) < 2 ^ 32" "heap_brk (fs_info s) < 2 ^ 64"
  shows "esb_at (esb_bytes s bc x) x = \<lparr>esb_hashtable_location = hashtable (fs_info s),
    esb_hashtable_size = hashtable_size (fs_info s), esb_heap_brk = heap_brk (fs_info s)\<rparr>"
  using assms by (simp add: esb_at_def esb_bytes_def num_at_put_disjoint)

lemma volume_extra [simp]:
  "volume_ok (s\<lparr>fs_info := (fs_info s)\<lparr>extra_sb_location := x\<rparr>\<rparr>) = volume_ok s"
  "block_busy (s\<lparr>fs_info := (fs_info s)\<lparr>extra_sb_location := x\<rparr>\<rparr>) = block_busy s"
  "data_block (s\<lparr>fs_info := (fs_info s)\<lparr>extra_sb_location := x\<rparr>\<rparr>) = data_block s"
  by (simp_all add: fun_eq_iff volume_ok_def zmap_wf_def Let_def data_block_def block_busy_def block_zone_def zone_busy_def)

lemma reset_with_block:
  assumes v: "volume_ok s" and e: "data_block s x" "block_busy s x" and x: "extra_sb_location (fs_info s) = x"
    and g: "geometry_ok s" and m: "heap_base s \<le> max_brk (fs_info s)" and t8: "8 dvd hashtable_size (fs_info s)"
  defines "t \<equiv> (after_reset s)\<lparr>fs_bufs := mark_buffer_dirty (fs_bufs (after_reset s)) x\<rparr>"
  shows "store_ok t" "chunk_search_hashtable t h = Inr 0" "data_block s c \<Longrightarrow> block_busy t c = block_busy s c"
    and "c < s_nzones (fs_info s) \<Longrightarrow> bdata (fs_bufs t) c = bdata (fs_bufs s) c"
    and "tracks {} (fs_bufs s) (fs_bufs t)"
proof -
  have b: "bdata (fs_bufs t) c = bdata (fs_bufs s) c" if "c < s_nzones (fs_info s)" for c
  proof -
    have "Suc c * s_blocksize (fs_sb s) \<le> s_nzones (fs_info s) * s_blocksize (fs_sb s)"
      using that by (intro mult_le_mono1) simp
    then have "Suc c * s_blocksize (fs_sb s) \<le> hashtable (fs_info s)" using geometry_okD(5) [OF g] by linarith
    then show ?thesis by (simp add: t_def after_reset_def Let_def store_bytes_above del: mult_Suc)
  qed
  then show "c < s_nzones (fs_info s) \<Longrightarrow> bdata (fs_bufs t) c = bdata (fs_bufs s) c" .
  have hs: "heap_same (after_reset s) t" by (simp add: heap_same_def t_def)
  have h: "heap_wf (after_reset s)" by (rule reset_heap_wf [OF g m t8])
  have k: "tracks {} (fs_bufs s) (fs_bufs t)"
    unfolding t_def by (simp, rule tracks_same [OF reset_tracks tracks_mark])
  then show "tracks {} (fs_bufs s) (fs_bufs t)" .
  have hg: "heap_grow s t" using b k by (auto simp: heap_grow_def t_def)
  have ht: "heap_wf t" by (rule heap_same_wf [OF hs h])
  note vt = heap_grow_volume [OF hg v, unfolded x, OF e(1)]
  show "data_block s c \<Longrightarrow> block_busy t c = block_busy s c" by (rule vt(2))
  show "store_ok t"
    using vt(1) vt(2) [OF e(1)] e ht heap_grow_sel(7,11) [OF hg] x by (simp add: store_ok_def)
  have "bucket t i []" if "i < buckets t" for i
    using heap_same_bucket [OF hs reset_geometry [OF g] reset_bucket [OF t8]] that heap_same_defs(1) [OF hs]
    by (simp add: buckets_def)
  then show "chunk_search_hashtable t h = Inr 0" by (rule empty_heap_search [OF ht])
qed

lemma alloc_extra_works:
  assumes fsv: "vs_fs v = Inr s" and vol: "volume_ok s" and z: "extra_sb_location (fs_info s) = 0"
    and g: "geometry_ok s" and m: "heap_base s \<le> max_brk (fs_info s)" and t8: "8 dvd hashtable_size (fs_info s)"
    and brk: "heap_brk (fs_info s) = heap_base s" and free: "data_block s c" "\<not> block_busy s c"
  obtains t x where "cminix_alloc_extra_super v = Inr ((put_fs v t)
      \<lparr>vs_sbh := raw_put (raw_put (vs_sbh v) 4 2 (x AND (2 ^ 16 - 1))) 14 2 (drop_bit 16 x), vs_sbh_dirty := True\<rparr>, True)"
    "fresh_esb s t x"
proof -
  have "zones.free_set s \<noteq> {}" using free by (auto simp: zones.free_set_def)
  then obtain s1 x where r: "cominix_new_block_sb s = (s1, x)" "x \<noteq> 0" and g1: "grow s s1 [x]"
    using new_block_available [OF vol] unfolding new_block_same by metis
  have s1: "fs_sb s1 = fs_sb s" "fs_info s1 = fs_info s" "breadable (fs_bufs s1) = breadable (fs_bufs s)"
    and x: "data_block s x" "\<not> block_busy s x" using g1 by (simp_all add: grow_def)
  have x32: "u32 x = x" and xb: "breadable (fs_bufs s1) x" using volume_okD(3,4) [OF vol x(1)] s1 by (simp_all add: u32_id)
  let ?b4 = "esb_bytes s (fs_bufs s1) x"
  let ?s2 = "s1\<lparr>fs_info := (fs_info s1)\<lparr>extra_sb_location := x\<rparr>, fs_bufs := ?b4\<rparr>"
  have bs: "24 \<le> s_blocksize (fs_sb s)" using geometry_blocksize(1) [OF g] by simp
  have "grow s (s1\<lparr>fs_bufs := ?b4\<rparr>) [x]" by (rule grow_write [OF g1, of x]) (auto simp: tracks_def)
  then obtain u where u: "u = s1\<lparr>fs_bufs := ?b4\<rparr>" and g2: "grow s u [x]" by blast
  have s2: "?s2 = u\<lparr>fs_info := (fs_info u)\<lparr>extra_sb_location := x\<rparr>\<rparr>" by (simp add: u)
  have v2: "volume_ok ?s2" "data_block ?s2 = data_block s"
    and b2: "data_block s c \<Longrightarrow> block_busy ?s2 c \<longleftrightarrow> c = x \<or> block_busy s c" for c
    unfolding s2 volume_extra using g2 grow_data_block [OF g2] by (auto simp: grow_def)
  have xz: "x < s_nzones (fs_info s)" using x(1) by (simp add: data_block_def)
  then have "Suc x * s_blocksize (fs_sb s) \<le> s_nzones (fs_info s) * s_blocksize (fs_sb s)" by (intro mult_le_mono1) simp
  then have "Suc x * s_blocksize (fs_sb s) \<le> hashtable (fs_info s)" using geometry_okD(5) [OF g] by linarith
  then have g3: "geometry_ok ?s2" using g by (simp add: geometry_ok_def Let_def s1)
  have m3: "heap_base ?s2 \<le> max_brk (fs_info ?s2)" and t3: "8 dvd hashtable_size (fs_info ?s2)"
    and hb: "heap_base ?s2 = heap_base s"
    using m t8 by (simp_all add: heap_base_def s1)
  have x2: "data_block ?s2 x" "block_busy ?s2 x" using b2 [OF x(1)] v2(2) x(1) by simp_all
  define t where "t = (after_reset ?s2)\<lparr>fs_bufs := mark_buffer_dirty (fs_bufs (after_reset ?s2)) x\<rparr>"
  note R = reset_with_block [OF v2(1) x2 _ g3 m3 t3, folded t_def, simplified]
  have sz: "hashtable (fs_info s) < 2 ^ 64" "hashtable_size (fs_info s) < 2 ^ 32" "heap_brk (fs_info s) < 2 ^ 64"
    using m geometry_okD(6,8) [OF g] brk by (simp_all add: heap_base_def)
  have tx: "bdata (fs_bufs t) x = bdata ?b4 x" using R(4) [of x] xz s1 by simp
  have "esb_at (fs_bufs t) x = esb_at ?b4 x"
    using num_at_other_block [OF tx] by (simp add: esb_at_def)
  then have e: "esb_at (fs_bufs t) x = \<lparr>esb_hashtable_location = hashtable (fs_info s),
       esb_hashtable_size = hashtable_size (fs_info s), esb_heap_brk = heap_brk (fs_info s)\<rparr>"
    using esb_bytes_read [OF sz] by simp
  have "fs_info t = (fs_info s)\<lparr>extra_sb_location := x\<rparr>"
    using brk hb by (simp add: t_def s1)
  moreover have "bdata (fs_bufs t) c = bdata (fs_bufs s) c"
    if "c < s_nzones (fs_info s)" "c \<notin> set (s_zmap (fs_info s))" "c \<noteq> x" for c
    using R(4) [of c] that g1 by (simp add: s1 grow_def)
  moreover have "tracks {} (fs_bufs s) (fs_bufs t)"
  proof -
    have "tracks {x} (fs_bufs s) ?b4" using g2 by (simp add: u grow_def)
    moreover have "tracks {x} ?b4 (fs_bufs t)" using tracks_mono [OF R(5)] by simp
    ultimately have "tracks {x} (fs_bufs s) (fs_bufs t)" by (rule tracks_same)
    then show ?thesis by (rule tracks_dirty) (simp add: t_def)
  qed
  ultimately have fresh: "fresh_esb s t x"
    using R(1-3) x b2 v2(2) e by (simp add: fresh_esb_def) (simp add: t_def s1)
  have "cminix_alloc_extra_super v = Inr ((put_fs v t)
      \<lparr>vs_sbh := raw_put (raw_put (vs_sbh v) 4 2 (x AND (2 ^ 16 - 1))) 14 2 (drop_bit 16 x), vs_sbh_dirty := True\<rparr>, True)"
    using volume_okD(2) [OF vol] bs r z xb reset_spec [OF g3 m3 t3]
    by (simp add: cminix_alloc_extra_super_def fsv Let_def x32 s1 load_block_def memset_buf_def set_num_def
        esb_bytes_def [symmetric] t_def)
  then show thesis using that fresh by blast
qed

end
