(* ===== verification/Chunking.thy ===== *)
theory Chunking
  imports FileSpec
begin

text \<open>
  The chunking loop of file.c: under documented behaviour of the kernel's reads and of the digest,
  and with room for the list and the heap, it ends, and leaves a list of entries that name, in
  order, stored copies of the consecutive chunks of the file.
\<close>

section \<open>The chunks of a file\<close>

function chunks_from :: "byte list \<Rightarrow> nat \<Rightarrow> byte list list" where
  "chunks_from d p =
     (let n = cdc_get_chunk_size (file_bytes d) (length d) p in
      if p < length d \<and> 0 < n then take n (drop p d) # chunks_from d (p + n) else [])"
  by pat_completeness auto
termination
  by (relation "measure (\<lambda>(d, p). length d - p)") auto

declare chunks_from.simps [simp del]

lemma chunks_from_past: "length d \<le> p \<Longrightarrow> chunks_from d p = []"
  by (subst chunks_from.simps) (simp add: Let_def)

lemma chunks_from_step:
  assumes "p < length d" "length d < 2 ^ 63"
  defines "n \<equiv> cdc_get_chunk_size (file_bytes d) (length d) p"
  shows "chunks_from d p = take n (drop p d) # chunks_from d (p + n)"
    and "0 < n" "p + n \<le> length d" "n \<le> MaxSize" "length (take n (drop p d)) = n"
proof -
  note B = cdc_bounds [OF assms(1,2), of "file_bytes d", folded n_def]
  show "0 < n" "p + n \<le> length d" "n \<le> MaxSize" "length (take n (drop p d)) = n" using B assms(1) by auto
  then show "chunks_from d p = take n (drop p d) # chunks_from d (p + n)"
    using assms(1) by (subst chunks_from.simps) (simp add: Let_def n_def)
qed

lemma chunks_from_concat: "length d < 2 ^ 63 \<Longrightarrow> concat (chunks_from d p) = drop p d"
proof (induction d p rule: chunks_from.induct)
  case (1 d p)
  show ?case
  proof (cases "p < length d")
    case True
    let ?n = "cdc_get_chunk_size (file_bytes d) (length d) p"
    note S = chunks_from_step [OF True "1.prems"]
    have "concat (chunks_from d (p + ?n)) = drop (p + ?n) d"
      using "1.IH" [OF refl] True S(2) "1.prems" by simp
    then have "concat (chunks_from d p) = take ?n (drop p d) @ drop ?n (drop p d)"
      by (simp add: S(1) add.commute)
    then show ?thesis by (simp only: append_take_drop_id)
  qed (simp add: chunks_from_past)
qed

lemma chunks_from_length: "length d < 2 ^ 63 \<Longrightarrow> length (chunks_from d p) \<le> length d - p"
proof (induction d p rule: chunks_from.induct)
  case (1 d p)
  show ?case
  proof (cases "p < length d")
    case True
    let ?n = "cdc_get_chunk_size (file_bytes d) (length d) p"
    note S = chunks_from_step [OF True "1.prems"]
    have "length (chunks_from d (p + ?n)) \<le> length d - (p + ?n)"
      using "1.IH" [OF refl] True S(2) "1.prems" by simp
    then show ?thesis using S(1,2) True by simp
  qed (simp add: chunks_from_past)
qed

section \<open>The kernel's part\<close>

text \<open>Reads deliver the contents \<open>d\<close> of the file, memory for a chunk can be had, the digest of a
  chunk can be computed.\<close>

definition env_ok :: "file_env \<Rightarrow> byte list \<Rightarrow> bool" where
  "env_ok fe d \<longleftrightarrow> (\<forall>p n. fe_kernel_read fe p n = Inr (take n (drop p d))) \<and>
     (\<forall>n \<le> MaxSize. fe_kmalloc fe n) \<and>
     (\<forall>c. length c \<le> MaxSize \<longrightarrow> (\<exists>g. md5_hash (fe_kmalloc fe) (fe_crypto fe) c (length c) = Inr g))"

lemma env_ok_byte: "env_ok fe d \<Longrightarrow> one_byte (fe_kernel_read fe) = file_bytes d"
proof
  fix p assume "env_ok fe d"
  then have r: "fe_kernel_read fe p 1 = Inr (take 1 (drop p d))" by (simp add: env_ok_def)
  show "one_byte (fe_kernel_read fe) p = file_bytes d p"
  proof (cases "p < length d")
    case True
    then show ?thesis using r by (simp add: one_byte_def file_bytes_def flip: Cons_nth_drop_Suc)
  next
    case False
    then show ?thesis using r by (simp add: one_byte_def file_bytes_def)
  qed
qed

lemma read_chunk_whole:
  assumes "env_ok fe d" "0 < n" "p + n \<le> length d"
  shows "read_chunk (fe_kernel_read fe) n [] p = Some (Inr (Inr (take n (drop p d), p + n)))"
proof -
  have l: "length (take n (drop p d)) = n" using assms(3) by simp
  then have "read_chunk (fe_kernel_read fe) n (take n (drop p d)) (p + n) = Some (Inr (Inr (take n (drop p d), p + n)))"
    by (subst read_chunk.simps) simp
  then show ?thesis using assms l by (subst read_chunk.simps) (simp add: env_ok_def)
qed

section \<open>What chunking leaves alone\<close>

text \<open>\<open>W\<close> are the blocks that may be written: the list's and free ones.\<close>

definition chunk_frame :: "nat set \<Rightarrow> fs \<Rightarrow> fs \<Rightarrow> bool" where
  "chunk_frame W s t \<longleftrightarrow> fs_sb t = fs_sb s \<and> (\<exists>brk. fs_info t = (fs_info s)\<lparr>heap_brk := brk\<rparr>) \<and>
     breadable (fs_bufs t) = breadable (fs_bufs s) \<and>
     (\<forall>c. c < s_nzones (fs_info s) \<longrightarrow> c \<noteq> extra_sb_location (fs_info s) \<longrightarrow>
        c \<notin> set (s_zmap (fs_info s)) \<longrightarrow> c \<notin> W \<longrightarrow> bdata (fs_bufs t) c = bdata (fs_bufs s) c) \<and>
     (\<forall>c. data_block s c \<longrightarrow> block_busy s c \<longrightarrow> block_busy t c) \<and>
     (\<forall>l h x. chunk_holds s l h x \<longrightarrow> chunk_holds t l h x)"

lemma chunk_frame_sel:
  assumes "chunk_frame W s t"
  shows "fs_sb t = fs_sb s" "s_nzones (fs_info t) = s_nzones (fs_info s)"
    "s_firstdatazone (fs_info t) = s_firstdatazone (fs_info s)" "s_zmap (fs_info t) = s_zmap (fs_info s)"
    "extra_sb_location (fs_info t) = extra_sb_location (fs_info s)"
    "s_imap_blocks (fs_info t) = s_imap_blocks (fs_info s)" "s_zmap_blocks (fs_info t) = s_zmap_blocks (fs_info s)"
    "s_ninodes (fs_info t) = s_ninodes (fs_info s)"
    "max_brk (fs_info t) = max_brk (fs_info s)" "breadable (fs_bufs t) = breadable (fs_bufs s)"
    "data_block t = data_block s"
proof -
  from assms obtain brk where "fs_sb t = fs_sb s" "fs_info t = (fs_info s)\<lparr>heap_brk := brk\<rparr>"
      "breadable (fs_bufs t) = breadable (fs_bufs s)"
    unfolding chunk_frame_def by blast
  then show "fs_sb t = fs_sb s" "s_nzones (fs_info t) = s_nzones (fs_info s)"
    "s_firstdatazone (fs_info t) = s_firstdatazone (fs_info s)" "s_zmap (fs_info t) = s_zmap (fs_info s)"
    "extra_sb_location (fs_info t) = extra_sb_location (fs_info s)"
    "s_imap_blocks (fs_info t) = s_imap_blocks (fs_info s)" "s_zmap_blocks (fs_info t) = s_zmap_blocks (fs_info s)"
    "s_ninodes (fs_info t) = s_ninodes (fs_info s)"
    "max_brk (fs_info t) = max_brk (fs_info s)" "breadable (fs_bufs t) = breadable (fs_bufs s)"
    "data_block t = data_block s"
    by (simp_all add: data_block_def fun_eq_iff)
qed

lemma chunk_frame_refl [simp]: "chunk_frame W s s"
  unfolding chunk_frame_def by (intro conjI exI [of _ "heap_brk (fs_info s)"]) auto

lemma chunk_frame_trans:
  assumes st: "chunk_frame W s t" and tu: "chunk_frame W t u"
  shows "chunk_frame W s u"
proof -
  note S = chunk_frame_sel [OF st]
  obtain b1 b2 where "fs_info t = (fs_info s)\<lparr>heap_brk := b1\<rparr>" "fs_info u = (fs_info t)\<lparr>heap_brk := b2\<rparr>"
    using st tu unfolding chunk_frame_def by blast
  then have "fs_info u = (fs_info s)\<lparr>heap_brk := b2\<rparr>" by simp
  moreover have "bdata (fs_bufs u) c = bdata (fs_bufs s) c"
    if "c < s_nzones (fs_info s)" "c \<noteq> extra_sb_location (fs_info s)" "c \<notin> set (s_zmap (fs_info s))" "c \<notin> W" for c
  proof -
    have "bdata (fs_bufs u) c = bdata (fs_bufs t) c" using tu that S(2,4,5) unfolding chunk_frame_def by presburger
    moreover have "bdata (fs_bufs t) c = bdata (fs_bufs s) c" using st that unfolding chunk_frame_def by presburger
    ultimately show ?thesis by simp
  qed
  moreover have "block_busy u c" if "data_block s c" "block_busy s c" for c
  proof -
    have "block_busy t c" using st that unfolding chunk_frame_def by blast
    moreover have "data_block t c" using that(1) S(11) by simp
    ultimately show ?thesis using tu unfolding chunk_frame_def by blast
  qed
  moreover have "chunk_holds u l h x" if "chunk_holds s l h x" for l h x
    using st tu that unfolding chunk_frame_def by blast
  moreover have "fs_sb u = fs_sb s" "breadable (fs_bufs u) = breadable (fs_bufs s)"
    using chunk_frame_sel(1,10) [OF tu] S(1,10) by simp_all
  ultimately show ?thesis unfolding chunk_frame_def by blast
qed

lemma chunk_frame_grow:
  assumes "heap_grow s t" "volume_ok s" "data_block s (extra_sb_location (fs_info s))"
    and "\<forall>l h x. chunk_holds s l h x \<longrightarrow> chunk_holds t l h x"
  shows "chunk_frame W s t"
  unfolding chunk_frame_def
  using assms(1,4) heap_grow_volume(2) [OF assms(1-3)] by (simp only: heap_grow_def simp_thms) blast

lemma chunk_frame_list:
  assumes f: "ll_frame bs s t" and h: "heap_wf s" "heap_same s t"
    and W: "set bs \<union> zones.free_set s \<subseteq> W"
  shows "chunk_frame W s t"
proof -
  have "\<not> (data_block s c \<and> \<not> block_busy s c) \<and> c \<notin> set bs" if "c \<notin> W" for c
    using W that by (auto simp: zones.free_set_def)
  moreover have "\<exists>brk. fs_info s = (fs_info s)\<lparr>heap_brk := brk\<rparr>" by (rule exI [of _ "heap_brk (fs_info s)"]) simp
  ultimately show ?thesis
    using f heap_same_holds [OF h(2,1)] unfolding chunk_frame_def ll_frame_def by (simp only: simp_thms) blast
qed

section \<open>Room\<close>

text \<open>How many list blocks have to be linked to append \<open>n\<close> entries to \<open>k\<close>; which chunks of a
  sequence are new to a store of contents \<open>H\<close>; at most how much they add to the heap.\<close>

primrec need_blocks :: "nat \<Rightarrow> nat \<Rightarrow> nat \<Rightarrow> nat" where
  "need_blocks m k 0 = 0"
| "need_blocks m k (Suc n) = (if k \<noteq> 0 \<and> k mod m = 0 then 1 else 0) + need_blocks m (Suc k) n"

definition heap_need :: "byte list list \<Rightarrow> nat" where
  "heap_need cs = sum_list (map (\<lambda>c. length c + 47) cs)"

lemma heap_need_simps [simp]: "heap_need [] = 0" "heap_need (c # cs) = length c + 47 + heap_need cs"
  by (simp_all add: heap_need_def)

fun new_chunks :: "byte list set \<Rightarrow> byte list list \<Rightarrow> byte list list" where
  "new_chunks H [] = []"
| "new_chunks H (c # cs) = (if c \<in> H then new_chunks H cs else c # new_chunks (insert c H) cs)"

lemma new_chunks_step:
  "heap_need (new_chunks H (c # cs)) = (if c \<in> H then 0 else length c + 47) + heap_need (new_chunks (insert c H) cs)"
  by (simp add: insert_absorb)

lemma new_chunks_none: "set cs \<subseteq> H \<Longrightarrow> new_chunks H cs = []"
  by (induction cs) auto

lemma new_chunks_set: "set (new_chunks H cs) = set cs - H" "distinct (new_chunks H cs)"
  by (induction H cs rule: new_chunks.induct) auto

lemma fits_from_need:
  assumes "geometry_ok s" "heap_brk (fs_info s) + (n + 47) < max_brk (fs_info s)"
  shows "chunk_fits s n"
  using next_head_bounds(2) [OF geometry_blocksize(3) [OF assms(1)], of "heap_brk (fs_info s)"] assms(2)
  by (simp add: chunk_fits_def sizeof_chunk_head_def)

text \<open>Storing a sequence of chunks: each content is stored once.\<close>

definition stores_once :: "byte list list \<Rightarrow> fs \<Rightarrow> fs \<Rightarrow> bool" where
  "stores_once cs s t \<longleftrightarrow> heap_contents t = heap_contents s \<union> set cs \<and>
     heap_brk (fs_info s) \<le> heap_brk (fs_info t) \<and>
     heap_brk (fs_info t) \<le> heap_brk (fs_info s) + heap_need (new_chunks (heap_contents s) cs)"

lemma stores_once_refl [simp]: "stores_once [] s s"
  by (simp add: stores_once_def)

lemma stores_once_step:
  assumes "heap_contents t = insert c (heap_contents s)" "heap_brk (fs_info s) \<le> heap_brk (fs_info t)"
    and "heap_brk (fs_info t) \<le> heap_brk (fs_info s) + (if c \<in> heap_contents s then 0 else length c + 47)"
    and "stores_once cs t u"
  shows "stores_once (c # cs) s u"
  using assms unfolding stores_once_def new_chunks_step by simp

lemma heap_same_contents: "heap_same s t \<Longrightarrow> heap_wf s \<Longrightarrow> heap_contents t = heap_contents s"
  using heap_same_holds_iff unfolding heap_contents_def by blast

lemma stores_once_same:
  assumes "stores_once cs s t" "heap_same s0 s" "heap_same t t0" "heap_wf s0" "heap_wf t"
  shows "stores_once cs s0 t0"
  using assms heap_same_contents [OF assms(2,4)] heap_same_contents [OF assms(3,5)]
  by (simp add: stores_once_def heap_same_def)

section \<open>One round of the loop\<close>

definition entry_holds :: "fs \<Rightarrow> chunk_entry \<Rightarrow> byte list \<Rightarrow> bool" where
  "entry_holds s e c \<longleftrightarrow> ce_size e = length c \<and> c \<noteq> [] \<and> (\<exists>h. chunk_holds s (ce_location e) h c)"

lemma entry_holds_frame: "entry_holds s e c \<Longrightarrow> chunk_frame W s t \<Longrightarrow> entry_holds t e c"
  unfolding entry_holds_def chunk_frame_def by blast

text \<open>The state of the loop: the store, the list so far, distinct keys for distinct contents.\<close>

definition loop_ok :: "file_env \<Rightarrow> fs \<Rightarrow> nat list \<Rightarrow> chunk_entry list \<Rightarrow> byte list list \<Rightarrow> bool" where
  "loop_ok fe s bs es cs \<longleftrightarrow> store_ok s \<and> ll_inv s bs es \<and> extra_sb_location (fs_info s) \<notin> set bs \<and>
     heap.keyed (chunk_key fe) s \<and> inj_on (chunk_key fe) (set cs \<union> heap_contents s) \<and>
     need_blocks (entries_per_block (fs_sb s)) (length es) (length cs) \<le> card (zones.free_set s) \<and>
     heap_brk (fs_info s) + heap_need (new_chunks (heap_contents s) cs) < max_brk (fs_info s)"

lemma append_round:
  assumes o: "store_ok s" and l: "ll_inv s bs es" and x: "extra_sb_location (fs_info s) \<notin> set bs"
    and e: "entry_ok e" and r: "ll_room s (length es)" and W: "set bs \<union> zones.free_set s \<subseteq> W"
  shows "\<exists>t bs'. ll_append s (last bs) (length es) e = Inr (t, last (bs @ bs'), length es + 1) \<and>
    store_ok t \<and> ll_inv t (bs @ bs') (es @ [e]) \<and> extra_sb_location (fs_info t) \<notin> set (bs @ bs') \<and>
    heap_same s t \<and> chunk_frame W s t \<and> disk_step {} {} s t \<and> set (last bs # bs') \<subseteq> bdirty (fs_bufs t) \<and>
    zones.free_set t = zones.free_set s - set bs' \<and> set bs' \<subseteq> zones.free_set s \<and>
    length bs' = (if es \<noteq> [] \<and> length es mod entries_per_block (fs_sb s) = 0 then 1 else 0)"
proof -
  obtain t bs' where A: "ll_append s (last bs) (length es) e = Inr (t, last (bs @ bs'), length es + 1)"
      "ll_inv t (bs @ bs') (es @ [e])" "ll_frame bs s t" "zones.free_set t = zones.free_set s - set bs'"
      "set bs' \<subseteq> zones.free_set s"
      "length bs' = (if es \<noteq> [] \<and> length es mod entries_per_block (fs_sb s) = 0 then 1 else 0)"
      "set (last bs # bs') \<subseteq> bdirty (fs_bufs t)"
    using ll_append_law [OF l e r] by blast
  from o have v: "volume_ok s" and h: "heap_wf s"
    and x': "data_block s (extra_sb_location (fs_info s))" "block_busy s (extra_sb_location (fs_info s))"
    by (simp_all add: store_ok_def)
  have hs: "heap_same s t" using l by (intro ll_frame_heap_same [OF v A(3)]) (simp add: ll_inv_def)
  have ds: "disk_step {} {} s t" using l by (intro disk_step_list [OF o A(3) _ x]) (simp add: ll_inv_def)
  have "extra_sb_location (fs_info s) \<notin> set bs'" using A(5) x'(2) by (auto simp: zones.free_set_def)
  moreover have "store_ok t"
    using A(2,3) x' heap_same_wf [OF hs h] by (simp add: store_ok_def ll_inv_def ll_frame_def data_block_def)
  ultimately show ?thesis
    using A x hs ds chunk_frame_list [OF A(3) h hs W] by (intro exI conjI) (auto simp: heap_same_def)
qed

lemma chunk_round:
  assumes L: "loop_ok fe s bs es (c # cs)" and c: "c \<noteq> []" "length c \<le> MaxSize"
    and md: "md5_hash (fe_kmalloc fe) (fe_crypto fe) c (length c) = Inr g"
    and W: "set bs \<union> zones.free_set s \<subseteq> W"
  shows "\<exists>t1 l t bs'. store_chunk fe s c (length c) = Inr (t1, l) \<and>
    ll_append t1 (last bs) (length es) \<lparr>ce_location = l, ce_size = length c\<rparr> =
      Inr (t, last (bs @ bs'), length es + 1) \<and>
    loop_ok fe t (bs @ bs') (es @ [\<lparr>ce_location = l, ce_size = length c\<rparr>]) cs \<and>
    entry_holds t \<lparr>ce_location = l, ce_size = length c\<rparr> c \<and> chunk_frame W s t \<and>
    disk_step {} {} s t \<and> set (last bs # bs') \<subseteq> bdirty (fs_bufs t) \<and>
    (\<forall>u. stores_once cs t u \<longrightarrow> stores_once (c # cs) s u) \<and>
    zones.free_set t = zones.free_set s - set bs' \<and> set bs' \<subseteq> zones.free_set s \<and>
    set (bs @ bs') \<union> zones.free_set t \<subseteq> W"
proof -
  let ?e = "extra_sb_location (fs_info s)" and ?m = "entries_per_block (fs_sb s)"
  from L have o: "store_ok s" and l: "ll_inv s bs es" and x: "?e \<notin> set bs" and ky: "heap.keyed (chunk_key fe) s"
    and inj: "inj_on (chunk_key fe) (set (c # cs) \<union> heap_contents s)"
    and nb: "need_blocks ?m (length es) (length (c # cs)) \<le> card (zones.free_set s)"
    and nh: "heap_brk (fs_info s) + heap_need (new_chunks (heap_contents s) (c # cs)) < max_brk (fs_info s)" unfolding loop_ok_def by blast+
  from o have v: "volume_ok s" and h: "heap_wf s" and xd: "data_block s ?e" by (simp_all add: store_ok_def)
  then have g: "geometry_ok s" by (simp add: heap_wf_def)
  have len: "length c < 2 ^ 32" using c(2) by (simp add: MaxSize_def)
  have inj1: "inj_on (chunk_key fe) (insert c (heap_contents s))" by (rule inj_on_subset [OF inj]) auto
  have "chunk_fits s (length c)" if "c \<notin> heap_contents s" using nh that by (intro fits_from_need [OF g]) simp
  from store_chunk_spec [OF o ky inj1 c(1) len this md] obtain t1 a where
    S: "store_chunk fe s c (length c) = Inr (t1, a)" "store_ok t1" "heap.keyed (chunk_key fe) t1"
      "chunk_holds t1 a (chunk_key fe c) c" "heap_grow s t1" "esb_agrees s \<longrightarrow> esb_agrees t1"
      "\<forall>l' h d. chunk_holds s l' h d \<longrightarrow> chunk_holds t1 l' h d" "heap_contents t1 = insert c (heap_contents s)"
      "heap_brk (fs_info s) \<le> heap_brk (fs_info t1)"
      "heap_brk (fs_info t1) \<le> heap_brk (fs_info s) + (if c \<in> heap_contents s then 0 else length c + 47)" by blast
  note G = heap_grow_sel [OF S(5)]
  let ?n = "\<lparr>ce_location = a, ce_size = length c\<rparr>"
  have h1: "heap_wf t1" using S(2) by (simp add: store_ok_def)
  have l1: "ll_inv t1 bs es" by (rule heap_grow_list [OF S(5) xd l x])
  have x1: "extra_sb_location (fs_info t1) \<notin> set bs" using x G(7) by simp
  have f1: "zones.free_set t1 = zones.free_set s" by (rule heap_grow_free [OF S(5) v xd])
  have ok: "entry_ok ?n" using holds_bound [OF h1 S(4)] c(1) len by (simp add: entry_ok_def)
  have room: "ll_room t1 (length es)"
  proof (cases "es \<noteq> [] \<and> length es mod ?m = 0")
    case True
    then have "0 < card (zones.free_set t1)" using nb f1 by simp
    then have "zones.free_set t1 \<noteq> {}" by (metis card.empty less_irrefl)
    then show ?thesis by (auto simp: ll_room_def zones.free_set_def)
  qed (auto simp: ll_room_def G(1))
  obtain t bs' where A: "ll_append t1 (last bs) (length es) ?n = Inr (t, last (bs @ bs'), length es + 1)"
      "store_ok t" "ll_inv t (bs @ bs') (es @ [?n])" "extra_sb_location (fs_info t) \<notin> set (bs @ bs')"
      "heap_same t1 t" "chunk_frame W t1 t" "disk_step {} {} t1 t" "set (last bs # bs') \<subseteq> bdirty (fs_bufs t)"
      "zones.free_set t = zones.free_set t1 - set bs'"
      "set bs' \<subseteq> zones.free_set t1" "length bs' = (if es \<noteq> [] \<and> length es mod entries_per_block (fs_sb t1) = 0 then 1 else 0)"
    using append_round [OF S(2) l1 x1 ok room W [folded f1]] by (elim exE conjE) (rule that)
  note hold = heap_same_holds_iff [OF A(5) h1]
  have hc: "heap_contents t = heap_contents t1" by (simp add: heap_contents_def hold)
  have st: "chunk_frame W s t"
    using chunk_frame_grow [OF S(5) v xd S(7)] A(6) by (rule chunk_frame_trans)
  have ds: "disk_step {} {} s t" using disk_step_trans [OF disk_step_heap [OF o S(5,6)] A(7)] by simp
  have "card (set bs') \<le> length bs'" by (rule card_length)
  moreover have "card (zones.free_set t) = card (zones.free_set t1) - card (set bs')"
    using A(9,10) by (simp add: card_Diff_subset)
  ultimately have "need_blocks (entries_per_block (fs_sb t)) (length (es @ [?n])) (length cs) \<le> card (zones.free_set t)"
    using nb f1 A(11) chunk_frame_sel(1) [OF st] G(1) by (auto split: if_splits)
  moreover have "inj_on (chunk_key fe) (set cs \<union> heap_contents t)"
    using S(8) hc by (intro inj_on_subset [OF inj]) auto
  moreover have "heap_brk (fs_info t) + heap_need (new_chunks (heap_contents t) cs) < max_brk (fs_info t)"
    using S(10) nh A(5) G(6) unfolding hc S(8) new_chunks_step by (simp add: heap_same_def)
  moreover have once: "stores_once (c # cs) s u" if "stores_once cs t u" for u
    using S(8-10) hc A(5) that by (intro stores_once_step [of t]) (simp_all add: heap_same_def)
  moreover have "heap.keyed (chunk_key fe) t" using S(3) by (simp add: heap.keyed_def hold)
  ultimately have ok': "loop_ok fe t (bs @ bs') (es @ [?n]) cs" using A(2,3,4) by (simp add: loop_ok_def)
  have held: "entry_holds t ?n c" using S(4) c(1) hold by (auto simp: entry_holds_def)
  have W': "set (bs @ bs') \<union> zones.free_set t \<subseteq> W" using W f1 A(9,10) by auto
  show ?thesis
    by (rule exI [of _ t1], rule exI [of _ a], rule exI [of _ t], rule exI [of _ bs'], intro conjI allI impI)
      (use S(1) A(1,8,9,10) f1 st ds ok' held W' once in simp_all)
qed

section \<open>The loop\<close>

lemma chunk_loop_spec:
  assumes e: "env_ok fe d" and d: "length d < 2 ^ 63"
  shows "loop_ok fe s bs es (chunks_from d p) \<Longrightarrow> p \<le> length d \<Longrightarrow> set bs \<union> zones.free_set s \<subseteq> W \<Longrightarrow>
    \<exists>t bs' es'. chunk_loop fe (length d) s p (last bs) (length es) =
        Some (Inr (Inr (t, last (bs @ bs'), length es + length es', length d))) \<and>
      loop_ok fe t (bs @ bs') (es @ es') [] \<and> list_all2 (entry_holds t) es' (chunks_from d p) \<and>
      chunk_frame W s t \<and> disk_step {} {} s t \<and> (p < length d \<longrightarrow> set (last bs # bs') \<subseteq> bdirty (fs_bufs t)) \<and>
      (length d \<le> p \<longrightarrow> bs' = []) \<and> stores_once (chunks_from d p) s t \<and>
      zones.free_set t = zones.free_set s - set bs' \<and> set bs' \<subseteq> zones.free_set s"
proof (induction "length d - p" arbitrary: s p bs es rule: less_induct)
  case less
  show ?case
  proof (cases "p < length d")
    case False
    then have p: "p = length d" using less.prems(2) by simp
    then show ?thesis
      using less.prems(1) disk_step_refl
      by (subst chunk_loop.simps) (auto simp: chunks_from_past intro!: exI [of _ "[]"])
  next
    case True
    define n where "n = cdc_get_chunk_size (file_bytes d) (length d) p"
    define c where "c = take n (drop p d)"
    note C = chunks_from_step [OF True d, folded n_def, folded c_def]
    have cne: "c \<noteq> []" using C(2,5) by auto
    obtain g where g: "md5_hash (fe_kmalloc fe) (fe_crypto fe) c (length c) = Inr g"
      using e C(4,5) unfolding env_ok_def by blast
    obtain t1 a t2 bs1 where R: "store_chunk fe s c (length c) = Inr (t1, a)"
        "ll_append t1 (last bs) (length es) \<lparr>ce_location = a, ce_size = length c\<rparr> =
          Inr (t2, last (bs @ bs1), length es + 1)"
        "loop_ok fe t2 (bs @ bs1) (es @ [\<lparr>ce_location = a, ce_size = length c\<rparr>]) (chunks_from d (p + n))"
        "entry_holds t2 \<lparr>ce_location = a, ce_size = length c\<rparr> c" "chunk_frame W s t2"
        "zones.free_set t2 = zones.free_set s - set bs1" "set bs1 \<subseteq> zones.free_set s"
        "set (bs @ bs1) \<union> zones.free_set t2 \<subseteq> W" "disk_step {} {} s t2" "set (last bs # bs1) \<subseteq> bdirty (fs_bufs t2)"
        "\<forall>u. stores_once (chunks_from d (p + n)) t2 u \<longrightarrow> stores_once (c # chunks_from d (p + n)) s u"
      using chunk_round [OF less.prems(1) [unfolded C(1)] cne _ g less.prems(3)] C(4,5) by auto
    let ?n = "\<lparr>ce_location = a, ce_size = length c\<rparr>"
    have smaller: "length d - (p + n) < length d - p" using C(2) True by simp
    obtain t bs2 es2 where I: "chunk_loop fe (length d) t2 (p + n) (last (bs @ bs1)) (length (es @ [?n])) =
          Some (Inr (Inr (t, last ((bs @ bs1) @ bs2), length (es @ [?n]) + length es2, length d)))"
        "loop_ok fe t ((bs @ bs1) @ bs2) ((es @ [?n]) @ es2) []"
        "list_all2 (entry_holds t) es2 (chunks_from d (p + n))" "chunk_frame W t2 t"
        "zones.free_set t = zones.free_set t2 - set bs2" "set bs2 \<subseteq> zones.free_set t2" "disk_step {} {} t2 t"
        "p + n < length d \<longrightarrow> set (last (bs @ bs1) # bs2) \<subseteq> bdirty (fs_bufs t)"
        "length d \<le> p + n \<longrightarrow> bs2 = []" "stores_once (chunks_from d (p + n)) t2 t"
      using less.hyps [OF smaller R(3) C(3) R(8)] by blast
    have sz: "to_ssize (int (cdc_get_chunk_size (one_byte (fe_kernel_read fe)) (length d) p)) = int n"
      using C(4) by (simp add: env_ok_byte [OF e] n_def [symmetric] to_ssize_id MaxSize_def)
    have km: "fe_kmalloc fe n" using e C(4) by (simp add: env_ok_def)
    have rc: "read_chunk (fe_kernel_read fe) n [] p = Some (Inr (Inr (c, p + n)))"
      unfolding c_def by (rule read_chunk_whole [OF e C(2,3)])
    have "chunk_loop fe (length d) s p (last bs) (length es) =
        chunk_loop fe (length d) t2 (p + n) (last (bs @ bs1)) (length (es @ [?n]))"
      using True sz km rc R(1,2) C(2,5) by (subst chunk_loop.simps) (simp add: Let_def)
    moreover have "chunk_frame W s t" by (rule chunk_frame_trans [OF R(5) I(4)])
    moreover have "disk_step {} {} s t" using disk_step_trans [OF R(9) I(7)] by simp
    moreover have "set (last bs # bs1 @ bs2) \<subseteq> bdirty (fs_bufs t)"
    proof -
      have "bdirty (fs_bufs t2) \<subseteq> bdirty (fs_bufs t)" using tracksD(1) [OF disk_stepD(6) [OF I(7)]] by blast
      then show ?thesis using R(10) I(8,9) by (cases "p + n < length d") auto
    qed
    moreover have "stores_once (chunks_from d p) s t" using R(11) I(10) by (simp add: C(1))
    moreover have "list_all2 (entry_holds t) (?n # es2) (chunks_from d p)"
      using I(3) entry_holds_frame [OF R(4) I(4)] by (simp add: C(1))
    moreover have "zones.free_set t = zones.free_set s - set (bs1 @ bs2)" "set (bs1 @ bs2) \<subseteq> zones.free_set s"
      using I(5,6) R(6,7) by auto
    ultimately show ?thesis
      using I(1,2) True by (intro exI [of _ t] exI [of _ "bs1 @ bs2"] exI [of _ "?n # es2"]) simp
  qed
qed

end
