(* ===== verification/ChunkReplace.thy ===== *)
theory ChunkReplace
  imports Chunking
begin

text \<open>
  The whole of \<open>chunk_and_replace\<close>, and reading what it made. \<open>chunked_file s ino d\<close> is the
  abstraction: the inode stands for a chunked file with contents \<open>d\<close> on the volume. \<open>keeps\<close> is
  the frame of an operation on the volume.
\<close>

section \<open>Chunked files\<close>

definition chunked_file_at :: "fs \<Rightarrow> inode \<Rightarrow> nat list \<Rightarrow> byte list \<Rightarrow> bool" where
  "chunked_file_at s ino bs d \<longleftrightarrow> store_ok s \<and> inode_is_chunked ino \<and> i_size ino = length d \<and>
     get_list_head ino = hd bs \<and> extra_sb_location (fs_info s) \<notin> set bs \<and>
     (\<exists>es cs. ll_inv s bs es \<and> list_all2 (entry_holds s) es cs \<and> concat cs = d)"

definition chunked_file :: "fs \<Rightarrow> inode \<Rightarrow> byte list \<Rightarrow> bool" where
  "chunked_file s ino d \<longleftrightarrow> (\<exists>bs. chunked_file_at s ino bs d)"

section \<open>Frames\<close>

text \<open>Busy data blocks outside \<open>X\<close> stay busy and keep their bytes; stored chunks stay.\<close>

definition keeps :: "nat set \<Rightarrow> fs \<Rightarrow> fs \<Rightarrow> bool" where
  "keeps X s t \<longleftrightarrow> store_ok t \<and> fs_sb t = fs_sb s \<and> data_block t = data_block s \<and>
     breadable (fs_bufs t) = breadable (fs_bufs s) \<and> s_zmap (fs_info t) = s_zmap (fs_info s) \<and>
     extra_sb_location (fs_info t) = extra_sb_location (fs_info s) \<and>
     s_firstdatazone (fs_info t) = s_firstdatazone (fs_info s) \<and>
     inode_slot t = inode_slot s \<and> s_ninodes (fs_info t) = s_ninodes (fs_info s) \<and>
     (\<forall>c. data_block s c \<longrightarrow> block_busy s c \<longrightarrow> c \<notin> X \<longrightarrow>
        block_busy t c \<and> bdata (fs_bufs t) c = bdata (fs_bufs s) c) \<and>
     (\<forall>l h x. chunk_holds s l h x \<longrightarrow> chunk_holds t l h x)"

lemma keepsD:
  assumes "keeps X s t"
  shows "store_ok t" "fs_sb t = fs_sb s" "data_block t = data_block s"
    "breadable (fs_bufs t) = breadable (fs_bufs s)" "s_zmap (fs_info t) = s_zmap (fs_info s)"
    "extra_sb_location (fs_info t) = extra_sb_location (fs_info s)"
    "s_firstdatazone (fs_info t) = s_firstdatazone (fs_info s)"
    "inode_slot t = inode_slot s" "s_ninodes (fs_info t) = s_ninodes (fs_info s)"
    and "data_block s c \<Longrightarrow> block_busy s c \<Longrightarrow> c \<notin> X \<Longrightarrow> block_busy t c"
    and "data_block s c \<Longrightarrow> block_busy s c \<Longrightarrow> c \<notin> X \<Longrightarrow> bdata (fs_bufs t) c = bdata (fs_bufs s) c"
    and "chunk_holds s l h x \<Longrightarrow> chunk_holds t l h x"
  using assms unfolding keeps_def by blast+

lemma keeps_trans:
  assumes k: "keeps X s t" and l: "keeps Y t u"
  shows "keeps (X \<union> Y) s u"
proof -
  have "block_busy u c \<and> bdata (fs_bufs u) c = bdata (fs_bufs s) c"
    if "data_block s c" "block_busy s c" "c \<notin> X \<union> Y" for c
    using keepsD(10,11) [OF k that(1,2)] keepsD(10,11) [OF l, of c] keepsD(3) [OF k] that by simp
  then show ?thesis
    unfolding keeps_def using keepsD [OF k] keepsD [OF l] by simp
qed

lemma keeps_drop:
  assumes k: "keeps X s t" and x: "\<And>c. c \<in> X \<Longrightarrow> c \<notin> Y \<Longrightarrow> \<not> (data_block s c \<and> block_busy s c)"
  shows "keeps Y s t"
proof -
  have "block_busy t c \<and> bdata (fs_bufs t) c = bdata (fs_bufs s) c"
    if "data_block s c" "block_busy s c" "c \<notin> Y" for c
    using keepsD(10,11) [OF k that(1,2)] x that by blast
  then show ?thesis unfolding keeps_def using keepsD [OF k] by simp
qed

lemma keeps_list:
  assumes k: "keeps X s t" and l: "ll_inv s bs es" and x: "set bs \<inter> X = {}"
  shows "ll_inv t bs es"
proof -
  have b: "data_block s b \<and> block_busy s b \<and> b \<notin> X" if "b \<in> set bs" for b
    using l x that by (auto simp: ll_inv_def)
  have "ll_list (fs_sb s) (fs_bufs t) bs es = ll_list (fs_sb s) (fs_bufs s) bs es"
    using keepsD(4,11) [OF k] b by (intro ll_list_cong) auto
  then show ?thesis
    using l keepsD(1-3) [OF k] keepsD(10) [OF k] b by (simp add: ll_inv_def store_ok_def)
qed

lemma keeps_file:
  assumes k: "keeps X s t" and f: "chunked_file_at s ino bs d" and x: "set bs \<inter> X = {}"
  shows "chunked_file_at t ino bs d"
proof -
  from f obtain es cs where c: "ll_inv s bs es" "list_all2 (entry_holds s) es cs" "concat cs = d"
    unfolding chunked_file_at_def by blast
  have "entry_holds t e c" if "entry_holds s e c" for e c
    using that keepsD(12) [OF k] unfolding entry_holds_def by blast
  then have "list_all2 (entry_holds t) es cs" using c(2) by (rule list_all2_mono [rotated])
  then show ?thesis
    using f c(3) keeps_list [OF k c(1) x] keepsD(1,6) [OF k] by (auto simp: chunked_file_at_def)
qed

lemma keeps_tree:
  assumes k: "keeps X s t" and w: "tree_wf s ino" and x: "tree_blocks s ino \<inter> X = {}"
    and i: "i2_data ino' = i2_data ino"
  shows "tree_wf t ino'" and "tree_blocks t ino' = tree_blocks s ino"
proof -
  have b: "data_block s (slot s ino p) \<and> block_busy s (slot s ino p) \<and> slot s ino p \<notin> X"
    if "valid_path (fs_sb s) p" "slot s ino p \<noteq> 0" for p
    using that x tree_wfD(2) [OF w that] unfolding tree_blocks_slots by blast
  have sl: "slot t ino' p = slot s ino p" if p: "valid_path (fs_sb s) p" for p
  proof (rule slot_frame)
    show "p \<noteq> []" using p by (simp add: valid_path_def)
    show "i_data ino' (hd p) = i_data ino (hd p)" by (simp add: i_data_def i)
    fix n assume n: "0 < n" "n < length p" "slot s ino (take n p) \<noteq> 0"
    from b [OF valid_path_take [OF p n(1)] n(3)]
    show "block_word t (slot s ino (take n p)) (p ! n) = block_word s (slot s ino (take n p)) (p ! n)"
      using keepsD(11) [OF k] by (intro block_word_cong) blast
  qed
  have v: "volume_ok t" using keepsD(1) [OF k] by (simp add: store_ok_def)
  show "tree_wf t ino'"
    unfolding tree_wf_def keepsD(2,3) [OF k]
    using v sl b keepsD(10) [OF k] tree_wfD(3) [OF w] by simp
  show "tree_blocks t ino' = tree_blocks s ino"
    unfolding tree_blocks_slots keepsD(2) [OF k] by (rule Collect_cong) (use sl in metis)
qed

text \<open>The four steps of \<open>chunk_and_replace\<close>.\<close>

lemma keeps_grow:
  assumes o: "store_ok s" and g: "grow s t bs"
  shows "keeps {} s t" and "heap_same s t"
proof -
  from o have v: "volume_ok s" and h: "heap_wf s" by (simp_all add: store_ok_def)
  have n: "c \<notin> set (s_zmap (fs_info s)) \<and> c \<notin> set bs" if "s_nzones (fs_info s) \<le> c" for c
    using that g zmap_wfD(5,6) [OF volume_okD(1) [OF v]] by (fastforce simp: data_block_def grow_def)
  show hs: "heap_same s t" using g n by (simp add: heap_same_def grow_def)
  have sel: "fs_sb t = fs_sb s" "fs_info t = fs_info s" "breadable (fs_bufs t) = breadable (fs_bufs s)"
      "volume_ok t" using g by (simp_all add: grow_def)
  have "store_ok t"
    using o g sel heap_same_wf [OF hs h] by (simp add: store_ok_def grow_def data_block_def)
  moreover have "block_busy t c \<and> bdata (fs_bufs t) c = bdata (fs_bufs s) c"
    if c: "data_block s c" "block_busy s c" for c
    using g c zmap_block_not_data [OF volume_okD(1) [OF v] c(1)] by (auto simp: grow_def)
  ultimately show "keeps {} s t"
    unfolding keeps_def using sel heap_same_holds [OF hs h]
    by (simp add: data_block_def inode_slot_def fun_eq_iff)
qed

lemma keeps_chunk_frame:
  assumes o: "store_ok t" and v: "volume_ok s" and f: "chunk_frame W s t"
    and W: "\<And>c. c \<in> W \<Longrightarrow> c \<notin> X \<Longrightarrow> \<not> (data_block s c \<and> block_busy s c)"
    and e: "extra_sb_location (fs_info s) \<in> X"
  shows "keeps X s t"
proof -
  note S = chunk_frame_sel [OF f]
  have "block_busy t c \<and> bdata (fs_bufs t) c = bdata (fs_bufs s) c"
    if c: "data_block s c" "block_busy s c" "c \<notin> X" for c
  proof -
    have "c < s_nzones (fs_info s)" using c(1) by (simp add: data_block_def)
    moreover have "c \<noteq> extra_sb_location (fs_info s)" "c \<notin> W" using W c e by blast+
    moreover have "c \<notin> set (s_zmap (fs_info s))" by (rule zmap_block_not_data [OF volume_okD(1) [OF v] c(1)])
    ultimately show ?thesis using f c(1,2) unfolding chunk_frame_def by blast
  qed
  moreover have "chunk_holds t l h x" if "chunk_holds s l h x" for l h x
    using f that unfolding chunk_frame_def by blast
  ultimately show ?thesis unfolding keeps_def using o S by (simp add: inode_slot_def fun_eq_iff)
qed

lemma keeps_shrink:
  assumes o: "store_ok s" and f: "shrink s t B {}" and b: "\<forall>b \<in> B. data_block s b"
    and e: "extra_sb_location (fs_info s) \<notin> B"
  shows "keeps B s t"
proof -
  from o have v: "volume_ok s" and h: "heap_wf s" by (simp_all add: store_ok_def)
  have hs: "heap_same s t" by (rule shrink_heap_same [OF v f b])
  have sel: "fs_sb t = fs_sb s" "fs_info t = fs_info s" "breadable (fs_bufs t) = breadable (fs_bufs s)"
      "volume_ok t" "\<And>c. data_block s c \<Longrightarrow> block_busy t c \<longleftrightarrow> block_busy s c \<and> c \<notin> B"
      "\<And>c. c \<notin> set (s_zmap (fs_info s)) \<Longrightarrow> c \<notin> B \<Longrightarrow> bdata (fs_bufs t) c = bdata (fs_bufs s) c"
    using f by (simp_all add: shrink_def)
  have "store_ok t"
    using o e sel(1-5) heap_same_wf [OF hs h] by (simp add: store_ok_def data_block_def)
  then show ?thesis
    unfolding keeps_def using sel heap_same_holds [OF hs h] zmap_block_not_data [OF volume_okD(1) [OF v]]
    by (simp add: data_block_def inode_slot_def fun_eq_iff)
qed

lemma keeps_update:
  assumes o: "store_ok s" and u: "V2_cominix_update_inode k s ino = Some (t, bh)"
    and b: "bh < s_firstdatazone (fs_info s)" "bh \<notin> set (s_zmap (fs_info s))"
  shows "keeps {} s t" and "heap_same s t" and "zones.free_set t = zones.free_set s"
proof -
  from o have v: "volume_ok s" and h: "heap_wf s" by (simp_all add: store_ok_def)
  note F = update_inode_frame [OF u]
  have wf: "zmap_wf s" by (rule volume_okD(1) [OF v])
  show hs: "heap_same s t"
    using F(1-3,7) b(1) zmap_wfD(5) [OF wf] by (simp add: heap_same_def)
  have t: "t = s\<lparr>fs_bufs := fs_bufs t\<rparr>" using F(1,2) by simp
  have z: "\<And>c. c \<in> set (s_zmap (fs_info s)) \<Longrightarrow> bdata (fs_bufs t) c = bdata (fs_bufs s) c"
    using F(7) b(2) by metis
  have bb: "data_block s c \<Longrightarrow> block_busy t c = block_busy s c" for c
    by (subst t) (rule block_busy_bufs [OF z wf])
  have zt: "zmap_wf t" by (subst t) (rule zmap_wf_bufs [OF z wf])
  have db: "data_block t = data_block s" using F(2) by (simp add: data_block_def fun_eq_iff)
  have "volume_ok t" using v zt F(1-3) db by (simp add: volume_ok_def)
  then have "store_ok t" using o heap_same_wf [OF hs h] F(2) db bb by (simp add: store_ok_def)
  moreover have "bdata (fs_bufs t) c = bdata (fs_bufs s) c" if "data_block s c" for c
    using F(7) b(1) that by (auto simp: data_block_def)
  ultimately show "keeps {} s t"
    unfolding keeps_def using F(1-3) db bb heap_same_holds [OF hs h] by (simp add: inode_slot_def fun_eq_iff)
  show "zones.free_set t = zones.free_set s" using db bb by (auto simp: zones.free_set_def)
qed

section \<open>A new list\<close>

lemma new_list:
  assumes v: "volume_ok s" and f: "zones.free_set s \<noteq> {}"
  shows "\<exists>s1 s2 b. ll_alloc_new_block s = Inr (s1, b) \<and> zero_out_block s1 b = Inr s2 \<and> grow s s2 [b] \<and>
    ll_inv s2 [b] [] \<and> b \<in> zones.free_set s \<and> b < 2 ^ 32"
proof -
  obtain s1 b where a: "cominix_new_block s = (s1, b)" "b \<noteq> 0" "grow s s1 [b]" "b \<in> zones.free_set s"
    using new_block_available [OF v f] .
  have db: "data_block s b" using a(4) by (simp add: zones.free_set_def)
  have b: "b < 2 ^ 32" by (rule volume_okD(4) [OF v db])
  have sel: "fs_sb s1 = fs_sb s" "breadable (fs_bufs s1) b" using a(3) volume_okD(3) [OF v db] by (simp_all add: grow_def)
  let ?bc = "fill_bytes (fs_bufs s1) b 0 (s_blocksize (fs_sb s1)) 0"
  have al: "ll_alloc_new_block s = Inr (s1, b)"
    using a(1,2) b by (simp add: ll_alloc_new_block_def new_block_same u32_id)
  have z: "zero_out_block s1 b = Inr (s1\<lparr>fs_bufs := ?bc\<rparr>)"
    using sel volume_okD(2) [OF v] by (simp add: zero_out_block_def load_block_def sb_bread_def memset_buf_def)
  have g: "grow s (s1\<lparr>fs_bufs := ?bc\<rparr>) [b]" by (rule grow_write [OF a(3)]) (auto simp: fill_bytes_def tracks_def)
  have zero: "num_at ?bc b off n = 0" if "off + n \<le> s_blocksize (fs_sb s1)" for off n
    using that by (intro num_at_zeros) (auto simp: fill_bytes_def)
  have m: "9 \<le> s_blocksize_bits (fs_sb s)" by (rule volume_okD(2) [OF v])
  have "ce_size (entry_at ?bc b i) = 0" if i: "i < entries_per_block (fs_sb s)" for i
  proof -
    have "i * 16 + 8 + 8 \<le> s_blocksize (fs_sb s1)"
      using entry_fits(1) [OF m i] sel(1) by (simp add: sizeof_chunk_entry_def ptr_next_def)
    from zero [OF this] show ?thesis by (simp add: entry_at_def sizeof_chunk_entry_def)
  qed
  moreover have "next_at (fs_sb s) ?bc b = 0"
  proof -
    have "ptr_next (fs_sb s) + 4 \<le> s_blocksize (fs_sb s1)"
      using blocksize_entries(2) [OF m] entry_fits(2) [OF m, of 0] sel(1) by simp
    from zero [OF this] show ?thesis by (simp add: next_at_def)
  qed
  ultimately have "ll_inv (s1\<lparr>fs_bufs := ?bc\<rparr>) [b] []"
    using g db sel grow_data_block [OF g] by (auto simp: ll_inv_def block_entries_def grow_def)
  with al z g a(4) b show ?thesis by blast
qed

lemma div_Suc_split: "Suc k div m = k div m + (if Suc k mod m = 0 then 1 else 0)"
  by (simp add: div_Suc)

lemma need_blocks_bound: "need_blocks m (Suc k) n + k div m \<le> (k + n) div m"
proof (induction n arbitrary: k)
  case (Suc n)
  from Suc.IH [of "Suc k"] show ?case by (simp add: div_Suc_split [of k])
qed simp

lemma need_blocks_div: "need_blocks m 0 n \<le> n div m"
proof (cases n)
  case (Suc n')
  have "n' div m \<le> n div m" by (rule div_le_mono) (simp add: Suc)
  with need_blocks_bound [of m 0 n'] have "need_blocks m 1 n' \<le> n div m" by simp
  then show ?thesis by (simp add: Suc)
qed simp

section \<open>Chunking a file\<close>

text \<open>What is asked of the volume, the file and the kernel.\<close>

definition chunkable :: "file_env \<Rightarrow> fs \<Rightarrow> inode \<Rightarrow> byte list \<Rightarrow> bool" where
  "chunkable fe s ino d \<longleftrightarrow> env_ok fe d \<and> i_size ino = length d \<and> length d < 2 ^ 32 \<and> S_ISREG (i_mode ino) \<and>
     \<not> inode_is_chunked ino \<and> (\<forall>t i. i_size i = 0 \<longrightarrow> k_truncate_page (fe_kernel fe) t i = t) \<and>
     0 < s_maxbytes (fs_sb s) \<and> store_ok s \<and> tree_wf s ino \<and> extra_sb_location (fs_info s) \<notin> tree_blocks s ino \<and>
     heap.keyed (chunk_key fe) s \<and> inj_on (chunk_key fe) (set (chunks_from d 0) \<union> heap_contents s) \<and>
     length (chunks_from d 0) div entries_per_block (fs_sb s) < card (zones.free_set s) \<and>
     heap_brk (fs_info s) + heap_need (new_chunks (heap_contents s) (chunks_from d 0)) < max_brk (fs_info s) \<and>
     0 < i_ino ino \<and> i_ino ino \<le> s_ninodes (fs_info s) \<and> breadable (fs_bufs s) (fst (inode_slot s (i_ino ino))) \<and>
     fst (inode_slot s (i_ino ino)) < s_firstdatazone (fs_info s) \<and>
     fst (inode_slot s (i_ino ino)) \<notin> set (s_zmap (fs_info s))"

text \<open>The first half: the list is made, the plain file is untouched.\<close>

lemma chunk_first_half:
  assumes c: "chunkable fe s ino d"
  shows "\<exists>s1 s2 t head bs' es. ll_alloc_new_block s = Inr (s1, head) \<and> zero_out_block s1 head = Inr s2 \<and>
    chunk_loop fe (i_size ino) s2 0 head 0 =
      Some (Inr (Inr (t, last (head # bs'), length (chunks_from d 0), i_size ino))) \<and>
    keeps {extra_sb_location (fs_info s)} s t \<and> ll_inv t (head # bs') es \<and>
    list_all2 (entry_holds t) es (chunks_from d 0) \<and> head < 2 ^ 32 \<and>
    set (head # bs') \<subseteq> zones.free_set s \<and> zones.free_set t = zones.free_set s - set (head # bs') \<and>
    disk_step {} {head} s t \<and> (d \<noteq> [] \<longrightarrow> set (head # bs') \<subseteq> bdirty (fs_bufs t)) \<and>
    stores_once (chunks_from d 0) s t"
proof -
  let ?e = "extra_sb_location (fs_info s)" and ?cs = "chunks_from d 0"
  from c have e: "env_ok fe d" and d: "length d < 2 ^ 63" "i_size ino = length d" and o: "store_ok s"
    and ky: "heap.keyed (chunk_key fe) s" and inj: "inj_on (chunk_key fe) (set ?cs \<union> heap_contents s)"
    and nb: "length ?cs div entries_per_block (fs_sb s) < card (zones.free_set s)"
    and nh: "heap_brk (fs_info s) + heap_need (new_chunks (heap_contents s) ?cs) < max_brk (fs_info s)"
    unfolding chunkable_def by auto
  from o have v: "volume_ok s" and xe: "data_block s ?e" "block_busy s ?e" and h: "heap_wf s" by (simp_all add: store_ok_def)
  have "zones.free_set s \<noteq> {}" using nb by auto
  from new_list [OF v this] obtain s1 s2 b where N: "ll_alloc_new_block s = Inr (s1, b)" "zero_out_block s1 b = Inr s2"
      "grow s s2 [b]" "ll_inv s2 [b] []" "b \<in> zones.free_set s" "b < 2 ^ 32" by blast
  note K = keeps_grow [OF o N(3)] and F = free_set_grow [OF N(3)]
  note hold = heap_same_holds_iff [OF K(2) h]
  have i2: "fs_info s2 = fs_info s" "fs_sb s2 = fs_sb s" using N(3) by (simp_all add: grow_def)
  have "need_blocks (entries_per_block (fs_sb s)) 0 (length ?cs) \<le> card (zones.free_set s2)"
    using need_blocks_div [of "entries_per_block (fs_sb s)" "length ?cs"] nb N(5) F by simp
  moreover have "?e \<noteq> b" using N(5) xe(2) by (auto simp: zones.free_set_def)
  ultimately have "loop_ok fe s2 [b] [] ?cs"
    using keepsD(1) [OF K(1)] N(4) ky inj nh i2 by (simp add: loop_ok_def heap.keyed_def heap_contents_def hold)
  then obtain t bs' es where L: "chunk_loop fe (length d) s2 0 (last [b]) (length ([] :: chunk_entry list)) =
        Some (Inr (Inr (t, last ([b] @ bs'), length ([] :: chunk_entry list) + length es, length d)))"
      "loop_ok fe t ([b] @ bs') ([] @ es) []" "list_all2 (entry_holds t) es ?cs"
      "chunk_frame ({b} \<union> zones.free_set s2) s2 t" "zones.free_set t = zones.free_set s2 - set bs'"
      "set bs' \<subseteq> zones.free_set s2" "disk_step {} {} s2 t" "d \<noteq> [] \<longrightarrow> set (b # bs') \<subseteq> bdirty (fs_bufs t)"
      "stores_once ?cs s2 t"
    using chunk_loop_spec [OF e d(1), of s2 "[b]" "[]" 0 "{b} \<union> zones.free_set s2"] by auto
  have "heap_wf t" using L(2) by (simp add: loop_ok_def store_ok_def)
  then have once: "stores_once ?cs s t"
    using stores_once_same [OF L(9) K(2) _ h, of t] by (simp add: heap_same_def)
  have ds: "disk_step {} {b} s t" using disk_step_trans [OF disk_step_grow [OF o N(3)] L(7)] by simp
  have "keeps {?e, b} s2 t"
  proof (rule keeps_chunk_frame [OF _ _ L(4)])
    show "store_ok t" using L(2) by (simp add: loop_ok_def)
    show "volume_ok s2" using N(3) by (simp add: grow_def)
    show "extra_sb_location (fs_info s2) \<in> {?e, b}" by (simp add: i2)
    show "\<not> (data_block s2 c \<and> block_busy s2 c)" if "c \<in> {b} \<union> zones.free_set s2" "c \<notin> {?e, b}" for c
      using that by (auto simp: zones.free_set_def)
  qed
  from keeps_drop [OF keeps_trans [OF K(1) this], of "{?e}"] have "keeps {?e} s t"
    using N(5) by (auto simp: zones.free_set_def)
  moreover have "chunk_loop fe (i_size ino) s2 0 b 0 =
      Some (Inr (Inr (t, last (b # bs'), length ?cs, i_size ino)))"
    using L(1) list_all2_lengthD [OF L(3)] d(2) by simp
  moreover have "ll_inv t (b # bs') es" using L(2) unfolding loop_ok_def by simp
  moreover have "set (b # bs') \<subseteq> zones.free_set s" "zones.free_set t = zones.free_set s - set (b # bs')"
    using L(5,6) F N(5) by auto
  ultimately show ?thesis
    using N(1,2,6) L(3,8) ds once by blast
qed

text \<open>The second half: the blocks of the plain file are freed and the inode becomes the list's.\<close>

lemma chunk_inode:
  assumes t: "chunked_file_at v ino bs d" and z: "\<And>i. i < 10 \<Longrightarrow> i_data r i = i_data ino i" "i_size r = i_size ino"
  shows "chunked_file_at v r bs d"
  using t z by (simp add: chunked_file_at_def inode_is_chunked_def get_list_head_def)

lemma chunk_and_replace_spec:
  assumes c: "chunkable fe s ino d"
  shows "\<exists>v ino' bs. chunk_and_replace fe s ino = Inr (v, ino', 0) \<and> chunked_file_at v ino' bs d \<and>
    i_fop ino' = Chunked_file_ops \<and> set bs \<subseteq> zones.free_set s \<and>
    zones.free_set v = (zones.free_set s - set bs) \<union> tree_blocks s ino \<and>
    keeps (insert (extra_sb_location (fs_info s)) (tree_blocks s ino)) s v \<and>
    disk_step {fst (inode_slot s (i_ino ino))} (insert (hd bs) (tree_blocks s ino)) s v \<and>
    (d \<noteq> [] \<longrightarrow> set bs \<subseteq> bdirty (fs_bufs v)) \<and> stores_once (chunks_from d 0) s v \<and>
    (\<forall>other. i_ino other \<noteq> i_ino ino \<longrightarrow> fst (inode_slot s (i_ino other)) < s_firstdatazone (fs_info s) \<longrightarrow>
       fst (inode_slot s (i_ino other)) \<notin> set (s_zmap (fs_info s)) \<longrightarrow>
       V2_cominix_iget (fe_kernel fe) v other = V2_cominix_iget (fe_kernel fe) s other) \<and>
    (\<forall>base. i_ino base = i_ino ino \<longrightarrow> i_mode ino < 2 ^ 16 \<longrightarrow> u16 (i_nlink ino) \<noteq> 0 \<longrightarrow>
       (\<exists>r. V2_cominix_iget (fe_kernel fe) v base = Inr r \<and> chunked_file_at v r bs d))"
proof -
  let ?x = "extra_sb_location (fs_info s)" and ?cs = "chunks_from d 0" and ?k = "fe_kernel fe"
  let ?T = "tree_blocks s ino"
  from c have d: "i_size ino = length d" "length d < 2 ^ 32" and reg: "S_ISREG (i_mode ino)"
    and nch: "\<not> inode_is_chunked ino" and pg: "\<And>t i. i_size i = 0 \<Longrightarrow> k_truncate_page ?k t i = t"
    and mx: "0 < s_maxbytes (fs_sb s)" and o: "store_ok s" and wf: "tree_wf s ino" and xT: "?x \<notin> ?T"
    and slot: "0 < i_ino ino" "i_ino ino \<le> s_ninodes (fs_info s)" "breadable (fs_bufs s) (fst (inode_slot s (i_ino ino)))"
      "fst (inode_slot s (i_ino ino)) < s_firstdatazone (fs_info s)"
      "fst (inode_slot s (i_ino ino)) \<notin> set (s_zmap (fs_info s))"
    unfolding chunkable_def by auto
  obtain s1 s2 t head bs' es where H: "ll_alloc_new_block s = Inr (s1, head)"
      "zero_out_block s1 head = Inr s2"
      "chunk_loop fe (i_size ino) s2 0 head 0 = Some (Inr (Inr (t, last (head # bs'), length ?cs, i_size ino)))"
      "keeps {?x} s t" "ll_inv t (head # bs') es" "list_all2 (entry_holds t) es ?cs" "head < 2 ^ 32"
      "set (head # bs') \<subseteq> zones.free_set s" "zones.free_set t = zones.free_set s - set (head # bs')"
      "disk_step {} {head} s t" "d \<noteq> [] \<longrightarrow> set (head # bs') \<subseteq> bdirty (fs_bufs t)"
      "stores_once ?cs s t"
    using chunk_first_half [OF c] by blast
  let ?bs = "head # bs'" and ?ino0 = "ino\<lparr>i_size := 0\<rparr>"
  note K1 = keepsD [OF H(4)]
  have T: "tree_wf t ?ino0" "tree_blocks t ?ino0 = ?T" using keeps_tree [OF H(4) wf, of ?ino0] xT by auto
  obtain u ino1 where tr: "itree_truncate (k_truncate_page ?k) (k_now ?k) t ?ino0 = (u, ino1)"
      "shrink t u ?T {}" "\<forall>j < DIRECT + 3. i_data ino1 j = 0" "i_mode ino1 = i_mode ino" "i_ino ino1 = i_ino ino"
      "i_nlink ino1 = i_nlink ino"
    using truncate_zero [OF T(1), of "k_truncate_page ?k" "k_now ?k"] pg mx K1(2) T(2) by auto
  have ct: "cominix_truncate ?k t ?ino0 = (u, ino1)"
    using tr(1) reg nch by (auto simp: cominix_truncate_def V2_cominix_truncate_def inode_is_chunked_def i_data_def)
  have busy: "data_block s b \<and> block_busy s b" if "b \<in> ?T" for b
    using that tree_wfD(2) [OF wf] unfolding tree_blocks_slots by blast
  have K2: "keeps ?T t u" using busy xT K1(3,6) by (intro keeps_shrink [OF K1(1) tr(2)]) auto
  define ino3 where "ino3 = set_zone (set_zone (set_zone (switch_inode_to_chunked (ino1\<lparr>i_size := i_size ino\<rparr>)) 1 head)
      2 (length ?cs)) 3 (last ?bs)"
  have i3: "i_ino ino3 = i_ino ino" "i_size ino3 = length d" "i_mode ino3 = i_mode ino" "i_nlink ino3 = i_nlink ino"
      "inode_is_chunked ino3" "get_list_head ino3 = head"
    using tr(4-6) d(1) H(7) by (simp_all add: ino3_def set_zone_def switch_inode_to_chunked_def inode_is_chunked_def
        get_list_head_def i_data_def u32_id)
  have z3: "i_data ino3 i < 2 ^ 32" if "i < 10" for i
    using tr(3) that by (simp add: ino3_def switch_inode_to_chunked_def DIRECT_def) (simp add: i_data_def minus_one32_def u32_def)
  note K12 = keepsD [OF keeps_trans [OF H(4) K2]]
  have "breadable (fs_bufs u) (fst (inode_slot u (i_ino ino3)))" "i_ino ino3 \<le> s_ninodes (fs_info u)" "0 < i_ino ino3"
    using slot K12(4,8,9) i3(1) by simp_all
  then obtain v bh where up: "V2_cominix_update_inode ?k u ino3 = Some (v, bh)"
    using update_inode_total by blast
  have bh: "bh = fst (inode_slot s (i_ino ino))"
    using update_inode_frame(6) [OF up] K12(8) i3(1) by (metis fst_conv)
  note K3 = keeps_update [OF keepsD(1) [OF K2] up]
  have bh': "bh < s_firstdatazone (fs_info u)" "bh \<notin> set (s_zmap (fs_info u))"
    using slot(4,5) bh K12(5,7) by simp_all
  have K: "keeps (insert ?x ?T) s v"
    using keeps_trans [OF keeps_trans [OF H(4) K2] K3(1) [OF bh']] by simp
  have disj: "set ?bs \<inter> ?T = {}" using H(8) busy by (auto simp: zones.free_set_def)
  have tu: "disk_step {} ?T t u"
    using busy xT K1(3,6) by (intro disk_step_shrink [OF K1(1) tr(2)]) auto
  have uv: "disk_step {bh} {} u v" by (rule disk_step_update [OF keepsD(1) [OF K2] up bh'(1)])
  have tv: "disk_step {bh} ?T t v" using disk_step_trans [OF tu uv] by simp
  have su: "disk_step {} (insert head ?T) s u" using disk_step_trans [OF H(10) tu] by simp
  have st: "disk_step {bh} (insert head ?T) s v" using disk_step_trans [OF su uv] by simp
  have dirty: "set ?bs \<subseteq> bdirty (fs_bufs v)" if "d \<noteq> []"
  proof
    fix b assume b: "b \<in> set ?bs"
    then have "b \<in> bdirty (fs_bufs t)" "b \<notin> ?T" using H(11) that disj by blast+
    then show "b \<in> bdirty (fs_bufs v)" using tracksD(1) [OF disk_stepD(6) [OF tv]] by blast
  qed
  have other: "V2_cominix_iget ?k v other = V2_cominix_iget ?k s other"
    if "i_ino other \<noteq> i_ino ino" "fst (inode_slot s (i_ino other)) < s_firstdatazone (fs_info s)"
      "fst (inode_slot s (i_ino other)) \<notin> set (s_zmap (fs_info s))" for other
  proof -
    have "9 \<le> s_blocksize_bits (fs_sb u)"
      using volume_okD(2) [of u] keepsD(1) [OF K2] by (simp add: store_ok_def)
    then have "(2 :: nat) ^ 9 \<le> s_blocksize (fs_sb u)" unfolding s_blocksize_def by (intro power_increasing) simp_all
    then have "V2_cominix_iget ?k v other = V2_cominix_iget ?k u other"
      using that(1) i3(1) by (intro iget_other_after_update [OF up]) simp_all
    also have "\<dots> = V2_cominix_iget ?k s other"
      using K12(4,8,9) disk_stepD(5) [OF su that(2,3)] by (intro iget_cong) simp_all
    finally show ?thesis .
  qed
  have once: "stores_once ?cs s v"
  proof -
    have wt: "heap_wf t" "volume_ok t" and ws: "heap_wf s" and wv: "heap_wf u"
      using K1(1) o keepsD(1) [OF K2] by (simp_all add: store_ok_def)
    have tu: "heap_same t u" using busy K1(3) by (intro shrink_heap_same [OF wt(2) tr(2)]) auto
    have "stores_once ?cs s u" using stores_once_same [OF H(12) _ tu ws wt(1)] by (simp add: heap_same_def)
    then show ?thesis using stores_once_same [OF _ _ K3(2) [OF bh'] ws wv] by (simp add: heap_same_def)
  qed
  have nx: "?x \<notin> set ?bs" using H(8) o by (auto simp: zones.free_set_def store_ok_def)
  have len: "length ?cs \<le> length d" using chunks_from_length [of d 0] d(2) by simp
  have fu: "zones.free_set u = zones.free_set t \<union> ?T"
    using tr(2) busy K1(3) shrink_data_block [OF tr(2)] by (auto simp: zones.free_set_def shrink_def)
  have ft: "chunked_file_at t ino3 ?bs d"
    using K1(1,6) i3 nx H(5,6) chunks_from_concat [of d 0] d(2) by (auto simp: chunked_file_at_def)
  have fv: "chunked_file_at v ino3 ?bs d"
    using keeps_file [OF keeps_trans [OF K2 K3(1) [OF bh']] ft] disj by simp
  let ?ino' = "cominix_set_inode ?k ino3 0"
  have reg3: "S_ISREG (i_mode ino3)" using reg i3(3) by simp
  have bound: "head < 2 ^ 32" "length ?cs < 2 ^ 32" "last ?bs < 2 ^ 32"
  proof -
    have "data_block s (last ?bs)" using H(8) last_in_set [of ?bs] by (auto simp: zones.free_set_def)
    moreover have "volume_ok s" using o by (simp add: store_ok_def)
    ultimately show "last ?bs < 2 ^ 32" by (intro volume_okD(4))
  qed (use H(7) len d(2) in auto)
  have "chunk_and_replace fe s ino = Inr (v, ?ino', 0)"
    unfolding ino3_def using H(1-3) ct bound up [unfolded ino3_def]
    by (simp add: chunk_and_replace_def Let_def cominix_write_inode_def del: last.simps)
  moreover have "chunked_file_at v ?ino' ?bs d"
    using set_inode_fields(5,10) [of ino3 ?k 0] reg3 by (intro chunk_inode [OF fv]) auto
  moreover have "i_fop ?ino' = Chunked_file_ops" using set_inode_regular [OF reg3] i3(5) by simp
  moreover have "zones.free_set v = (zones.free_set s - set ?bs) \<union> ?T" using K3(3) [OF bh'] fu H(9) by simp
  moreover have "\<exists>r. V2_cominix_iget ?k v base = Inr r \<and> chunked_file_at v r ?bs d"
    if "i_ino base = i_ino ino" "i_mode ino < 2 ^ 16" "u16 (i_nlink ino) \<noteq> 0" for base
    using iget_regular [OF up reg3, of base] that i3 z3 d chunk_inode [OF fv] by metis
  ultimately show ?thesis using K H(8) st [unfolded bh] dirty other once list.sel(1) [of head bs'] by metis
qed

section \<open>Reading a chunked file\<close>

lemma entries_total: "list_all2 (entry_holds s) es cs \<Longrightarrow> total_size es = int (length (concat cs))"
  by (induction es cs rule: list_all2_induct) (auto simp: entry_holds_def)

lemma locate_chunk:
  assumes "list_all2 (entry_holds s) es cs" "accum \<le> pos" "pos < accum + int (length (concat cs))"
  shows "\<exists>e c a. locate es pos accum = (Some e, accum + int a) \<and> entry_holds s e c \<and> accum + int a \<le> pos \<and>
    pos < accum + int (a + length c) \<and> (\<exists>rest. drop a (concat cs) = c @ rest)"
  using assms
proof (induction es cs arbitrary: accum rule: list_all2_induct)
  case (Cons e es c cs)
  show ?case
  proof (cases "pos < accum + int (ce_size e)")
    case True
    then show ?thesis
      using Cons by (intro exI [of _ e] exI [of _ c] exI [of _ 0]) (auto simp: entry_holds_def)
  next
    case False
    have sz: "ce_size e = length c" using Cons.hyps(1) by (simp add: entry_holds_def)
    have "accum + int (length c) \<le> pos" "pos < accum + int (length c) + int (length (concat cs))"
      using False Cons.prems(2) sz by simp_all
    from Cons.IH [OF this] obtain e' c' a rest where I: "locate es pos (accum + int (length c)) = (Some e', accum + int (length c) + int a)"
        "entry_holds s e' c'" "accum + int (length c) + int a \<le> pos"
        "pos < accum + int (length c) + int (a + length c')" "drop a (concat cs) = c' @ rest" by blast
    then show ?thesis
      using False sz by (intro exI [of _ e'] exI [of _ c'] exI [of _ "length c + a"]) (auto simp: algebra_simps)
  qed
qed simp

text \<open>A read delivers the bytes from \<open>pos\<close> up to the end of the chunk or of the buffer.\<close>

lemma chunked_read_spec:
  assumes f: "chunked_file s ino d" and p: "pos < length d" and u: "cnt \<le> ulen" and d: "length d < 2 ^ 31"
  shows "\<exists>n. n \<le> cnt \<and> (0 < cnt \<longrightarrow> 0 < n) \<and> n \<le> length d - pos \<and>
    chunked_file_read s ino ulen cnt (int pos) = Inr (take n (drop pos d), int n, int pos + int n)"
proof -
  from f obtain bs es cs where F: "store_ok s" "inode_is_chunked ino" "i_size ino = length d" "get_list_head ino = hd bs"
      "ll_inv s bs es" "list_all2 (entry_holds s) es cs" "concat cs = d"
    unfolding chunked_file_def chunked_file_at_def by blast
  from F(1) have h: "heap_wf s" by (simp add: store_ok_def)
  obtain e c a rest where L: "locate es (int pos) 0 = (Some e, int a)" "entry_holds s e c" "a \<le> pos" "pos < a + length c"
      "drop a d = c @ rest"
    using locate_chunk [OF F(6), of 0 "int pos"] p F(7) by auto
  then obtain hash where e: "ce_size e = length c" "c \<noteq> []" "chunk_holds s (ce_location e) hash c"
    by (auto simp: entry_holds_def)
  have el: "ce_location e \<noteq> 0" by (rule holds_bound(1) [OF h e(3)])
  have "total_size es < 2 ^ 63" using entries_total [OF F(6)] F(7) d by simp
  then have search: "ll_search_left (fs_sb s) (fs_bufs s) (hd bs) (int pos) 0 = Some (Inr (e, int a))"
    using ll_search_spec [of "fs_sb s" "fs_bufs s" bs es 0 "int pos"] F(5) L(1)
    by (simp add: ll_inv_def volume_ok_def found_or_zero_def)
  define n where "n = min cnt (length c - (pos - a))"
  have ee: "e = \<lparr>ce_location = ce_location e, ce_size = length c\<rparr>" using e(1) by simp
  have copy: "chunk_copy_into_buffer (fs_sb s) (fs_bufs s) e ulen cnt (pos - a) = Inr (take n (drop (pos - a) c))"
    by (subst ee, subst copy_into_buffer_spec [OF h e(3)]) (use u in \<open>simp_all add: n_def min_def\<close>)
  have "drop pos d = drop (pos - a) (drop a d)" using L(3) by simp
  then have dp: "drop pos d = drop (pos - a) c @ rest" using L(3,4) by (simp add: L(5))
  have tn: "take n (drop (pos - a) c) = take n (drop pos d)" unfolding dp by (simp add: n_def)
  have nd: "n \<le> length d - pos" using arg_cong [OF dp, of length] by (simp add: n_def)
  have "length (take n (drop pos d)) = n" using nd by simp
  moreover have "to_int (int n) = int n" using nd d by (simp add: to_int_def)
  moreover have "nat (int pos - int a) = pos - a" by simp
  ultimately have "chunked_file_read s ino ulen cnt (int pos) = Inr (take n (drop pos d), int n, int pos + int n)"
    using p F(2-4) search el e(1,2) copy tn
    by (simp add: chunked_file_read_def) (auto simp: Let_def)
  moreover have "n \<le> cnt" "0 < cnt \<longrightarrow> 0 < n" using L(3,4) by (auto simp: n_def)
  ultimately show ?thesis using nd by blast
qed

text \<open>Reading the file to its end with a buffer of \<open>cnt\<close> bytes; \<open>fuel\<close> bounds the number of reads.\<close>

fun read_all :: "nat \<Rightarrow> fs \<Rightarrow> inode \<Rightarrow> nat \<Rightarrow> int \<Rightarrow> byte list res" where
  "read_all 0 s ino cnt pos = Inl Diverge"
| "read_all (Suc fuel) s ino cnt pos =
     bindE (chunked_file_read s ino cnt cnt pos) (\<lambda>(xs, ret, pos').
     if ret \<le> 0 then Inr [] else bindE (read_all fuel s ino cnt pos') (\<lambda>ys. Inr (xs @ ys)))"

lemma read_all_spec:
  assumes f: "chunked_file s ino d" and c: "0 < cnt" and d: "length d < 2 ^ 31"
  shows "length d - pos < fuel \<Longrightarrow> read_all fuel s ino cnt (int pos) = Inr (drop pos d)"
proof (induction fuel arbitrary: pos)
  case (Suc fuel)
  have sz: "i_size ino = length d" using f by (auto simp: chunked_file_def chunked_file_at_def)
  show ?case
  proof (cases "pos < length d")
    case True
    from chunked_read_spec [OF f True order_refl d] c obtain n where n: "0 < n" "n \<le> length d - pos"
        "chunked_file_read s ino cnt cnt (int pos) = Inr (take n (drop pos d), int n, int pos + int n)" by metis
    have "read_all fuel s ino cnt (int (pos + n)) = Inr (drop (pos + n) d)"
      using n(1,2) Suc.prems by (intro Suc.IH) simp
    moreover have "take n (drop pos d) @ drop (pos + n) d = drop pos d" by (metis append_take_drop_id drop_drop add.commute)
    ultimately show ?thesis using n by simp
  next
    case False
    then show ?thesis using sz by (simp add: chunked_file_read_def)
  qed
qed simp

end
