(* ===== verification/MountAgain.thy ===== *)
theory MountAgain
  imports MountVolume ChunkReplace
begin

text \<open>
  Mounting a volume again: the extra super block on disk always describes the heap in memory
  (\<open>esb_agrees\<close>), so a mount after any number of stored chunks restores the mounted state exactly.
\<close>

declare add_2_eq_Suc [simp del] add_2_eq_Suc' [simp del] upt_Suc [simp del] One_nat_def [simp del]

section \<open>Storing a sequence of chunks\<close>

fun fill_all :: "fs \<Rightarrow> (chunk \<times> byte list) list \<Rightarrow> fs res" where
  "fill_all s [] = Inr s"
| "fill_all s ((m, d) # xs) = bindE (chunk_fill_hashtable s m d) (\<lambda>(t, l). fill_all t xs)"

fun fills_fit :: "fs \<Rightarrow> (chunk \<times> byte list) list \<Rightarrow> bool" where
  "fills_fit s [] = True"
| "fills_fit s ((m, d) # xs) = (d \<noteq> [] \<and> ck_length m = length d \<and> ck_hash m < 2 ^ 64 \<and>
     chunk_fits s (length d) \<and> fills_fit (after_fill s m d) xs)"

lemma fill_all_spec:
  assumes "store_ok s" and "esb_agrees s" and "fills_fit s xs"
  shows "\<exists>t. fill_all s xs = Inr t \<and> store_ok t \<and> esb_agrees t \<and> heap_grow s t \<and>
    (\<forall>l h x. chunk_holds s l h x \<longrightarrow> chunk_holds t l h x) \<and>
    (\<forall>(m, d) \<in> set xs. \<exists>l. chunk_holds t l (ck_hash m) d)"
  using assms
proof (induction xs arbitrary: s)
  case (Cons p xs)
  obtain m d where p: "p = (m, d)" by fastforce
  let ?u = "after_fill s m d" and ?l = "next_head (fs_sb s) (heap_brk (fs_info s))"
  have h: "heap_wf s" using Cons(2) by (simp add: store_ok_def)
  have d: "d \<noteq> []" "ck_length m = length d" "ck_hash m < 2 ^ 64" and f: "chunk_fits s (length d)"
    and xs: "fills_fit ?u xs" using Cons(4) p by simp_all
  have c: "chunk_fill_hashtable s m d = Inr (?u, ?l)" by (rule chunk_fill_spec [OF h d(1,2) f])
  have w: "heap_wf ?u" by (rule after_fill_wf [OF h f d(3,2)])
  have g: "heap_grow s ?u" by (rule after_fill_grow [OF Cons(2) f])
  have u: "store_ok ?u" "esb_agrees ?u"
    using store_ok_grow [OF Cons(2) g w] fill_esb_agrees [OF h f Cons(3)] by simp_all
  from Cons(1) [OF u xs] obtain t where t: "fill_all ?u xs = Inr t" "store_ok t" "esb_agrees t" "heap_grow ?u t"
    and old: "\<forall>l h x. chunk_holds ?u l h x \<longrightarrow> chunk_holds t l h x"
    and new: "\<forall>(m, d) \<in> set xs. \<exists>l. chunk_holds t l (ck_hash m) d" by blast
  have "chunk_holds ?u ?l (ck_hash m) d" by (rule after_fill_holds_new [OF h f d(3,2)])
  moreover have "chunk_holds ?u l k x" if "chunk_holds s l k x" for l k x
    by (rule after_fill_holds_old [OF h f that])
  ultimately have "chunk_holds t ?l (ck_hash m) d" "\<forall>l h x. chunk_holds s l h x \<longrightarrow> chunk_holds t l h x"
    using old by blast+
  then show ?case
    using c t new heap_grow_trans [OF g t(4)] p by (intro exI [of _ t]) auto
qed auto

section \<open>The image left behind\<close>

lemma set_bit_idem:
  assumes "cominix_test_bit bc b n"
  shows "cominix_set_bit bc b n = bc"
proof -
  have "bdata bc b (n div 8) OR push_bit (n mod 8) 1 = bdata bc b (n div 8)"
    using assms by (intro bit_eqI) (auto simp: cominix_test_bit_def bit_or_iff bit_push_bit_iff bit_exp_iff)
  then show ?thesis by (simp add: cominix_set_bit_def put_byte_def)
qed

text \<open>The super block with the location \<open>x\<close> in its pads.\<close>

definition super_with :: "raw_super \<Rightarrow> nat \<Rightarrow> raw_super" where
  "super_with d x = raw_put (raw_put d 4 2 (x AND (2 ^ 16 - 1))) 14 2 (drop_bit 16 x)"

lemma super_with_fields:
  assumes "x < 2 ^ 32"
  shows "m3s_of (super_with d x) = (m3s_of d)\<lparr>m3s_pad0 := x mod 2 ^ 16, m3s_pad1 := x div 2 ^ 16\<rparr>"
    and "image_loc (super_with d x) = x"
proof -
  have a: "x AND (2 ^ 16 - 1) = x mod 2 ^ 16" using take_bit_eq_mask [of 16 x] by (simp add: mask_eq_exp_minus_1 take_bit_eq_mod)
  have b: "drop_bit 16 x = x div 2 ^ 16" by (rule drop_bit_nat_div)
  have "x div 2 ^ 16 < 2 ^ 16" using assms by (simp add: less_mult_imp_div_less)
  then show m: "m3s_of (super_with d x) = (m3s_of d)\<lparr>m3s_pad0 := x mod 2 ^ 16, m3s_pad1 := x div 2 ^ 16\<rparr>"
    unfolding super_with_def a b m3s_of_def by (simp add: raw_num_put_other)
  show "image_loc (super_with d x) = x" unfolding image_loc_def m by simp
qed

lemma fresh_esbD:
  assumes "fresh_esb s t x"
  shows "store_ok t" "fs_sb t = fs_sb s" "fs_info t = (fs_info s)\<lparr>extra_sb_location := x\<rparr>"
    and "breadable (fs_bufs t) = breadable (fs_bufs s)" "data_block s x" "\<not> block_busy s x"
    and "data_block s c \<Longrightarrow> block_busy t c \<longleftrightarrow> c = x \<or> block_busy s c"
    and "c < s_nzones (fs_info s) \<Longrightarrow> c \<notin> set (s_zmap (fs_info s)) \<Longrightarrow> c \<noteq> x \<Longrightarrow> bdata (fs_bufs t) c = bdata (fs_bufs s) c"
    and "chunk_search_hashtable t h = Inr 0"
    and "esb_at (fs_bufs t) x = \<lparr>esb_hashtable_location = hashtable (fs_info s),
       esb_hashtable_size = hashtable_size (fs_info s), esb_heap_brk = heap_brk (fs_info s)\<rparr>"
    and "tracks {} (fs_bufs s) (fs_bufs t)"
  using assms unfolding fresh_esb_def by blast+

lemma fresh_esb_agrees: "fresh_esb s t x \<Longrightarrow> esb_agrees t"
  using fresh_esbD(3,10) [of s t x] by (simp add: esb_agrees_def)

text \<open>\<open>same_but X v u\<close>: the same file system in memory up to the bytes of the blocks \<open>X\<close>.\<close>

definition same_but :: "nat set \<Rightarrow> fs \<Rightarrow> fs \<Rightarrow> bool" where
  "same_but X v u \<longleftrightarrow> fs_sb u = fs_sb v \<and> fs_info u = fs_info v \<and>
     breadable (fs_bufs u) = breadable (fs_bufs v) \<and> (\<forall>c. c \<notin> X \<longrightarrow> bdata (fs_bufs u) c = bdata (fs_bufs v) c)"

lemma same_but_keeps:
  assumes o: "store_ok v" and m: "same_but X v u" and X: "X \<subseteq> zones.free_set v"
  shows "keeps {} v u"
proof -
  from o have vol: "volume_ok v" and h: "heap_wf v" by (simp_all add: store_ok_def)
  have wf: "zmap_wf v" by (rule volume_okD(1) [OF vol])
  have u: "fs_sb u = fs_sb v" "fs_info u = fs_info v" "breadable (fs_bufs u) = breadable (fs_bufs v)"
    and b: "\<And>c. c \<notin> X \<Longrightarrow> bdata (fs_bufs u) c = bdata (fs_bufs v) c"
    using m by (simp_all add: same_but_def)
  have x: "data_block v c \<and> \<not> block_busy v c" if "c \<in> X" for c
    using X that by (auto simp: zones.free_set_def)
  have eq: "u = v\<lparr>fs_bufs := fs_bufs u\<rparr>" using u by simp
  have z: "bdata (fs_bufs u) c = bdata (fs_bufs v) c" if "c \<in> set (s_zmap (fs_info v))" for c
    using b x zmap_block_not_data [OF wf] that by blast
  have busy: "block_busy u c = block_busy v c" if "data_block v c" for c
    by (subst eq) (rule block_busy_bufs [OF z wf that])
  have zu: "zmap_wf u" by (subst eq) (rule zmap_wf_bufs [OF z wf])
  have db: "data_block u = data_block v" using u(2) by (simp add: data_block_def fun_eq_iff)
  have hs: "heap_same v u" using u b x by (auto simp: heap_same_def data_block_def not_le [symmetric])
  have "volume_ok u" using vol zu u db by (simp add: volume_ok_def)
  then have "store_ok u" using o heap_same_wf [OF hs h] u(2) db busy by (simp add: store_ok_def)
  moreover have "bdata (fs_bufs u) c = bdata (fs_bufs v) c" if "block_busy v c" for c
    using b x that by blast
  ultimately show ?thesis
    unfolding keeps_def using u db busy heap_same_holds [OF hs h] by (simp add: inode_slot_def fun_eq_iff)
qed

lemma set_bit_bdata_cong:
  "bdata bc c = bdata bc' c \<Longrightarrow> bdata (cominix_set_bit bc b n) c = bdata (cominix_set_bit bc' b n) c"
  by (auto simp: cominix_set_bit_def put_byte_def)

text \<open>Below, \<open>v\<close> is the volume after a first mount of the image and any \<open>disk_step\<close>. Once its buffers
  are written back, the device is a good image again, and mounting it gives the same file system,
  up to blocks whose changes were not marked.\<close>

lemma image_reopened:
  assumes i: "image_ok d bc k" and z: "image_loc d = 0" and c: "coherent bc"
    and f: "fresh_esb (image_fs sb d bc k) t x" and s: "disk_step L X t v" and o: "store_ok v" and L: "2 \<notin> L"
    and X: "x \<notin> X"
  shows "image_ok (super_with d x) (reopened (fs_bufs v)) k"
    and "same_but X v (image_fs sb (super_with d x) (reopened (fs_bufs v)) k)"
    and "image_loc (super_with d x) = x" "x \<noteq> 0"
proof -
  let ?s = "image_fs sb d bc k" and ?d = "super_with d x" and ?r = "reopened (fs_bufs v)"
  let ?im = "m3s_imap_blocks (m3s_of d)" and ?zm = "m3s_zmap_blocks (m3s_of d)"
  let ?M = "\<lambda>bc. cominix_set_bit (cominix_set_bit bc 2 0) (2 + ?im) 0"
  note i' = image_okD [OF i] and F = fresh_esbD [OF f] and D = disk_stepD [OF s]
  have vs: "volume_ok ?s" by (rule image_volume_ok [OF i])
  have x: "x \<noteq> 0" "x < 2 ^ 32" using volume_okD(4,5) [OF vs F(5)] by simp_all
  have xz: "m3s_firstdatazone (m3s_of d) \<le> x" "x < s_nzones (fs_info ?s)" using F(5) by (simp_all add: data_block_def)
  note S = super_with_fields [OF x(2), of d]
  show loc: "image_loc ?d = x" by (rule S(2))
  show "x \<noteq> 0" by (rule x(1))
  obtain brk where "fs_info v = (fs_info t)\<lparr>heap_brk := brk\<rparr>" using D(2) by blast
  then have iv: "fs_info v = (image_info d bc k)\<lparr>extra_sb_location := x, heap_brk := brk\<rparr>" using F(3) by simp
  have br: "breadable ?r = breadable bc" using D(3) F(4) by (simp add: reopened_sel)
  have S0: "fs_bufs ?s = ?M bc" by (simp add: image_fs_def)
  have two: "bdata (fs_bufs v) 2 = bdata (fs_bufs ?s) 2"
  proof -
    have l: "2 < m3s_firstdatazone (m3s_of d)" "2 \<notin> set (s_zmap (fs_info ?s))" using i'(5,7) by auto
    then have "bdata (fs_bufs v) 2 = bdata (fs_bufs t) 2" using D(5) [of 2] L F(3) by simp
    moreover have "2 < s_nzones (fs_info ?s)" "2 \<noteq> x" using l(1) xz by simp_all
    ultimately show ?thesis using F(8) [of 2] l(2) by simp
  qed
  then have "cominix_test_bit (fs_bufs v) 2 0 = cominix_test_bit (fs_bufs ?s) 2 0" by (simp add: cominix_test_bit_def)
  then have t2: "cominix_test_bit (fs_bufs v) 2 0" by (simp add: image_fs_def)
  have h: "[2 + ?im..<2 + ?im + ?zm] ! 0 = 2 + ?im" using i'(6) by (simp only: nth_upt)
  have "volume_ok v" using o by (simp add: store_ok_def)
  then have tz: "cominix_test_bit (fs_bufs v) (2 + ?im) 0" using h by (simp add: volume_ok_def zmap_wf_def iv)
  have Mv: "?M (fs_bufs v) = fs_bufs v" by (simp add: set_bit_idem t2 tz)
  have trk: "tracks X (fs_bufs ?s) (fs_bufs v)" using tracks_trans [OF F(11) D(6)] by simp
  have same: "bdata (?M ?r) c = bdata (fs_bufs v) c" if cX: "c \<notin> X" for c
  proof (cases "c \<in> bdirty (fs_bufs v)")
    case True
    then have "bdata ?r c = bdata (fs_bufs v) c" by (simp add: reopened_sel)
    then have "bdata (?M ?r) c = bdata (?M (fs_bufs v)) c" by (intro set_bit_bdata_cong)
    then show ?thesis unfolding Mv .
  next
    case False
    then have "c \<notin> bdirty (fs_bufs ?s)" using tracksD(1) [OF trk cX] by blast
    then have "c \<notin> bdirty bc" by (simp add: S0 set_clear_bit_sel)
    then have "bdata bc c = bdisk bc c" using c by (simp add: coherent_def)
    also have "\<dots> = bdisk (fs_bufs v) c" using tracksD(3) [OF trk] by (simp add: S0 set_clear_bit_sel)
    also have "\<dots> = bdata ?r c" using False by (simp add: reopened_sel)
    finally have "bdata (?M ?r) c = bdata (?M bc) c" by (intro set_bit_bdata_cong) simp
    then show ?thesis using tracksD(2) [OF trk cX False] S0 by simp
  qed
  have rx: "bdata ?r x = bdata (fs_bufs v) x"
  proof -
    have "x \<noteq> 2" "x \<noteq> 2 + ?im" using xz(1) i'(5-7) by linarith+
    then have "bdata (?M ?r) x = bdata ?r x" by (simp add: set_clear_bit_sel)
    then show ?thesis using same [OF X] by simp
  qed
  have a: "esb_agrees v" using D(4) fresh_esb_agrees [OF f] by blast
  have e: "image_esb ?d ?r = \<lparr>esb_hashtable_location = esb_hashtable_location (image_esb d bc),
      esb_hashtable_size = esb_hashtable_size (image_esb d bc), esb_heap_brk = brk\<rparr>"
    using a x(1) num_at_other_block [OF rx] by (simp add: image_esb_def loc esb_agrees_def iv esb_at_def)
  let ?nz = "drop_bit k (esb_hashtable_location (image_esb d bc))"
  have w: "?nz + 1 - m3s_firstdatazone (m3s_of d) \<le> ?zm * (2 ^ k * 8)" using i'(8,12) by simp
  show "image_ok ?d ?r k"
    using i xz(2) i'(9) w unfolding image_ok_def Let_def S loc e br by simp
  have "fs_sb (image_fs sb ?d ?r k) = fs_sb v" using D(1) F(2) by (simp add: image_sb_def S(1))
  moreover have "fs_info (image_fs sb ?d ?r k) = fs_info v"
    unfolding iv by (simp add: image_info_def Let_def S(1) loc e)
  moreover have "fs_bufs (image_fs sb ?d ?r k) = ?M ?r" by (simp add: image_fs_def S(1))
  moreover have "breadable (fs_bufs v) = breadable bc" using D(3) F(4) by simp
  ultimately show "same_but X v (image_fs sb ?d ?r k)"
    using same br by (simp add: same_but_def)
qed

section \<open>A fresh mount\<close>

text \<open>An image without extra super block: the heap area fits the device, at most 4 GiB, and a data
  block is free.\<close>

definition fresh_image :: "raw_super \<Rightarrow> bufcache \<Rightarrow> nat \<Rightarrow> bool" where
  "fresh_image d bc k \<longleftrightarrow> image_ok d bc k \<and> image_loc d = 0 \<and> m3s_zones (m3s_of d) * 2 ^ k \<le> 2 ^ 32 \<and>
     esb_heap_brk default_esb \<le> m3s_zones (m3s_of d) * 2 ^ k"

lemma fresh_geometry:
  assumes "fresh_image d bc k"
  shows "geometry_ok (image_fs sb d bc k)" "heap_base (image_fs sb d bc k) \<le> max_brk (image_info d bc k)"
    "8 dvd hashtable_size (image_info d bc k)" "heap_brk (image_info d bc k) = heap_base (image_fs sb d bc k)"
proof -
  have i: "image_ok d bc k" and z: "image_loc d = 0" and mx: "m3s_zones (m3s_of d) * 2 ^ k \<le> 2 ^ 32"
    and h: "40 * 2 ^ 20 + 32 * 2 ^ 10 \<le> m3s_zones (m3s_of d) * 2 ^ k"
    using assms by (simp_all add: fresh_image_def default_esb_def)
  note i' = image_okD [OF i]
  have e: "image_esb d bc = default_esb" by (simp add: image_esb_def z)
  have k: "(2 :: nat) ^ k \<le> 40 * 2 ^ 20" using power_increasing [OF i'(4), of "2 :: nat"] by simp
  have nz: "drop_bit k (40 * 2 ^ 20 :: nat) * 2 ^ k \<le> 40 * 2 ^ 20" by (simp add: drop_bit_nat_div)
  have rd: "breadable bc b" if "b * 2 ^ k < m3s_zones (m3s_of d) * 2 ^ k" for b
    using i'(14) [of b] that by simp
  show "geometry_ok (image_fs sb d bc k)"
    using i'(3,4) mx k nz rd z by (simp add: geometry_ok_def Let_def e) (simp add: default_esb_def)
  show "heap_base (image_fs sb d bc k) \<le> max_brk (image_info d bc k)"
    "8 dvd hashtable_size (image_info d bc k)" "heap_brk (image_info d bc k) = heap_base (image_fs sb d bc k)"
    using h by (simp_all add: heap_base_def e) (simp_all add: default_esb_def)
qed

lemma fresh_mount:
  assumes f: "fresh_image d bc k" and e: "env_presents me d bc k" and r: "root_ok me d bc"
    and free: "data_block (image_fs (vs_sb v) d bc k) c" "\<not> block_busy (image_fs (vs_sb v) d bc k) c"
  obtains w t x where "cominix_fill_super me v = Inr (w, None)" "vs_fs w = Inr t"
    "fresh_esb (image_fs (vs_sb v) d bc k) t x" "vs_sbh w = super_with d x" "vs_sbh_dirty w" "vs_root w \<noteq> None"
proof -
  have i: "image_ok d bc k" and z: "image_loc d = 0" using f by (simp_all add: fresh_image_def)
  obtain root where F: "cominix_fill_super me v = bindE (cminix_alloc_extra_super (rooted_vs v d bc k root)) (\<lambda>(w, ok). Inr (w, None))"
    using fill_super_rooted [OF i e r, of v] z by metis
  note G = fresh_geometry [OF f]
  let ?w = "\<lambda>t x. (put_fs (rooted_vs v d bc k root) t)
      \<lparr>vs_sbh := raw_put (raw_put (vs_sbh (rooted_vs v d bc k root)) 4 2 (x AND (2 ^ 16 - 1))) 14 2 (drop_bit 16 x),
       vs_sbh_dirty := True\<rparr>"
  obtain t x where A: "cminix_alloc_extra_super (rooted_vs v d bc k root) = Inr (?w t x, True)" and x: "fresh_esb (image_fs (vs_sb v) d bc k) t x"
    by (rule alloc_extra_works [OF rooted_vs_sel(1) [of v d bc k root] image_volume_ok [OF i] _ G(1) _ _ _ free])
      (use z G in simp_all)
  have "cominix_fill_super me v = Inr (?w t x, None)" by (simp add: F A)
  moreover have "vs_fs (?w t x) = Inr t" by (simp add: vs_fs_def put_fs_def)
  moreover have "vs_sbh (?w t x) = super_with d x" by (simp add: super_with_def)
  moreover have "vs_root (?w t x) \<noteq> None" by (simp add: put_fs_def)
  ultimately show thesis using that x by simp
qed

text \<open>The kernel presents the device as the mount left it: the buffers and the super block's
  buffer have been written back.\<close>

definition mount_env_after :: "mount_env \<Rightarrow> nat \<Rightarrow> raw_super \<Rightarrow> bufcache \<Rightarrow> mount_env" where
  "mount_env_after me k d bc = me\<lparr>me_read_super := Some d, me_bufs := (me_bufs me)(k := bc)\<rparr>"

text \<open>The block of the root inode is as on the image.\<close>

lemma fresh_root_block:
  assumes i: "image_ok d bc k" and x: "fresh_esb (image_fs sb d bc k) t x"
  defines "b \<equiv> 2 + m3s_imap_blocks (m3s_of d) + m3s_zmap_blocks (m3s_of d)"
  shows "bdata (fs_bufs t) b = bdata bc b" and "inode_slot t 1 = (b, 0)"
    and "b < s_firstdatazone (fs_info t)" "b \<notin> set (s_zmap (fs_info t))" "breadable (fs_bufs t) b"
proof -
  note i' = image_okD [OF i] and F = fresh_esbD [OF x]
  have "m3s_firstdatazone (m3s_of d) \<le> x" using F(5) by (simp add: data_block_def)
  then have b: "b < s_nzones (image_info d bc k)" "b \<notin> set (s_zmap (image_info d bc k))" "b \<noteq> x" "b < m3s_zones (m3s_of d)"
    using i'(7-9) by (simp_all add: b_def)
  have "bdata (fs_bufs t) b = bdata (fs_bufs (image_fs sb d bc k)) b" using F(8) [of b] b by simp
  also have "\<dots> = bdata bc b" using i'(5,6) by (intro image_bufs_other) (simp_all add: b_def)
  finally show "bdata (fs_bufs t) b = bdata bc b" .
  show "inode_slot t 1 = (b, 0)" by (simp add: inode_slot_def Let_def F(3) b_def)
  show "b < s_firstdatazone (fs_info t)" "b \<notin> set (s_zmap (fs_info t))" "breadable (fs_bufs t) b"
    using i'(7) i'(14) [OF b(4)] b(2) F(3,4) by (simp_all add: b_def)
qed

lemma mount_again:
  assumes f: "fresh_image d bc k" and e: "env_presents me d bc k" and r: "root_ok me d bc" and c: "coherent bc"
    and x: "fresh_esb (image_fs (vs_sb v0) d bc k) t x" and s: "disk_step L X t v" and o: "store_ok v" and L: "2 \<notin> L"
    and X: "x \<notin> X" "X \<inter> {..<m3s_firstdatazone (m3s_of d)} = {}"
    and links: "num_at (fs_bufs v) (2 + m3s_imap_blocks (m3s_of d) + m3s_zmap_blocks (m3s_of d)) 2 2 \<noteq> 0"
  obtains w u where "cominix_fill_super (mount_env_after me k (super_with d x) (reopened (fs_bufs v))) v0 = Inr (w, None)"
    "vs_fs w = Inr u" "same_but X v u"
proof -
  let ?r = "reopened (fs_bufs v)" and ?d = "super_with d x"
  let ?me = "mount_env_after me k ?d ?r"
  have i: "image_ok d bc k" and z: "image_loc d = 0" using f by (simp_all add: fresh_image_def)
  note A = image_reopened [OF i z c x s o L X(1)] and i' = image_okD [OF i]
  have "x < 2 ^ 32" using volume_okD(4) [OF image_volume_ok [OF i] fresh_esbD(5) [OF x]] .
  note S = super_with_fields(1) [OF this, of d]
  have e': "env_presents ?me ?d ?r k" using e by (simp add: env_presents_def mount_env_after_def S)
  let ?b = "2 + m3s_imap_blocks (m3s_of d) + m3s_zmap_blocks (m3s_of d)"
  have bX: "?b \<notin> X" using X(2) i'(7) by auto
  have "bdata (fs_bufs (image_fs (vs_sb v0) ?d ?r k)) ?b = bdata (fs_bufs v) ?b"
    using A(2) bX by (simp add: same_but_def)
  moreover have "bdata (fs_bufs (image_fs (vs_sb v0) ?d ?r k)) ?b = bdata ?r ?b"
    by (rule image_bufs_other) (use i'(5,6) S in simp_all)
  ultimately have "num_at ?r ?b 2 2 \<noteq> 0" using links num_at_other_block [of ?r ?b "fs_bufs v"] by simp
  then have r': "root_ok ?me ?d ?r"
    using r by (simp add: root_ok_def mount_env_after_def S)
  obtain root where "cominix_fill_super ?me v0 = Inr (rooted_vs v0 ?d ?r k root, None)"
    using fill_super_rooted [OF A(1) e' r', of v0] A(3,4) by metis
  with that A(2) show thesis by simp
qed

end
