(* ===== verification/MountProperties.thy ===== *)
theory MountProperties
  imports MountAgain SampleDir
begin

text \<open>
  The properties of mounting, with instances on a small image: 12000 blocks of 4096 bytes, one map
  block of each kind, the inodes in block 4, data zones from 5 on, no extra super block.
\<close>

declare add_2_eq_Suc [simp del] add_2_eq_Suc' [simp del] One_nat_def [simp del]

section \<open>The sample image\<close>

definition sample_super :: raw_super where
  "sample_super i = (if i < 31 then [16, 0, 0, 0, 0, 0, 1, 0, 1, 0, 5, 0, 0, 0, 0, 0, 255, 255, 255, 127, 0xE0, 0x2E, 0, 0,
     0x5A, 0x4D, 0, 0, 0, 0x10, 3] ! i else 0)"

definition image_bufs :: bufcache where
  "image_bufs = \<lparr>bdata = (\<lambda>b i. if b = 4 \<and> i = 2 then 2 else 0), bdisk = (\<lambda>b i. if b = 4 \<and> i = 2 then 2 else 0),
     bdirty = {}, breadable = (\<lambda>b. b < 12000)\<rparr>"

definition sample_mount :: mount_env where
  "sample_mount = \<lparr>me_alloc_info = True, me_alloc_map = True,
     me_set_blocksize = (\<lambda>n. if n = 1024 then Some 10 else if n = 4096 then Some 12 else None),
     me_read_super = Some sample_super, me_bufs = (\<lambda>_. image_bufs),
     me_iget_locked = (\<lambda>n. Iget_new (sample_new\<lparr>i_ino := n\<rparr>)), me_make_root = (\<lambda>_. True),
     me_kernel = ne_kernel sample_namei\<rparr>"

definition sample_vsuper :: vsuper where
  "sample_vsuper = \<lparr>vs_sb = sample_sb, vs_info = None, vs_bufs = image_bufs, vs_root = None,
     vs_sbh = (\<lambda>_. 0), vs_sbh_dirty = False\<rparr>"

lemma sample_m3s: "m3s_of sample_super = \<lparr>m3s_ninodes = 16, m3s_pad0 = 0, m3s_imap_blocks = 1, m3s_zmap_blocks = 1,
    m3s_firstdatazone = 5, m3s_log_zone_size = 0, m3s_pad1 = 0, m3s_max_size = 2147483647, m3s_zones = 12000,
    m3s_magic = 0x4D5A, m3s_pad2 = 0, m3s_blocksize = 4096, m3s_disk_version = 3\<rparr>"
  by (simp add: m3s_of_def raw_num_def sample_super_def upt_rec One_nat_def)

lemma sample_image_loc: "image_loc sample_super = 0"
  by (simp add: image_loc_def sample_m3s)

lemma sample_image_ok: "image_ok sample_super image_bufs 12"
  by (simp add: image_ok_def Let_def sample_m3s sample_image_loc image_esb_def default_esb_def MINIX3_SUPER_MAGIC_def
      drop_bit_nat_div image_bufs_def)

lemma sample_fresh: "fresh_image sample_super image_bufs 12"
  by (simp add: fresh_image_def sample_image_ok sample_image_loc sample_m3s default_esb_def)

lemma sample_presents: "env_presents sample_mount sample_super image_bufs 12"
  by (simp add: env_presents_def sample_mount_def sample_m3s BLOCK_SIZE_def)

lemma sample_root: "root_ok sample_mount sample_super image_bufs"
proof -
  have "num_at image_bufs 4 2 2 = 2" by (simp add: num_at_def bytes_at_def image_bufs_def upt_rec)
  then show ?thesis by (simp add: root_ok_def sample_mount_def sample_m3s)
qed

lemma sample_free_block:
  assumes "b = 5 \<or> b = 6"
  shows "data_block (image_fs sb sample_super image_bufs 12) b" "\<not> block_busy (image_fs sb sample_super image_bufs 12) b"
proof -
  let ?s = "image_fs sb sample_super image_bufs 12"
  have i: "fs_info ?s = image_info sample_super image_bufs 12" by simp
  show "data_block ?s b"
    using assms by (auto simp: data_block_def sample_m3s image_esb_def sample_image_loc default_esb_def drop_bit_nat_div)
  have "\<not> cominix_test_bit (fs_bufs ?s) 3 n" if "n = 1 \<or> n = 2" for n
    using that by (simp add: image_fs_def sample_m3s) (auto simp: cominix_test_bit_def image_bufs_def cominix_set_bit_def put_byte_def)
  then show "\<not> block_busy ?s b"
    using assms by (auto simp: block_busy_def zone_busy_def block_zone_def sample_m3s bits_per_zone_def)
qed

lemmas sample_free = sample_free_block [of 5, simplified]
lemmas sample_free2 = sample_free_block [of 6, simplified]

section \<open>Mounting\<close>

text \<open>C9: mounting a good image that has no extra super block yet succeeds with a root inode, and
  leaves a file system that the other components can work on: the maps are well formed, the chunk
  heap is well formed and empty. Exactly one more data block is in use, the extra super block; it
  describes the heap, and the super block, waiting to be written, holds its location.\<close>

theorem mount_makes_store:
  assumes "fresh_image d bc k" and "env_presents me d bc k" and "root_ok me d bc"
    and "data_block (image_fs (vs_sb v) d bc k) c" and "\<not> block_busy (image_fs (vs_sb v) d bc k) c"
  shows "\<exists>w t. cominix_fill_super me v = Inr (w, None) \<and> vs_root w \<noteq> None \<and> vs_fs w = Inr t \<and>
    store_ok t \<and> imap_wf t \<and> (\<forall>h. chunk_search_hashtable t h = Inr 0) \<and> esb_agrees t \<and>
    \<not> block_busy (image_fs (vs_sb v) d bc k) (extra_sb_location (fs_info t)) \<and>
    (\<forall>b. data_block t b \<longrightarrow> (block_busy t b \<longleftrightarrow>
      b = extra_sb_location (fs_info t) \<or> block_busy (image_fs (vs_sb v) d bc k) b)) \<and>
    image_loc (vs_sbh w) = extra_sb_location (fs_info t) \<and> vs_sbh_dirty w"
proof -
  obtain w t x where m: "cominix_fill_super me v = Inr (w, None)" "vs_fs w = Inr t"
    "fresh_esb (image_fs (vs_sb v) d bc k) t x" "vs_sbh w = super_with d x" "vs_sbh_dirty w" "vs_root w \<noteq> None"
    by (rule fresh_mount [OF assms])
  note F = fresh_esbD [OF m(3)]
  have i: "image_ok d bc k" using assms(1) by (simp add: fresh_image_def)
  have "x < 2 ^ 32" using volume_okD(4) [OF image_volume_ok [OF i] F(5)] .
  then have l: "image_loc (vs_sbh w) = x" unfolding m(4) by (rule super_with_fields)
  have "imap_wf t" using image_imap_wf [OF i] F(3) by (simp add: imap_wf_def)
  moreover have "data_block t = data_block (image_fs (vs_sb v) d bc k)" by (simp add: data_block_def fun_eq_iff F(3))
  ultimately show ?thesis
    using m(1,2,5,6) l F(1,3,6,7,9) fresh_esb_agrees [OF m(3)] by (intro exI [of _ w] exI [of _ t]) simp
qed

theorem mount_makes_store_witness:
  "\<exists>w t. cominix_fill_super sample_mount sample_vsuper = Inr (w, None) \<and> vs_fs w = Inr t \<and> store_ok t \<and>
    chunk_search_hashtable t 77 = Inr 0"
  using mount_makes_store [OF sample_fresh sample_presents sample_root sample_free, of sample_vsuper] by blast

text \<open>C10: what a mount made and what was stored since is on the device once the marked buffers have been
  written. After a first mount and any list of chunks that fit, with the marked buffers written
  back and the rest dropped, mounting again gives the same file system in memory, the heap break
  included, and every stored chunk is in it.\<close>

theorem mount_again_restores:
  assumes "fresh_image d bc k" and "env_presents me d bc k" and "root_ok me d bc" and "coherent bc"
    and "data_block (image_fs (vs_sb v) d bc k) c" and "\<not> block_busy (image_fs (vs_sb v) d bc k) c"
    and "cominix_fill_super me v = Inr (w, None)" and "vs_fs w = Inr t" and "fills_fit t xs"
  shows "\<exists>u w' u'. fill_all t xs = Inr u \<and>
    cominix_fill_super (mount_env_after me k (vs_sbh w) (reopened (fs_bufs u))) v = Inr (w', None) \<and> vs_fs w' = Inr u' \<and>
    same_but {} u u' \<and> (\<forall>(m, x) \<in> set xs. \<exists>l. chunk_holds u' l (ck_hash m) x)"
proof -
  obtain w0 t0 x where "cominix_fill_super me v = Inr (w0, None)" "vs_fs w0 = Inr t0"
    and m: "fresh_esb (image_fs (vs_sb v) d bc k) t0 x" "vs_sbh w0 = super_with d x"
    by (rule fresh_mount [OF assms(1-3,5,6)])
  then have e: "w0 = w" "t0 = t" using assms(7,8) by simp_all
  have i: "image_ok d bc k" using assms(1) by (simp add: fresh_image_def)
  note F = fresh_esbD [OF m(1) [unfolded e]] and R = fresh_root_block [OF i m(1) [unfolded e]]
  obtain u where u: "fill_all t xs = Inr u" "store_ok u" "esb_agrees u" "heap_grow t u"
    and h: "\<forall>(m, d) \<in> set xs. \<exists>l. chunk_holds u l (ck_hash m) d"
    using fill_all_spec [OF F(1) fresh_esb_agrees [OF m(1) [unfolded e]] assms(9)] by blast
  have s: "disk_step {} {} t u" using u(3) by (intro disk_step_heap [OF F(1) u(4)]) simp
  let ?b = "2 + m3s_imap_blocks (m3s_of d) + m3s_zmap_blocks (m3s_of d)"
  have "bdata (fs_bufs u) ?b = bdata bc ?b" using disk_stepD(5) [OF s R(3,4)] R(1) by simp
  then have links: "num_at (fs_bufs u) ?b 2 2 \<noteq> 0"
    using assms(3) num_at_other_block [of "fs_bufs u" ?b bc] by (simp add: root_ok_def)
  obtain w' u' where a: "cominix_fill_super (mount_env_after me k (super_with d x) (reopened (fs_bufs u))) v = Inr (w', None)"
    "vs_fs w' = Inr u'" "same_but {} u u'"
    by (rule mount_again [OF assms(1-4) m(1) [unfolded e] s u(2) _ _ _ links]) simp_all
  then have "chunk_holds u' l h x" if "chunk_holds u l h x" for l h x
    using keepsD(12) [OF same_but_keeps [OF u(2)]] that by blast
  then show ?thesis using a u(1) h m(2) e by fastforce
qed

theorem mount_again_restores_witness:
  "\<exists>w w' t u'. cominix_fill_super sample_mount sample_vsuper = Inr (w, None) \<and> vs_fs w = Inr t \<and>
    cominix_fill_super (mount_env_after sample_mount 12 (vs_sbh w) (reopened (fs_bufs t))) sample_vsuper = Inr (w', None) \<and>
    vs_fs w' = Inr u' \<and> same_but {} t u'"
proof -
  obtain w t where m: "cominix_fill_super sample_mount sample_vsuper = Inr (w, None)" "vs_fs w = Inr t"
    using fresh_mount [OF sample_fresh sample_presents sample_root sample_free] by blast
  have "coherent image_bufs" by (simp add: coherent_def image_bufs_def)
  from mount_again_restores [OF sample_fresh sample_presents sample_root this sample_free m, of "[]"] m
  show ?thesis by auto
qed




text \<open>A device that ends before the place of the hash table stops the kernel.\<close>

theorem small_device_bug:
  assumes "super_ok d bc k" and "env_presents me d bc k"
    and "m3s_zones (m3s_of d) < drop_bit k (esb_hashtable_location (image_esb d bc))"
  shows "cominix_fill_super me v = Inl Bug"
  using fill_super_maps [OF assms(1,2), of v] assms(3) by metis

section \<open>Remounting\<close>

text \<open>On a version 3 volume the field \<open>s_state\<close> that \<open>cominix_remount\<close> reads is the upper half of
  \<open>s_max_size\<close>.\<close>

theorem v3_state_is_max_size: "ms_state (ms_of d) = m3s_max_size (m3s_of d) div 2 ^ 16"
proof -
  have u: "[16..<20] = [16, 17, 18, 19 :: nat]" "[18..<20] = [18, 19 :: nat]" by (simp_all add: upt_rec)
  have b: "unat (d i) < 256" for i using unsigned_less [of "d i"] by simp
  show ?thesis using b [of 16] b [of 17] by (simp add: ms_of_def m3s_of_def raw_num_def u)
qed

section \<open>The module\<close>

text \<open>Loading and removing the module leaves nothing behind; a load that fails leaves the entry in
  \<open>proc\<close>, whose functions are gone with the module.\<close>

theorem module_load_remove:
  assumes "init_cominix_fs mo \<lparr>mod_proc = False, mod_cache = False, mod_registered = False\<rparr> = (m, err)"
  shows "(err = None \<longrightarrow> mod_cache m \<and> mod_registered m \<and>
      exit_cominix_fs m = \<lparr>mod_proc = False, mod_cache = False, mod_registered = False\<rparr>) \<and>
    (err \<noteq> None \<longrightarrow> m = \<lparr>mod_proc = mo_proc_ok mo, mod_cache = False, mod_registered = False\<rparr>)"
  using assms by (auto simp: init_cominix_fs_def init_inodecache_def cminix_proc_init_def destroy_inodecache_def
      exit_cominix_fs_def cminix_proc_clean_def split: if_splits)

end
