(* ===== verification/TreeProperties.thy ===== *)
theory TreeProperties
  imports Inode SampleVolume
begin

text \<open>
  The properties of the block tree of a plain file and of the inode's slot on disk, with
  instances on a volume of 1024-byte blocks.
\<close>

section \<open>A volume of 1024-byte blocks and an empty file on it\<close>

definition sample_k :: fs where
  "sample_k = sample_fs\<lparr>fs_sb := sample_sb\<lparr>s_blocksize_bits := 10\<rparr>\<rparr>"

definition sample_file :: inode where
  "sample_file = \<lparr>i_ino = 2, i_mode = 0x81A4, i_nlink = 1, i_uid = 0, i_gid = 0, i_size = 0, i_atime = 5,
     i_mtime = 6, i_ctime = 7, i_rdev = 0, i_dirty = False, i_op = Cominix_file_iops,
     i_fop = Cominix_file_ops, i_aops = Cominix_aops, i2_data = (\<lambda>_. 0)\<rparr>"

text \<open>A kernel with the identity for the number conversions.\<close>

definition sample_kernel :: kernel where
  "sample_kernel = \<lparr>k_old_decode_dev = id, k_old_encode_dev = id, k_high2lowuid = id, k_high2lowgid = id,
     k_init_special = (\<lambda>ino _ _. ino), k_truncate_page = (\<lambda>s _. s), k_now = 100\<rparr>"

lemma sample_k_sel [simp]:
  "fs_sb sample_k = sample_sb\<lparr>s_blocksize_bits := 10\<rparr>" "fs_info sample_k = sample_info"
  "fs_bufs sample_k = sample_bufs" "s_maxbytes (sample_sb\<lparr>s_blocksize_bits := 10\<rparr>) = 2147483647"
  "s_blocksize (sample_sb\<lparr>s_blocksize_bits := 10\<rparr>) = 1024"
  by (simp_all add: sample_k_def sample_sb_def s_blocksize_def)

lemma sample_k_path_ok: "path_ok (fs_sb sample_k)"
  by (simp add: path_ok_def)

lemma sample_k_volume_ok: "volume_ok sample_k"
  by (simp add: volume_ok_def zmap_wf_def Let_def bits_per_zone_def sample_bits)

lemma sample_k_data_block: "data_block sample_k b \<longleftrightarrow> 6 \<le> b \<and> b < 64"
  by (auto simp: data_block_def)

lemma sample_k_block_busy: "6 \<le> b \<Longrightarrow> b < 64 \<Longrightarrow> block_busy sample_k b \<longleftrightarrow> b < 8"
  by (auto simp: block_busy_def block_zone_def zone_busy_def bits_per_zone_def sample_bits)

lemma sample_k_free_set: "zones.free_set sample_k = {8..<64}"
  by (auto simp: zones.free_set_def sample_k_data_block sample_k_block_busy)

lemma sample_file_slot: "slot s sample_file p = 0"
  by (simp add: slot_def sample_file_def i_data_def)

lemma sample_file_wf: "tree_wf sample_k sample_file"
  by (simp add: tree_wf_def sample_k_volume_ok sample_file_slot)

lemma sample_k_path: "block_to_path (fs_sb sample_k) 8 = [7, 1]"
  by (simp add: block_to_path_def Let_def u64_def DIRECT_def INDIRCOUNT_def)

lemma sample_k_INDIRCOUNT: "INDIRCOUNT (fs_sb sample_k) = 256"
  by (simp add: INDIRCOUNT_def)

text \<open>Block 8 of the file lies behind the indirect block: two blocks are allocated.\<close>

lemma sample_create:
  "\<exists>t ino' b. get_block (\<lambda>_. True) 9 sample_k sample_file 8 True =
      Some (Inr (t, ino', None, \<lparr>bm_mapped = Some b, bm_new = True\<rparr>)) \<and>
    tree_wf t ino' \<and> fs_sb t = fs_sb sample_k \<and> fs_info t = sample_info \<and> slot t ino' [7, 1] = b \<and>
    8 \<le> b \<and> b < 64 \<and> i_size ino' = 0 \<and> i_mode ino' = 0x81A4 \<and> slot t ino' [0] = 0"
proof -
  have r: "full_path (fs_sb sample_k) [0]" by (simp add: full_path_def valid_path_def levels_def DIRECT_def)
  have m: "i_size sample_file = 0" "i_mode sample_file = 0x81A4" by (simp_all add: sample_file_def)
  have path: "[7, 1] = block_to_path (fs_sb sample_k) (int 8)" using sample_k_path by simp
  have h: "1 < s_firstdatazone (fs_info sample_k)" "8 * s_blocksize (fs_sb sample_k) < s_maxbytes (fs_sb sample_k)"
    "length [7, 1 :: nat] \<le> card (zones.free_set sample_k)" by (simp_all add: sample_k_free_set)
  show ?thesis
    using get_block_create [OF sample_file_wf h(1) sample_k_path_ok h(2) path sample_file_slot h(3), of 9]
    unfolding m sample_k_free_set using r sample_file_slot [of sample_k "[0]"] by auto
qed

section \<open>Mapping blocks\<close>

text \<open>The path of a block below the maximum file size has a zone word below ten and as many
  further offsets as that word has levels, each below the number of words of a block; and the
  path determines the block, so that no two blocks share a path. Block numbers from the maximum on have
  no path.\<close>

theorem path_round_trip:
  assumes "path_ok sb" and "block * s_blocksize sb < 2 ^ 64"
  shows "if block * s_blocksize sb < s_maxbytes sb
    then full_path sb (block_to_path sb (int block)) \<and> path_block sb (block_to_path sb (int block)) = block
    else block_to_path sb (int block) = []"
  using block_to_path_ok [OF assms(1), of block] block_to_path_Nil [OF assms] by simp

theorem path_round_trip_witness: "path_block (fs_sb sample_k) (block_to_path (fs_sb sample_k) (int 70000)) = 70000"
  using path_round_trip [OF sample_k_path_ok, of 70000] by simp

text \<open>C33: \<open>get_block\<close> on a mapped block answers the block number at the end of its path and changes
  nothing; on a hole, without \<open>create\<close>, it answers nothing and changes nothing.\<close>

theorem get_block_finds:
  assumes "tree_wf s ino" and "1 < s_firstdatazone (fs_info s)"
    and "path_ok (fs_sb s)" and "block * s_blocksize (fs_sb s) < s_maxbytes (fs_sb s)"
  shows "(let b = slot s ino (block_to_path (fs_sb s) (int block)) in
     if b \<noteq> 0 then V2_cominix_get_block getblk now s ino block create =
       Some (Inr (s, ino, None, \<lparr>bm_mapped = Some b, bm_new = False\<rparr>))
     else create \<or> V2_cominix_get_block getblk now s ino block create =
       Some (Inr (s, ino, None, \<lparr>bm_mapped = None, bm_new = False\<rparr>)))"
  using get_block_lookup [OF assms] by (cases create) (simp_all add: Let_def V2_cominix_get_block_def)

theorem get_block_finds_witness:
  "\<exists>t ino' b. V2_cominix_get_block (\<lambda>_. True) 9 sample_k sample_file 8 True =
      Some (Inr (t, ino', None, \<lparr>bm_mapped = Some b, bm_new = True\<rparr>)) \<and>
    V2_cominix_get_block (\<lambda>_. True) 9 t ino' 8 False =
      Some (Inr (t, ino', None, \<lparr>bm_mapped = Some b, bm_new = False\<rparr>)) \<and> b \<noteq> 0"
proof -
  obtain t ino' b where c: "get_block (\<lambda>_. True) 9 sample_k sample_file 8 True =
      Some (Inr (t, ino', None, \<lparr>bm_mapped = Some b, bm_new = True\<rparr>))"
      "tree_wf t ino'" "fs_sb t = fs_sb sample_k" "fs_info t = sample_info" "slot t ino' [7, 1] = b" "8 \<le> b"
    using sample_create by auto
  have "1 < s_firstdatazone (fs_info t)" "path_ok (fs_sb t)" "8 * s_blocksize (fs_sb t) < s_maxbytes (fs_sb t)"
    using c(3,4) sample_k_path_ok by simp_all
  from get_block_finds [OF c(2) this, of "\<lambda>_. True" 9 False] c sample_k_path show ?thesis
    by (auto simp: Let_def V2_cominix_get_block_def)
qed

text \<open>C15: \<open>get_block\<close> with \<open>create\<close> on a hole, when there are as many free blocks as the path is
  deep: it returns, having mapped the block to a block that was free, marked new; the tree stays
  well formed, every other block of the file keeps its place and its bytes, and the inode is
  marked for writing.\<close>

theorem get_block_creates:
  assumes "tree_wf s ino" and "1 < s_firstdatazone (fs_info s)"
    and "path_ok (fs_sb s)" and "block * s_blocksize (fs_sb s) < s_maxbytes (fs_sb s)"
    and "p = block_to_path (fs_sb s) (int block)" and "slot s ino p = 0"
    and "length p \<le> card (zones.free_set s)"
  shows "\<exists>t ino' b. V2_cominix_get_block (\<lambda>_. True) now s ino block True =
      Some (Inr (t, ino', None, \<lparr>bm_mapped = Some b, bm_new = True\<rparr>)) \<and>
    tree_wf t ino' \<and> b \<in> zones.free_set s \<and> slot t ino' p = b \<and>
    zones.free_set t \<subseteq> zones.free_set s - {b} \<and>
    (\<forall>r. full_path (fs_sb s) r \<longrightarrow> r \<noteq> p \<longrightarrow> slot t ino' r = slot s ino r \<and>
      (slot s ino r \<noteq> 0 \<longrightarrow> bdata (fs_bufs t) (slot s ino r) = bdata (fs_bufs s) (slot s ino r))) \<and>
    i_size ino' = i_size ino \<and> i_dirty ino'"
  using get_block_create [OF assms, of now] unfolding V2_cominix_get_block_def by blast

theorem get_block_creates_witness:
  "\<exists>t ino' b. V2_cominix_get_block (\<lambda>_. True) 9 sample_k sample_file 8 True =
      Some (Inr (t, ino', None, \<lparr>bm_mapped = Some b, bm_new = True\<rparr>)) \<and> 8 \<le> b \<and> b < 64 \<and> i_dirty ino'"
  using get_block_creates [OF sample_file_wf _ sample_k_path_ok, of 8 "[7, 1]" 9] sample_k_path
  by (auto simp: sample_file_slot sample_k_free_set)

section \<open>Truncation\<close>

text \<open>C16: truncating a file of size 0 frees exactly the blocks of its tree, data and indirect
  blocks alike: afterwards the ten zone words are 0, the blocks of the tree are free, every other
  data block is as busy as before and keeps its bytes.\<close>

theorem truncate_frees_tree:
  assumes "tree_wf s ino" and "i_size ino = 0" and "k_truncate_page k s ino = s" and "0 < s_maxbytes (fs_sb s)"
    and "S_ISREG (i_mode ino)" and "\<not> inode_is_chunked ino"
  shows "\<exists>t ino'. cominix_truncate k s ino = (t, ino') \<and> (\<forall>j < 10. i_data ino' j = 0) \<and>
    (\<forall>c. data_block s c \<longrightarrow> (block_busy t c \<longleftrightarrow> block_busy s c \<and>
       c \<notin> {slot s ino p | p. valid_path (fs_sb s) p \<and> slot s ino p \<noteq> 0})) \<and>
    (\<forall>c. c \<notin> set (s_zmap (fs_info s)) \<longrightarrow> c \<notin> {slot s ino p | p. valid_path (fs_sb s) p \<and> slot s ino p \<noteq> 0} \<longrightarrow>
       bdata (fs_bufs t) c = bdata (fs_bufs s) c)"
proof -
  obtain t ino' where t: "itree_truncate (k_truncate_page k) (k_now k) s ino = (t, ino')"
      "shrink s t (tree_blocks s ino) {}" "\<forall>j < DIRECT + 3. i_data ino' j = 0"
    using truncate_zero [OF assms(1,2), of "k_truncate_page k" "k_now k"] assms(3,4) by blast
  have "cominix_truncate k s ino = (t, ino')"
    using t(1) assms(5,6) by (simp add: cominix_truncate_def V2_cominix_truncate_def)
  with t(2,3) show ?thesis
    by (intro exI [of _ t] exI [of _ ino']) (auto simp: shrink_def tree_blocks_slots DIRECT_def)
qed

theorem truncate_frees_tree_witness:
  "\<exists>t ino' b u v. V2_cominix_get_block (\<lambda>_. True) 9 sample_k sample_file 8 True =
      Some (Inr (t, ino', None, \<lparr>bm_mapped = Some b, bm_new = True\<rparr>)) \<and> block_busy t b \<and>
    cominix_truncate sample_kernel t ino' = (u, v) \<and> \<not> block_busy u b \<and> i_data v 7 = 0"
proof -
  obtain t ino' b where c: "get_block (\<lambda>_. True) 9 sample_k sample_file 8 True =
      Some (Inr (t, ino', None, \<lparr>bm_mapped = Some b, bm_new = True\<rparr>))"
      "tree_wf t ino'" "fs_sb t = fs_sb sample_k" "slot t ino' [7, 1] = b" "8 \<le> b"
      "i_size ino' = 0" "i_mode ino' = 0x81A4" "slot t ino' [0] = 0"
    using sample_create by auto
  have p: "valid_path (fs_sb t) [7, 1]"
    using c(3) sample_k_INDIRCOUNT by (simp add: valid_path_def levels_def DIRECT_def)
  have b: "data_block t b" "block_busy t b" using tree_wfD(2) [OF c(2) p] c(4,5) by auto
  have mem: "b \<in> {slot t ino' p | p. valid_path (fs_sb t) p \<and> slot t ino' p \<noteq> 0}"
    using p c(4,5) by (intro CollectI exI [of _ "[7, 1]"]) simp
  have "S_ISREG (i_mode ino')" by (simp add: c(7) S_ISREG_def S_IFMT_def)
  moreover have "\<not> inode_is_chunked ino'" using c(8) by (simp add: slot_def inode_is_chunked_def minus_one32_def)
  moreover have "k_truncate_page sample_kernel t ino' = t" by (simp add: sample_kernel_def)
  ultimately obtain u v where u: "cominix_truncate sample_kernel t ino' = (u, v)" "i_data v 7 = 0" "\<not> block_busy u b"
    using truncate_frees_tree [OF c(2,6), of sample_kernel] c(3) b(1) mem by (auto simp del: mem_Collect_eq)
  show ?thesis using c(1) b(2) u unfolding V2_cominix_get_block_def by blast
qed

section \<open>The inode on disk\<close>

text \<open>C32: a file, directory or symbolic link whose fields fit its slot on disk, written there and
  read back, is the same inode: every field that the slot holds, whatever was in the slot and in
  the fresh in-memory inode before; and a regular file gets the read operations of chunked files
  exactly when it carries the chunked mark.\<close>

theorem inode_round_trip:
  assumes "V2_cominix_update_inode k s ino = Some (s', bh)" and "disk_fits k ino"
    and "i_ino base = i_ino ino" and m: "S_ISREG (i_mode ino) \<or> S_ISDIR (i_mode ino) \<or> S_ISLNK (i_mode ino)"
  shows "\<exists>r. V2_cominix_iget k s' base = Inr r \<and>
    i_mode r = i_mode ino \<and> i_uid r = i_uid ino \<and> i_gid r = i_gid ino \<and> i_nlink r = i_nlink ino \<and>
    i_size r = i_size ino \<and> i_mtime r = i_mtime ino \<and> i_atime r = i_atime ino \<and> i_ctime r = i_ctime ino \<and>
    (\<forall>i < 10. i_data r i = i_data ino i) \<and> i_ino r = i_ino ino \<and>
    (S_ISREG (i_mode ino) \<longrightarrow> i_fop r = (if inode_is_chunked ino then Chunked_file_ops else Cominix_file_ops))"
  by (rule exI, rule conjI, rule iget_after_update [OF assms(1-3)])
    (use assms(3) m in \<open>simp add: set_inode_fields set_inode_regular, auto simp add: inode_is_chunked_def i_data_def\<close>)

text \<open>The slots of inodes 2 and 3 of the sample volume are in block 4.\<close>

lemma sample_update:
  "\<exists>s'. V2_cominix_update_inode sample_kernel sample_fs (switch_inode_to_chunked sample_file) = Some (s', 4)"
  by (simp add: V2_cominix_update_inode_def raw_inode_slot inode_slot_def sample_file_def set_zone_def
      switch_inode_to_chunked_def S_ISCHR_def S_ISBLK_def S_IFMT_def Let_def sample_info_def del: put_zones.simps upt_Suc)

lemma sample_disk_fits: "disk_fits sample_kernel (switch_inode_to_chunked sample_file)"
proof -
  have "i_data (switch_inode_to_chunked sample_file) i < 2 ^ 32" for i
    by (simp add: switch_inode_to_chunked_def minus_one32_def u32_def)
      (simp add: sample_file_def i_data_def)
  then show ?thesis
    by (simp add: disk_fits_def)
      (simp add: switch_inode_to_chunked_def set_zone_def sample_file_def sample_kernel_def S_ISCHR_def S_ISBLK_def
        S_IFMT_def)
qed

theorem inode_round_trip_witness:
  "\<exists>s' r. V2_cominix_update_inode sample_kernel sample_fs (switch_inode_to_chunked sample_file) = Some (s', 4) \<and>
     V2_cominix_iget sample_kernel s' (sample_file\<lparr>i_size := 9, i_mode := 0\<rparr>) = Inr r \<and>
     i_size r = 0 \<and> i_mode r = 0x81A4 \<and> i_fop r = Chunked_file_ops"
proof -
  let ?c = "switch_inode_to_chunked sample_file"
  have m: "i_ino (sample_file\<lparr>i_size := 9, i_mode := 0\<rparr>) = i_ino ?c" "i_mode ?c = 0x81A4" "i_size ?c = 0"
      "S_ISREG (i_mode ?c)"
    by (simp_all add: sample_file_def switch_inode_to_chunked_def set_zone_def S_ISREG_def S_IFMT_def)
  obtain s' where u: "V2_cominix_update_inode sample_kernel sample_fs ?c = Some (s', 4)" using sample_update by blast
  from inode_round_trip [OF u sample_disk_fits m(1)] m u show ?thesis by auto
qed

text \<open>Writing an inode leaves what is read from the slot of any other inode unchanged.\<close>

theorem inode_update_local:
  assumes "V2_cominix_update_inode k s ino = Some (s', bh)" and "i_ino other \<noteq> i_ino ino"
    and "64 \<le> s_blocksize (fs_sb s)"
  shows "V2_cominix_iget k s' other = V2_cominix_iget k s other"
  using assms by (rule iget_other_after_update)

theorem inode_update_local_witness:
  "\<exists>s'. V2_cominix_update_inode sample_kernel sample_fs (switch_inode_to_chunked sample_file) = Some (s', 4) \<and>
     V2_cominix_iget sample_kernel s' (sample_file\<lparr>i_ino := 3\<rparr>) = Inl ESTALE"
proof -
  obtain s' where u: "V2_cominix_update_inode sample_kernel sample_fs (switch_inode_to_chunked sample_file) = Some (s', 4)"
    using sample_update by blast
  have "V2_cominix_iget sample_kernel sample_fs (sample_file\<lparr>i_ino := 3\<rparr>) = Inl ESTALE"
    by (simp add: V2_cominix_iget_def raw_inode_slot inode_slot_def Let_def)
      (simp add: sample_info_def sample_num_at)
  with inode_update_local [OF u, of "sample_file\<lparr>i_ino := 3\<rparr>"] u show ?thesis
    by (simp add: sample_file_def switch_inode_to_chunked_def set_zone_def)
qed

end
