(* ===== verification/FileProperties.thy ===== *)
theory FileProperties
  imports ChunkReplace TreeProperties
begin

text \<open>
  The properties of chunking a file and of reading a chunked file, with instances on the sample
  volume: a file of two zero bytes without blocks (a hole), whose one chunk is stored under the
  key 0.
\<close>

section \<open>An instance\<close>

definition sample_crypto :: crypto where
  "sample_crypto = \<lparr>cr_alloc_shash = (\<lambda>_. Inr 1), cr_sizeof_desc = 8, cr_descsize = (\<lambda>_. 88),
     cr_digest = (\<lambda>_ xs. Inr (take 16 (xs @ replicate 16 0)))\<rparr>"

definition sample_env :: "byte list \<Rightarrow> file_env" where
  "sample_env d = \<lparr>fe_kernel_read = (\<lambda>p n. Inr (take n (drop p d))), fe_kmalloc = (\<lambda>_. True),
     fe_crypto = sample_crypto, fe_kernel = sample_kernel\<rparr>"

definition sample_plain :: inode where
  "sample_plain = sample_file\<lparr>i_size := 2\<rparr>"

lemma sample_env_ok: "env_ok (sample_env d) d"
  by (simp add: env_ok_def sample_env_def sample_crypto_def md5_hash_def calc_hash_def init_sdesc_def Let_def)

lemma sample_contents: "heap_contents sample_fs = {}"
  by (auto simp: heap_contents_def sample_holds)

lemma sample_store_ok: "store_ok sample_fs"
  by (simp add: store_ok_def sample_volume_ok sample_heap_wf sample_data_block sample_block_busy)

lemma sample_plain_slot: "slot s sample_plain p = 0"
  by (simp add: slot_def sample_plain_def sample_file_def i_data_def)

lemma sample_chunks: "chunks_from [0, 0] 0 = [[0, 0]]"
  by (simp add: chunks_from.simps Let_def cdc_get_chunk_size_def MinSize_def)

lemma sample_chunkable: "chunkable (sample_env [0, 0]) sample_fs sample_plain [0, 0]"
proof -
  have "tree_wf sample_fs sample_plain" by (simp add: tree_wf_def sample_volume_ok sample_plain_slot)
  moreover have "tree_blocks sample_fs sample_plain = {}" by (simp add: tree_blocks_slots sample_plain_slot)
  moreover have "heap.keyed (chunk_key fe) sample_fs" for fe by (simp add: heap.keyed_def sample_holds)
  moreover have "zones.free_set sample_fs = {8..<64}"
    by (auto simp: zones.free_set_def sample_data_block sample_block_busy)
  moreover have "inode_slot sample_fs 2 = (4, 64)" by (simp add: inode_slot_def Let_def)
  moreover have "0 < s_maxbytes sample_sb" by (simp add: sample_sb_def)
  ultimately show ?thesis
    by (simp add: chunkable_def sample_env_ok sample_chunks sample_store_ok sample_contents)
      (simp add: sample_plain_def sample_file_def sample_env_def sample_kernel_def S_ISREG_def S_IFMT_def
        inode_is_chunked_def i_data_def minus_one32_def entries_per_block_def sizeof_chunk_entry_def)
qed

section \<open>Chunking\<close>



text \<open>C4: chunking one file leaves every other file alone: a chunked file whose list is not among the
  blocks of the chunked one keeps its contents, a plain file with a tree of its own keeps its
  tree and the bytes of every block of it, and every other inode is read from disk as before.\<close>

theorem chunking_keeps_others:
  assumes "chunkable fe s ino d" and "chunk_and_replace fe s ino = Inr (v, ino', r)"
    and "chunked_file_at s o1 bs x" and "set bs \<inter> tree_blocks s ino = {}"
    and "tree_wf s o2" and "tree_blocks s o2 \<inter> insert (extra_sb_location (fs_info s)) (tree_blocks s ino) = {}"
    and "i_ino o3 \<noteq> i_ino ino" and "fst (inode_slot s (i_ino o3)) < s_firstdatazone (fs_info s)"
    and "fst (inode_slot s (i_ino o3)) \<notin> set (s_zmap (fs_info s))"
  shows "chunked_file_at v o1 bs x \<and> tree_wf v o2 \<and> tree_blocks v o2 = tree_blocks s o2 \<and>
    (\<forall>b \<in> tree_blocks s o2. bdata (fs_bufs v) b = bdata (fs_bufs s) b) \<and>
    V2_cominix_iget (fe_kernel fe) v o3 = V2_cominix_iget (fe_kernel fe) s o3"
proof -
  have k: "keeps (insert (extra_sb_location (fs_info s)) (tree_blocks s ino)) s v"
    and g: "V2_cominix_iget (fe_kernel fe) v o3 = V2_cominix_iget (fe_kernel fe) s o3"
    using chunk_and_replace_spec [OF assms(1)] assms(2,7-9) by auto
  have "set bs \<inter> insert (extra_sb_location (fs_info s)) (tree_blocks s ino) = {}"
    using assms(3,4) by (simp add: chunked_file_at_def)
  moreover have "data_block s b \<and> block_busy s b" if "b \<in> tree_blocks s o2" for b
    using that tree_wfD(2) [OF assms(5)] unfolding tree_blocks_slots by blast
  ultimately show ?thesis
    using keeps_file [OF k assms(3)] keeps_tree [OF k assms(5,6) refl] keepsD(11) [OF k] assms(6) g by blast
qed

text \<open>Another, empty, chunked file with its list in block 7.\<close>

definition sample_empty_chunked :: inode where
  "sample_empty_chunked = set_zone (switch_inode_to_chunked sample_file) 1 7"

lemma sample_empty_chunked: "chunked_file_at sample_fs sample_empty_chunked [7] []"
  unfolding chunked_file_at_def
proof (intro conjI exI)
  show "store_ok sample_fs" by (rule sample_store_ok)
  show "ll_inv sample_fs [7] []" by (rule sample_ll_inv)
  show "list_all2 (entry_holds sample_fs) [] []" "concat [] = []" by simp_all
  show "inode_is_chunked sample_empty_chunked" "get_list_head sample_empty_chunked = hd [7]"
    by (simp_all add: sample_empty_chunked_def inode_is_chunked_def get_list_head_def u32_def switch_inode_to_chunked_def minus_one32_def)
  show "i_size sample_empty_chunked = length ([] :: byte list)"
    by (simp add: sample_empty_chunked_def switch_inode_to_chunked_def set_zone_def sample_file_def)
  show "extra_sb_location (fs_info sample_fs) \<notin> set [7]" by simp
qed

theorem chunking_keeps_others_witness:
  "\<exists>v ino'. chunk_and_replace (sample_env [0, 0]) sample_fs sample_plain = Inr (v, ino', 0) \<and>
     chunked_file_at v sample_empty_chunked [7] [] \<and> tree_wf v sample_file \<and>
     V2_cominix_iget sample_kernel v (sample_file\<lparr>i_ino := 1\<rparr>) = V2_cominix_iget sample_kernel sample_fs (sample_file\<lparr>i_ino := 1\<rparr>)"
proof -
  obtain v ino' where r: "chunk_and_replace (sample_env [0, 0]) sample_fs sample_plain = Inr (v, ino', 0)"
    using chunk_and_replace_spec [OF sample_chunkable] by blast
  have b: "tree_blocks sample_fs sample_plain = {}" "tree_blocks sample_fs sample_file = {}"
    by (simp_all add: tree_blocks_slots sample_plain_slot sample_file_slot)
  have "tree_wf sample_fs sample_file" by (simp add: tree_wf_def sample_volume_ok sample_file_slot)
  moreover have "inode_slot sample_fs 1 = (4, 0)" by (simp add: inode_slot_def Let_def)
  ultimately show ?thesis
    using chunking_keeps_others [OF sample_chunkable r sample_empty_chunked, of sample_file "sample_file\<lparr>i_ino := 1\<rparr>"] b r
    by (simp add: sample_env_def sample_plain_def sample_file_def)
qed

text \<open>C5: deduplication. After chunking, the heap holds what it held and the chunks of the file; each
  content is stored once: the heap grows by at most the size (with its header and rounding) of
  those different chunks of the file that were not yet stored, and not at all when all were.\<close>

theorem chunks_stored_once:
  assumes "chunkable fe s ino d"
  shows "\<exists>v ino'. chunk_and_replace fe s ino = Inr (v, ino', 0) \<and>
    heap_contents v = heap_contents s \<union> set (chunks_from d 0) \<and>
    heap_brk (fs_info s) \<le> heap_brk (fs_info v) \<and>
    heap_brk (fs_info v) \<le> heap_brk (fs_info s) + heap_need (new_chunks (heap_contents s) (chunks_from d 0)) \<and>
    set (new_chunks (heap_contents s) (chunks_from d 0)) = set (chunks_from d 0) - heap_contents s \<and>
    distinct (new_chunks (heap_contents s) (chunks_from d 0)) \<and>
    (set (chunks_from d 0) \<subseteq> heap_contents s \<longrightarrow> heap_brk (fs_info v) = heap_brk (fs_info s))"
proof -
  obtain v ino' where "chunk_and_replace fe s ino = Inr (v, ino', 0)" and o: "stores_once (chunks_from d 0) s v"
    using chunk_and_replace_spec [OF assms] by blast
  then show ?thesis
    using o new_chunks_set [of "heap_contents s" "chunks_from d 0"] new_chunks_none [of "chunks_from d 0" "heap_contents s"]
    by (intro exI [of _ v] exI [of _ ino']) (auto simp: stores_once_def)
qed

theorem chunks_stored_once_witness:
  "\<exists>v ino'. chunk_and_replace (sample_env [0, 0]) sample_fs sample_plain = Inr (v, ino', 0) \<and>
     heap_contents v = {[0, 0]} \<and> heap_brk (fs_info v) \<le> heap_brk (fs_info sample_fs) + 49"
  using chunks_stored_once [OF sample_chunkable] by (auto simp: sample_contents sample_chunks)

section \<open>The proc entry\<close>

text \<open>C6: writing the name of a plain file of this file system to the proc entry chunks it and returns
  the number of bytes written; from then on writing the name again fails and changes nothing,
  as the inode's operations are those of a chunked file.\<close>

theorem proc_write_chunks_once:
  assumes "chunkable (fe\<lparr>fe_kernel_read := rd\<rparr>) s ino d" and "i_fop ino = Cominix_file_ops"
    and "fe_kmalloc fe (u64 (length buf + 1))" and "buf \<noteq> []"
    and "filp_open (proc_path buf) = Some \<lparr>op_cominix = True, op_inode = ino, op_read = rd\<rparr>"
  shows "\<exists>v ino'. cminix_proc_write fe filp_open s (Some buf) (length buf) = Inr (v, Some ino', int (length buf)) \<and>
    chunked_file v ino' d \<and>
    (\<forall>fo rd'. fo (proc_path buf) = Some \<lparr>op_cominix = True, op_inode = ino', op_read = rd'\<rparr> \<longrightarrow>
       cminix_proc_write fe fo v (Some buf) (length buf) = Inr (v, None, -1))"
proof -
  obtain v ino' bs where c: "chunk_and_replace (fe\<lparr>fe_kernel_read := rd\<rparr>) s ino = Inr (v, ino', 0)"
      "chunked_file_at v ino' bs d" "i_fop ino' = Chunked_file_ops"
    using chunk_and_replace_spec [OF assms(1)] by blast
  have "S_ISREG (i_mode ino)" using assms(1) by (simp add: chunkable_def)
  then have "cminix_proc_write fe filp_open s (Some buf) (length buf) = Inr (v, Some ino', int (length buf))"
    using assms(2-5) c(1) by (simp add: cminix_proc_write_def)
  moreover have "cminix_proc_write fe fo v (Some buf) (length buf) = Inr (v, None, -1)"
    if "fo (proc_path buf) = Some \<lparr>op_cominix = True, op_inode = ino', op_read = rd'\<rparr>" for fo rd'
    using assms(3,4) c(3) that by (simp add: cminix_proc_write_def)
  ultimately show ?thesis using c(2) unfolding chunked_file_def by blast
qed

definition sample_open :: "byte list \<Rightarrow> opened option" where
  "sample_open p = (if p = [102] then Some \<lparr>op_cominix = True, op_inode = sample_plain,
     op_read = fe_kernel_read (sample_env [0, 0])\<rparr> else None)"

theorem proc_write_chunks_once_witness:
  "\<exists>v ino'. cminix_proc_write (sample_env []) sample_open sample_fs (Some [102, 10]) 2 = Inr (v, Some ino', 2) \<and>
     chunked_file v ino' [0, 0]"
proof -
  let ?fe = "(sample_env [])\<lparr>fe_kernel_read := fe_kernel_read (sample_env [0, 0])\<rparr>"
  have "?fe = sample_env [0, 0]" by (simp add: sample_env_def)
  then have c: "chunkable ?fe sample_fs sample_plain [0, 0]" using sample_chunkable by simp
  have f: "i_fop sample_plain = Cominix_file_ops" by (simp add: sample_plain_def sample_file_def)
  have k: "fe_kmalloc (sample_env []) (u64 (length [102, 10 :: byte] + 1))" by (simp add: sample_env_def)
  have o: "sample_open (proc_path [102, 10]) = Some \<lparr>op_cominix = True, op_inode = sample_plain,
     op_read = fe_kernel_read (sample_env [0, 0])\<rparr>" by (simp add: proc_path_def sample_open_def)
  have n: "length [102, 10 :: byte] = 2" "int 2 = 2" "[102, 10 :: byte] \<noteq> []" by simp_all
  from proc_write_chunks_once [where fe = "sample_env []" and filp_open = sample_open, OF c f k n(3) o] show ?thesis unfolding n(1,2) by blast
qed

section \<open>Reading\<close>

text \<open>C31: a read of a chunked file inside the file delivers the bytes of the file from the position
  on, at least one and at most as many as asked for, and advances the position by as many.\<close>

theorem chunked_read_correct:
  assumes "chunked_file s ino d" and "pos < length d" and "0 < cnt" and "cnt \<le> ulen" and "length d < 2 ^ 31"
  shows "\<exists>n. 0 < n \<and> n \<le> cnt \<and> pos + n \<le> length d \<and>
    chunked_file_read s ino ulen cnt (int pos) = Inr (take n (drop pos d), int n, int (pos + n))"
proof -
  obtain n where "n \<le> cnt" "0 < n" "n \<le> length d - pos"
      "chunked_file_read s ino ulen cnt (int pos) = Inr (take n (drop pos d), int n, int pos + int n)"
    using chunked_read_spec [OF assms(1,2,4,5)] assms(3) by blast
  then show ?thesis using assms(2) by (intro exI [of _ n]) simp
qed

theorem chunked_read_correct_witness:
  "\<exists>v ino'. chunk_and_replace (sample_env [0, 0]) sample_fs sample_plain = Inr (v, ino', 0) \<and>
     chunked_file_read v ino' 1 1 1 = Inr ([0], 1, 2)"
proof -
  obtain v ino' bs where r: "chunk_and_replace (sample_env [0, 0]) sample_fs sample_plain = Inr (v, ino', 0)"
      "chunked_file_at v ino' bs [0, 0]"
    using chunk_and_replace_spec [OF sample_chunkable] by blast
  then have f: "chunked_file v ino' [0, 0]" unfolding chunked_file_def by blast
  obtain n where n: "0 < n" "n \<le> 1" "1 + n \<le> length [0, 0 :: byte]"
      "chunked_file_read v ino' 1 1 (int 1) = Inr (take n (drop 1 [0, 0]), int n, int (1 + n))"
    using chunked_read_correct [OF f, of 1 1 1] by fastforce
  then have "n = 1" by simp
  with n r show ?thesis by auto
qed

text \<open>C2: chunking a file and then reading it from the start to the end, with a buffer of any size,
  gives back its bytes.\<close>

theorem chunk_then_read:
  assumes "chunkable fe s ino d" and "0 < cnt" and "length d < 2 ^ 31" and "length d < fuel"
  shows "\<exists>v ino'. chunk_and_replace fe s ino = Inr (v, ino', 0) \<and> read_all fuel v ino' cnt 0 = Inr d"
proof -
  obtain v ino' bs where r: "chunk_and_replace fe s ino = Inr (v, ino', 0)" "chunked_file_at v ino' bs d"
    using chunk_and_replace_spec [OF assms(1)] by blast
  then have "chunked_file v ino' d" unfolding chunked_file_def by blast
  from read_all_spec [OF this assms(2,3), of 0 fuel] r assms(4) show ?thesis by auto
qed

theorem chunk_then_read_witness:
  "\<exists>v ino'. chunk_and_replace (sample_env [0, 0]) sample_fs sample_plain = Inr (v, ino', 0) \<and>
     read_all 3 v ino' 1 0 = Inr [0, 0]"
  using chunk_then_read [OF sample_chunkable, of 1 3] by simp

section \<open>Where it goes wrong\<close>

text \<open>C34: a chunk whose 64-bit key is already used by different stored contents is not stored: the
  entry made for it points to other bytes, so the file loses its contents. Neither the length nor
  the bytes are compared.\<close>

theorem collision_corrupts:
  assumes h: "heap_wf s" and md: "md5_hash (fe_kmalloc fe) (fe_crypto fe) c (length c) = Inr g"
    and o: "chunk_holds s l (digest_key g) c'" and n: "c \<notin> heap_contents s"
  shows "\<exists>l'. store_chunk fe s c (length c) = Inr (s, l') \<and> \<not> (\<exists>k. chunk_holds s l' k c)"
proof -
  obtain l' where l: "chunk_search_hashtable s (digest_key g) = Inr l'" using heap.search_total [OF h] by blast
  then have "l' \<noteq> 0" using heap.holds_found [OF h o] by auto
  then have "store_chunk fe s c (length c) = Inr (s, l')" by (simp add: store_chunk_def md l)
  with n show ?thesis by (auto simp: heap_contents_def)
qed

theorem collision_corrupts_witness:
  "\<exists>s l l'. store_chunk (sample_env []) sample_fs [0] 1 = Inr (s, l) \<and>
     store_chunk (sample_env []) s [0, 0] 2 = Inr (s, l') \<and> \<not> (\<exists>k. chunk_holds s l' k [0, 0])"
proof -
  let ?fe = "sample_env []"
  have md: "md5_hash (fe_kmalloc ?fe) (fe_crypto ?fe) xs (length xs) = Inr (take 16 (xs @ replicate 16 0))"
    if "length xs < 3" for xs
    using that by (simp add: sample_env_def sample_crypto_def md5_hash_def calc_hash_def init_sdesc_def Let_def u32_def)
  have key: "digest_key (take 16 ([0, 0] @ replicate 16 0)) = 0" "chunk_key ?fe [0] = 0"
    using md [of "[0]"] by (simp_all add: chunk_key_def digest_key_def)
  obtain s l where s: "store_chunk ?fe sample_fs [0] (length [0 :: byte]) = Inr (s, l)" "store_ok s"
      "chunk_holds s l 0 [0]" "heap_contents s = insert [0] (heap_contents sample_fs)"
    using store_chunk_spec [OF sample_store_ok, of ?fe "[0]"] md [of "[0]"] sample_fits [of 1] key(2)
    by (auto simp: heap.keyed_def sample_holds sample_contents)
  then have "heap_wf s" "[0, 0] \<notin> heap_contents s" by (auto simp: store_ok_def sample_contents)
  from collision_corrupts [OF this(1) md [of "[0, 0]"], of l "[0]"] this(2) s(1,3) key(1)
  show ?thesis by (auto simp: numeral_2_eq_2)
qed

text \<open>C39: the inner loop asks for the whole chunk again after a short read: when the second read
  delivers more than the rest, bytes are written past the end of the buffer.\<close>

theorem short_read_overflows:
  assumes "kr p n = Inr xs" and "length xs < n" and "kr (p + length xs) n = Inr ys" and "n < length xs + length ys"
  shows "read_chunk kr n [] p = Some (Inl OutOfBounds)"
proof -
  have "read_chunk kr n xs (p + length xs) = Some (Inl OutOfBounds)"
    using assms(2-4) by (subst read_chunk.simps) simp
  then show ?thesis using assms(1,2) by (subst read_chunk.simps) simp
qed

theorem short_read_overflows_witness:
  "read_chunk (\<lambda>p n. Inr (if p = 0 then [1] else replicate n 2)) 4 [] 0 = Some (Inl OutOfBounds)"
  by (rule short_read_overflows [of _ 0 4 "[1]" "replicate 4 2"]) simp_all

text \<open>An empty write to the proc entry reads the byte before its buffer.\<close>

theorem proc_write_empty:
  assumes "fe_kmalloc fe 1"
  shows "cminix_proc_write fe filp_open s (Some []) 0 = Inl OutOfBounds"
  using assms by (simp add: cminix_proc_write_def u64_def)

theorem proc_write_empty_witness: "cminix_proc_write (sample_env []) (\<lambda>_. None) sample_fs (Some []) 0 = Inl OutOfBounds"
  by (rule proc_write_empty) (simp add: sample_env_def)

end
