(* ===== verification/DurableProperties.thy ===== *)
theory DurableProperties
  imports MountProperties FileProperties
begin

text \<open>
  From mount to mount: a file that is chunked on a mounted volume is found by the next mount, with
  all that the code marked dirty written back and everything else dropped.
\<close>

declare add_2_eq_Suc [simp del] add_2_eq_Suc' [simp del] One_nat_def [simp del]

section \<open>The inode after the next mount\<close>

lemma iget_links:
  "(\<exists>r. V2_cominix_iget k s base = Inr r) \<longleftrightarrow> 0 < i_ino base \<and> i_ino base \<le> s_ninodes (fs_info s) \<and>
     breadable (fs_bufs s) (fst (inode_slot s (i_ino base))) \<and>
     num_at (fs_bufs s) (fst (inode_slot s (i_ino base))) (snd (inode_slot s (i_ino base)) + 2) 2 \<noteq> 0"
  by (cases "inode_slot s (i_ino base)") (auto simp: V2_cominix_iget_def raw_inode_slot Let_def)

text \<open>The root inode keeps its links while another file is chunked.\<close>

lemma chunking_root_links:
  assumes i: "image_ok d bc k" and r: "root_ok me d bc" and x: "fresh_esb (image_fs sb d bc k) t x"
    and s: "inode_slot v = inode_slot t" "s_ninodes (fs_info v) = s_ninodes (fs_info t)"
    and o: "\<And>other. i_ino other = 1 \<Longrightarrow> V2_cominix_iget kn v other = V2_cominix_iget kn t other"
  shows "num_at (fs_bufs v) (2 + m3s_imap_blocks (m3s_of d) + m3s_zmap_blocks (m3s_of d)) 2 2 \<noteq> 0"
proof -
  let ?b = "2 + m3s_imap_blocks (m3s_of d) + m3s_zmap_blocks (m3s_of d)"
  note R = fresh_root_block [OF i x]
  obtain base :: inode where base: "i_ino base = 1" using r unfolding root_ok_def MINIX_ROOT_INO_def by blast
  have "1 \<le> s_ninodes (fs_info t)" using image_okD(10) [OF i] fresh_esbD(3) [OF x] by simp
  moreover have "num_at (fs_bufs t) ?b 2 2 \<noteq> 0"
    using r num_at_other_block [OF R(1)] by (simp add: root_ok_def)
  ultimately have "\<exists>q. V2_cominix_iget kn t base = Inr q" using R(2,5) base by (simp add: iget_links)
  then have "\<exists>q. V2_cominix_iget kn v base = Inr q" using o [OF base] by simp
  then show ?thesis using R(2) base s by (simp add: iget_links)
qed

lemma inode_slot_after_maps: "2 + s_imap_blocks (fs_info s) + s_zmap_blocks (fs_info s) \<le> fst (inode_slot s i)"
  by (simp add: inode_slot_def Let_def)

lemma chunked_nonempty: "chunked_file_at s ino bs d \<Longrightarrow> bs \<noteq> []"
  using ll_list_nonempty by (auto simp: chunked_file_at_def ll_inv_def)

section \<open>A file from one mount to the next\<close>

text \<open>C1: mount, chunk a file, unmount, mount again, read. After the mount of a good image, a plain file
  of contents \<open>d\<close> is chunked; the blocks marked dirty are written back and all others dropped.
  The device can then be mounted again, the inode read from its slot stands for a chunked
  file, and reading it from the start to the end gives \<open>d\<close>.\<close>

theorem chunked_file_survives_remount:
  assumes "fresh_image d0 bc k" and "env_presents me d0 bc k" and "root_ok me d0 bc" and "coherent bc"
    and "data_block (image_fs (vs_sb v0) d0 bc k) c" and "\<not> block_busy (image_fs (vs_sb v0) d0 bc k) c"
    and "cominix_fill_super me v0 = Inr (w, None)" and "vs_fs w = Inr t"
    and "chunkable fe t ino d" and "d \<noteq> []" and "i_ino ino \<noteq> MINIX_ROOT_INO" and "i_mode ino < 2 ^ 16"
    and "u16 (i_nlink ino) \<noteq> 0" and "i_ino base = i_ino ino"
    and "0 < cnt" and "length d < 2 ^ 31" and "length d < fuel"
  shows "\<exists>v ino' w' u r. chunk_and_replace fe t ino = Inr (v, ino', 0) \<and>
    cominix_fill_super (mount_env_after me k (vs_sbh w) (reopened (fs_bufs v))) v0 = Inr (w', None) \<and> vs_fs w' = Inr u \<and>
    V2_cominix_iget (fe_kernel fe) u base = Inr r \<and> inode_is_chunked r \<and> read_all fuel u r cnt 0 = Inr d"
proof -
  obtain w0 t0 x where "cominix_fill_super me v0 = Inr (w0, None)" "vs_fs w0 = Inr t0"
    and "fresh_esb (image_fs (vs_sb v0) d0 bc k) t0 x" "vs_sbh w0 = super_with d0 x"
    by (rule fresh_mount [OF assms(1-3,5,6)])
  then have x: "fresh_esb (image_fs (vs_sb v0) d0 bc k) t x" and sbh: "vs_sbh w = super_with d0 x"
    using assms(7,8) by simp_all
  have i: "image_ok d0 bc k" using assms(1) by (simp add: fresh_image_def)
  note F = fresh_esbD [OF x] and R = fresh_root_block [OF i x]
  let ?T = "tree_blocks t ino" and ?slot = "fst (inode_slot t (i_ino ino))"
  from assms(9) have ch: "tree_wf t ino" "x \<notin> ?T" "?slot < s_firstdatazone (fs_info t)"
    using F(3) by (simp_all add: chunkable_def)
  obtain v ino' bs where C: "chunk_and_replace fe t ino = Inr (v, ino', 0)" "chunked_file_at v ino' bs d"
      "set bs \<subseteq> zones.free_set t" "zones.free_set v = (zones.free_set t - set bs) \<union> ?T"
      "keeps (insert (extra_sb_location (fs_info t)) ?T) t v"
      "disk_step {?slot} (insert (hd bs) ?T) t v" "d \<noteq> [] \<longrightarrow> set bs \<subseteq> bdirty (fs_bufs v)"
    and other: "\<And>other. i_ino other \<noteq> i_ino ino \<Longrightarrow> fst (inode_slot t (i_ino other)) < s_firstdatazone (fs_info t) \<Longrightarrow>
       fst (inode_slot t (i_ino other)) \<notin> set (s_zmap (fs_info t)) \<Longrightarrow>
       V2_cominix_iget (fe_kernel fe) v other = V2_cominix_iget (fe_kernel fe) t other"
    and get: "\<exists>r. V2_cominix_iget (fe_kernel fe) v base = Inr r \<and> chunked_file_at v r bs d"
    using chunk_and_replace_spec [OF assms(9)] assms(12-14) by blast
  obtain r where r: "V2_cominix_iget (fe_kernel fe) v base = Inr r" "chunked_file_at v r bs d" using get by blast
  note K = keepsD [OF C(5)]
  have data: "data_block t b \<and> block_busy t b" if "b \<in> ?T" for b
    using that tree_wfD(2) [OF ch(1)] unfolding tree_blocks_slots by blast
  have "hd bs \<in> bdirty (fs_bufs v)" using C(7) assms(10) chunked_nonempty [OF C(2)] by auto
  then have step: "disk_step {?slot} ?T t v" using C(6) by (intro disk_step_dirty [OF C(6)]) auto
  have "m3s_firstdatazone (m3s_of d0) \<le> b" if "b \<in> ?T" for b using data [OF that] F(3) by (simp add: data_block_def)
  then have low: "?T \<inter> {..<m3s_firstdatazone (m3s_of d0)} = {}" by fastforce
  have root: "V2_cominix_iget (fe_kernel fe) v o1 = V2_cominix_iget (fe_kernel fe) t o1" if "i_ino o1 = 1" for o1
    using other [of o1] that assms(11) R(2-4) by (simp add: MINIX_ROOT_INO_def)
  have links: "num_at (fs_bufs v) (2 + m3s_imap_blocks (m3s_of d0) + m3s_zmap_blocks (m3s_of d0)) 2 2 \<noteq> 0"
    by (rule chunking_root_links [OF i assms(3) x K(8,9) root])
  have two: "2 \<notin> {?slot}" using inode_slot_after_maps [of t "i_ino ino"] image_okD(5) [OF i] F(3) by simp
  obtain w' u where M: "cominix_fill_super (mount_env_after me k (super_with d0 x) (reopened (fs_bufs v))) v0 = Inr (w', None)"
      "vs_fs w' = Inr u" "same_but ?T v u"
    by (rule mount_again [OF assms(1-4) x step K(1) two ch(2) low links])
  have free: "?T \<subseteq> zones.free_set v" using C(4) by blast
  note Q = same_but_keeps [OF K(1) M(3) free]
  have f: "chunked_file_at u r bs d" by (rule keeps_file [OF Q r(2)]) simp
  have "?slot \<notin> ?T" using data [of ?slot] ch(3) by (fastforce simp: data_block_def)
  then have "V2_cominix_iget (fe_kernel fe) u base = V2_cominix_iget (fe_kernel fe) v base"
    using M(3) keepsD(8,9) [OF Q] K(8) assms(14) by (intro iget_cong) (simp_all add: same_but_def)
  moreover have "chunked_file u r d" using f unfolding chunked_file_def by blast
  then have "read_all fuel u r cnt 0 = Inr d" using read_all_spec [OF _ assms(15,16), of u r 0 fuel] assms(17) by simp
  moreover have "inode_is_chunked r" using f by (simp add: chunked_file_at_def)
  ultimately show ?thesis using C(1) M(1,2) r(1) sbh by metis
qed

text \<open>On the sample image: the two bytes of a hole, chunked right after the first mount.\<close>

lemma sample_mounted_chunkable:
  assumes x: "fresh_esb (image_fs sb sample_super image_bufs 12) t x"
  shows "chunkable (FileProperties.sample_env [0, 0]) t sample_plain [0, 0]"
proof -
  note F = fresh_esbD [OF x]
  have inf: "fs_info t = (image_info sample_super image_bufs 12)\<lparr>extra_sb_location := x\<rparr>" using F(3) by simp
  have vol: "volume_ok t" and h: "heap_wf t" using F(1) by (simp_all add: store_ok_def)
  have tree: "tree_wf t sample_plain" "tree_blocks t sample_plain = {}"
    by (simp_all add: tree_wf_def vol tree_blocks_slots sample_plain_slot)
  have none: "\<not> chunk_holds t l h' y" for l h' y using heap.holds_found [OF h] F(9) by fastforce
  have keyed: "heap.keyed ky t" "heap_contents t = {}" for ky by (simp_all add: heap.keyed_def heap_contents_def none)
  have "data_block (image_fs sb sample_super image_bufs 12) 6 \<and> \<not> block_busy (image_fs sb sample_super image_bufs 12) 6"
    by (rule conjI [OF sample_free2])
  then have "(if x = 5 then 6 else 5) \<in> zones.free_set t"
    using sample_free F(7) F(3) by (auto simp: zones.free_set_def data_block_def)
  moreover have "finite (zones.free_set t)"
    by (rule finite_subset [of _ "{..<s_nzones (fs_info t)}"]) (auto simp: zones.free_set_def data_block_def)
  ultimately have free: "0 < card (zones.free_set t)" by (auto simp: card_gt_0_iff)
  have slot: "inode_slot t 2 = (4, 64)"
    using F(2) inf by (simp add: inode_slot_def Let_def sample_m3s)
  have sb: "0 < s_maxbytes (fs_sb t)" "entries_per_block (fs_sb t) = 255"
    using F(2) by (simp_all add: image_sb_def sample_m3s entries_per_block_def sizeof_chunk_entry_def s_blocksize_def)
  have esb: "image_esb sample_super image_bufs = default_esb" by (simp add: image_esb_def sample_image_loc)
  have room: "heap_brk (fs_info t) + heap_need [[0, 0]] < max_brk (fs_info t)"
    using inf by (simp add: esb sample_m3s) (simp add: default_esb_def)
  show ?thesis
    using tree keyed free slot sb room F(1,4) inf
    by (simp add: chunkable_def sample_env_ok sample_chunks sample_m3s)
      (simp add: sample_plain_def sample_file_def FileProperties.sample_env_def sample_kernel_def S_ISREG_def S_IFMT_def
        inode_is_chunked_def i_data_def minus_one32_def image_bufs_def)
qed

theorem chunked_file_survives_remount_witness:
  "\<exists>w t v ino' w' u r. cominix_fill_super sample_mount sample_vsuper = Inr (w, None) \<and> vs_fs w = Inr t \<and>
    chunk_and_replace (FileProperties.sample_env [0, 0]) t sample_plain = Inr (v, ino', 0) \<and>
    cominix_fill_super (mount_env_after sample_mount 12 (vs_sbh w) (reopened (fs_bufs v))) sample_vsuper = Inr (w', None) \<and>
    vs_fs w' = Inr u \<and> V2_cominix_iget sample_kernel u sample_plain = Inr r \<and> read_all 3 u r 1 0 = Inr [0, 0]"
proof -
  obtain w t x where m: "cominix_fill_super sample_mount sample_vsuper = Inr (w, None)" "vs_fs w = Inr t"
      "fresh_esb (image_fs (vs_sb sample_vsuper) sample_super image_bufs 12) t x"
    using fresh_mount [OF sample_fresh sample_presents sample_root sample_free] by blast
  have p: "i_ino sample_plain \<noteq> MINIX_ROOT_INO" "i_mode sample_plain < 2 ^ 16" "u16 (i_nlink sample_plain) \<noteq> 0"
    by (simp_all add: sample_plain_def sample_file_def u16_def MINIX_ROOT_INO_def)
  have k: "fe_kernel (FileProperties.sample_env [0, 0]) = sample_kernel" by (simp add: FileProperties.sample_env_def)
  have "coherent image_bufs" by (simp add: coherent_def image_bufs_def)
  from chunked_file_survives_remount [OF sample_fresh sample_presents sample_root this sample_free m(1,2)
      sample_mounted_chunkable [OF m(3)] _ p refl, of 1 3] m(1,2) k
  show ?thesis by auto
qed

end
