(* ===== verification/Interleave.thy ===== *)
theory Interleave
  imports ChunkStore
begin

text \<open>
  chunk_handler.c with more than one caller. Two files can be chunked at the same time, as
  \<open>cminix_proc_write\<close> locks only the inode. A call is cut into the steps between which another call can
  run; a step relation on all calls and the mutex \<open>brk_lock\<close> interleaves them. The mutex protects the
  allocation, nothing protects what follows in \<open>chunk_alloc\<close> and \<open>chunk_fill_hashtable\<close>. Then the
  invariant that every interleaving keeps.
\<close>

section \<open>The steps of a call\<close>

text \<open>The mutex \<open>brk_lock\<close> is \<open>True\<close> while some call holds it. \<open>None\<close>: the caller has to wait.\<close>

definition mutex_lock :: "bool \<Rightarrow> bool option" where
  "mutex_lock held = (if held then None else Some True)"

definition mutex_unlock :: "bool \<Rightarrow> bool" where
  "mutex_unlock held = False"

text \<open>Where a call is: before \<open>mutex_lock\<close>, holding the mutex (before the alignment of the break, before
  it is raised, before \<open>mutex_unlock\<close>), behind it; with \<open>fresh_chunk\<close> and the local variables that the rest
  of the call uses. The argument \<open>*brk\<close> of \<open>update_brk_on_disk\<close> is read after the mutex is released.\<close>

datatype fill_pc =
    Fill_alloc
  | Fill_align
  | Fill_bump nat
  | Fill_unlock nat
  | Fill_read_brk nat
  | Fill_save_brk nat nat
  | Fill_read_entry nat
  | Fill_link nat nat nat
  | Fill_head nat
  | Fill_data nat
  | Fill_done nat

record fill_job =
  fj_chunk :: chunk
  fj_data :: "byte list"
  fj_pc :: fill_pc

text \<open>The next step of a call; \<open>Inr None\<close>: it has to wait for the mutex, or has returned.\<close>

definition fill_step :: "fs \<Rightarrow> bool \<Rightarrow> fill_job \<Rightarrow> (fs \<times> bool \<times> fill_job) option res" where
  "fill_step s held j =
     (let m = fj_chunk j; sb = fs_sb s; bc = fs_bufs s; msi = fs_info s;
        go = (\<lambda>s' held' j'. Inr (Some (s', held', j'))) in
      case fj_pc j of
        Fill_alloc \<Rightarrow>
          bindE (bug_on (int (ck_length m) \<le> 0)) (\<lambda>_.
          case mutex_lock held of
            None \<Rightarrow> Inr None
          | Some held' \<Rightarrow> go s held' (j\<lparr>fj_pc := Fill_align\<rparr>))
      | Fill_align \<Rightarrow>
          bindE (bug_on (heap_brk msi \<le> shl64 (s_nzones msi) (s_blocksize_bits sb))) (\<lambda>_.
          let new = align_brk sb (heap_brk msi) in
          go (s\<lparr>fs_info := msi\<lparr>heap_brk := new\<rparr>\<rparr>) held (j\<lparr>fj_pc := Fill_bump new\<rparr>))
      | Fill_bump new \<Rightarrow>
          let brk' = u64 (heap_brk msi + sizeof_chunk_head + ck_length m) in
          bindE (bug_on (max_brk msi \<le> brk')) (\<lambda>_.
          go (s\<lparr>fs_info := msi\<lparr>heap_brk := brk'\<rparr>\<rparr>) held (j\<lparr>fj_pc := Fill_unlock new\<rparr>))
      | Fill_unlock new \<Rightarrow> go s (mutex_unlock held) (j\<lparr>fj_pc := Fill_read_brk new\<rparr>)
      | Fill_read_brk new \<Rightarrow> go s held (j\<lparr>fj_pc := Fill_save_brk new (heap_brk msi)\<rparr>)
      | Fill_save_brk new brk \<Rightarrow>
          bindE (update_brk_on_disk s brk) (\<lambda>s'. go s' held (j\<lparr>fj_pc := Fill_read_entry new\<rparr>))
      | Fill_read_entry new \<Rightarrow>
          bindE (hashtable_hash msi (ck_hash m)) (\<lambda>index.
          bindE (load_blockoff sb bc (u64 (hashtable msi + index * 8))) (\<lambda>(bh, o', bytes_left).
          bindE (get_num sb bc bh o' 8) (\<lambda>entry.
          go s held (j\<lparr>fj_chunk := m\<lparr>ck_next := entry\<rparr>, fj_pc := Fill_link new bh o'\<rparr>))))
      | Fill_link new bh o' \<Rightarrow>
          bindE (set_num sb bc bh o' 8 new) (\<lambda>bc'.
          go (s\<lparr>fs_bufs := mark_buffer_dirty bc' bh\<rparr>) held (j\<lparr>fj_pc := Fill_head new\<rparr>))
      | Fill_head new \<Rightarrow>
          bindE (write_data_storage sb bc new (Some (chunk_bytes m)) sizeof_chunk_head) (\<lambda>bc'.
          go (s\<lparr>fs_bufs := bc'\<rparr>) held (j\<lparr>fj_pc := Fill_data new\<rparr>))
      | Fill_data new \<Rightarrow>
          bindE (write_data_storage sb bc (u64 (new + sizeof_chunk_head)) (Some (fj_data j)) (ck_length m)) (\<lambda>bc'.
          go (s\<lparr>fs_bufs := bc'\<rparr>) held (j\<lparr>fj_pc := Fill_done new\<rparr>))
      | Fill_done new \<Rightarrow> Inr None)"

definition fill_job :: "chunk \<Rightarrow> byte list \<Rightarrow> fill_job" where
  "fill_job m d = \<lparr>fj_chunk = m, fj_data = d, fj_pc = Fill_alloc\<rparr>"

fun job_done :: "fill_pc \<Rightarrow> bool" where
  "job_done (Fill_done l) = True"
| "job_done _ = False"

text \<open>A call that has not returned and does not wait can take its next step at any time.\<close>

inductive fills_step :: "fs \<times> bool \<times> fill_job list \<Rightarrow> fs \<times> bool \<times> fill_job list \<Rightarrow> bool" where
  step: "i < length js \<Longrightarrow> fill_step s held (js ! i) = Inr (Some (s', held', j')) \<Longrightarrow>
    fills_step (s, held, js) (s', held', js[i := j'])"

inductive_cases fills_stepE: "fills_step (s, held, js) (s', held', js')"

text \<open>The run of a given schedule: the numbers of the calls in the order of their steps. A call that is
  scheduled while it has to wait, or after it has returned, does nothing.\<close>

fun run_schedule :: "fs \<Rightarrow> bool \<Rightarrow> fill_job list \<Rightarrow> nat list \<Rightarrow> (fs \<times> bool \<times> fill_job list) res" where
  "run_schedule s held js [] = Inr (s, held, js)"
| "run_schedule s held js (i # is) =
     (if length js \<le> i then Inl OutOfBounds
      else bindE (fill_step s held (js ! i)) (\<lambda>r. case r of
          None \<Rightarrow> run_schedule s held js is
        | Some (s', held', j') \<Rightarrow> run_schedule s' held' (js[i := j']) is))"

lemma schedule_steps: "run_schedule s held js is = Inr (t, held', ks) \<Longrightarrow> fills_step\<^sup>*\<^sup>* (s, held, js) (t, held', ks)"
proof (induction s held js "is" rule: run_schedule.induct)
  case (2 s held js i "is")
  then obtain r where i: "\<not> length js \<le> i" and r: "fill_step s held (js ! i) = Inr r" by (auto simp: bindE_Inr_iff split: if_splits)
  show ?case
  proof (cases r)
    case None
    then show ?thesis using 2 i r by simp
  next
    case (Some x)
    obtain s' h' j' where x: "x = (s', h', j')" by (cases x)
    have "fills_step\<^sup>*\<^sup>* (s', h', js[i := j']) (t, held', ks)" using 2(2,3) i r Some x by simp
    moreover have "fills_step (s, held, js) (s', h', js[i := j'])" by (rule fills_step.step) (use i r Some x in simp_all)
    ultimately show ?thesis by (rule converse_rtranclp_into_rtranclp [rotated])
  qed
qed simp

fun job_loc :: "fill_pc \<Rightarrow> nat option" where
  "job_loc Fill_alloc = None"
| "job_loc Fill_align = None"
| "job_loc (Fill_bump l) = None"
| "job_loc (Fill_unlock l) = Some l"
| "job_loc (Fill_read_brk l) = Some l"
| "job_loc (Fill_save_brk l brk) = Some l"
| "job_loc (Fill_read_entry l) = Some l"
| "job_loc (Fill_link l bh o') = Some l"
| "job_loc (Fill_head l) = Some l"
| "job_loc (Fill_data l) = Some l"
| "job_loc (Fill_done l) = Some l"

text \<open>The part of a call between \<open>mutex_lock\<close> and \<open>mutex_unlock\<close>.\<close>

fun in_crit :: "fill_pc \<Rightarrow> bool" where
  "in_crit Fill_align = True"
| "in_crit (Fill_bump l) = True"
| "in_crit (Fill_unlock l) = True"
| "in_crit _ = False"

text \<open>One call alone, step by step, is \<open>chunk_fill_hashtable\<close>, errors included.\<close>

lemma fill_alone:
  "chunk_fill_hashtable s m d = bindE (run_schedule s False [fill_job m d] (replicate 10 0))
     (\<lambda>(t, held, ks). Inr (t, the (job_loc (fj_pc (ks ! 0)))))"
proof -
  have r: "replicate 10 (0 :: nat) = [0, 0, 0, 0, 0, 0, 0, 0, 0, 0]" by (simp add: numeral_eq_Suc)
  show ?thesis unfolding r
    by (simp add: chunk_fill_hashtable_def chunk_alloc_def fill_job_def fill_step_def copy_chunk_into_storage_def
        mutex_lock_def mutex_unlock_def Let_def split_def)
qed

section \<open>The invariant\<close>

text \<open>\<open>s0\<close> is the state before the calls. The header of a linked call is in the chain of its bucket, or will
  be once it is written.\<close>

fun linked :: "fill_pc \<Rightarrow> bool" where
  "linked (Fill_head l) = True"
| "linked (Fill_data l) = True"
| "linked (Fill_done l) = True"
| "linked _ = False"

definition job_size :: "fill_job \<Rightarrow> nat" where
  "job_size j = sizeof_chunk_head + length (fj_data j)"

definition job_bucket :: "fs \<Rightarrow> fill_job \<Rightarrow> nat" where
  "job_bucket s0 j = ck_hash (fj_chunk j) mod buckets s0"

text \<open>The bytes of the calls that have not allocated yet, with the gap an alignment can leave.\<close>

definition job_pending :: "fill_job \<Rightarrow> nat" where
  "job_pending j = (case fj_pc j of Fill_alloc \<Rightarrow> sizeof_chunk_head + job_size j
     | Fill_align \<Rightarrow> sizeof_chunk_head + job_size j | Fill_bump l \<Rightarrow> job_size j | _ \<Rightarrow> 0)"

definition pending :: "fill_job list \<Rightarrow> nat" where
  "pending js = sum_list (map job_pending js)"

lemma job_pending_zero [simp]: "job_loc (fj_pc j) \<noteq> None \<Longrightarrow> job_pending j = 0"
  by (cases "fj_pc j") (simp_all add: job_pending_def)

definition job_ok :: "fill_job \<Rightarrow> bool" where
  "job_ok j \<longleftrightarrow> fj_data j \<noteq> [] \<and> ck_length (fj_chunk j) = length (fj_data j) \<and>
     ck_hash (fj_chunk j) < 2 ^ 64 \<and> ck_next (fj_chunk j) < 2 ^ 64"

definition same_volume :: "fs \<Rightarrow> fs \<Rightarrow> bool" where
  "same_volume s0 s \<longleftrightarrow> fs_sb s = fs_sb s0 \<and> breadable (fs_bufs s) = breadable (fs_bufs s0) \<and>
     fs_info s = (fs_info s0)\<lparr>heap_brk := heap_brk (fs_info s)\<rparr> \<and> heap_brk (fs_info s0) \<le> heap_brk (fs_info s)"

definition region_ok :: "fs \<Rightarrow> fs \<Rightarrow> fill_job \<Rightarrow> bool" where
  "region_ok s0 s j \<longleftrightarrow> (\<forall>l. job_loc (fj_pc j) = Some l \<longrightarrow> heap_brk (fs_info s0) \<le> l \<and>
     l mod s_blocksize (fs_sb s0) + sizeof_chunk_head \<le> s_blocksize (fs_sb s0) \<and>
     l + job_size j \<le> heap_brk (fs_info s))"

definition apart :: "fill_job \<Rightarrow> fill_job \<Rightarrow> bool" where
  "apart j k \<longleftrightarrow> (\<forall>l l'. job_loc (fj_pc j) = Some l \<longrightarrow> job_loc (fj_pc k) = Some l' \<longrightarrow>
     l + job_size j \<le> l' \<or> l' + job_size k \<le> l)"

text \<open>What a call has written so far, and the pointer it holds.\<close>

definition job_written :: "super_block \<Rightarrow> bufcache \<Rightarrow> fill_job \<Rightarrow> bool" where
  "job_written sb bc j \<longleftrightarrow> (case fj_pc j of
       Fill_data l \<Rightarrow> load_bytes sb bc l sizeof_chunk_head = chunk_bytes (fj_chunk j)
     | Fill_done l \<Rightarrow> load_bytes sb bc l sizeof_chunk_head = chunk_bytes (fj_chunk j) \<and>
         load_bytes sb bc (l + sizeof_chunk_head) (length (fj_data j)) = fj_data j
     | _ \<Rightarrow> True)"

definition pointer_ok :: "fs \<Rightarrow> fill_job \<Rightarrow> bool" where
  "pointer_ok s0 j \<longleftrightarrow> (case fj_pc j of
       Fill_link l bh o' \<Rightarrow> (let e = entry_addr s0 (job_bucket s0 j); bs = s_blocksize (fs_sb s0) in
         bh = e div bs \<and> o' = e mod bs)
     | _ \<Rightarrow> True)"

text \<open>From \<open>p\<close>, following \<open>next\<close> through linked calls of bucket \<open>i\<close> leads to \<open>q\<close>.\<close>

inductive leads :: "fs \<Rightarrow> fill_job list \<Rightarrow> nat \<Rightarrow> nat \<Rightarrow> nat \<Rightarrow> bool" for s0 js i q where
  here: "leads s0 js i q q"
| next_job: "k < length js \<Longrightarrow> linked (fj_pc (js ! k)) \<Longrightarrow> job_bucket s0 (js ! k) = i \<Longrightarrow>
    job_loc (fj_pc (js ! k)) = Some l \<Longrightarrow> leads s0 js i q (ck_next (fj_chunk (js ! k))) \<Longrightarrow> leads s0 js i q l"

definition table_value :: "fs \<Rightarrow> fs \<Rightarrow> nat \<Rightarrow> nat" where
  "table_value s0 s i = fnum (fs_sb s0) (fs_bufs s) (entry_addr s0 i) 8"

definition chains_ok :: "fs \<Rightarrow> fs \<Rightarrow> fill_job list \<Rightarrow> bool" where
  "chains_ok s0 s js \<longleftrightarrow>
     (\<forall>i < buckets s0. leads s0 js i (table_value s0 s0 i) (table_value s0 s i)) \<and>
     (\<forall>k < length js. \<forall>l bh o'. fj_pc (js ! k) = Fill_link l bh o' \<longrightarrow>
        leads s0 js (job_bucket s0 (js ! k)) (table_value s0 s0 (job_bucket s0 (js ! k))) (ck_next (fj_chunk (js ! k))))"

definition old_bytes :: "fs \<Rightarrow> fs \<Rightarrow> bool" where
  "old_bytes s0 s \<longleftrightarrow> (\<forall>a. heap_base s0 \<le> a \<longrightarrow> a < heap_brk (fs_info s0) \<longrightarrow>
     byte_at (fs_sb s0) (fs_bufs s) a = byte_at (fs_sb s0) (fs_bufs s0) a)"

text \<open>The call that has aligned the break is the only one that uses it: at most one call is between
  \<open>mutex_lock\<close> and \<open>mutex_unlock\<close>, and the mutex says so.\<close>

definition bump_ok :: "fs \<Rightarrow> fs \<Rightarrow> fill_job \<Rightarrow> bool" where
  "bump_ok s0 s j \<longleftrightarrow> (\<forall>l. fj_pc j = Fill_bump l \<longrightarrow> l = heap_brk (fs_info s) \<and>
     l mod s_blocksize (fs_sb s0) + sizeof_chunk_head \<le> s_blocksize (fs_sb s0))"

definition excl :: "fill_job list \<Rightarrow> bool" where
  "excl js \<longleftrightarrow> (\<forall>k < length js. \<forall>k' < length js. in_crit (fj_pc (js ! k)) \<longrightarrow> in_crit (fj_pc (js ! k')) \<longrightarrow> k = k')"

definition lock_ok :: "bool \<Rightarrow> fill_job list \<Rightarrow> bool" where
  "lock_ok held js \<longleftrightarrow> held = (\<exists>k < length js. in_crit (fj_pc (js ! k)))"

lemma bump_ok_loc: "job_loc (fj_pc j) \<noteq> None \<Longrightarrow> bump_ok s0 s j"
  by (auto simp: bump_ok_def)

definition fills_inv :: "fs \<Rightarrow> fs \<Rightarrow> fill_job list \<Rightarrow> bool" where
  "fills_inv s0 s js \<longleftrightarrow> heap_wf s0 \<and> same_volume s0 s \<and>
     heap_brk (fs_info s) + pending js < max_brk (fs_info s0) \<and>
     (\<forall>k < length js. job_ok (js ! k) \<and> region_ok s0 s (js ! k) \<and> pointer_ok s0 (js ! k) \<and>
        job_written (fs_sb s0) (fs_bufs s) (js ! k) \<and> bump_ok s0 s (js ! k)) \<and> excl js \<and>
     (\<forall>k < length js. \<forall>k' < length js. k \<noteq> k' \<longrightarrow> apart (js ! k) (js ! k')) \<and>
     chains_ok s0 s js \<and> old_bytes s0 s"

text \<open>Before the first step.\<close>

definition fills_ready :: "fs \<Rightarrow> (chunk \<times> byte list) list \<Rightarrow> bool" where
  "fills_ready s xs \<longleftrightarrow> heap_wf s \<and>
     (\<forall>(m, d) \<in> set xs. d \<noteq> [] \<and> ck_length m = length d \<and> ck_hash m < 2 ^ 64 \<and> ck_next m < 2 ^ 64) \<and>
     heap_brk (fs_info s) + sum_list (map (\<lambda>(m, d). 2 * sizeof_chunk_head + length d) xs) < max_brk (fs_info s)"

definition fill_jobs :: "(chunk \<times> byte list) list \<Rightarrow> fill_job list" where
  "fill_jobs xs = map (\<lambda>(m, d). fill_job m d) xs"

lemma fill_job_new:
  assumes "d \<noteq> []" "ck_length m = length d" "ck_hash m < 2 ^ 64" "ck_next m < 2 ^ 64"
  shows "job_ok (fill_job m d)" "region_ok s0 s (fill_job m d)" "pointer_ok s0 (fill_job m d)"
    "job_written sb bc (fill_job m d)" "apart (fill_job m d) j" "bump_ok s0 s (fill_job m d)"
  using assms by (simp_all add: bump_ok_def fill_job_def job_ok_def region_ok_def pointer_ok_def job_written_def apart_def)

lemma fills_inv_start:
  assumes "fills_ready s xs"
  shows "fills_inv s s (fill_jobs xs)"
proof -
  have j: "\<exists>m d. fill_jobs xs ! k = fill_job m d \<and> (m, d) \<in> set xs" if "k < length xs" for k
    using that by (intro exI [of _ "fst (xs ! k)"] exI [of _ "snd (xs ! k)"]) (simp add: fill_jobs_def split_def)
  have p: "pending (fill_jobs xs) = sum_list (map (\<lambda>(m, d). 2 * sizeof_chunk_head + length d) xs)"
    unfolding pending_def fill_jobs_def map_map
    by (rule arg_cong [of _ _ sum_list], rule map_cong) (auto simp: fill_job_def job_size_def job_pending_def)
  have len: "length (fill_jobs xs) = length xs" by (simp add: fill_jobs_def)
  have m: "d \<noteq> [] \<and> ck_length m = length d \<and> ck_hash m < 2 ^ 64 \<and> ck_next m < 2 ^ 64" if "(m, d) \<in> set xs" for m d
    using assms that by (auto simp: fills_ready_def)
  have job: "job_ok (fill_jobs xs ! k) \<and> region_ok s s (fill_jobs xs ! k) \<and> pointer_ok s (fill_jobs xs ! k) \<and>
      job_written (fs_sb s) (fs_bufs s) (fill_jobs xs ! k) \<and> apart (fill_jobs xs ! k) i \<and> bump_ok s s (fill_jobs xs ! k) \<and>
      fj_pc (fill_jobs xs ! k) = Fill_alloc" if "k < length xs" for k i
    using j [OF that] m fill_job_new by (auto simp: fill_job_def)
  have "chains_ok s s (fill_jobs xs)" using job by (auto simp: chains_ok_def len intro: leads.here)
  moreover have "excl (fill_jobs xs)" using job by (simp add: excl_def len)
  moreover have "same_volume s s" "old_bytes s s" by (simp_all add: same_volume_def old_bytes_def)
  ultimately show ?thesis
    using assms job by (simp add: fills_inv_def p len fills_ready_def)
qed

section \<open>Every step keeps the invariant\<close>

lemma pending_update:
  assumes "i < length js"
  shows "pending (js[i := j]) + job_pending (js ! i) = pending js + job_pending j"
    and "job_pending (js ! i) \<le> pending js"
proof -
  note p = pending_def
  show le: "job_pending (js ! i) \<le> pending js"
    unfolding p using elem_le_sum_list [of i "map job_pending js"] assms by simp
  show "pending (js[i := j]) + job_pending (js ! i) = pending js + job_pending j"
    using le assms sum_list_update [of i "map job_pending js" "job_pending j"] unfolding p
    by (simp add: map_update)
qed

lemma job_written_cong:
  assumes "\<And>l a. job_loc (fj_pc j) = Some l \<Longrightarrow> l \<le> a \<Longrightarrow> a < l + job_size j \<Longrightarrow> byte_at sb bc' a = byte_at sb bc a"
  shows "job_written sb bc' j = job_written sb bc j"
proof -
  have h: "load_bytes sb bc' l sizeof_chunk_head = load_bytes sb bc l sizeof_chunk_head"
    and d: "load_bytes sb bc' (l + sizeof_chunk_head) (length (fj_data j)) =
      load_bytes sb bc (l + sizeof_chunk_head) (length (fj_data j))" if "job_loc (fj_pc j) = Some l" for l
    by (rule load_bytes_cong, rule assms [OF that], simp_all add: job_size_def)+
  show ?thesis using h d by (cases "fj_pc j") (simp_all add: job_written_def)
qed

lemma leads_update:
  assumes "leads s0 js b q p" "i < length js"
    and "linked (fj_pc (js ! i)) \<Longrightarrow> linked (fj_pc j) \<and> job_loc (fj_pc j) = job_loc (fj_pc (js ! i)) \<and>
      ck_next (fj_chunk j) = ck_next (fj_chunk (js ! i))"
    and "ck_hash (fj_chunk j) = ck_hash (fj_chunk (js ! i))"
  shows "leads s0 (js[i := j]) b q p"
  using assms(1)
proof induction
  case (next_job k l)
  have b: "job_bucket s0 j = job_bucket s0 (js ! i)" using assms(4) by (simp add: job_bucket_def)
  show ?case
    by (rule leads.next_job [of k]) (use next_job assms(2,3) b in \<open>auto simp: nth_list_update\<close>)
qed (rule leads.here)

lemma job_bucket_update [simp]:
  "job_bucket s0 (j\<lparr>fj_pc := pc\<rparr>) = job_bucket s0 j"
  "job_bucket s0 (j\<lparr>fj_chunk := (fj_chunk j)\<lparr>ck_next := nx\<rparr>\<rparr>) = job_bucket s0 j"
  by (simp_all add: job_bucket_def)

lemma fills_invD:
  assumes "fills_inv s0 s js"
  shows "heap_wf s0" "same_volume s0 s" "heap_brk (fs_info s) + pending js < max_brk (fs_info s0)"
    and "k < length js \<Longrightarrow> job_ok (js ! k)" "k < length js \<Longrightarrow> region_ok s0 s (js ! k)"
    and "k < length js \<Longrightarrow> pointer_ok s0 (js ! k)" "k < length js \<Longrightarrow> job_written (fs_sb s0) (fs_bufs s) (js ! k)"
    and "k < length js \<Longrightarrow> k' < length js \<Longrightarrow> k \<noteq> k' \<Longrightarrow> apart (js ! k) (js ! k')"
    and "chains_ok s0 s js" "old_bytes s0 s"
    and "k < length js \<Longrightarrow> bump_ok s0 s (js ! k)" "excl js"
  using assms by (simp_all add: fills_inv_def)

lemma apart_sym: "apart j k = apart k j"
  by (auto simp: apart_def)

text \<open>One call changes: what has to be shown about its step.\<close>

lemma fills_inv_update:
  assumes I: "fills_inv s0 s js" and i: "i < length js"
    and vol: "same_volume s0 s'" "heap_brk (fs_info s) \<le> heap_brk (fs_info s')"
      "heap_brk (fs_info s') + pending (js[i := j]) < max_brk (fs_info s0)"
    and mem: "\<And>a. heap_base s0 \<le> a \<Longrightarrow> byte_at (fs_sb s0) (fs_bufs s') a \<noteq> byte_at (fs_sb s0) (fs_bufs s) a \<Longrightarrow>
      \<exists>l. job_loc (fj_pc j) = Some l \<and> l \<le> a \<and> a < l + job_size j"
    and own: "job_ok j" "region_ok s0 s' j" "pointer_ok s0 j" "job_written (fs_sb s0) (fs_bufs s') j" "bump_ok s0 s' j"
    and cr: "in_crit (fj_pc j) \<Longrightarrow> in_crit (fj_pc (js ! i)) \<or> (\<forall>k < length js. \<not> in_crit (fj_pc (js ! k)))"
    and bk: "heap_brk (fs_info s') \<noteq> heap_brk (fs_info s) \<Longrightarrow> in_crit (fj_pc (js ! i))"
    and ap: "\<And>k. k < length js \<Longrightarrow> k \<noteq> i \<Longrightarrow> apart j (js ! k)"
    and ch: "chains_ok s0 s' (js[i := j])"
  shows "fills_inv s0 s' (js[i := j])"
proof -
  note F = fills_invD [OF I]
  have base: "heap_base s0 \<le> heap_brk (fs_info s0)" using F(1) by (simp add: heap_wf_def)
  have r: "region_ok s0 s' (js ! k)" if "k < length js" for k
    using F(5) [OF that] vol(2) by (auto simp: region_ok_def)
  have w: "job_written (fs_sb s0) (fs_bufs s') (js ! k)" if k: "k < length js" "k \<noteq> i" for k
  proof -
    have "byte_at (fs_sb s0) (fs_bufs s') a = byte_at (fs_sb s0) (fs_bufs s) a"
      if l: "job_loc (fj_pc (js ! k)) = Some l" "l \<le> a" "a < l + job_size (js ! k)" for l a
    proof (rule ccontr)
      assume "\<not> ?thesis"
      moreover have "heap_base s0 \<le> a" using F(5) [OF k(1)] l base by (simp add: region_ok_def)
      ultimately obtain l' where "job_loc (fj_pc j) = Some l'" "l' \<le> a" "a < l' + job_size j" using mem by blast
      then show False using ap [OF k] l by (auto simp: apart_def)
    qed
    then show ?thesis using F(7) [OF k(1)] job_written_cong by metis
  qed
  have ob: "old_bytes s0 s'"
    unfolding old_bytes_def
  proof (intro allI impI)
    fix a assume a: "heap_base s0 \<le> a" "a < heap_brk (fs_info s0)"
    have "byte_at (fs_sb s0) (fs_bufs s') a = byte_at (fs_sb s0) (fs_bufs s) a"
      using mem [OF a(1)] own(2) a(2) by (fastforce simp: region_ok_def)
    then show "byte_at (fs_sb s0) (fs_bufs s') a = byte_at (fs_sb s0) (fs_bufs s0) a"
      using F(10) a by (simp add: old_bytes_def)
  qed
  have bp: "bump_ok s0 s' (js ! k)" if k: "k < length js" "k \<noteq> i" for k
  proof (cases "heap_brk (fs_info s') = heap_brk (fs_info s)")
    case True
    then show ?thesis using F(11) [OF k(1)] by (simp add: bump_ok_def)
  next
    case False
    then have "\<not> in_crit (fj_pc (js ! k))" using bk F(12) i k unfolding excl_def by blast
    then show ?thesis by (auto simp: bump_ok_def)
  qed
  have ex: "excl (js[i := j])" using F(12) cr i unfolding excl_def by (simp add: nth_list_update) blast
  have jobs: "job_ok (js[i := j] ! k) \<and> region_ok s0 s' (js[i := j] ! k) \<and> pointer_ok s0 (js[i := j] ! k) \<and>
      job_written (fs_sb s0) (fs_bufs s') (js[i := j] ! k) \<and> bump_ok s0 s' (js[i := j] ! k)" if "k < length js" for k
    using that own F(4) [OF that] F(6) [OF that] r w bp by (cases "k = i") simp_all
  have pairs: "apart (js[i := j] ! k) (js[i := j] ! k')" if "k < length js" "k' < length js" "k \<noteq> k'" for k k'
    using that F(8) [OF that] ap i by (auto simp: nth_list_update apart_sym [of _ j])
  show ?thesis using F(1) vol(1,3) jobs pairs ch ob ex by (simp add: fills_inv_def)
qed

lemma chains_update:
  assumes I: "fills_inv s0 s js" and i: "i < length js"
    and lk: "linked (fj_pc (js ! i)) \<Longrightarrow> linked (fj_pc j) \<and> job_loc (fj_pc j) = job_loc (fj_pc (js ! i)) \<and>
      ck_next (fj_chunk j) = ck_next (fj_chunk (js ! i))"
    and h: "ck_hash (fj_chunk j) = ck_hash (fj_chunk (js ! i))"
    and tv: "\<And>b. b < buckets s0 \<Longrightarrow> table_value s0 s' b = table_value s0 s b \<or>
      leads s0 (js[i := j]) b (table_value s0 s0 b) (table_value s0 s' b)"
    and at: "\<And>l bh o'. fj_pc j = Fill_link l bh o' \<Longrightarrow>
      leads s0 js (job_bucket s0 j) (table_value s0 s0 (job_bucket s0 j)) (ck_next (fj_chunk j))"
  shows "chains_ok s0 s' (js[i := j])"
proof -
  have C: "chains_ok s0 s js" by (rule fills_invD(9) [OF I])
  have up: "leads s0 (js[i := j]) b q p" if "leads s0 js b q p" for b q p
    by (rule leads_update [OF that i lk h])
  have "leads s0 (js[i := j]) b (table_value s0 s0 b) (table_value s0 s' b)" if "b < buckets s0" for b
    using tv [OF that] C that up by (auto simp: chains_ok_def)
  moreover have "leads s0 (js[i := j]) (job_bucket s0 k) (table_value s0 s0 (job_bucket s0 k)) (ck_next (fj_chunk k))"
    if k: "k' < length js" "k = js[i := j] ! k'" "fj_pc k = Fill_link l bh o'" for k k' l bh o'
  proof (cases "k' = i")
    case True
    then show ?thesis using k i at up by simp
  next
    case False
    then show ?thesis using k C up by (auto simp: chains_ok_def)
  qed
  ultimately show ?thesis by (auto simp: chains_ok_def)
qed

text \<open>What a single step computes.\<close>

lemma same_volume_brk:
  assumes "same_volume s0 s"
  shows "(fs_info s)\<lparr>heap_brk := b\<rparr> = (fs_info s0)\<lparr>heap_brk := b\<rparr>"
proof -
  have info: "fs_info s = (fs_info s0)\<lparr>heap_brk := heap_brk (fs_info s)\<rparr>" using assms unfolding same_volume_def by blast
  show ?thesis by (subst info) simp
qed

lemma same_volumeD:
  assumes "heap_wf s0" "same_volume s0 s"
  shows "fs_sb s = fs_sb s0" "breadable (fs_bufs s) = breadable (fs_bufs s0)"
    and "hashtable (fs_info s) = hashtable (fs_info s0)" "hashtable_size (fs_info s) = hashtable_size (fs_info s0)"
    and "extra_sb_location (fs_info s) = extra_sb_location (fs_info s0)" "max_brk (fs_info s) = max_brk (fs_info s0)"
    and "geometry_ok s" "heap_brk (fs_info s0) \<le> heap_brk (fs_info s)"
proof -
  have v: "fs_sb s = fs_sb s0" "breadable (fs_bufs s) = breadable (fs_bufs s0)" "heap_brk (fs_info s0) \<le> heap_brk (fs_info s)"
    and i: "fs_info s = (fs_info s0)\<lparr>heap_brk := heap_brk (fs_info s)\<rparr>" using assms(2) unfolding same_volume_def by blast+
  show "fs_sb s = fs_sb s0" "breadable (fs_bufs s) = breadable (fs_bufs s0)" "heap_brk (fs_info s0) \<le> heap_brk (fs_info s)"
    using v by simp_all
  show f: "hashtable (fs_info s) = hashtable (fs_info s0)" "hashtable_size (fs_info s) = hashtable_size (fs_info s0)"
    "extra_sb_location (fs_info s) = extra_sb_location (fs_info s0)" "max_brk (fs_info s) = max_brk (fs_info s0)"
    by (subst i; simp)+
  have "s_nzones (fs_info s) = s_nzones (fs_info s0)" by (subst i; simp)
  then show "geometry_ok s" using assms(1) f v by (simp add: heap_wf_def geometry_ok_def Let_def)
qed

lemma alloc_facts:
  assumes h: "heap_wf s0" and v: "same_volume s0 s" and n: "0 < n"
    and m: "heap_brk (fs_info s) + (2 * sizeof_chunk_head + n) < max_brk (fs_info s0)"
  defines "new \<equiv> next_head (fs_sb s0) (heap_brk (fs_info s))"
  shows "\<not> heap_brk (fs_info s) \<le> shl64 (s_nzones (fs_info s)) (s_blocksize_bits (fs_sb s0))"
    and "align_brk (fs_sb s0) (heap_brk (fs_info s)) = new"
    and "chunk_alloc s (int n) = bindE (update_brk_on_disk (s\<lparr>fs_info := (fs_info s)\<lparr>heap_brk := new + sizeof_chunk_head + n\<rparr>\<rparr>)
      (new + sizeof_chunk_head + n)) (\<lambda>s'. Inr (s', new))"
    and "heap_brk (fs_info s) \<le> new" "new < heap_brk (fs_info s) + sizeof_chunk_head"
    and "new mod s_blocksize (fs_sb s0) + sizeof_chunk_head \<le> s_blocksize (fs_sb s0)"
proof -
  note V = same_volumeD [OF h v]
  define s1 where "s1 = s0\<lparr>fs_info := fs_info s\<rparr>"
  have i: "fs_info s = (fs_info s0)\<lparr>heap_brk := heap_brk (fs_info s)\<rparr>" using v unfolding same_volume_def by blast
  have le: "heap_brk (fs_info s) \<le> max_brk (fs_info s0)" using m by simp
  have s1: "fs_sb s1 = fs_sb s0" "fs_bufs s1 = fs_bufs s0" "fs_info s1 = fs_info s" by (simp_all add: s1_def)
  have eq: "buckets s1 = buckets s0" "heap_base s1 = heap_base s0" "entry_addr s1 = entry_addr s0"
    by (simp_all add: buckets_def heap_base_def entry_addr_def s1 V(3,4) fun_eq_iff)
  have wf: "heap_wf s1"
  proof -
    have "geometry_ok s1" using V(7) V(1,2) by (simp add: geometry_ok_def s1_def Let_def)
    moreover have "chunk_wf s1 c" if "chunk_wf s0 c" for c
      using that V(8) by (simp add: chunk_wf_def eq s1)
    moreover have "bucket s1 j cs = bucket s0 j cs" for j cs by (simp add: bucket_def s1 eq)
    moreover have "\<exists>cs. bucket s0 j cs \<and> (\<forall>c \<in> set cs. chunk_wf s0 c \<and>
        chunk_hash_at (fs_sb s0) (fs_bufs s0) c mod buckets s0 = j)" if "j < buckets s0" for j
      using h that by (simp add: heap_wf_def)
    moreover have "heap_base s0 \<le> heap_brk (fs_info s)" using h V(8) by (simp add: heap_wf_def)
    ultimately show ?thesis using le V(6) unfolding heap_wf_def eq s1 by metis
  qed
  have k: "sizeof_chunk_head \<le> s_blocksize (fs_sb s0)" using geometry_blocksize(3) [OF V(7)] V(1) by simp
  note N = next_head_bounds [OF k, of "heap_brk (fs_info s)", folded new_def]
  have f: "chunk_fits s1 n" using N(2) m V(6) by (simp add: chunk_fits_def s1 new_def)
  note B = chunk_fits_bounds [OF wf f, unfolded s1, folded new_def]
  have "chunk_alloc s1 (int n) = Inr (after_alloc s1 (new + sizeof_chunk_head + n), new)"
    using chunk_alloc_spec [OF wf n f] by (simp add: s1 new_def)
  then have a: "\<not> heap_brk (fs_info s) \<le> shl64 (s_nzones (fs_info s)) (s_blocksize_bits (fs_sb s0))"
      "align_brk (fs_sb s0) (heap_brk (fs_info s)) = new"
    unfolding chunk_alloc_def by (auto simp: bindE_Inr_iff Let_def s1)
  then show "\<not> heap_brk (fs_info s) \<le> shl64 (s_nzones (fs_info s)) (s_blocksize_bits (fs_sb s0))"
    "align_brk (fs_sb s0) (heap_brk (fs_info s)) = new" by simp_all
  have "u64 (new + sizeof_chunk_head + n) = new + sizeof_chunk_head + n" using B(5) by (intro u64_id) simp
  then show "chunk_alloc s (int n) = bindE (update_brk_on_disk (s\<lparr>fs_info := (fs_info s)\<lparr>heap_brk := new + sizeof_chunk_head + n\<rparr>\<rparr>)
      (new + sizeof_chunk_head + n)) (\<lambda>s'. Inr (s', new))"
    using a n B(4) V(1) by (simp add: chunk_alloc_def s1 Let_def bug_on_def)
  show "heap_brk (fs_info s) \<le> new" "new < heap_brk (fs_info s) + sizeof_chunk_head"
    "new mod s_blocksize (fs_sb s0) + sizeof_chunk_head \<le> s_blocksize (fs_sb s0)" by (rule N)+
qed

lemma lock_step_keeps:
  assumes I: "fills_inv s0 s js" and i: "i < length js" and pc: "fj_pc (js ! i) = Fill_alloc" and lk: "lock_ok False js"
  shows "fill_step s False (js ! i) = Inr (Some (s, True, (js ! i)\<lparr>fj_pc := Fill_align\<rparr>))"
    and "fills_inv s0 s (js[i := (js ! i)\<lparr>fj_pc := Fill_align\<rparr>])"
proof -
  note F = fills_invD [OF I]
  let ?j = "(js ! i)\<lparr>fj_pc := Fill_align\<rparr>"
  have ok: "job_ok (js ! i)" by (rule F(4) [OF i])
  then show "fill_step s False (js ! i) = Inr (Some (s, True, ?j))"
    using pc by (simp add: fill_step_def mutex_lock_def bug_on_def job_ok_def)
  show "fills_inv s0 s (js[i := ?j])"
  proof (rule fills_inv_update [OF I i F(2)])
    have "job_pending ?j = job_pending (js ! i)" using pc by (simp add: job_pending_def job_size_def)
    then show "heap_brk (fs_info s) + pending (js[i := ?j]) < max_brk (fs_info s0)"
      using pending_update(1) [OF i, of ?j] F(3) by simp
    show "chains_ok s0 s (js[i := ?j])" by (rule chains_update [OF I i]) (use pc in simp_all)
    show "in_crit (fj_pc (js ! i)) \<or> (\<forall>k < length js. \<not> in_crit (fj_pc (js ! k)))" using lk by (simp add: lock_ok_def)
  qed (use ok in \<open>simp_all add: job_ok_def region_ok_def pointer_ok_def job_written_def bump_ok_def apart_def\<close>)
qed

text \<open>Room for a call that holds the mutex.\<close>

lemma pending_room:
  assumes "fills_inv s0 s js" "i < length js"
  shows "heap_brk (fs_info s) + job_pending (js ! i) < max_brk (fs_info s0)"
  using fills_invD(3) [OF assms(1)] pending_update(2) [OF assms(2)] by linarith

lemma align_step_keeps:
  assumes I: "fills_inv s0 s js" and i: "i < length js" and pc: "fj_pc (js ! i) = Fill_align"
  defines "new \<equiv> next_head (fs_sb s0) (heap_brk (fs_info s))"
  defines "s' \<equiv> s\<lparr>fs_info := (fs_info s)\<lparr>heap_brk := new\<rparr>\<rparr>"
  shows "fill_step s held (js ! i) = Inr (Some (s', held, (js ! i)\<lparr>fj_pc := Fill_bump new\<rparr>))"
    and "fills_inv s0 s' (js[i := (js ! i)\<lparr>fj_pc := Fill_bump new\<rparr>])"
proof -
  note F = fills_invD [OF I] and V = same_volumeD [OF fills_invD(1,2) [OF I]]
  let ?j = "(js ! i)\<lparr>fj_pc := Fill_bump new\<rparr>"
  have ok: "job_ok (js ! i)" by (rule F(4) [OF i])
  then have n: "0 < length (fj_data (js ! i))" by (simp add: job_ok_def)
  have p: "job_pending (js ! i) = 2 * sizeof_chunk_head + length (fj_data (js ! i))"
    using pc by (simp add: job_pending_def job_size_def)
  note A = alloc_facts [OF F(1,2) n pending_room [OF I i, unfolded p], folded new_def]
  show "fill_step s held (js ! i) = Inr (Some (s', held, ?j))"
    using A(1,2) pc V(1) by (simp add: fill_step_def s'_def bug_on_def Let_def)
  show "fills_inv s0 s' (js[i := ?j])"
  proof (rule fills_inv_update [OF I i])
    show "same_volume s0 s'" using V(1,2,8) A(4) same_volume_brk [OF F(2)] by (simp add: same_volume_def s'_def)
    show "heap_brk (fs_info s) \<le> heap_brk (fs_info s')" using A(4) by (simp add: s'_def)
    have "job_pending ?j + sizeof_chunk_head = job_pending (js ! i)" using p by (simp add: job_pending_def job_size_def)
    then show "heap_brk (fs_info s') + pending (js[i := ?j]) < max_brk (fs_info s0)"
      using pending_update(1) [OF i, of ?j] F(3) A(5) by (simp add: s'_def)
    show "chains_ok s0 s' (js[i := ?j])"
      by (rule chains_update [OF I i]) (use pc in \<open>simp_all add: table_value_def s'_def\<close>)
    show "bump_ok s0 s' ?j" using A(6) by (simp add: bump_ok_def s'_def)
    show "in_crit (fj_pc (js ! i)) \<or> (\<forall>k < length js. \<not> in_crit (fj_pc (js ! k)))" using pc by simp
  qed (use ok pc in \<open>simp_all add: job_ok_def region_ok_def pointer_ok_def job_written_def apart_def s'_def\<close>)
qed

lemma bump_step_keeps:
  assumes I: "fills_inv s0 s js" and i: "i < length js" and pc: "fj_pc (js ! i) = Fill_bump l"
  defines "s' \<equiv> s\<lparr>fs_info := (fs_info s)\<lparr>heap_brk := l + job_size (js ! i)\<rparr>\<rparr>"
  shows "fill_step s held (js ! i) = Inr (Some (s', held, (js ! i)\<lparr>fj_pc := Fill_unlock l\<rparr>))"
    and "fills_inv s0 s' (js[i := (js ! i)\<lparr>fj_pc := Fill_unlock l\<rparr>])"
proof -
  note F = fills_invD [OF I] and V = same_volumeD [OF fills_invD(1,2) [OF I]]
  let ?j = "(js ! i)\<lparr>fj_pc := Fill_unlock l\<rparr>"
  have ok: "job_ok (js ! i)" by (rule F(4) [OF i])
  have b: "heap_brk (fs_info s) = l" "l mod s_blocksize (fs_sb s0) + sizeof_chunk_head \<le> s_blocksize (fs_sb s0)"
    using F(11) [OF i] pc by (auto simp: bump_ok_def)
  have p: "job_pending (js ! i) = job_size (js ! i)" using pc by (simp add: job_pending_def)
  have m: "l + job_size (js ! i) < max_brk (fs_info s)" using pending_room [OF I i] p b(1) V(6) by simp
  with geometry_okD(8) [OF V(7)] have u: "u64 (l + job_size (js ! i)) = l + job_size (js ! i)" by (intro u64_id) simp
  show "fill_step s held (js ! i) = Inr (Some (s', held, ?j))"
    using pc b(1) m u ok by (simp add: fill_step_def s'_def bug_on_def Let_def job_ok_def job_size_def add.assoc)
  show "fills_inv s0 s' (js[i := ?j])"
  proof (rule fills_inv_update [OF I i])
    show "same_volume s0 s'" using V(1,2,8) b(1) same_volume_brk [OF F(2)] by (simp add: same_volume_def s'_def)
    show "heap_brk (fs_info s) \<le> heap_brk (fs_info s')" using b(1) by (simp add: s'_def)
    show "heap_brk (fs_info s') + pending (js[i := ?j]) < max_brk (fs_info s0)"
      using pending_update(1) [OF i, of ?j] F(3) p b(1) by (simp add: s'_def)
    show "region_ok s0 s' ?j" using b V(8) by (simp add: region_ok_def job_size_def s'_def)
    show "apart ?j (js ! k)" if "k < length js" "k \<noteq> i" for k
      using F(5) [OF that(1)] b(1) by (auto simp: apart_def region_ok_def)
    show "chains_ok s0 s' (js[i := ?j])"
      by (rule chains_update [OF I i]) (use pc in \<open>simp_all add: table_value_def s'_def\<close>)
    show "in_crit (fj_pc (js ! i)) \<or> (\<forall>k < length js. \<not> in_crit (fj_pc (js ! k)))" using pc by simp
  qed (use ok pc in \<open>simp_all add: job_ok_def pointer_ok_def job_written_def bump_ok_def s'_def\<close>)
qed

text \<open>The break on disk, and the bytes below the hash table: \<open>disk_brk s0 s s' v\<close> when a step leaves the
  break \<open>v\<close> there and the other bytes alone.\<close>

definition disk_brk :: "fs \<Rightarrow> fs \<Rightarrow> fs \<Rightarrow> nat \<Rightarrow> bool" where
  "disk_brk s0 s s' v \<longleftrightarrow> fnum (fs_sb s0) (fs_bufs s') (esb_addr s0) 8 = v \<and>
     (\<forall>a < hashtable (fs_info s0). a < esb_addr s0 \<or> esb_addr s0 + 8 \<le> a \<longrightarrow>
        byte_at (fs_sb s0) (fs_bufs s') a = byte_at (fs_sb s0) (fs_bufs s) a)"

lemma disk_brk_refl [simp]: "fs_bufs s' = fs_bufs s \<Longrightarrow> disk_brk s0 s s' (fnum (fs_sb s0) (fs_bufs s) (esb_addr s0) 8)"
  by (simp add: disk_brk_def)

lemma disk_brk_trans: "disk_brk s0 s s' v \<Longrightarrow> disk_brk s0 s' s'' w \<Longrightarrow> disk_brk s0 s s'' w"
  by (simp add: disk_brk_def)

lemma disk_brk_store:
  assumes "heap_wf s0" "hashtable (fs_info s0) \<le> w"
  shows "disk_brk s0 s (s\<lparr>fs_bufs := store_bytes (fs_sb s0) (fs_bufs s) w xs\<rparr>) (fnum (fs_sb s0) (fs_bufs s) (esb_addr s0) 8)"
proof -
  have "esb_addr s0 + 8 \<le> w" using esb_below [of s0] assms by (simp add: heap_wf_def)
  then have "fnum (fs_sb s0) (store_bytes (fs_sb s0) (fs_bufs s) w xs) (esb_addr s0) 8 =
      fnum (fs_sb s0) (fs_bufs s) (esb_addr s0) 8" by (intro fnum_cong) simp
  then show ?thesis using assms(2) by (simp add: disk_brk_def)
qed

text \<open>Two steps only read.\<close>

lemma read_step_inv:
  assumes I: "fills_inv s0 s js" and i: "i < length js" and l: "job_loc (fj_pc (js ! i)) = Some l" "job_loc (fj_pc j) = Some l"
    and nl: "\<not> linked (fj_pc (js ! i))" "\<not> in_crit (fj_pc j)"
    and c: "fj_data j = fj_data (js ! i)" "ck_hash (fj_chunk j) = ck_hash (fj_chunk (js ! i))"
    and ok: "job_ok j" "pointer_ok s0 j" "job_written (fs_sb s0) (fs_bufs s) j"
    and at: "\<And>l bh o'. fj_pc j = Fill_link l bh o' \<Longrightarrow>
      leads s0 js (job_bucket s0 j) (table_value s0 s0 (job_bucket s0 j)) (ck_next (fj_chunk j))"
  shows "fills_inv s0 s (js[i := j])"
proof (rule fills_inv_update [OF I i])
  note F = fills_invD [OF I]
  have sz: "job_size j = job_size (js ! i)" using c by (simp add: job_size_def)
  show "heap_brk (fs_info s) + pending (js[i := j]) < max_brk (fs_info s0)"
    using pending_update(1) [OF i, of j] F(3) l by simp
  show "region_ok s0 s j" using F(5) [OF i] l sz by (simp add: region_ok_def)
  show "apart j (js ! k)" if "k < length js" "k \<noteq> i" for k
    using F(8) [OF i that(1)] that(2) l sz by (auto simp: apart_def)
  show "chains_ok s0 s (js[i := j])"
    by (rule chains_update [OF I i _ c(2) _ at]) (use nl in simp_all)
qed (use fills_invD(2) [OF I] ok nl l in \<open>simp_all add: bump_ok_loc\<close>)

text \<open>Two write into the region of the call.\<close>

lemma write_step_inv:
  assumes I: "fills_inv s0 s js" and i: "i < length js" and l: "job_loc (fj_pc (js ! i)) = Some l" "job_loc (fj_pc j) = Some l"
    and lk: "linked (fj_pc j)"
    and c: "fj_data j = fj_data (js ! i)" "fj_chunk j = fj_chunk (js ! i)"
    and w: "l \<le> w" "w + length xs \<le> l + job_size (js ! i)"
    and wr: "job_written (fs_sb s0) (store_bytes (fs_sb s0) (fs_bufs s) w xs) j"
  shows "fills_inv s0 (s\<lparr>fs_bufs := store_bytes (fs_sb s0) (fs_bufs s) w xs\<rparr>) (js[i := j])"
proof (rule fills_inv_update [OF I i])
  note F = fills_invD [OF I] and V = same_volumeD [OF fills_invD(1,2) [OF I]]
  let ?s = "s\<lparr>fs_bufs := store_bytes (fs_sb s0) (fs_bufs s) w xs\<rparr>"
  have sz: "job_size j = job_size (js ! i)" using c by (simp add: job_size_def)
  have base: "heap_base s0 \<le> l" using F(1) F(5) [OF i] l by (simp add: heap_wf_def region_ok_def)
  show "same_volume s0 ?s" using F(2) unfolding same_volume_def by simp
  show "heap_brk (fs_info ?s) + pending (js[i := j]) < max_brk (fs_info s0)"
    using pending_update(1) [OF i, of j] F(3) l by simp
  show "\<exists>l. job_loc (fj_pc j) = Some l \<and> l \<le> a \<and> a < l + job_size j"
    if "byte_at (fs_sb s0) (fs_bufs ?s) a \<noteq> byte_at (fs_sb s0) (fs_bufs s) a" for a
    using that w l(2) sz by (auto split: if_splits)
  show "region_ok s0 ?s j" using F(5) [OF i] l sz by (simp add: region_ok_def)
  show "apart j (js ! k)" if "k < length js" "k \<noteq> i" for k
    using F(8) [OF i that(1)] that(2) l sz by (auto simp: apart_def)
  show "job_ok j" using F(4) [OF i] c by (simp add: job_ok_def)
  show "pointer_ok s0 j" using lk by (cases "fj_pc j") (simp_all add: pointer_ok_def)
  show "job_written (fs_sb s0) (fs_bufs ?s) j" using wr by simp
  have "table_value s0 ?s b = table_value s0 s b" if "b < buckets s0" for b
    using entry_bounds(2) [OF F(1) that] base w(1) unfolding table_value_def
    by (intro fnum_cong) simp
  then show "chains_ok s0 ?s (js[i := j])"
    using lk c l by (intro chains_update [OF I i]) auto
  show "in_crit (fj_pc (js ! i)) \<or> (\<forall>k < length js. \<not> in_crit (fj_pc (js ! k)))" if "in_crit (fj_pc j)"
    using that lk by (cases "fj_pc j") simp_all
qed (use l in \<open>simp_all add: bump_ok_loc\<close>)

lemma job_region:
  assumes I: "fills_inv s0 s js" and i: "i < length js" and l: "job_loc (fj_pc (js ! i)) = Some l"
  shows "hashtable (fs_info s0) < l" "heap_base s0 \<le> l" "l + job_size (js ! i) < 2 ^ 32"
    and "valid_range (fs_sb s0) (fs_bufs s) l sizeof_chunk_head"
    and "valid_range (fs_sb s0) (fs_bufs s) (l + sizeof_chunk_head) (length (fj_data (js ! i)))"
proof -
  note F = fills_invD [OF I] and V = same_volumeD [OF fills_invD(1,2) [OF I]]
  have r: "heap_brk (fs_info s0) \<le> l" "l + job_size (js ! i) \<le> heap_brk (fs_info s)" using F(5) [OF i] l by (simp_all add: region_ok_def)
  have t: "hashtable (fs_info s0) < heap_base s0" using F(1) geometry_okD(4) [of s0] by (simp add: heap_wf_def heap_base_def buckets_def)
  show base: "heap_base s0 \<le> l" using F(1) r(1) by (simp add: heap_wf_def)
  with t show "hashtable (fs_info s0) < l" by simp
  have m: "l + job_size (js ! i) < max_brk (fs_info s)" using r(2) F(3) V(6) by simp
  with geometry_okD(8) [OF V(7)] show "l + job_size (js ! i) < 2 ^ 32" by simp
  have n: "fj_data (js ! i) \<noteq> []" using F(4) [OF i] by (simp add: job_ok_def)
  show "valid_range (fs_sb s0) (fs_bufs s) l sizeof_chunk_head"
    and "valid_range (fs_sb s0) (fs_bufs s) (l + sizeof_chunk_head) (length (fj_data (js ! i)))"
    using m n t base V(1) unfolding V(1) [symmetric]
    by (auto simp: job_size_def sizeof_chunk_head_def Suc_le_eq intro!: geometry_valid_range [OF V(7)])
qed

lemma head_step_keeps:
  assumes I: "fills_inv s0 s js" and i: "i < length js" and pc: "fj_pc (js ! i) = Fill_head l"
  shows "\<exists>s'. fill_step s held (js ! i) = Inr (Some (s', held, (js ! i)\<lparr>fj_pc := Fill_data l\<rparr>)) \<and>
    fills_inv s0 s' (js[i := (js ! i)\<lparr>fj_pc := Fill_data l\<rparr>]) \<and>
    disk_brk s0 s s' (fnum (fs_sb s0) (fs_bufs s) (esb_addr s0) 8)"
proof -
  have l: "job_loc (fj_pc (js ! i)) = Some l" using pc by simp
  let ?xs = "chunk_bytes (fj_chunk (js ! i))"
  have sb: "fs_sb s = fs_sb s0" by (rule same_volumeD(1) [OF fills_invD(1,2) [OF I]])
  have "?xs \<noteq> []" using length_chunk_bytes [of "fj_chunk (js ! i)"] by (metis length_greater_0_conv sizeof_chunk_head_def zero_less_numeral)
  then have "write_data_storage (fs_sb s0) (fs_bufs s) l (Some ?xs) sizeof_chunk_head = Inr (store_bytes (fs_sb s0) (fs_bufs s) l ?xs)"
    using write_data_storage_spec [OF job_region(4) [OF I i l], of "Some ?xs"] by (simp add: enough_data_def data_of_def store_marks)
  then have "fill_step s held (js ! i) = Inr (Some (s\<lparr>fs_bufs := store_bytes (fs_sb s0) (fs_bufs s) l ?xs\<rparr>, held, (js ! i)\<lparr>fj_pc := Fill_data l\<rparr>))"
    using pc sb by (simp add: fill_step_def)
  then show ?thesis
    using write_step_inv [OF I i l, of "(js ! i)\<lparr>fj_pc := Fill_data l\<rparr>" l ?xs]
      disk_brk_store [OF fills_invD(1) [OF I] less_imp_le [OF job_region(1) [OF I i l]]] by (simp add: job_size_def job_written_def)
qed

lemma data_step_keeps:
  assumes I: "fills_inv s0 s js" and i: "i < length js" and pc: "fj_pc (js ! i) = Fill_data l"
  shows "\<exists>s'. fill_step s held (js ! i) = Inr (Some (s', held, (js ! i)\<lparr>fj_pc := Fill_done l\<rparr>)) \<and>
    fills_inv s0 s' (js[i := (js ! i)\<lparr>fj_pc := Fill_done l\<rparr>]) \<and>
    disk_brk s0 s s' (fnum (fs_sb s0) (fs_bufs s) (esb_addr s0) 8)"
proof -
  have l: "job_loc (fj_pc (js ! i)) = Some l" using pc by simp
  let ?d = "fj_data (js ! i)" and ?a = "l + sizeof_chunk_head"
  note F = fills_invD [OF I]
  have sb: "fs_sb s = fs_sb s0" by (rule same_volumeD(1) [OF F(1,2)])
  have d: "?d \<noteq> []" "ck_length (fj_chunk (js ! i)) = length ?d" using F(4) [OF i] by (simp_all add: job_ok_def)
  have u: "u64 ?a = ?a" using job_region(3) [OF I i l] by (intro u64_id) (simp add: job_size_def)
  have "write_data_storage (fs_sb s0) (fs_bufs s) ?a (Some ?d) (length ?d) = Inr (store_bytes (fs_sb s0) (fs_bufs s) ?a ?d)"
    using write_data_storage_spec [OF job_region(5) [OF I i l], of "Some ?d"] d(1) by (simp add: enough_data_def data_of_def store_marks)
  then have "fill_step s held (js ! i) = Inr (Some (s\<lparr>fs_bufs := store_bytes (fs_sb s0) (fs_bufs s) ?a ?d\<rparr>, held, (js ! i)\<lparr>fj_pc := Fill_done l\<rparr>))"
    using pc sb d u by (simp add: fill_step_def)
  moreover have "load_bytes (fs_sb s0) (fs_bufs s) l sizeof_chunk_head = chunk_bytes (fj_chunk (js ! i))"
    using F(7) [OF i] pc by (simp add: job_written_def)
  ultimately show ?thesis
    using write_step_inv [OF I i l, of "(js ! i)\<lparr>fj_pc := Fill_done l\<rparr>" ?a ?d] pc
      disk_brk_store [OF F(1), of ?a s ?d] job_region(1) [OF I i l]
    by (simp add: job_size_def job_written_def load_store_disjoint)
qed

lemma unlock_step_keeps:
  assumes I: "fills_inv s0 s js" and i: "i < length js" and pc: "fj_pc (js ! i) = Fill_unlock l"
  shows "fill_step s held (js ! i) = Inr (Some (s, False, (js ! i)\<lparr>fj_pc := Fill_read_brk l\<rparr>))"
    and "fills_inv s0 s (js[i := (js ! i)\<lparr>fj_pc := Fill_read_brk l\<rparr>])"
proof -
  show "fills_inv s0 s (js[i := (js ! i)\<lparr>fj_pc := Fill_read_brk l\<rparr>])"
    by (rule read_step_inv [OF I i, of l])
       (use pc fills_invD(4) [OF I i] in \<open>simp_all add: job_ok_def pointer_ok_def job_written_def\<close>)
  show "fill_step s held (js ! i) = Inr (Some (s, False, (js ! i)\<lparr>fj_pc := Fill_read_brk l\<rparr>))"
    using pc by (simp add: fill_step_def mutex_unlock_def)
qed

lemma read_brk_step_keeps:
  assumes I: "fills_inv s0 s js" and i: "i < length js" and pc: "fj_pc (js ! i) = Fill_read_brk l"
  defines "brk \<equiv> heap_brk (fs_info s)"
  shows "fill_step s held (js ! i) = Inr (Some (s, held, (js ! i)\<lparr>fj_pc := Fill_save_brk l brk\<rparr>))"
    and "fills_inv s0 s (js[i := (js ! i)\<lparr>fj_pc := Fill_save_brk l brk\<rparr>])"
proof -
  show "fills_inv s0 s (js[i := (js ! i)\<lparr>fj_pc := Fill_save_brk l brk\<rparr>])"
    by (rule read_step_inv [OF I i, of l])
       (use pc fills_invD(4) [OF I i] in \<open>simp_all add: job_ok_def pointer_ok_def job_written_def\<close>)
  show "fill_step s held (js ! i) = Inr (Some (s, held, (js ! i)\<lparr>fj_pc := Fill_save_brk l brk\<rparr>))"
    using pc by (simp add: fill_step_def brk_def)
qed

lemma save_brk_step_keeps:
  assumes I: "fills_inv s0 s js" and i: "i < length js" and pc: "fj_pc (js ! i) = Fill_save_brk l brk"
  shows "\<exists>s'. fill_step s held (js ! i) = Inr (Some (s', held, (js ! i)\<lparr>fj_pc := Fill_read_entry l\<rparr>)) \<and>
    fills_inv s0 s' (js[i := (js ! i)\<lparr>fj_pc := Fill_read_entry l\<rparr>]) \<and> disk_brk s0 s s' (brk mod 2 ^ 64) \<and>
    s' = s\<lparr>fs_bufs := store_bytes (fs_sb s) (fs_bufs s) (esb_addr s) (le_bytes 8 brk)\<rparr>"
proof -
  note F = fills_invD [OF I] and V = same_volumeD [OF fills_invD(1,2) [OF I]]
  let ?j = "(js ! i)\<lparr>fj_pc := Fill_read_entry l\<rparr>"
  have l: "job_loc (fj_pc (js ! i)) = Some l" "job_loc (fj_pc ?j) = Some l" using pc by simp_all
  let ?s = "s\<lparr>fs_bufs := store_bytes (fs_sb s) (fs_bufs s) (esb_addr s) (le_bytes 8 brk)\<rparr>"
  have t: "hashtable (fs_info s) \<le> max_brk (fs_info s)"
    using job_region(1,3) [OF I i l(1)] F(3) F(5) [OF i] l(1) V(3,6) by (simp add: region_ok_def)
  have st: "fill_step s held (js ! i) = Inr (Some (?s, held, ?j))"
    using update_brk_spec [OF V(7) t] pc by (simp add: fill_step_def)
  have same: "byte_at (fs_sb s0) (fs_bufs ?s) a = byte_at (fs_sb s0) (fs_bufs s) a" if "hashtable (fs_info s0) \<le> a" for a
    using that esb_below [OF V(7)] V(3) by (simp add: V(1) [symmetric])
  have "fills_inv s0 ?s (js[i := ?j])"
  proof (rule fills_inv_update [OF I i])
    show "same_volume s0 ?s" using F(2) unfolding same_volume_def by simp
    show "heap_brk (fs_info ?s) + pending (js[i := ?j]) < max_brk (fs_info s0)"
      using pending_update(1) [OF i, of ?j] F(3) l by simp
    show "\<exists>l. job_loc (fj_pc ?j) = Some l \<and> l \<le> a \<and> a < l + job_size ?j"
      if "heap_base s0 \<le> a" "byte_at (fs_sb s0) (fs_bufs ?s) a \<noteq> byte_at (fs_sb s0) (fs_bufs s) a" for a
      using same [of a] that by (simp add: heap_base_def)
    show "region_ok s0 ?s ?j" using F(5) [OF i] l by (simp add: region_ok_def job_size_def)
    show "apart ?j (js ! k)" if "k < length js" "k \<noteq> i" for k
      using F(8) [OF i that(1)] that(2) l by (auto simp: apart_def job_size_def)
    show "job_ok ?j" using F(4) [OF i] by (simp add: job_ok_def)
    have "table_value s0 ?s b = table_value s0 s b" if "b < buckets s0" for b
      unfolding table_value_def by (rule fnum_cong, rule same) (use entry_bounds(6) [OF F(1) that] in simp)
    then show "chains_ok s0 ?s (js[i := ?j])"
      using pc by (intro chains_update [OF I i]) auto
  qed (simp_all add: pointer_ok_def job_written_def bump_ok_def)
  moreover have "disk_brk s0 s ?s (brk mod 2 ^ 64)"
  proof -
    have e: "esb_addr s = esb_addr s0" by (simp add: esb_addr_def V(1,5))
    have "fnum (fs_sb s0) (fs_bufs ?s) (esb_addr s0) 8 = brk mod 2 ^ 64" unfolding fnum_def V(1) e by simp
    then show ?thesis by (simp add: disk_brk_def V(1) e)
  qed
  ultimately show ?thesis using st by blast
qed

lemma job_entry:
  assumes I: "fills_inv s0 s js" and i: "i < length js"
  defines "e \<equiv> entry_addr s0 (job_bucket s0 (js ! i))"
  shows "job_bucket s0 (js ! i) < buckets s0" "e mod s_blocksize (fs_sb s0) + 8 \<le> s_blocksize (fs_sb s0)"
    and "hashtable_hash (fs_info s) (ck_hash (fj_chunk (js ! i))) = Inr (job_bucket s0 (js ! i))"
    and "load_blockoff (fs_sb s0) (fs_bufs s) (u64 (hashtable (fs_info s) + job_bucket s0 (js ! i) * 8)) =
      Inr (e div s_blocksize (fs_sb s0), e mod s_blocksize (fs_sb s0), s_blocksize (fs_sb s0) - e mod s_blocksize (fs_sb s0))"
    and "get_num (fs_sb s0) (fs_bufs s) (e div s_blocksize (fs_sb s0)) (e mod s_blocksize (fs_sb s0)) 8 =
      Inr (table_value s0 s (job_bucket s0 (js ! i)))"
proof -
  note F = fills_invD [OF I] and V = same_volumeD [OF fills_invD(1,2) [OF I]]
  have b: "0 < buckets s0" using F(1) geometry_okD(4) by (simp add: heap_wf_def)
  then show i': "job_bucket s0 (js ! i) < buckets s0" by (simp add: job_bucket_def)
  note E = entry_bounds [OF F(1) i', folded e_def]
  show m: "e mod s_blocksize (fs_sb s0) + 8 \<le> s_blocksize (fs_sb s0)" by (rule E(3))
  have "buckets s = buckets s0" by (simp add: buckets_def V(4))
  then show "hashtable_hash (fs_info s) (ck_hash (fj_chunk (js ! i))) = Inr (job_bucket s0 (js ! i))"
    using hashtable_hash_bucket [of s] b by (simp add: job_bucket_def)
  have "u64 (hashtable (fs_info s) + job_bucket s0 (js ! i) * 8) = e"
    using E(4) V(3) by (simp add: e_def entry_addr_def u64_id)
  moreover have "valid_range (fs_sb s0) (fs_bufs s) e 8" using E(5) V(2) by (simp add: valid_range_def)
  ultimately show "load_blockoff (fs_sb s0) (fs_bufs s) (u64 (hashtable (fs_info s) + job_bucket s0 (js ! i) * 8)) =
      Inr (e div s_blocksize (fs_sb s0), e mod s_blocksize (fs_sb s0), s_blocksize (fs_sb s0) - e mod s_blocksize (fs_sb s0))"
    using load_blockoff_valid by simp
  show "get_num (fs_sb s0) (fs_bufs s) (e div s_blocksize (fs_sb s0)) (e mod s_blocksize (fs_sb s0)) 8 =
      Inr (table_value s0 s (job_bucket s0 (js ! i)))"
    using get_num_field [of e "fs_sb s0" 0 8 "fs_bufs s"] m by (simp add: table_value_def e_def)
qed

lemma read_entry_step_keeps:
  assumes I: "fills_inv s0 s js" and i: "i < length js" and pc: "fj_pc (js ! i) = Fill_read_entry l"
  shows "\<exists>nx bh o'. fill_step s held (js ! i) =
      Inr (Some (s, held, (js ! i)\<lparr>fj_chunk := (fj_chunk (js ! i))\<lparr>ck_next := nx\<rparr>, fj_pc := Fill_link l bh o'\<rparr>)) \<and>
    fills_inv s0 s (js[i := (js ! i)\<lparr>fj_chunk := (fj_chunk (js ! i))\<lparr>ck_next := nx\<rparr>, fj_pc := Fill_link l bh o'\<rparr>])"
proof -
  note F = fills_invD [OF I] and V = same_volumeD [OF fills_invD(1,2) [OF I]] and E = job_entry [OF I i]
  let ?b = "job_bucket s0 (js ! i)"
  let ?nx = "table_value s0 s ?b" and ?e = "entry_addr s0 ?b" and ?k = "s_blocksize (fs_sb s0)"
  let ?j = "(js ! i)\<lparr>fj_chunk := (fj_chunk (js ! i))\<lparr>ck_next := ?nx\<rparr>, fj_pc := Fill_link l (?e div ?k) (?e mod ?k)\<rparr>"
  have st: "fill_step s held (js ! i) = Inr (Some (s, held, ?j))" using pc E V(1) by (simp add: fill_step_def Let_def)
  have n: "?nx < 2 ^ 64" using fnum_bound [of "fs_sb s0" "fs_bufs s" ?e 8] by (simp add: table_value_def)
  have "leads s0 js ?b (table_value s0 s0 ?b) ?nx" using F(9) E(1) by (simp add: chains_ok_def)
  then have "fills_inv s0 s (js[i := ?j])"
    by (intro read_step_inv [OF I i, of l])
       (use pc F(4) [OF i] n in \<open>simp_all add: job_ok_def pointer_ok_def job_written_def Let_def\<close>)
  then show ?thesis using st by blast
qed

lemma link_step_keeps:
  assumes I: "fills_inv s0 s js" and i: "i < length js" and pc: "fj_pc (js ! i) = Fill_link l bh o'"
  shows "\<exists>s'. fill_step s held (js ! i) = Inr (Some (s', held, (js ! i)\<lparr>fj_pc := Fill_head l\<rparr>)) \<and>
    fills_inv s0 s' (js[i := (js ! i)\<lparr>fj_pc := Fill_head l\<rparr>]) \<and>
    disk_brk s0 s s' (fnum (fs_sb s0) (fs_bufs s) (esb_addr s0) 8) \<and>
    s' = s\<lparr>fs_bufs := store_bytes (fs_sb s0) (fs_bufs s) (entry_addr s0 (job_bucket s0 (js ! i))) (le_bytes 8 l)\<rparr>"
proof -
  note F = fills_invD [OF I] and V = same_volumeD [OF fills_invD(1,2) [OF I]] and E = job_entry [OF I i]
  let ?b = "job_bucket s0 (js ! i)"
  let ?e = "entry_addr s0 ?b" and ?j = "(js ! i)\<lparr>fj_pc := Fill_head l\<rparr>"
  have l: "job_loc (fj_pc (js ! i)) = Some l" "job_loc (fj_pc ?j) = Some l" using pc by simp_all
  let ?s = "s\<lparr>fs_bufs := store_bytes (fs_sb s0) (fs_bufs s) ?e (le_bytes 8 l)\<rparr>"
  have ptr: "bh = ?e div s_blocksize (fs_sb s0)" "o' = ?e mod s_blocksize (fs_sb s0)"
    using F(6) [OF i] pc by (simp_all add: pointer_ok_def Let_def)
  have st: "fill_step s held (js ! i) = Inr (Some (?s, held, ?j))"
    using pc set_num_store [OF E(2), of "fs_bufs s" l] V(1) by (simp add: fill_step_def ptr)
  have eb: "?e + 8 \<le> heap_base s0" by (rule entry_bounds(2) [OF F(1) E(1)])
  have "fills_inv s0 ?s (js[i := ?j])"
  proof (rule fills_inv_update [OF I i])
    show "same_volume s0 ?s" using F(2) unfolding same_volume_def by simp
    show "heap_brk (fs_info ?s) + pending (js[i := ?j]) < max_brk (fs_info s0)"
      using pending_update(1) [OF i, of ?j] F(3) l by simp
    show "\<exists>l. job_loc (fj_pc ?j) = Some l \<and> l \<le> a \<and> a < l + job_size ?j"
      if "heap_base s0 \<le> a" "byte_at (fs_sb s0) (fs_bufs ?s) a \<noteq> byte_at (fs_sb s0) (fs_bufs s) a" for a
      using that eb by (simp split: if_splits)
    show "region_ok s0 ?s ?j" using F(5) [OF i] l by (simp add: region_ok_def job_size_def)
    show "apart ?j (js ! k)" if "k < length js" "k \<noteq> i" for k
      using F(8) [OF i that(1)] that(2) l by (auto simp: apart_def job_size_def)
    show "job_ok ?j" using F(4) [OF i] by (simp add: job_ok_def)
    show "chains_ok s0 ?s (js[i := ?j])"
    proof (rule chains_update [OF I i])
      fix b assume b: "b < buckets s0"
      show "table_value s0 ?s b = table_value s0 s b \<or> leads s0 (js[i := ?j]) b (table_value s0 s0 b) (table_value s0 ?s b)"
      proof (cases "b = ?b")
        case True
        have "l < 256 ^ 8" using job_region(3) [OF I i l(1)] by simp
        then have v: "table_value s0 ?s b = l" unfolding table_value_def fnum_def True by simp
        have "leads s0 js ?b (table_value s0 s0 ?b) (ck_next (fj_chunk (js ! i)))"
          using F(9) i pc by (simp add: chains_ok_def)
        then have "leads s0 (js[i := ?j]) ?b (table_value s0 s0 ?b) (ck_next (fj_chunk (js ! i)))"
          by (rule leads_update [OF _ i]) (use pc in simp_all)
        then have "leads s0 (js[i := ?j]) ?b (table_value s0 s0 ?b) l"
          using i by - (rule leads.next_job [of i], simp_all)
        then show ?thesis using v True by simp
      next
        case False
        then have "entry_addr s0 b + 8 \<le> ?e \<or> ?e + 8 \<le> entry_addr s0 b" by (simp add: entry_addr_def) linarith
        then have "table_value s0 ?s b = table_value s0 s b"
          unfolding table_value_def by (intro fnum_cong) auto
        then show ?thesis ..
      qed
    qed (use pc in simp_all)
  qed (simp_all add: pointer_ok_def job_written_def bump_ok_def)
  then show ?thesis using st disk_brk_store [OF F(1) entry_bounds(6) [OF F(1) E(1)]] by blast
qed

section \<open>Runs\<close>

fun job_rank :: "fill_pc \<Rightarrow> nat" where
  "job_rank Fill_alloc = 10"
| "job_rank Fill_align = 9"
| "job_rank (Fill_bump l) = 8"
| "job_rank (Fill_unlock l) = 7"
| "job_rank (Fill_read_brk l) = 6"
| "job_rank (Fill_save_brk l brk) = 5"
| "job_rank (Fill_read_entry l) = 4"
| "job_rank (Fill_link l bh o') = 3"
| "job_rank (Fill_head l) = 2"
| "job_rank (Fill_data l) = 1"
| "job_rank (Fill_done l) = 0"

definition steps_left :: "fill_job list \<Rightarrow> nat" where
  "steps_left js = sum_list (map (\<lambda>j. job_rank (fj_pc j)) js)"

lemma job_rank_zero: "job_rank pc = 0 \<longleftrightarrow> job_done pc"
  by (cases pc) simp_all

text \<open>The arguments of a call, apart from \<open>next\<close>, which it sets.\<close>

definition same_call :: "fill_job \<Rightarrow> fill_job \<Rightarrow> bool" where
  "same_call j k \<longleftrightarrow> fj_data k = fj_data j \<and> ck_hash (fj_chunk k) = ck_hash (fj_chunk j) \<and>
     ck_length (fj_chunk k) = ck_length (fj_chunk j) \<and> (job_loc (fj_pc j) \<noteq> None \<longrightarrow> job_loc (fj_pc k) = job_loc (fj_pc j))"

lemma same_call_refl [simp]: "same_call j j" by (simp add: same_call_def)

lemma same_call_trans: "same_call i j \<Longrightarrow> same_call j k \<Longrightarrow> same_call i k" by (simp add: same_call_def)

text \<open>A call waits only when it wants the mutex and another call holds it.\<close>

definition waits :: "bool \<Rightarrow> fill_job \<Rightarrow> bool" where
  "waits held j \<longleftrightarrow> held \<and> fj_pc j = Fill_alloc"

lemma lock_ok_update:
  assumes "lock_ok held js" "excl js" "i < length js"
    and "in_crit (fj_pc j) = in_crit (fj_pc (js ! i)) \<and> held' = held \<or> in_crit (fj_pc j) \<and> held' \<or>
      in_crit (fj_pc (js ! i)) \<and> \<not> in_crit (fj_pc j) \<and> \<not> held'"
  shows "lock_ok held' (js[i := j])"
proof -
  consider (same) "in_crit (fj_pc j) = in_crit (fj_pc (js ! i))" "held' = held" | (lock) "in_crit (fj_pc j)" held' |
    (unlock) "in_crit (fj_pc (js ! i))" "\<not> in_crit (fj_pc j)" "\<not> held'" using assms(4) by blast
  then show ?thesis
  proof cases
    case same
    then have "in_crit (fj_pc (js[i := j] ! k)) = in_crit (fj_pc (js ! k))" if "k < length js" for k
      using that by (cases "k = i") simp_all
    then show ?thesis using assms(1) same(2) by (auto simp: lock_ok_def)
  next
    case lock
    then show ?thesis using assms(3) by (auto simp: lock_ok_def intro!: exI [of _ i])
  next
    case unlock
    then have "\<not> in_crit (fj_pc (js[i := j] ! k))" if "k < length js" for k
      using that assms(2,3) unfolding excl_def by (cases "k = i") auto
    then show ?thesis using unlock(3) by (simp add: lock_ok_def)
  qed
qed

lemma one_step:
  assumes I: "fills_inv s0 s js" and L: "lock_ok held js" and i: "i < length js"
    and n: "\<not> job_done (fj_pc (js ! i))" "\<not> waits held (js ! i)"
  shows "\<exists>s' held' j. fill_step s held (js ! i) = Inr (Some (s', held', j)) \<and> fills_inv s0 s' (js[i := j]) \<and>
    lock_ok held' (js[i := j]) \<and> same_call (js ! i) j \<and> Suc (job_rank (fj_pc j)) = job_rank (fj_pc (js ! i)) \<and>
    disk_brk s0 s s' (case fj_pc (js ! i) of Fill_save_brk l brk \<Rightarrow> brk mod 2 ^ 64 | _ \<Rightarrow> fnum (fs_sb s0) (fs_bufs s) (esb_addr s0) 8)"
proof -
  note U = lock_ok_update [OF L fills_invD(12) [OF I] i]
  show ?thesis
  proof (cases "fj_pc (js ! i)")
    case Fill_alloc
    then have "\<not> held" using n(2) by (simp add: waits_def)
    then show ?thesis using lock_step_keeps [OF I i Fill_alloc] L Fill_alloc U [of "(js ! i)\<lparr>fj_pc := Fill_align\<rparr>" True]
      by (auto simp: same_call_def)
  next
    case Fill_align
    show ?thesis using align_step_keeps(1) [OF I i Fill_align, of held] align_step_keeps(2) [OF I i Fill_align] Fill_align U [of "(js ! i)\<lparr>fj_pc := Fill_bump _\<rparr>" held]
      by (simp add: same_call_def)
  next
    case (Fill_bump l)
    show ?thesis using bump_step_keeps(1) [OF I i Fill_bump, of held] bump_step_keeps(2) [OF I i Fill_bump] Fill_bump U [of "(js ! i)\<lparr>fj_pc := Fill_unlock l\<rparr>" held]
      by (simp add: same_call_def)
  next
    case (Fill_unlock l)
    show ?thesis using unlock_step_keeps(1) [OF I i Fill_unlock, of held] unlock_step_keeps(2) [OF I i Fill_unlock] Fill_unlock U [of "(js ! i)\<lparr>fj_pc := Fill_read_brk l\<rparr>" False]
      by (auto simp: same_call_def)
  next
    case (Fill_read_brk l)
    show ?thesis using read_brk_step_keeps(1) [OF I i Fill_read_brk, of held] read_brk_step_keeps(2) [OF I i Fill_read_brk] Fill_read_brk U [of _ held] by (force simp: same_call_def)
  next
    case (Fill_save_brk l brk)
    show ?thesis using save_brk_step_keeps [OF I i Fill_save_brk, of held] Fill_save_brk U [of _ held] by (force simp: same_call_def)
  next
    case (Fill_read_entry l)
    show ?thesis using read_entry_step_keeps [OF I i Fill_read_entry, of held] Fill_read_entry U [of _ held] by (force simp: same_call_def)
  next
    case (Fill_link l bh o')
    show ?thesis using link_step_keeps [OF I i Fill_link, of held] Fill_link U [of _ held] by (force simp: same_call_def)
  next
    case (Fill_head l)
    show ?thesis using head_step_keeps [OF I i Fill_head, of held] Fill_head U [of _ held] by (force simp: same_call_def)
  next
    case (Fill_data l)
    show ?thesis using data_step_keeps [OF I i Fill_data, of held] Fill_data U [of _ held] by (force simp: same_call_def)
  next
    case (Fill_done l)
    then show ?thesis using n by simp
  qed
qed

lemma steps_left_update:
  assumes "i < length js" "Suc (job_rank (fj_pc j)) = job_rank (fj_pc (js ! i))"
  shows "Suc (steps_left (js[i := j])) = steps_left js"
proof -
  have "job_rank (fj_pc (js ! i)) \<le> steps_left js"
    using elem_le_sum_list [of i "map (\<lambda>j. job_rank (fj_pc j)) js"] assms(1) by (simp add: steps_left_def)
  then show ?thesis
    using sum_list_update [of i "map (\<lambda>j. job_rank (fj_pc j)) js" "job_rank (fj_pc j)"] assms
    by (simp add: steps_left_def map_update)
qed

lemma step_enabled:
  assumes "fill_step s held j = Inr (Some r)"
  shows "\<not> job_done (fj_pc j)" "\<not> waits held j"
  using assms by (auto simp: fill_step_def waits_def mutex_lock_def bug_on_def Let_def split: if_splits fill_pc.splits)

lemma fills_step_keeps:
  assumes "fills_step (s, held, js) (s', held', js')" "fills_inv s0 s js" "lock_ok held js"
  shows "fills_inv s0 s' js' \<and> lock_ok held' js' \<and> Suc (steps_left js') = steps_left js \<and> list_all2 same_call js js'"
  using assms(1)
proof (rule fills_stepE)
  fix i j assume e: "js' = js[i := j]" and i: "i < length js" and f: "fill_step s held (js ! i) = Inr (Some (s', held', j))"
  from one_step [OF assms(2,3) i step_enabled [OF f]] f
  have "fills_inv s0 s' (js[i := j])" "lock_ok held' (js[i := j])" "same_call (js ! i) j"
    "Suc (job_rank (fj_pc j)) = job_rank (fj_pc (js ! i))" by auto
  then show ?thesis using steps_left_update [OF i] e i
    by (auto simp: list_all2_conv_all_nth nth_list_update)
qed

lemma fills_steps_keep:
  assumes "fills_step\<^sup>*\<^sup>* (s, held, js) (t, held', ks)" "fills_inv s0 s js" "lock_ok held js"
  shows "fills_inv s0 t ks \<and> lock_ok held' ks \<and> list_all2 same_call js ks"
  using assms(1)
proof (induction "(t, held', ks)" arbitrary: t held' ks rule: rtranclp_induct)
  case (step y)
  obtain u h ls where y: "y = (u, h, ls)" by (cases y)
  have "fills_inv s0 u ls" "lock_ok h ls" "list_all2 same_call js ls" using step(3) y by simp_all
  moreover have "fills_inv s0 t ks \<and> lock_ok held' ks \<and> list_all2 same_call ls ks"
    using fills_step_keeps [OF _ calculation(1,2)] step(2) y by simp
  ultimately show ?case using list_all2_trans [of same_call same_call same_call js ls ks] same_call_trans by blast
qed (use assms(2,3) in \<open>simp add: list_all2_refl\<close>)

lemma all_done_lock:
  assumes "lock_ok held js" "\<forall>k < length js. job_done (fj_pc (js ! k))"
  shows "\<not> held"
proof -
  have "\<not> in_crit (fj_pc (js ! k))" if "k < length js" for k using assms(2) that by (cases "fj_pc (js ! k)") force+
  then show ?thesis using assms(1) by (auto simp: lock_ok_def)
qed

lemma fill_jobs_lock: "lock_ok False (fill_jobs xs)"
  by (simp add: lock_ok_def fill_jobs_def fill_job_def split_def)

lemma step_or_wait:
  assumes I: "fills_inv s0 s js" and L: "lock_ok held js" and i: "i < length js" "\<not> job_done (fj_pc (js ! i))"
  shows "(\<exists>r. fill_step s held (js ! i) = Inr (Some r)) \<or>
    held \<and> fj_pc (js ! i) = Fill_alloc \<and> fill_step s held (js ! i) = Inr None \<and>
      (\<exists>k < length js. in_crit (fj_pc (js ! k)) \<and> (\<exists>r. fill_step s held (js ! k) = Inr (Some r)))"
proof (cases "waits held (js ! i)")
  case True
  then obtain k where k: "k < length js" "in_crit (fj_pc (js ! k))" using L by (auto simp: waits_def lock_ok_def)
  then have "\<not> job_done (fj_pc (js ! k))" "\<not> waits held (js ! k)" by (cases "fj_pc (js ! k)"; simp add: waits_def)+
  then have "\<exists>r. fill_step s held (js ! k) = Inr (Some r)" using one_step [OF I L k(1)] by blast
  moreover have "fill_step s held (js ! i) = Inr None"
    using True fills_invD(4) [OF I i(1)] by (simp add: waits_def fill_step_def mutex_lock_def bug_on_def job_ok_def)
  ultimately show ?thesis using True k by (auto simp: waits_def)
next
  case False
  from one_step [OF I L i False] show ?thesis by blast
qed

text \<open>The holder of the mutex never waits: some call can always go on.\<close>

lemma some_step:
  assumes I: "fills_inv s0 s js" and L: "lock_ok held js" and i: "i < length js" "\<not> job_done (fj_pc (js ! i))"
  shows "\<exists>k < length js. \<exists>r. fill_step s held (js ! k) = Inr (Some r)"
  using step_or_wait [OF I L i] i(1) by blast

lemma infinite_descent_run: "\<exists>n. \<not> (f (Suc n) :: nat) < f n"
proof (rule ccontr)
  assume "\<not> ?thesis"
  then have d: "f (Suc n) < f n" for n by blast
  have "f n + n \<le> f 0" for n
  proof (induction n)
    case (Suc n)
    then show ?case using d [of n] by simp
  qed simp
  from this [of "Suc (f 0)"] show False by simp
qed

lemma fills_run_all:
  assumes "fills_inv s0 s js" "lock_ok held js"
  shows "\<exists>t ks. fills_step\<^sup>*\<^sup>* (s, held, js) (t, False, ks) \<and> (\<forall>k < length ks. job_done (fj_pc (ks ! k)))"
  using assms
proof (induction "steps_left js" arbitrary: s held js rule: less_induct)
  case less
  show ?case
  proof (cases "\<forall>k < length js. job_done (fj_pc (js ! k))")
    case True
    then have "\<not> held" using all_done_lock [OF less(3)] by blast
    then show ?thesis using True by (intro exI [of _ s] exI [of _ js]) simp
  next
    case False
    then obtain i r where i: "i < length js" "fill_step s held (js ! i) = Inr (Some r)" using some_step [OF less(2,3)] by blast
    obtain s' h j where f: "fill_step s held (js ! i) = Inr (Some (s', h, j))" using i(2) by (cases r) simp
    have st: "fills_step (s, held, js) (s', h, js[i := j])" by (rule fills_step.step [OF i(1) f])
    note K = fills_step_keeps [OF st less(2,3)]
    then have "steps_left (js[i := j]) < steps_left js" by simp
    from less(1) [OF this] K obtain t ks where "fills_step\<^sup>*\<^sup>* (s', h, js[i := j]) (t, False, ks)"
      "\<forall>k < length ks. job_done (fj_pc (ks ! k))" by blast
    then show ?thesis using converse_rtranclp_into_rtranclp [where r = fills_step, OF st] by blast
  qed
qed

text \<open>One call can run to its end while the others stay where they are, unless one of them holds the mutex.\<close>

lemma run_schedule_append:
  "run_schedule s held js (is @ is') = bindE (run_schedule s held js is) (\<lambda>(t, h, ks). run_schedule t h ks is')"
proof (induction s held js "is" rule: run_schedule.induct)
  case (2 s held js i "is")
  then show ?case by (cases "fill_step s held (js ! i)") (auto split: option.split)
qed simp

lemma finish_job:
  assumes "fills_inv s0 s js" "lock_ok held js" "i < length js" "\<forall>k < length js. k \<noteq> i \<longrightarrow> \<not> in_crit (fj_pc (js ! k))"
  shows "\<exists>t j v. run_schedule s held js (replicate (job_rank (fj_pc (js ! i))) i) = Inr (t, False, js[i := j]) \<and>
    fills_inv s0 t (js[i := j]) \<and> same_call (js ! i) j \<and> job_done (fj_pc j) \<and> disk_brk s0 s t v \<and>
    (job_rank (fj_pc (js ! i)) < 5 \<longrightarrow> v = fnum (fs_sb s0) (fs_bufs s) (esb_addr s0) 8)"
  using assms
proof (induction "job_rank (fj_pc (js ! i))" arbitrary: s held js)
  case 0
  then have d: "job_done (fj_pc (js ! i))" using job_rank_zero by metis
  then have "\<not> in_crit (fj_pc (js ! i))" by (cases "fj_pc (js ! i)") simp_all
  then have "\<not> held" using 0(3,5) by (auto simp: lock_ok_def)
  moreover have "disk_brk s0 s s (fnum (fs_sb s0) (fs_bufs s) (esb_addr s0) 8)" by simp
  ultimately show ?case using 0(2) d unfolding 0(1) [symmetric]
    by (intro exI [of _ s] exI [of _ "js ! i"] exI [of _ "fnum (fs_sb s0) (fs_bufs s) (esb_addr s0) 8"]) simp
next
  case (Suc r)
  have n: "\<not> job_done (fj_pc (js ! i))" using Suc(2) job_rank_zero [of "fj_pc (js ! i)"] by simp
  have w: "\<not> waits held (js ! i)"
  proof
    assume "waits held (js ! i)"
    then obtain k where "k < length js" "in_crit (fj_pc (js ! k))" "fj_pc (js ! i) = Fill_alloc"
      using Suc(4) by (auto simp: waits_def lock_ok_def)
    then show False using Suc(6) by (cases "k = i") simp_all
  qed
  let ?v = "case fj_pc (js ! i) of Fill_save_brk l brk \<Rightarrow> brk mod 2 ^ 64 | _ \<Rightarrow> fnum (fs_sb s0) (fs_bufs s) (esb_addr s0) 8"
  from one_step [OF Suc(3-5) n w] obtain s' h j' where f: "fill_step s held (js ! i) = Inr (Some (s', h, j'))"
    and I: "fills_inv s0 s' (js[i := j'])" "lock_ok h (js[i := j'])" and c: "same_call (js ! i) j'"
    and r: "Suc (job_rank (fj_pc j')) = job_rank (fj_pc (js ! i))" and v: "disk_brk s0 s s' ?v" by blast
  have j': "js[i := j'] ! i = j'" "i < length (js[i := j'])" using Suc(5) by simp_all
  have o: "\<forall>k < length (js[i := j']). k \<noteq> i \<longrightarrow> \<not> in_crit (fj_pc (js[i := j'] ! k))" using Suc(6) by simp
  have "r = job_rank (fj_pc (js[i := j'] ! i))" using r Suc(2) j'(1) by simp
  from Suc(1) [OF this I j'(2) o, unfolded j'(1)] obtain t j w where
    g: "run_schedule s' h (js[i := j']) (replicate (job_rank (fj_pc j')) i) = Inr (t, False, js[i := j])"
      "fills_inv s0 t (js[i := j])" "same_call j' j" "job_done (fj_pc j)" "disk_brk s0 s' t w"
    and w: "job_rank (fj_pc j') < 5 \<longrightarrow> w = fnum (fs_sb s0) (fs_bufs s') (esb_addr s0) 8" by auto
  have "run_schedule s held js (replicate (job_rank (fj_pc (js ! i))) i) = Inr (t, False, js[i := j])"
    using g(1) f Suc(5) unfolding r [symmetric] by simp
  moreover have "job_rank (fj_pc (js ! i)) < 5 \<Longrightarrow> w = fnum (fs_sb s0) (fs_bufs s) (esb_addr s0) 8"
    using w v r by (cases "fj_pc (js ! i)") (simp_all add: disk_brk_def)
  ultimately show ?case using g(2,4) same_call_trans [OF c g(3)] disk_brk_trans [OF v g(5)] by blast
qed

text \<open>A call that takes the mutex, allocates and releases the mutex without an interruption.\<close>

lemma alloc_run:
  assumes I: "fills_inv s0 s js" and L: "lock_ok False js" and i: "i < length js" and pc: "fj_pc (js ! i) = Fill_alloc"
  defines "new \<equiv> next_head (fs_sb s0) (heap_brk (fs_info s))"
  defines "j \<equiv> (js ! i)\<lparr>fj_pc := Fill_read_brk new\<rparr>"
  shows "\<exists>s'. run_schedule s False js (replicate 4 i) = Inr (s', False, js[i := j]) \<and> fills_inv s0 s' (js[i := j]) \<and>
    lock_ok False (js[i := j]) \<and> fs_bufs s' = fs_bufs s"
proof -
  let ?s = "s\<lparr>fs_info := (fs_info s)\<lparr>heap_brk := new + job_size (js ! i)\<rparr>\<rparr>"
  let ?u = "\<lambda>pc. js[i := (js ! i)\<lparr>fj_pc := pc\<rparr>]"
  have nth: "i < length (?u pc)" "?u pc ! i = (js ! i)\<lparr>fj_pc := pc\<rparr>" for pc using i by simp_all
  note s1 = lock_step_keeps [OF I i pc L]
  have pc1: "fj_pc (?u Fill_align ! i) = Fill_align" unfolding nth(2) by simp
  note s2 = align_step_keeps [OF s1(2) nth(1) pc1, folded new_def, unfolded nth(2), simplified]
  have pc2: "fj_pc (?u (Fill_bump new) ! i) = Fill_bump new" unfolding nth(2) by simp
  note s3 = bump_step_keeps [OF s2(2) nth(1) pc2, unfolded nth(2), simplified]
  have pc3: "fj_pc (?u (Fill_unlock new) ! i) = Fill_unlock new" unfolding nth(2) by simp
  note s4 = unlock_step_keeps [OF s3(2) nth(1) pc3, unfolded nth(2), simplified]
  have "run_schedule s False js (replicate 4 i) = Inr (?s, False, js[i := j])"
    using s1(1) s2(1) s3(1) s4(1) i by (simp add: numeral_eq_Suc j_def job_size_def)
  moreover have "lock_ok False (js[i := j])"
    by (rule lock_ok_update [OF L fills_invD(12) [OF I] i]) (use pc in \<open>simp add: j_def\<close>)
  ultimately show ?thesis using s4(2) by (intro exI [of _ ?s]) (simp add: j_def job_size_def)
qed

section \<open>When all calls have returned\<close>

lemma old_chunk:
  assumes I: "fills_inv s0 t ks" and c: "chunk_wf s0 c"
  shows "chunk_hash_at (fs_sb t) (fs_bufs t) c = chunk_hash_at (fs_sb s0) (fs_bufs s0) c"
    and "chunk_len_at (fs_sb t) (fs_bufs t) c = chunk_len_at (fs_sb s0) (fs_bufs s0) c"
    and "chunk_next_at (fs_sb t) (fs_bufs t) c = chunk_next_at (fs_sb s0) (fs_bufs s0) c"
    and "load_bytes (fs_sb t) (fs_bufs t) (c + sizeof_chunk_head) (chunk_len_at (fs_sb s0) (fs_bufs s0) c) =
      load_bytes (fs_sb s0) (fs_bufs s0) (c + sizeof_chunk_head) (chunk_len_at (fs_sb s0) (fs_bufs s0) c)"
    and "chunk_wf t c"
proof -
  note F = fills_invD [OF I] and V = same_volumeD [OF fills_invD(1,2) [OF I]]
  have b: "byte_at (fs_sb s0) (fs_bufs t) a = byte_at (fs_sb s0) (fs_bufs s0) a"
    if "c \<le> a" "a < c + sizeof_chunk_head + chunk_len_at (fs_sb s0) (fs_bufs s0) c" for a
    using F(10) c that by (simp add: old_bytes_def chunk_wf_def)
  show "chunk_hash_at (fs_sb t) (fs_bufs t) c = chunk_hash_at (fs_sb s0) (fs_bufs s0) c"
    and "chunk_next_at (fs_sb t) (fs_bufs t) c = chunk_next_at (fs_sb s0) (fs_bufs s0) c"
    and len: "chunk_len_at (fs_sb t) (fs_bufs t) c = chunk_len_at (fs_sb s0) (fs_bufs s0) c"
    unfolding chunk_hash_at_def chunk_len_at_def chunk_next_at_def V(1)
    by (rule fnum_cong, rule b, simp_all add: sizeof_chunk_head_def chunk_len_at_def)+
  show "load_bytes (fs_sb t) (fs_bufs t) (c + sizeof_chunk_head) (chunk_len_at (fs_sb s0) (fs_bufs s0) c) =
      load_bytes (fs_sb s0) (fs_bufs s0) (c + sizeof_chunk_head) (chunk_len_at (fs_sb s0) (fs_bufs s0) c)"
    unfolding V(1) by (rule load_bytes_cong, rule b) simp_all
  show "chunk_wf t c" using c len V by (simp add: chunk_wf_def heap_base_def)
qed

lemma done_job:
  assumes I: "fills_inv s0 t ks" and k: "k < length ks" and d: "fj_pc (ks ! k) = Fill_done l"
  shows "chunk_hash_at (fs_sb t) (fs_bufs t) l = ck_hash (fj_chunk (ks ! k))"
    and "chunk_len_at (fs_sb t) (fs_bufs t) l = length (fj_data (ks ! k))"
    and "chunk_next_at (fs_sb t) (fs_bufs t) l = ck_next (fj_chunk (ks ! k))"
    and "load_bytes (fs_sb t) (fs_bufs t) (l + sizeof_chunk_head) (length (fj_data (ks ! k))) = fj_data (ks ! k)"
    and "chunk_wf t l"
proof -
  note F = fills_invD [OF I] and V = same_volumeD [OF fills_invD(1,2) [OF I]]
  have l: "job_loc (fj_pc (ks ! k)) = Some l" using d by simp
  have w: "load_bytes (fs_sb t) (fs_bufs t) l sizeof_chunk_head = chunk_bytes (fj_chunk (ks ! k))"
    and dt: "load_bytes (fs_sb t) (fs_bufs t) (l + sizeof_chunk_head) (length (fj_data (ks ! k))) = fj_data (ks ! k)"
    using F(7) [OF k] d V(1) by (simp_all add: job_written_def)
  have ok: "ck_hash (fj_chunk (ks ! k)) < 2 ^ 64" "ck_next (fj_chunk (ks ! k)) < 2 ^ 64"
    "ck_length (fj_chunk (ks ! k)) = length (fj_data (ks ! k))" using F(4) [OF k] by (simp_all add: job_ok_def)
  note C = chunk_bytes_fields [OF w]
  show "chunk_hash_at (fs_sb t) (fs_bufs t) l = ck_hash (fj_chunk (ks ! k))"
    and "chunk_next_at (fs_sb t) (fs_bufs t) l = ck_next (fj_chunk (ks ! k))" using C ok by simp_all
  show len: "chunk_len_at (fs_sb t) (fs_bufs t) l = length (fj_data (ks ! k))"
    using C(2) ok(3) job_region(3) [OF I k l] by (simp add: job_size_def)
  show "load_bytes (fs_sb t) (fs_bufs t) (l + sizeof_chunk_head) (length (fj_data (ks ! k))) = fj_data (ks ! k)" by (rule dt)
  show "chunk_wf t l"
    using F(5) [OF k] l V job_region(2) [OF I k l] len by (simp add: chunk_wf_def region_ok_def job_size_def heap_base_def)
qed

lemma leads_chain:
  assumes I: "fills_inv s0 t ks" and d: "\<And>k. k < length ks \<Longrightarrow> job_done (fj_pc (ks ! k))"
    and l: "leads s0 ks i q p"
    and q: "chain (fs_sb t) (fs_bufs t) q cs" "\<forall>c \<in> set cs. chunk_wf t c \<and> chunk_hash_at (fs_sb t) (fs_bufs t) c mod buckets s0 = i"
  shows "\<exists>ds. chain (fs_sb t) (fs_bufs t) p ds \<and> set cs \<subseteq> set ds \<and>
    (\<forall>c \<in> set ds. chunk_wf t c \<and> chunk_hash_at (fs_sb t) (fs_bufs t) c mod buckets s0 = i)"
  using l
proof induction
  case here
  then show ?case using q by blast
next
  case (next_job k l)
  then obtain ds where ds: "chain (fs_sb t) (fs_bufs t) (ck_next (fj_chunk (ks ! k))) ds" "set cs \<subseteq> set ds"
      "\<forall>c \<in> set ds. chunk_wf t c \<and> chunk_hash_at (fs_sb t) (fs_bufs t) c mod buckets s0 = i" by blast
  have pc: "fj_pc (ks ! k) = Fill_done l" using d [OF next_job(1)] next_job(4) by (cases "fj_pc (ks ! k)") simp_all
  note D = done_job [OF I next_job(1) pc]
  have "0 < l" using job_region(1) [OF I next_job(1,4)] by simp
  then show ?case using ds D next_job(3) by (intro exI [of _ "l # ds"]) (auto simp: job_bucket_def)
qed

lemma all_done:
  assumes I: "fills_inv s0 t ks" and d: "\<And>k. k < length ks \<Longrightarrow> job_done (fj_pc (ks ! k))"
  shows "heap_wf t" and "chunk_holds s0 l h x \<Longrightarrow> chunk_holds t l h x"
proof -
  note F = fills_invD [OF I] and V = same_volumeD [OF fills_invD(1,2) [OF I]]
  have B: "buckets t = buckets s0" "heap_base t = heap_base s0" "entry_addr t = entry_addr s0"
    by (simp_all add: buckets_def heap_base_def entry_addr_def V fun_eq_iff)
  have new: "\<exists>ds. bucket t i ds \<and> set cs \<subseteq> set ds \<and>
      (\<forall>c \<in> set ds. chunk_wf t c \<and> chunk_hash_at (fs_sb t) (fs_bufs t) c mod buckets s0 = i)"
    if i: "i < buckets s0" and cs: "bucket s0 i cs"
      "\<forall>c \<in> set cs. chunk_wf s0 c \<and> chunk_hash_at (fs_sb s0) (fs_bufs s0) c mod buckets s0 = i" for i cs
  proof -
    have "chain (fs_sb t) (fs_bufs t) (table_value s0 s0 i) cs"
      using cs old_chunk(3) [OF I] V(1) chain_cong [of cs "fs_sb s0" "fs_bufs t" "fs_bufs s0"]
      by (simp add: bucket_def table_value_def)
    moreover have "\<forall>c \<in> set cs. chunk_wf t c \<and> chunk_hash_at (fs_sb t) (fs_bufs t) c mod buckets s0 = i"
      using cs(2) old_chunk(1,5) [OF I] by simp
    moreover have "leads s0 ks i (table_value s0 s0 i) (table_value s0 t i)" using F(9) i by (simp add: chains_ok_def)
    ultimately show ?thesis using leads_chain [OF I d] V(1) by (simp add: bucket_def table_value_def B)
  qed
  have "\<exists>ds. bucket t i ds \<and> (\<forall>c \<in> set ds. chunk_wf t c \<and> chunk_hash_at (fs_sb t) (fs_bufs t) c mod buckets s0 = i)"
    if i: "i < buckets s0" for i
    using F(1) i new unfolding heap_wf_def by blast
  moreover have "heap_base s0 \<le> heap_brk (fs_info t)" "heap_brk (fs_info t) \<le> max_brk (fs_info t)"
    using F(1,3) V(6,8) by (simp_all add: heap_wf_def)
  ultimately show "heap_wf t" using V(7) by (simp add: heap_wf_def B)
  show "chunk_holds t l h x" if c: "chunk_holds s0 l h x"
  proof -
    let ?i = "h mod buckets s0"
    from c have "stored s0 l" "chunk_hash_at (fs_sb s0) (fs_bufs s0) l = h" by (simp_all add: chunk_holds_def)
    with stored_bucket [OF F(1)] obtain cs where cs: "bucket s0 ?i cs" "l \<in> set cs" "chunk_wf s0 l" by blast
    have i: "?i < buckets s0" using F(1) geometry_okD(4) by (simp add: heap_wf_def)
    then obtain cs' where cs': "bucket s0 ?i cs'" "\<forall>c \<in> set cs'. chunk_wf s0 c \<and> chunk_hash_at (fs_sb s0) (fs_bufs s0) c mod buckets s0 = ?i"
      using F(1) unfolding heap_wf_def by blast
    have "cs' = cs" using cs'(1) cs(1) unfolding bucket_def by (rule chain_unique)
    then have "stored t l" using new [OF i cs'] cs(2) i unfolding stored_def B by blast
    then show ?thesis using c old_chunk [OF I cs(3)] by (simp add: chunk_holds_def)
  qed
qed

end
