(* ===== verification/RaceProperties.thy ===== *)
theory RaceProperties
  imports Interleave Mount FileSpec SampleVolume
begin

text \<open>
  The properties of chunk_handler.c under concurrent callers, each with an instance on the sample
  volume: what every interleaving keeps, and what some interleavings break.
\<close>

section \<open>Every interleaving\<close>

lemma fill_jobs_nth:
  assumes "k < length xs"
  shows "fj_data (fill_jobs xs ! k) = snd (xs ! k)" "ck_hash (fj_chunk (fill_jobs xs ! k)) = ck_hash (fst (xs ! k))"
    and "fj_pc (fill_jobs xs ! k) = Fill_alloc"
  using assms by (simp_all add: fill_jobs_def fill_job_def split_def)

lemma fill_jobs_length [simp]: "length (fill_jobs xs) = length xs"
  by (simp add: fill_jobs_def)

text \<open>C11: calls of \<open>chunk_fill_hashtable\<close> whose steps interleave in any order do not disturb each other's
  chunks: when all have returned, the mutex is free, the table and the heap are well-formed, every chunk
  that was stored before is still stored, and each call's chunk lies at a place of its own and reads back
  as written.\<close>

theorem concurrent_fills_safe:
  assumes "fills_ready s xs" and "fills_step\<^sup>*\<^sup>* (s, False, fill_jobs xs) (t, held, ks)"
    and "\<forall>k < length ks. job_done (fj_pc (ks ! k))"
  shows "\<not> held \<and> heap_wf t \<and> (\<forall>l h x. chunk_holds s l h x \<longrightarrow> chunk_holds t l h x) \<and>
    (\<exists>loc. inj_on loc {..<length xs} \<and> (\<forall>k < length xs. fj_pc (ks ! k) = Fill_done (loc k) \<and>
      (\<forall>cnt pos. chunk_copy_into_buffer (fs_sb t) (fs_bufs t) \<lparr>ce_location = loc k, ce_size = length (snd (xs ! k))\<rparr> cnt cnt pos =
        Inr (take cnt (drop pos (snd (xs ! k)))))))"
proof -
  from fills_steps_keep [OF assms(2) fills_inv_start [OF assms(1)] fill_jobs_lock]
  have I: "fills_inv s t ks" and lk: "lock_ok held ks" and c: "list_all2 same_call (fill_jobs xs) ks" by simp_all
  have nh: "\<not> held" using all_done_lock [OF lk] assms(3) by blast
  have len: "length ks = length xs" using list_all2_lengthD [OF c] by simp
  note F = fills_invD [OF I] and V = same_volumeD [OF fills_invD(1,2) [OF I]]
  have call: "fj_data (ks ! k) = snd (xs ! k)" if "k < length xs" for k
    using c that fill_jobs_nth(1) [OF that] by (auto simp: list_all2_conv_all_nth same_call_def)
  define loc where "loc k = the (job_loc (fj_pc (ks ! k)))" for k
  have pc: "fj_pc (ks ! k) = Fill_done (loc k)" if "k < length xs" for k
    using assms(3) that len unfolding loc_def by (cases "fj_pc (ks ! k)") force+
  have "inj_on loc {..<length xs}"
  proof (rule inj_onI, rule ccontr)
    fix i k assume ik: "i \<in> {..<length xs}" "k \<in> {..<length xs}" "loc i = loc k" "i \<noteq> k"
    then have "apart (ks ! i) (ks ! k)" using F(8) len by simp
    then show False using pc [of i] pc [of k] ik by (simp add: apart_def job_size_def sizeof_chunk_head_def)
  qed
  moreover have "chunk_copy_into_buffer (fs_sb t) (fs_bufs t) \<lparr>ce_location = loc k, ce_size = length (snd (xs ! k))\<rparr> cnt cnt pos =
      Inr (take cnt (drop pos (snd (xs ! k))))" if k: "k < length xs" for k cnt pos
  proof (rule copy_region_spec [OF V(7)])
    have k': "k < length ks" using k len by simp
    show "load_bytes (fs_sb t) (fs_bufs t) (loc k + sizeof_chunk_head) (length (snd (xs ! k))) = snd (xs ! k)"
      using done_job(4) [OF I k' pc [OF k]] call [OF k] by simp
    show "loc k + sizeof_chunk_head + length (snd (xs ! k)) \<le> max_brk (fs_info t)"
      using F(3) F(5) [OF k'] pc [OF k] call [OF k] V(6) by (simp add: region_ok_def job_size_def)
  qed simp
  ultimately show ?thesis using all_done [OF I] assms(3) pc nh by (intro conjI exI [of _ loc]) auto
qed

text \<open>C12: no interleaving ends in a deadlock and none runs for ever. In every state that can be reached, a
  call that has not returned can take its next step without an error, unless it waits for the mutex, which
  then another call holds that is able to go on; when no call can go on, all have returned and the mutex is
  free; and there is no infinite run.\<close>

theorem fills_finish:
  assumes "fills_ready s xs"
  shows "(\<forall>t held ks. fills_step\<^sup>*\<^sup>* (s, False, fill_jobs xs) (t, held, ks) \<longrightarrow>
      (\<forall>k < length ks. \<not> job_done (fj_pc (ks ! k)) \<longrightarrow>
        (\<exists>r. fill_step t held (ks ! k) = Inr (Some r)) \<or>
        held \<and> fj_pc (ks ! k) = Fill_alloc \<and> fill_step t held (ks ! k) = Inr None \<and>
          (\<exists>i < length ks. in_crit (fj_pc (ks ! i)) \<and> (\<exists>r. fill_step t held (ks ! i) = Inr (Some r)))) \<and>
      ((\<nexists>c. fills_step (t, held, ks) c) \<longrightarrow> \<not> held \<and> (\<forall>k < length ks. job_done (fj_pc (ks ! k))))) \<and>
    (\<nexists>run. run 0 = (s, False, fill_jobs xs) \<and> (\<forall>n. fills_step (run n) (run (Suc n))))"
proof (intro conjI allI impI notI)
  note keep = fills_steps_keep [OF _ fills_inv_start [OF assms] fill_jobs_lock]
  { fix t held ks assume "fills_step\<^sup>*\<^sup>* (s, False, fill_jobs xs) (t, held, ks)"
    from keep [OF this] have I: "fills_inv s t ks" and L: "lock_ok held ks" by simp_all
    show "(\<exists>r. fill_step t held (ks ! k) = Inr (Some r)) \<or>
        held \<and> fj_pc (ks ! k) = Fill_alloc \<and> fill_step t held (ks ! k) = Inr None \<and>
          (\<exists>i < length ks. in_crit (fj_pc (ks ! i)) \<and> (\<exists>r. fill_step t held (ks ! i) = Inr (Some r)))"
      if k: "k < length ks" "\<not> job_done (fj_pc (ks ! k))" for k
      using step_or_wait [OF I L k] .
    assume stuck: "\<nexists>c. fills_step (t, held, ks) c"
    show d: "job_done (fj_pc (ks ! k))" if k: "k < length ks" for k
    proof (rule ccontr)
      assume "\<not> ?thesis"
      from some_step [OF I L k this] show False using stuck fills_step.step by (metis prod_cases3)
    qed
    show "held \<Longrightarrow> False" using all_done_lock [OF L] d by blast }
  assume "\<exists>run. run 0 = (s, False, fill_jobs xs) \<and> (\<forall>n. fills_step (run n) (run (Suc n)))"
  then obtain run where run: "run 0 = (s, False, fill_jobs xs) \<and> (\<forall>n. fills_step (run n) (run (Suc n)))" ..
  have "fills_step\<^sup>*\<^sup>* (run 0) (run n)" for n
    by (induction n) (use run in \<open>auto intro: rtranclp.rtrancl_into_rtrancl\<close>)
  then have "steps_left (snd (snd (run (Suc n)))) < steps_left (snd (snd (run n)))" for n
    using keep [of "fst (run n)" "fst (snd (run n))" "snd (snd (run n))"] fills_step_keeps run
    by (metis lessI prod.collapse)
  then show False using infinite_descent_run [of "\<lambda>n. steps_left (snd (snd (run n)))"] by blast
qed

section \<open>What interleavings break\<close>

lemma disk_brk_esb:
  assumes h: "heap_wf s0" and v: "same_volume s0 t" and d: "disk_brk s0 s0 t b" and e: "esb_agrees s0"
    and x: "extra_sb_location (fs_info s0) \<noteq> 0"
  shows "cminix_fill_extra_super t = Inr (t\<lparr>fs_info := (fs_info t)\<lparr>heap_brk := b\<rparr>\<rparr>)"
proof -
  note V = same_volumeD [OF h v]
  let ?x = "extra_sb_location (fs_info s0)" and ?sb = "fs_sb s0" and ?k = "s_blocksize (fs_sb s0)"
  have g: "geometry_ok s0" using h by (simp add: heap_wf_def)
  have k: "24 \<le> ?k" using geometry_blocksize(1) [OF g] by simp
  have n: "num_at bc ?x off m = fnum ?sb bc (?x * ?k + off) m" if "off + m \<le> 24" "0 < m" for bc off m
    using num_at_fnum [of "?x * ?k + off" ?sb m bc] that k by simp
  have "Suc ?x * ?k \<le> hashtable (fs_info s0)" by (rule geometry_okD(7) [OF g])
  then have low: "?x * ?k + 24 \<le> hashtable (fs_info s0)" using k by simp
  have same: "fnum ?sb (fs_bufs t) (?x * ?k + off) m = fnum ?sb (fs_bufs s0) (?x * ?k + off) m" if "off + m \<le> 16" for off m
    using d that low by (intro fnum_cong) (simp add: disk_brk_def esb_addr_def)
  have "fnum ?sb (fs_bufs t) (?x * ?k + 16) 8 = b" using d by (simp add: disk_brk_def esb_addr_def)
  then have esb: "esb_at (fs_bufs t) ?x = \<lparr>esb_hashtable_location = hashtable (fs_info s0),
      esb_hashtable_size = hashtable_size (fs_info s0), esb_heap_brk = b\<rparr>"
    using e n [of 0 8 "fs_bufs t"] n [of 8 4 "fs_bufs t"] n [of 16 8 "fs_bufs t"]
      n [of 0 8 "fs_bufs s0"] n [of 8 4 "fs_bufs s0"] same [of 0 8] same [of 8 4]
    by (simp add: esb_agrees_def esb_at_def)
  have "?x * ?k < max_brk (fs_info s0)" using low h k by (simp add: heap_wf_def heap_base_def)
  then have r: "breadable (fs_bufs t) ?x" using geometry_okD(9) [OF g] V(2) by simp
  have "(fs_info t)\<lparr>hashtable := hashtable (fs_info s0), hashtable_size := hashtable_size (fs_info s0), heap_brk := b\<rparr> =
      (fs_info t)\<lparr>heap_brk := b\<rparr>" using V(3,4) by (cases "fs_info t") simp
  then show ?thesis
    using x r V(3-5) esb geometry_okD(1) [OF V(7)] by (simp add: cminix_fill_extra_super_def load_block_def sb_bread_def Let_def)
qed

text \<open>The second call runs between the first one's reading of the break and its saving of it.\<close>

lemma late_save_run:
  assumes r: "fills_ready s [(m, d), (m', d')]"
  shows "\<exists>t k0 k1 b. run_schedule s False (fill_jobs [(m, d), (m', d')]) (replicate 5 0 @ replicate 10 1 @ replicate 5 0) =
      Inr (t, False, [k0, k1]) \<and>
    fills_inv s t [k0, k1] \<and> job_done (fj_pc k0) \<and> fj_pc k1 = Fill_done (next_head (fs_sb s) b) \<and> disk_brk s s t b \<and>
    heap_brk (fs_info s) \<le> b \<and> b + (2 * sizeof_chunk_head + length d') < max_brk (fs_info s)"
proof -
  let ?js = "fill_jobs [(m, d), (m', d')]"
  have js: "?js = [fill_job m d, fill_job m' d']" by (simp add: fill_jobs_def)
  have I: "fills_inv s s [fill_job m d, fill_job m' d']" using fills_inv_start [OF r] unfolding js .
  have L: "lock_ok False [fill_job m d, fill_job m' d']" using fill_jobs_lock [of "[(m, d), (m', d')]"] unfolding js .
  obtain l0 where l0: "l0 = next_head (fs_sb s) (heap_brk (fs_info s))" by blast
  obtain s1 where f1: "run_schedule s False [fill_job m d, fill_job m' d'] (replicate 4 0) =
      Inr (s1, False, [(fill_job m d)\<lparr>fj_pc := Fill_read_brk l0\<rparr>, fill_job m' d'])"
    and I1: "fills_inv s s1 [(fill_job m d)\<lparr>fj_pc := Fill_read_brk l0\<rparr>, fill_job m' d']"
    and L1: "lock_ok False [(fill_job m d)\<lparr>fj_pc := Fill_read_brk l0\<rparr>, fill_job m' d']" and b1: "fs_bufs s1 = fs_bufs s"
    using alloc_run [OF I L, of 0] by (auto simp: fill_job_def l0)
  define b where "b = heap_brk (fs_info s1)"
  define j0 where "j0 = (fill_job m d)\<lparr>fj_pc := Fill_save_brk l0 b\<rparr>"
  have f2: "fill_step s1 False ((fill_job m d)\<lparr>fj_pc := Fill_read_brk l0\<rparr>) = Inr (Some (s1, False, j0))"
    and I2: "fills_inv s s1 [j0, fill_job m' d']"
    using read_brk_step_keeps [OF I1, of 0 l0] by (simp_all add: j0_def b_def)
  have L2: "lock_ok False [j0, fill_job m' d']"
    using lock_ok_update [OF L1 fills_invD(12) [OF I1], of 0 j0 False] by (simp add: j0_def)
  define l where "l = next_head (fs_sb s) b"
  define j1 where "j1 = (fill_job m' d')\<lparr>fj_pc := Fill_read_brk l\<rparr>"
  obtain s2 where f3: "run_schedule s1 False [j0, fill_job m' d'] (replicate 4 1) = Inr (s2, False, [j0, j1])"
    and I3: "fills_inv s s2 [j0, j1]" and L3: "lock_ok False [j0, j1]" and b2: "fs_bufs s2 = fs_bufs s1"
    using alloc_run [OF I2 L2, of 1] by (auto simp: fill_job_def l_def b_def j1_def)
  have nc: "\<not> in_crit (fj_pc j0)" "\<not> in_crit (fj_pc j1)" by (simp_all add: j0_def j1_def)
  have "\<forall>k < length [j0, j1]. k \<noteq> 1 \<longrightarrow> \<not> in_crit (fj_pc ([j0, j1] ! k))" using nc by (auto simp: less_Suc_eq)
  from finish_job [OF I3 L3 _ this] obtain s3 k1 v where f4: "run_schedule s2 False [j0, j1] (replicate 6 1) = Inr (s3, False, [j0, k1])"
    and I4: "fills_inv s s3 [j0, k1]" and c1: "same_call j1 k1" "job_done (fj_pc k1)" and v3: "disk_brk s s2 s3 v"
    by (auto simp: j1_def)
  have k1: "fj_pc k1 = Fill_done l" using c1 by (cases "fj_pc k1") (simp_all add: j1_def same_call_def)
  define j2 where "j2 = j0\<lparr>fj_pc := Fill_read_entry l0\<rparr>"
  obtain s4 where f5: "fill_step s3 False j0 = Inr (Some (s4, False, j2))" and I5: "fills_inv s s4 [j2, k1]"
    and v4: "disk_brk s s3 s4 (b mod 2 ^ 64)"
    using save_brk_step_keeps [OF I4, of 0 l0 b False] by (auto simp: j0_def j2_def)
  have o: "\<forall>k < length [j2, k1]. \<not> in_crit (fj_pc ([j2, k1] ! k))" using k1 by (auto simp: less_Suc_eq j2_def)
  then have "lock_ok False [j2, k1]" unfolding lock_ok_def by blast
  moreover have "\<forall>k < length [j2, k1]. k \<noteq> 0 \<longrightarrow> \<not> in_crit (fj_pc ([j2, k1] ! k))" using o by blast
  ultimately obtain t k0 where f6: "run_schedule s4 False [j2, k1] (replicate 4 0) = Inr (t, False, [k0, k1])"
    and I6: "fills_inv s t [k0, k1]" and c0: "job_done (fj_pc k0)" and v5: "disk_brk s s4 t (fnum (fs_sb s) (fs_bufs s4) (esb_addr s) 8)"
    using finish_job [OF I5, of False 0] by (auto simp: j2_def)
  have room: "b + (2 * sizeof_chunk_head + length d') < max_brk (fs_info s)"
    using fills_invD(3) [OF I2] by (simp add: b_def pending_def job_pending_def fill_job_def j0_def job_size_def)
  then have b: "b mod 2 ^ 64 = b"
    using geometry_okD(8) [of s] fills_invD(1) [OF I] by (simp add: heap_wf_def)
  have "disk_brk s s t b"
    using disk_brk_trans [OF disk_brk_trans [OF v3 v4] v5] v4 b b1 b2 by (simp add: disk_brk_def)
  moreover have "heap_brk (fs_info s) \<le> b" using same_volumeD(8) [OF fills_invD(1,2) [OF I2]] by (simp add: b_def)
  moreover have "run_schedule s False ?js (replicate 5 0 @ replicate 10 1 @ replicate 5 0) = Inr (t, False, [k0, k1])"
  proof -
    have e: "replicate 5 (0 :: nat) = replicate 4 0 @ [0]" "replicate 10 (1 :: nat) = replicate 4 1 @ replicate 6 1"
      "replicate 5 (0 :: nat) = [0] @ replicate 4 0" by (simp_all add: numeral_eq_Suc)
    have "run_schedule s False ?js (replicate 5 0) = Inr (s1, False, [j0, fill_job m' d'])"
      unfolding e(1) run_schedule_append js f1 using f2 by simp
    moreover have "run_schedule s1 False [j0, fill_job m' d'] (replicate 10 1) = Inr (s3, False, [j0, k1])"
      unfolding e(2) run_schedule_append f3 using f4 by simp
    moreover have "run_schedule s3 False [j0, k1] (replicate 5 0) = Inr (t, False, [k0, k1])"
      unfolding e(3) run_schedule_append using f5 f6 by simp
    ultimately show ?thesis unfolding run_schedule_append by simp
  qed
  ultimately show ?thesis
    using I6 c0 k1 room unfolding l_def by blast
qed

text \<open>C35: the break is saved outside \<open>brk_lock\<close>, so an older value can be saved last: when one call is
  interrupted between reading the break and saving it, and another one runs meanwhile, both return, but a
  later mount finds the older break, and the first allocation of the same size returns the place where
  the chunk of the second call lies.\<close>

theorem late_save_loses_chunk:
  assumes r: "fills_ready s [(m, d), (m', d')]" and e: "esb_agrees s" and x: "extra_sb_location (fs_info s) \<noteq> 0"
  shows "\<exists>t ks l u w. run_schedule s False (fill_jobs [(m, d), (m', d')]) (replicate 5 0 @ replicate 10 1 @ replicate 5 0) = Inr (t, False, ks) \<and>
    (\<forall>k < 2. job_done (fj_pc (ks ! k))) \<and> fj_pc (ks ! 1) = Fill_done l \<and> cminix_fill_extra_super t = Inr u \<and>
    chunk_alloc u (int (length d')) = Inr (w, l)"
proof -
  obtain t k0 k1 b where run: "run_schedule s False (fill_jobs [(m, d), (m', d')]) (replicate 5 0 @ replicate 10 1 @ replicate 5 0) =
      Inr (t, False, [k0, k1])"
    and I: "fills_inv s t [k0, k1]" and d: "job_done (fj_pc k0)" "fj_pc k1 = Fill_done (next_head (fs_sb s) b)"
    and v: "disk_brk s s t b" and b: "heap_brk (fs_info s) \<le> b" "b + (2 * sizeof_chunk_head + length d') < max_brk (fs_info s)"
    using late_save_run [OF r] by blast
  note F = fills_invD [OF I] and V = same_volumeD [OF fills_invD(1,2) [OF I]]
  let ?u = "t\<lparr>fs_info := (fs_info t)\<lparr>heap_brk := b\<rparr>\<rparr>" and ?l = "next_head (fs_sb s) b"
  have u: "cminix_fill_extra_super t = Inr ?u" by (rule disk_brk_esb [OF F(1,2) v e x])
  have u': "same_volume s ?u" using same_volume_brk [OF F(2)] V(1,2) b(1) by (simp add: same_volume_def)
  have n: "0 < length d'" using r by (simp add: fills_ready_def)
  let ?w = "?u\<lparr>fs_info := (fs_info ?u)\<lparr>heap_brk := ?l + sizeof_chunk_head + length d'\<rparr>\<rparr>"
  have m: "heap_brk (fs_info ?u) + (2 * sizeof_chunk_head + length d') < max_brk (fs_info s)" using b(2) by simp
  have "geometry_ok ?w" "hashtable (fs_info ?w) \<le> max_brk (fs_info ?w)"
    using V(7) F(1) V(3,6) by (simp_all add: geometry_ok_def Let_def heap_wf_def heap_base_def)
  from update_brk_spec [OF this] obtain w where w: "chunk_alloc ?u (int (length d')) = Inr (w, ?l)"
    using alloc_facts(3) [OF F(1) u' n m] by simp
  have "\<forall>k < 2. job_done (fj_pc ([k0, k1] ! k))" using d by (simp add: less_2_cases_iff)
  moreover have "fj_pc ([k0, k1] ! 1) = Fill_done ?l" using d(2) by simp
  ultimately show ?thesis using run u w by blast
qed

section \<open>Between the link and the header\<close>

text \<open>A call up to the assignment to the table entry.\<close>

lemma eight_steps:
  assumes r: "fills_ready s [(m, d)]"
  defines "l \<equiv> next_head (fs_sb s) (heap_brk (fs_info s))"
  shows "\<exists>t j. run_schedule s False (fill_jobs [(m, d)]) (replicate 8 0) = Inr (t, False, [j]) \<and> fills_inv s t [j] \<and>
    fj_pc j = Fill_head l \<and> job_bucket s j = ck_hash m mod buckets s \<and>
    table_value s t (ck_hash m mod buckets s) = l \<and> load_bytes (fs_sb s) (fs_bufs t) l 8 = load_bytes (fs_sb s) (fs_bufs s) l 8"
proof -
  let ?j = "fill_job m d" and ?b = "ck_hash m mod buckets s"
  let ?e = "entry_addr s ?b"
  have js: "fill_jobs [(m, d)] = [?j]" by (simp add: fill_jobs_def)
  have I: "fills_inv s s [?j]" using fills_inv_start [OF r] unfolding js .
  have L: "lock_ok False [?j]" using fill_jobs_lock [of "[(m, d)]"] unfolding js .
  define j1 where "j1 = ?j\<lparr>fj_pc := Fill_read_brk l\<rparr>"
  obtain s1 where f1: "run_schedule s False [?j] (replicate 4 0) = Inr (s1, False, [j1])" and I1: "fills_inv s s1 [j1]"
    and b1: "fs_bufs s1 = fs_bufs s"
    using alloc_run [OF I L, of 0] by (auto simp: fill_job_def l_def j1_def)
  define brk where "brk = heap_brk (fs_info s1)"
  define j2 where "j2 = ?j\<lparr>fj_pc := Fill_save_brk l brk\<rparr>"
  have f2: "fill_step s1 False j1 = Inr (Some (s1, False, j2))" and I2: "fills_inv s s1 [j2]"
    using read_brk_step_keeps [OF I1, of 0 l] by (simp_all add: j1_def j2_def brk_def)
  define j3 where "j3 = ?j\<lparr>fj_pc := Fill_read_entry l\<rparr>"
  obtain s3 where f3: "fill_step s1 False j2 = Inr (Some (s3, False, j3))" and I3: "fills_inv s s3 [j3]"
    and s3: "s3 = s1\<lparr>fs_bufs := store_bytes (fs_sb s1) (fs_bufs s1) (esb_addr s1) (le_bytes 8 brk)\<rparr>"
    using save_brk_step_keeps [OF I2, of 0 l brk False] by (auto simp: j2_def j3_def)
  obtain j4 nx bh o' where f4: "fill_step s3 False j3 = Inr (Some (s3, False, j4))" and I4: "fills_inv s s3 [j4]"
    and j4: "j4 = ?j\<lparr>fj_chunk := m\<lparr>ck_next := nx\<rparr>, fj_pc := Fill_link l bh o'\<rparr>"
    using read_entry_step_keeps [OF I3, of 0 l False] by (auto simp: j3_def fill_job_def)
  define j5 where "j5 = j4\<lparr>fj_pc := Fill_head l\<rparr>"
  have bj: "job_bucket s j4 = ?b" "job_bucket s j5 = ?b" by (simp_all add: j4 j5_def job_bucket_def)
  obtain t where f5: "fill_step s3 False j4 = Inr (Some (t, False, j5))" and I5: "fills_inv s t [j5]"
    and t: "t = s3\<lparr>fs_bufs := store_bytes (fs_sb s) (fs_bufs s3) ?e (le_bytes 8 l)\<rparr>"
    using link_step_keeps [OF I4, of 0 l bh o' False] bj(1) by (auto simp: j4 j5_def)
  have l5: "job_loc (fj_pc ([j5] ! 0)) = Some l" by (simp add: j5_def)
  note R = job_region [OF I5 _ l5, simplified] and F = fills_invD [OF I5] and V1 = same_volumeD [OF fills_invD(1,2) [OF I2]]
  have g: "geometry_ok s" using F(1) by (simp add: heap_wf_def)
  then have i: "?b < buckets s" using geometry_okD(4) by simp
  have "l < 256 ^ 8" using R(3) by simp
  then have v: "table_value s t ?b = l" unfolding table_value_def fnum_def t by simp
  have "esb_addr s1 + 8 \<le> l" using esb_below [OF V1(7)] V1(3) R(1) by simp
  moreover have "?e + 8 \<le> l" using entry_bounds(2) [OF F(1) i] R(2) by simp
  ultimately have "load_bytes (fs_sb s) (fs_bufs t) l 8 = load_bytes (fs_sb s) (fs_bufs s) l 8"
    using V1(1) b1 by (simp add: t s3 load_store_disjoint)
  moreover have "run_schedule s False (fill_jobs [(m, d)]) (replicate 8 0) = Inr (t, False, [j5])"
  proof -
    have e: "replicate 8 (0 :: nat) = replicate 4 0 @ [0, 0, 0, 0]" by (simp add: numeral_eq_Suc)
    show ?thesis unfolding e run_schedule_append js f1 using f2 f3 f4 f5 by simp
  qed
  ultimately show ?thesis using I5 v bj(2) by (intro exI [of _ t] exI [of _ j5]) (simp add: j5_def)
qed

text \<open>C36: a chunk is entered in the hash table before its header is written: a search that runs in between
  takes the old bytes of that place for a header, and answers with this place when asked for the number
  that happens to be there, whatever is going to be stored.\<close>

theorem unwritten_chunk_found:
  assumes r: "fills_ready s [(m, d)]"
    and h: "chunk_hash_at (fs_sb s) (fs_bufs s) (next_head (fs_sb s) (heap_brk (fs_info s))) mod buckets s = ck_hash m mod buckets s"
  shows "\<exists>t ks. run_schedule s False (fill_jobs [(m, d)]) (replicate 8 0) = Inr (t, False, ks) \<and> \<not> job_done (fj_pc (ks ! 0)) \<and>
    chunk_search_hashtable t (chunk_hash_at (fs_sb s) (fs_bufs s) (next_head (fs_sb s) (heap_brk (fs_info s)))) =
      Inr (next_head (fs_sb s) (heap_brk (fs_info s)))"
proof -
  let ?l = "next_head (fs_sb s) (heap_brk (fs_info s))" and ?b = "ck_hash m mod buckets s"
  let ?h = "chunk_hash_at (fs_sb s) (fs_bufs s) ?l"
  obtain t j where run: "run_schedule s False (fill_jobs [(m, d)]) (replicate 8 0) = Inr (t, False, [j])" and I: "fills_inv s t [j]"
    and pc: "fj_pc j = Fill_head ?l" and bj: "job_bucket s j = ?b" and v: "table_value s t ?b = ?l"
    and ld: "load_bytes (fs_sb s) (fs_bufs t) ?l 8 = load_bytes (fs_sb s) (fs_bufs s) ?l 8"
    using eight_steps [OF r] by blast
  have z: "0 < length [j]" by simp
  have l: "job_loc (fj_pc ([j] ! 0)) = Some ?l" using pc by simp
  note R = job_region [OF I z l] and F = fills_invD [OF I] and V = same_volumeD [OF fills_invD(1,2) [OF I]]
    and E = job_entry [OF I z, simplified, unfolded bj v]
  have al: "?l mod s_blocksize (fs_sb s) + sizeof_chunk_head \<le> s_blocksize (fs_sb s)"
    using F(5) [OF z] l by (simp add: region_ok_def)
  have "buckets t = buckets s" "0 < buckets s" using E(1) by (simp_all add: buckets_def V(4))
  then have hh: "hashtable_hash (fs_info t) ?h = Inr ?b" using hashtable_hash_bucket [of t ?h] h by simp
  have "get_num (fs_sb s) (fs_bufs t) (?l div s_blocksize (fs_sb s)) (?l mod s_blocksize (fs_sb s)) 8 = Inr ?h"
    using get_num_field [of ?l "fs_sb s" 0 8 "fs_bufs t"] al ld
    by (simp add: chunk_hash_at_def fnum_def sizeof_chunk_head_def)
  then have "search_chain (fs_sb s) (fs_bufs t) ?h ?l = Some (Inr ?l)"
    using load_blockoff_valid [OF R(4)] R(1) by (simp add: search_chain.simps)
  moreover have "\<not> s_blocksize (fs_sb s) - entry_addr s ?b mod s_blocksize (fs_sb s) < 8" using E(2) by linarith
  ultimately have "chunk_search_hashtable t ?h = Inr ?l"
    using hh E(4,5) V(1) by (simp add: chunk_search_hashtable_def cominix_sb_def Let_def)
  then show ?thesis using run pc by (intro exI [of _ t] exI [of _ "[j]"]) simp
qed

section \<open>Instances\<close>

definition two_chunks :: "(chunk \<times> byte list) list" where
  "two_chunks = [(\<lparr>ck_hash = 64, ck_length = 3000, ck_refcount = 0, ck_flags = 0, ck_next = 0\<rparr>, replicate 3000 5),
     (\<lparr>ck_hash = 128, ck_length = 2000, ck_refcount = 0, ck_flags = 0, ck_next = 0\<rparr>, replicate 2000 6)]"

lemma two_chunks_ready: "fills_ready sample_fs two_chunks"
  by (simp add: fills_ready_def sample_heap_wf two_chunks_def sizeof_chunk_head_def)

lemma two_chunks_run:
  "\<exists>t ks. fills_step\<^sup>*\<^sup>* (sample_fs, False, fill_jobs two_chunks) (t, False, ks) \<and> (\<forall>k < length ks. job_done (fj_pc (ks ! k)))"
  by (rule fills_run_all [OF fills_inv_start [OF two_chunks_ready] fill_jobs_lock])

theorem concurrent_fills_safe_witness:
  "\<exists>t ks l l'. fills_step\<^sup>*\<^sup>* (sample_fs, False, fill_jobs two_chunks) (t, False, ks) \<and> heap_wf t \<and> l \<noteq> l' \<and>
    chunk_copy_into_buffer (fs_sb t) (fs_bufs t) \<lparr>ce_location = l, ce_size = 3000\<rparr> 4096 4096 0 = Inr (replicate 3000 5) \<and>
    chunk_copy_into_buffer (fs_sb t) (fs_bufs t) \<lparr>ce_location = l', ce_size = 2000\<rparr> 4096 4096 1000 = Inr (replicate 1000 6)"
proof -
  obtain t ks where r: "fills_step\<^sup>*\<^sup>* (sample_fs, False, fill_jobs two_chunks) (t, False, ks)"
    and d: "\<forall>k < length ks. job_done (fj_pc (ks ! k))" using two_chunks_run by blast
  have two: "length two_chunks = 2" "snd (two_chunks ! 0) = replicate 3000 5" "snd (two_chunks ! 1) = replicate 2000 6"
    by (simp_all add: two_chunks_def)
  obtain loc where w: "heap_wf t" and i: "inj_on loc {..<2 :: nat}" and
    c: "\<And>k cnt pos. k < 2 \<Longrightarrow> chunk_copy_into_buffer (fs_sb t) (fs_bufs t) \<lparr>ce_location = loc k, ce_size = length (snd (two_chunks ! k))\<rparr> cnt cnt pos =
      Inr (take cnt (drop pos (snd (two_chunks ! k))))"
    using concurrent_fills_safe [OF two_chunks_ready r d] unfolding two(1) by blast
  have "loc 0 \<noteq> loc 1" using inj_onD [OF i, of 0 1] by auto
  then show ?thesis using r w c [of 0 4096 0] c [of 1 4096 1000] two
    by (intro exI [of _ t] exI [of _ ks] exI [of _ "loc 0"] exI [of _ "loc 1"]) simp
qed

theorem fills_finish_witness:
  "(\<exists>c. fills_step (sample_fs, False, fill_jobs two_chunks) c) \<and>
   (\<nexists>run. run 0 = (sample_fs, False, fill_jobs two_chunks) \<and> (\<forall>n. fills_step (run n) (run (Suc n))))"
proof -
  have "\<not> job_done (fj_pc (fill_jobs two_chunks ! 0))" "0 < length (fill_jobs two_chunks)"
    by (simp_all add: two_chunks_def fill_jobs_def fill_job_def)
  then show ?thesis using fills_finish [OF two_chunks_ready] by blast
qed

text \<open>The sample volume with its extra super block written.\<close>

definition sample_esb_fs :: fs where
  "sample_esb_fs = sample_fs\<lparr>fs_bufs := store_bytes sample_sb sample_bufs 3072
     (le_bytes 8 32768 @ le_bytes 4 512 @ le_bytes 4 0 @ le_bytes 8 33280)\<rparr>"

lemma sample_esb_agrees: "esb_agrees sample_esb_fs"
proof -
  let ?bc = "fs_bufs sample_esb_fs"
  have all: "load_bytes sample_sb ?bc 3072 24 = le_bytes 8 32768 @ le_bytes 4 512 @ le_bytes 4 0 @ le_bytes 8 33280"
    by (simp add: sample_esb_fs_def)
  have n: "num_at ?bc 6 0 8 = fnum sample_sb ?bc 3072 8" "num_at ?bc 6 8 4 = fnum sample_sb ?bc 3080 4"
    "num_at ?bc 6 16 8 = fnum sample_sb ?bc 3088 8"
    using num_at_fnum [of 3072 sample_sb 8 ?bc] num_at_fnum [of 3080 sample_sb 4 ?bc] num_at_fnum [of 3088 sample_sb 8 ?bc]
    by simp_all
  show ?thesis
    using load_bytes_part [OF all, of 0 8] load_bytes_part [OF all, of 8 4] load_bytes_part [OF all, of 16 8] n
    by (simp add: esb_agrees_def esb_at_def fnum_def) (simp add: sample_esb_fs_def)
qed

lemma sample_esb_ready: "fills_ready sample_esb_fs two_chunks"
proof -
  have f: "fs_sb sample_esb_fs = sample_sb" "fs_info sample_esb_fs = sample_info"
    "breadable (fs_bufs sample_esb_fs) = breadable sample_bufs" by (simp_all add: sample_esb_fs_def)
  have v: "fnum sample_sb (fs_bufs sample_esb_fs) a n = 0" if "32768 \<le> a" for a n
  proof -
    have "fnum sample_sb (fs_bufs sample_esb_fs) a n = fnum sample_sb sample_bufs a n"
      using that unfolding sample_esb_fs_def by (intro fnum_cong) simp
    then show ?thesis using sample_fnum [of a n] that by simp
  qed
  have "heap_wf sample_esb_fs"
    unfolding heap_wf_def
  proof (intro conjI allI impI)
    show "geometry_ok sample_esb_fs" using sample_geometry by (simp add: geometry_ok_def f)
    show "heap_base sample_esb_fs \<le> heap_brk (fs_info sample_esb_fs)" by (simp add: heap_base_def f)
    show "heap_brk (fs_info sample_esb_fs) \<le> max_brk (fs_info sample_esb_fs)" by (simp add: f)
    show "\<exists>cs. bucket sample_esb_fs i cs \<and> (\<forall>c\<in>set cs. chunk_wf sample_esb_fs c \<and>
        chunk_hash_at (fs_sb sample_esb_fs) (fs_bufs sample_esb_fs) c mod buckets sample_esb_fs = i)" for i
      by (rule exI [of _ "[]"]) (simp add: bucket_def entry_addr_def f v)
  qed
  then show ?thesis by (simp add: fills_ready_def f two_chunks_def sizeof_chunk_head_def)
qed

theorem late_save_loses_chunk_witness:
  "\<exists>t ks l u w. run_schedule sample_esb_fs False (fill_jobs two_chunks) (replicate 5 0 @ replicate 10 1 @ replicate 5 0) = Inr (t, False, ks) \<and>
    fj_pc (ks ! 1) = Fill_done l \<and> cminix_fill_extra_super t = Inr u \<and> chunk_alloc u 2000 = Inr (w, l)"
proof -
  have x: "extra_sb_location (fs_info sample_esb_fs) \<noteq> 0" by (simp add: sample_esb_fs_def)
  show ?thesis
    using late_save_loses_chunk [OF sample_esb_ready [unfolded two_chunks_def] sample_esb_agrees x]
    unfolding two_chunks_def by auto
qed

theorem unwritten_chunk_found_witness:
  "\<exists>t ks. run_schedule sample_fs False (fill_jobs (take 1 two_chunks)) (replicate 8 0) = Inr (t, False, ks) \<and>
    chunk_search_hashtable sample_fs 0 = Inr 0 \<and> chunk_search_hashtable t 0 = Inr 33280"
proof -
  let ?m = "\<lparr>ck_hash = 64, ck_length = 3000, ck_refcount = 0, ck_flags = 0, ck_next = 0\<rparr>"
  have r: "fills_ready sample_fs [(?m, replicate 3000 5)]"
    by (simp add: fills_ready_def sample_heap_wf sizeof_chunk_head_def)
  have n: "next_head (fs_sb sample_fs) (heap_brk (fs_info sample_fs)) = 33280"
    by (simp add: next_head_def sizeof_chunk_head_def)
  have h: "chunk_hash_at (fs_sb sample_fs) (fs_bufs sample_fs) 33280 = 0" by (simp add: chunk_hash_at_def sample_fnum)
  have "chunk_search_hashtable sample_fs 0 = Inr 0"
    using chunk_search_spec [OF sample_heap_wf sample_bucket, of 0] by (simp add: first_match_def)
  then show ?thesis
    using unwritten_chunk_found [OF r] unfolding n h by (auto simp: two_chunks_def buckets_def)
qed

end
