(* ===== verification/Spec2Isabelle.thy ===== *)
theory Spec2Isabelle
  imports StoreProperties AllocProperties DirProperties DurableProperties RaceProperties
begin

text \<open>
  A model of cominix, a Linux file system: Minix version 1 to 3 with content-defined deduplication.
  The sources are src/src/*.c and *.h.

  The program. A mount (\<open>cominix_fill_super\<close>, inode.c) reads the super block, the blocks of the two
  bit maps and the extra super block, which locates a hash table and a chunk heap behind the data
  zones. Files are at first plain Minix files: a tree of indirect blocks (itree_v2.c,
  itree_common.c) over blocks that bitmap.c allocates. Writing the name of a file to an entry of
  /proc starts \<open>chunk_and_replace\<close> (file.c): the file is cut at content-defined boundaries (cdc.h
  with gear_table.c); each chunk is hashed (md5_wrapper.h) and looked up in the hash table; a chunk
  not yet stored is put on the heap (chunk_handler.c); its location is appended to the list of
  chunk entries of the file (linked_list.h); at the end the blocks of the plain file are freed and
  the inode points to the list. Reads of such a file go through the list. Directories (dir.c) are
  files of fixed-size entries in the page cache, and namei.c implements the operations on names
  over them. Every part works through the buffer cache.

  Theories. A theory named after a part holds its definitions in the order of the source; the
  theories behind it hold its invariant and its lemmas.

  \<^item> \<open>Prelude\<close>: bytes, little-endian words, error numbers, and results: \<open>Inl\<close> is an execution that
    does not return (\<open>BUG\<close>, a NULL dereference, an access outside a buffer, a loop without end),
    \<open>Inr\<close> a return; a returned error code is an ordinary value.
  \<^item> \<open>Buffers\<close>: \<open>sb_bread\<close>, \<open>mark_buffer_dirty\<close> and the kernel's super block. A change that was not
    marked dirty is lost by \<open>evict\<close>; \<open>writeback\<close> makes the marked ones permanent.
  \<^item> \<open>FsState\<close>: \<open>cominix_sb_info\<close>, the in-memory inode, constants and helpers of cominix.h and
    cominix_fs.h. The state \<open>fs\<close> is the super block, the file system's information, the buffers.
  \<^item> \<open>Bitmap\<close> (bitmap.c, and the bit operations of cominix.h); \<open>BitmapSpec\<close>: the zone map as an
    allocator, the locale \<open>block_alloc\<close> and its interpretation \<open>zones\<close>; \<open>InodeMap\<close>: the inode map;
    \<open>BitmapBE\<close>: the bit operations of the two other byte orders that cominix.h can be configured for.
  \<^item> \<open>ChunkHandler\<close> (chunk_handler.c); \<open>FlatStore\<close>: copying across blocks is copying in one array;
    \<open>ChunkStore\<close>: the invariant \<open>heap_wf\<close>, the locale \<open>chunk_store\<close> and its interpretation \<open>heap\<close>;
    \<open>Interleave\<close>: calls of \<open>chunk_fill_hashtable\<close> by several callers at once, as a step relation.
  \<^item> \<open>GearTable\<close>, \<open>Cdc\<close> (gear_table.c, cdc.h); \<open>Md5\<close> (md5_wrapper.h).
  \<^item> \<open>LinkedList\<close> (linked_list.h): the operations, and \<open>ll_list\<close>, the entries a chain of blocks
    stands for.
  \<^item> \<open>Itree\<close> (itree_v2.c, itree_common.c); \<open>ItreeSpec\<close>: the tree as a map from paths to blocks;
    \<open>TruncateSpec\<close>: what \<open>free_branches\<close> frees.
  \<^item> \<open>Inode\<close> (inode.c without the mount): slots of inodes, \<open>iget\<close>, truncation, eviction, stat.
  \<^item> \<open>File\<close> (file.c); \<open>FileSpec\<close>: parts of a volume that leave each other alone; \<open>Chunking\<close>: the
    loop of \<open>chunk_and_replace\<close>; \<open>ChunkReplace\<close>: all of it, and \<open>chunked_file\<close>, the contents a
    chunked inode stands for.
  \<^item> \<open>Dir\<close> (dir.c); \<open>DirSpec\<close>, \<open>DirRead\<close>, \<open>DirUpdate\<close>: its loops over pages as functions of the list
    of entries; \<open>DirMap\<close>: the list as a map from names to inodes; \<open>DirClient\<close>: the locale
    \<open>map_directory\<close> and its interpretation \<open>dirs\<close>.
  \<^item> \<open>Namei\<close> (namei.c); \<open>NameiSpec\<close>: each operation in terms of the map; \<open>LinkCount\<close>: the step
    relation \<open>ns_step\<close> of the name space and its invariant; \<open>NameiProgress\<close>: when the operations succeed.
  \<^item> \<open>Mount\<close> (inode.c from the super block to the module's registration); \<open>MountSpec\<close>: what a mount
    of a good image computes; \<open>MountVolume\<close>: that it meets the invariants of the other parts;
    \<open>MountAgain\<close>: mounting once more.
  \<^item> \<open>SampleVolume\<close>, \<open>SampleDir\<close>: concrete volumes that meet the invariants. \<open>StoreProperties\<close>,
    \<open>AllocProperties\<close>, \<open>TreeProperties\<close>, \<open>FileProperties\<close>, \<open>DirProperties\<close>, \<open>MountProperties\<close>,
    \<open>DurableProperties\<close> (a chunked file across write-back and a new mount), \<open>RaceProperties\<close>: the
    theorems, each with an instance at such a volume.
\<close>

text \<open>
  What the theorems show. Storing: bytes written across blocks are read back; a chunk that is
  stored is found by its key and read back, and nothing stored before is disturbed; new chunks never
  straddle two blocks unless they must and the new top of the heap is on disk. Chunking: boundaries
  equal a one-line specification over a 64-byte window, and chunk sizes are bounded.
  \<open>chunk_and_replace\<close> keeps the contents of the file, frees its blocks, leaves every other file
  alone; reading the result returns the contents, also after the marked buffers have been written back
  and the volume has been mounted again; each content is stored once. Several callers: every
  interleaving of the steps of \<open>chunk_fill_hashtable\<close> keeps the heap well-formed and all chunks readable,
  and none deadlocks or runs for ever. Allocation: the lowest free block is returned, no
  block twice; freeing frees one block. Trees: lookup, creation and truncation act on paths.
  Directories: every sequence of updates acts on a map from names; reading, looking up and listing
  agree with it; the operations on names keep each link count equal to the number of names and, when the
  kernel reports no error, fail only for the reasons they test. Mounting
  establishes the invariants the other parts start from, and mounting again restores the memory.
  The error theorems show where the code does not keep these: keys taken by other contents, short
  reads, failed directory syncs, maps that are too small, allocation beyond the volume, a heap break that
  is saved after the mutex is released, a chunk that is linked before its header is written.

  Parameters. Kernel functions that the sources only call are arguments: \<open>kernel_read\<close>, \<open>kmalloc\<close>,
  the crypto interface and \<open>copy_from_user\<close> (\<open>file_env\<close>), the page cache operations (\<open>dir_env\<close>),
  inode allocation and the inode cache (\<open>namei_env\<close>, \<open>inode_env\<close>), \<open>sb_getblk\<close> (which blocks can get
  a buffer), \<open>sb_set_blocksize\<close>, \<open>iget_locked\<close>, \<open>d_make_root\<close> (\<open>mount_env\<close>). What the theorems need
  of them is a named hypothesis (such as \<open>dir_env_ok\<close>, \<open>namei_ok\<close>), met by a concrete instance in
  every witness.

  Bounds and loops. A loop the code may run for ever (a chain of the hash table, of the list, a scan
  of a page with entry size 0) is a \<open>partial_function\<close>: \<open>None\<close> is the loop without end and becomes
  \<open>Inl Diverge\<close>; that it ends under the invariant is part of the theorems. Other loops are total
  functions with a measure. \<open>read_all\<close> repeats reads with fuel; any fuel of at least the file size
  plus one is enough, as a read before the end makes progress. Words are kept at their width where the
  code's width matters (the rolling hash, 32-bit block numbers and sizes, the 64-bit heap top);
  where a block number or size is a \<open>nat\<close>, the invariant bounds it.

  Locales. \<open>block_alloc\<close>, \<open>chunk_store\<close> and \<open>map_directory\<close> state what a client may rely on, with
  the client's lemmas proved inside; each is interpreted at the code's own definitions.

  Concurrency. In \<open>Interleave\<close> the mutex \<open>brk_lock\<close> is part of the state: taking it, the two assignments to
  the break under it, releasing it, and the later accesses to the break, the table and the heap are steps of
  their own; a call that finds it held waits. A write of one chunk is one step, as no other call writes its
  bytes; so the second mutex, \<open>chunk_edge_write_lock\<close>, has no state. Everywhere else an operation runs to its end: the spin lock of the maps, the lock
  of the pointers of an inode and the lock of the page are held around the accesses they protect.

  Not modelled. Reference counts of inodes and buffers, and messages. The tables of functions
  (\<open>file_operations\<close> and the like) and the one-line functions that pass \<open>cominix_get_block\<close> or
  \<open>cominix_fill_super\<close> to a function of the kernel; the inode cache, which is an allocator of the kernel;
  functions that only print (\<open>print_heap_info\<close>, \<open>dump_head\<close>, \<open>print_hash\<close>). The structures of the
  on-disk inodes and directory entries have no record: their fields are read and written at their offsets.
\<close>

end
